(* ===== verification/Kernel_Prelude.thy ===== *)
theory Kernel_Prelude
  imports Main "HOL-Library.Word" "HOL-Library.Monad_Syntax"
begin

text \<open>
  Shared ground of the development: the fixed-width integer types of the C code, the
  byte-addressed memory of the RV64 machine with its little-endian loads and stores, and
  the generic lemmas on words, address ranges and the option monad that the component
  theories rely on.

  \<^item> \<open>u8\<close>, \<open>u16\<close>, \<open>u32\<close>, \<open>u64\<close> are the \<^verbatim>\<open>stdint.h\<close> types; \<open>+\<close>, \<open>-\<close>
    and \<open>*\<close> wrap around as they do in C for unsigned types. On RISC-V a plain
    \<^verbatim>\<open>char\<close> is unsigned, so bytes and characters are both \<open>u8\<close>.
  \<^item> A memory is a total function from 64-bit addresses to bytes. \<open>ld_le n\<close> and
    \<open>st_le n\<close> are the n-byte little-endian accesses every typed C access compiles to.
  \<^item> \<open>in_rng a n x\<close> says that \<open>x\<close> is one of the \<open>n\<close> bytes from \<open>a\<close> on (modulo
    \<open>2 ^ 64\<close>, as address arithmetic is); the frame lemmas of every store are phrased
    with it.
  \<^item> A result of type \<open>'a option\<close> is \<open>None\<close> where the C code does not return
    (a polling loop that is never released, a traversal of a cyclic list).
\<close>

unbundle bit_operations_syntax

type_synonym u8 = "8 word"
type_synonym u16 = "16 word"
type_synonym u32 = "32 word"
type_synonym u64 = "64 word"
type_synonym memory = "u64 \<Rightarrow> u8"

named_theorems rng_simps \<open>membership in and disjointness of address ranges\<close>
named_theorems ldst_simps \<open>loads over stores\<close>

section \<open>C strings and literals\<close>

definition lit :: "string \<Rightarrow> u8 list" where
  "lit s = map of_char s"

lemma lit_Nil [simp]: "lit [] = []"
  by (simp add: lit_def)

lemma lit_Cons [simp]: "lit (c # s) = of_char c # lit s"
  by (simp add: lit_def)

lemma length_lit [simp]: "length (lit s) = length s"
  by (simp add: lit_def)

section \<open>Counting loops\<close>

lemma all_from_step:
  "i < n \<Longrightarrow> (\<forall>j. i \<le> j \<and> j < n \<longrightarrow> P j) \<longleftrightarrow> P i \<and> (\<forall>j. Suc i \<le> j \<and> j < n \<longrightarrow> P j)"
proof -
  assume "i < n"
  moreover have "i \<le> j \<longleftrightarrow> j = i \<or> Suc i \<le> j" for j by arith
  ultimately show ?thesis by auto
qed

section \<open>Operations that may fault\<close>

text \<open>Operations that may also stop at a fault return \<open>('e + 'a) option\<close>; \<open>rbind\<close> runs one
  after the other and stops at the first fault.\<close>

definition rbind :: "('e + 'a) option \<Rightarrow> ('a \<Rightarrow> ('e + 'b) option) \<Rightarrow> ('e + 'b) option" where
  "rbind r f = (case r of None \<Rightarrow> None | Some (Inl e) \<Rightarrow> Some (Inl e) | Some (Inr x) \<Rightarrow> f x)"

lemma rbind_simps [simp]:
  "rbind None f = None" "rbind (Some (Inl e)) f = Some (Inl e)" "rbind (Some (Inr x)) f = f x"
  by (simp_all add: rbind_def)

lemma rbind_assoc: "rbind (rbind r f) g = rbind r (\<lambda>x. rbind (f x) g)"
  by (simp add: rbind_def split: option.split sum.split)

section \<open>Words\<close>

lemma unat_sub_lt: "b \<le> a \<Longrightarrow> unat (a - b) = unat a - unat (b :: 'a::len word)"
  by (simp add: unat_sub)

lemma unat_add_nowrap:
  "unat a + unat b < 2 ^ LENGTH('a) \<Longrightarrow> unat (a + b) = unat a + unat (b :: 'a::len word)"
  by (simp add: unat_word_ariths)

lemma unat_Suc_less: "i < n \<Longrightarrow> unat (i + 1) = Suc (unat (i :: 'a::len word))"
proof -
  assume "i < n"
  then have "unat i + unat (1 :: 'a word) < 2 ^ LENGTH('a)"
    using unsigned_less [of n, where ?'a = nat] unfolding word_less_nat_alt unat_1 by linarith
  then show ?thesis by (simp add: unat_add_nowrap)
qed

lemma unat_of_nat_lt: "n < 2 ^ LENGTH('a) \<Longrightarrow> unat (of_nat n :: 'a::len word) = n"
  by (simp add: unat_of_nat)

lemma of_nat_word_inj:
  "a < 2 ^ LENGTH('a) \<Longrightarrow> b < 2 ^ LENGTH('a) \<Longrightarrow> (of_nat a :: 'a::len word) = of_nat b \<longleftrightarrow> a = b"
  by (metis unat_of_nat_lt)

lemma unat_ucast_mod: "unat (ucast (x :: 'a::len word) :: 'b::len word) = unat x mod 2 ^ LENGTH('b)"
  by (simp add: unsigned_ucast_eq take_bit_eq_mod)

lemma unat_ucast_up:
  assumes "LENGTH('a) \<le> LENGTH('b)"
  shows "unat (ucast (x :: 'a::len word) :: 'b::len word) = unat x"
proof -
  have "unat x < 2 ^ LENGTH('b)"
    using assms unsigned_less [of x, where ?'a = nat]
    by (meson less_le_trans one_le_numeral power_increasing)
  then show ?thesis by (simp add: unat_ucast_mod)
qed

lemma ucast_of_nat_32: "n < 2 ^ 32 \<Longrightarrow> ucast (of_nat n :: u32) = (of_nat n :: u64)"
proof -
  assume "n < 2 ^ 32"
  then have "unat (of_nat n :: u32) = n" by (intro unat_of_nat_lt) simp
  then show ?thesis by (metis of_nat_unat)
qed

lemma unat_offset: "unat (p :: u64) + k < 2 ^ 64 \<Longrightarrow> unat (p + of_nat k) = unat p + k"
  by (subst unat_add_nowrap) (simp_all add: unat_of_nat_lt)

lemma unat_lt_64: "unat (x :: u64) < 18446744073709551616"
  using unsigned_less [of x, where ?'a = nat] by simp

lemma unat_lt_32: "unat (x :: u32) < 4294967296"
  using unsigned_less [of x, where ?'a = nat] by simp

lemma unat_lt_16: "unat (x :: u16) < 65536"
  using unsigned_less [of x, where ?'a = nat] by simp

lemma unat_lt_8: "unat (x :: u8) < 256"
  using unsigned_less [of x, where ?'a = nat] by simp

lemma bit_out_of_word [simp]: "LENGTH('a) \<le> n \<Longrightarrow> \<not> bit (w :: 'a::len word) n"
  by (auto dest: bit_imp_le_length)

text \<open>Bits above a mask's width: the alignment and flag masks of the C code are all of
  the form \<open>2 ^ k - 1\<close>.\<close>

lemma and_mask_eq_take: "(w :: 'a::len word) AND mask k = take_bit k w"
  by (simp add: take_bit_eq_mask)

lemma unat_take_bit: "unat (take_bit k (w :: 'a::len word)) = unat w mod 2 ^ k"
  by (metis take_bit_eq_mod unsigned_take_bit_eq)

lemma unat_drop_bit: "unat (drop_bit k (w :: 'a::len word)) = unat w div 2 ^ k"
  by (metis drop_bit_eq_div unat_drop_bit_eq)

lemma unat_and_not_mask:
  fixes w :: "'a::len word"
  shows "unat (w AND NOT (mask k)) = unat w div 2 ^ k * 2 ^ k"
proof -
  have "w AND NOT (mask k) = push_bit k (drop_bit k w)"
    by (rule bit_word_eqI) (auto simp: bit_simps dest: bit_imp_le_length)
  also have "\<dots> = of_nat (unat w div 2 ^ k * 2 ^ k)"
    by (simp add: push_bit_eq_mult flip: unat_drop_bit)
  finally have e: "w AND NOT (mask k) = \<dots>" .
  have "unat w div 2 ^ k * 2 ^ k \<le> unat w" by (rule div_times_less_eq_dividend)
  then have "unat w div 2 ^ k * 2 ^ k < 2 ^ LENGTH('a)"
    using unsigned_less [of w, where ?'a = nat] by (rule le_less_trans)
  then show ?thesis unfolding e by (rule unat_of_nat_lt)
qed

text \<open>Or-ing a small word into the free low bits of a shifted one is addition.\<close>

lemma unat_or_push_bit:
  fixes x y :: "'a::len word"
  assumes x: "unat x < 2 ^ k" and sum: "unat x + 2 ^ k * unat y < 2 ^ LENGTH('a)"
  shows "unat (x OR push_bit k y) = unat x + 2 ^ k * unat y"
proof -
  have t: "x = take_bit k x"
    using x by (metis mod_less unat_take_bit unsigned_word_eqI)
  have "take_bit k x AND push_bit k y = 0"
    by (rule bit_word_eqI) (auto simp: bit_simps)
  with t have "x AND push_bit k y = 0" by simp
  then have "x OR push_bit k y = x + push_bit k y"
    by (simp add: disjunctive_add_eq_or)
  also have "\<dots> = of_nat (unat x + 2 ^ k * unat y)"
    by (simp add: push_bit_eq_mult mult.commute)
  finally show ?thesis using sum by (simp only: unat_of_nat_lt)
qed

section \<open>Address ranges\<close>

definition in_rng :: "u64 \<Rightarrow> nat \<Rightarrow> u64 \<Rightarrow> bool" where
  "in_rng a n x \<longleftrightarrow> unat (x - a) < n"

definition rng_disj :: "u64 \<Rightarrow> nat \<Rightarrow> u64 \<Rightarrow> nat \<Rightarrow> bool" where
  "rng_disj a n b k \<longleftrightarrow> (\<forall>x. \<not> (in_rng a n x \<and> in_rng b k x))"

lemma in_rng_0 [simp, rng_simps]: "\<not> in_rng a 0 x"
  by (simp add: in_rng_def)

lemma in_rng_self [simp, rng_simps]: "in_rng a n a \<longleftrightarrow> 0 < n"
  by (simp add: in_rng_def)

lemma in_rng_offset: "i < n \<Longrightarrow> n \<le> 2 ^ 64 \<Longrightarrow> in_rng a n (a + of_nat i)"
  by (simp add: in_rng_def unat_of_nat_lt)

lemma in_rngE:
  assumes "in_rng a n x"
  obtains i where "i < n" "x = a + of_nat i"
proof
  show "unat (x - a) < n" using assms by (simp add: in_rng_def)
  show "x = a + of_nat (unat (x - a))" by simp
qed

lemma in_rng_mono: "in_rng a n x \<Longrightarrow> n \<le> k \<Longrightarrow> in_rng a k x"
  by (simp add: in_rng_def)

lemma in_rng_sub: "in_rng (a + of_nat k) n x \<Longrightarrow> k + n \<le> l \<Longrightarrow> l \<le> 2 ^ 64 \<Longrightarrow> in_rng a l x"
  by (erule in_rngE) (simp add: add.assoc in_rng_offset flip: of_nat_add)

text \<open>A range that does not run past the end of the address space is an interval.\<close>

lemma in_rng_iff:
  assumes "unat a + n \<le> 2 ^ 64"
  shows "in_rng a n x \<longleftrightarrow> unat a \<le> unat x \<and> unat x < unat a + n"
proof (cases "a \<le> x")
  case True
  then show ?thesis by (auto simp: in_rng_def unat_sub word_le_nat_alt)
next
  case False
  then have lt: "unat x < unat a" by (simp add: word_le_nat_alt)
  have "unat (x - a) = 2 ^ 64 + unat x - unat a"
    using lt by (simp add: unat_sub_if_size word_size)
  then show ?thesis using lt assms by (simp add: in_rng_def)
qed

lemma rng_disj_sym: "rng_disj a n b k \<Longrightarrow> rng_disj b k a n"
  by (auto simp: rng_disj_def)

lemma rng_disjD: "rng_disj a n b k \<Longrightarrow> in_rng a n x \<Longrightarrow> \<not> in_rng b k x"
  by (auto simp: rng_disj_def)

lemma rng_disj_mono: "rng_disj a n b k \<Longrightarrow> n' \<le> n \<Longrightarrow> k' \<le> k \<Longrightarrow> rng_disj a n' b k'"
  by (auto simp: rng_disj_def intro: in_rng_mono)

lemma rng_disjI:
  assumes "unat a + n \<le> unat b \<or> unat b + k \<le> unat a"
    and "unat a + n \<le> 2 ^ 64" "unat b + k \<le> 2 ^ 64"
  shows "rng_disj a n b k"
  using assms by (auto simp: rng_disj_def in_rng_iff)


section \<open>Little-endian loads and stores\<close>

primrec ld_le :: "nat \<Rightarrow> memory \<Rightarrow> u64 \<Rightarrow> u64" where
  "ld_le 0 m a = 0"
| "ld_le (Suc n) m a = ucast (m a) OR push_bit 8 (ld_le n m (a + 1))"

primrec st_le :: "nat \<Rightarrow> memory \<Rightarrow> u64 \<Rightarrow> u64 \<Rightarrow> memory" where
  "st_le 0 m a v = m"
| "st_le (Suc n) m a v = (st_le n m (a + 1) (drop_bit 8 v))(a := ucast v)"

definition ld64 :: "memory \<Rightarrow> u64 \<Rightarrow> u64" where
  "ld64 m a = ld_le 8 m a"

definition ld32 :: "memory \<Rightarrow> u64 \<Rightarrow> u32" where
  "ld32 m a = ucast (ld_le 4 m a)"

definition ld16 :: "memory \<Rightarrow> u64 \<Rightarrow> u16" where
  "ld16 m a = ucast (ld_le 2 m a)"

definition st64 :: "memory \<Rightarrow> u64 \<Rightarrow> u64 \<Rightarrow> memory" where
  "st64 m a v = st_le 8 m a v"

definition st32 :: "memory \<Rightarrow> u64 \<Rightarrow> u32 \<Rightarrow> memory" where
  "st32 m a v = st_le 4 m a (ucast v)"

definition st16 :: "memory \<Rightarrow> u64 \<Rightarrow> u16 \<Rightarrow> memory" where
  "st16 m a v = st_le 2 m a (ucast v)"

text \<open>Both are characterised pointwise: which bit of which byte a load returns, which
  byte of the value a store leaves at an address.\<close>

lemma bit_ld_le:
  "bit (ld_le n m a) k \<longleftrightarrow> k < 64 \<and> k < 8 * n \<and> bit (m (a + of_nat (k div 8))) (k mod 8)"
proof (induction n arbitrary: a k)
  case 0
  then show ?case by simp
next
  case (Suc n)
  show ?case
  proof (cases "k < 8")
    case True
    then show ?thesis by (auto simp: bit_simps)
  next
    case False
    then obtain j where j: "k = j + 8"
      by (metis add.commute le_Suc_ex not_less)
    have "(j + 8) div 8 = Suc (j div 8)" by simp
    then show ?thesis
      using False by (auto simp: bit_simps Suc.IH j algebra_simps)
  qed
qed

lemma bit_ld32: "bit (ld32 m a) k \<longleftrightarrow> k < 32 \<and> bit (m (a + of_nat (k div 8))) (k mod 8)"
  by (auto simp: ld32_def bit_simps bit_ld_le simp del: ld_le.simps)

lemma unat_ld_le:
  assumes "n \<le> 8"
  shows "unat (ld_le n m a) = (\<Sum>i<n. unat (m (a + of_nat i)) * 256 ^ i) \<and> unat (ld_le n m a) < 256 ^ n"
  using assms
proof (induction n arbitrary: a)
  case (Suc n)
  define r where "r = ld_le n m (a + 1)"
  have r: "unat r = (\<Sum>i<n. unat (m (a + 1 + of_nat i)) * 256 ^ i)" "unat r < 256 ^ n"
    using Suc.IH [of "a + 1"] Suc.prems unfolding r_def by linarith+
  have u: "unat (ucast (m a) :: u64) = unat (m a)" by (simp add: unat_ucast_up)
  have "(256::nat) ^ Suc n \<le> 256 ^ 8"
    using Suc.prems by (intro power_increasing) auto
  moreover have lt: "unat (m a) + 256 * unat r < 256 ^ Suc n"
  proof -
    have "unat (m a) + 256 * x < 256 * y" if "x < y" for x y :: nat
      using that unat_lt_8 [of "m a"] by linarith
    from this [OF r(2)] show ?thesis by simp
  qed
  ultimately have "unat (ucast (m a) OR push_bit 8 r) = unat (m a) + 256 * unat r"
    by (subst unat_or_push_bit) (simp_all add: u unat_lt_8)
  moreover have "ld_le (Suc n) m a = ucast (m a) OR push_bit 8 r" by (simp add: r_def)
  ultimately show ?case
    using lt r(1) by (simp add: sum.lessThan_Suc_shift sum_distrib_left algebra_simps
        del: sum.lessThan_Suc ld_le.simps)
qed simp

lemma st_le_apply:
  assumes "n < 2 ^ 64"
  shows "st_le n m a v x =
    (if in_rng a n x then ucast (drop_bit (8 * unat (x - a)) v) else m x)"
  using assms
proof (induction n arbitrary: a v)
  case 0
  then show ?case by simp
next
  case (Suc n)
  show ?case
  proof (cases "x = a")
    case True
    then show ?thesis by simp
  next
    case False
    define d where "d = x - (a + 1)"
    have x: "x - a = 1 + d" by (simp add: d_def)
    with False have "1 + d \<noteq> 0" by auto
    then have u: "unat (x - a) = Suc (unat d)"
      using unatSuc [of d] by (simp add: x)
    then show ?thesis
      using False Suc by (simp add: in_rng_def drop_bit_drop_bit u add.commute [of 8] flip: d_def)
  qed
qed

lemma st_le_outside [ldst_simps]:
  "n < 2 ^ 64 \<Longrightarrow> \<not> in_rng a n x \<Longrightarrow> st_le n m a v x = m x"
  by (simp add: st_le_apply)

lemma ld_le_cong:
  assumes "n \<le> 2 ^ 64" and "\<And>x. in_rng a n x \<Longrightarrow> m x = m' x"
  shows "ld_le n m a = ld_le n m' a"
proof (rule bit_word_eqI)
  fix k
  have "k < 8 * n \<Longrightarrow> in_rng a n (a + of_nat (k div 8))"
    using assms(1) by (intro in_rng_offset) auto
  then show "bit (ld_le n m a) k = bit (ld_le n m' a) k"
    using assms(2) by (auto simp: bit_ld_le)
qed

lemma ld_le_st_le_same:
  assumes "n \<le> 8"
  shows "ld_le n (st_le n m a v) a = take_bit (8 * n) v"
proof (rule bit_word_eqI)
  fix k
  assume k: "k < LENGTH(64)"
  show "bit (ld_le n (st_le n m a v) a) k = bit (take_bit (8 * n) v) k"
  proof (cases "k < 8 * n")
    case True
    then have d: "k div 8 < n" by auto
    have u: "unat (of_nat (k div 8) :: u64) = k div 8"
      using k by (intro unat_of_nat_lt) simp
    have "in_rng a n (a + of_nat (k div 8))"
      using d assms by (intro in_rng_offset) auto
    then show ?thesis
      using True k assms u
      by (auto simp: bit_ld_le st_le_apply bit_simps)
  next
    case False
    then show ?thesis by (auto simp: bit_ld_le bit_simps)
  qed
qed

lemma ld_le_st_le_disj:
  assumes "rng_disj a n b k" "n < 2 ^ 64" "k < 2 ^ 64"
  shows "ld_le n (st_le k m b v) a = ld_le n m a"
  using assms by (intro ld_le_cong) (auto simp: st_le_apply dest: rng_disjD)

lemmas ldst_defs = ld64_def ld32_def ld16_def st64_def st32_def st16_def

lemma ld64_st64_same [simp, ldst_simps]: "ld64 (st64 m a v) a = v"
  by (rule bit_word_eqI) (simp add: ldst_defs ld_le_st_le_same bit_simps del: st_le.simps ld_le.simps)

lemma ld32_st32_same [simp, ldst_simps]: "ld32 (st32 m a v) a = v"
  by (rule bit_word_eqI) (simp add: ldst_defs ld_le_st_le_same bit_simps del: st_le.simps ld_le.simps)

lemma ld16_st16_same [simp, ldst_simps]: "ld16 (st16 m a v) a = v"
  by (rule bit_word_eqI) (simp add: ldst_defs ld_le_st_le_same bit_simps del: st_le.simps ld_le.simps)

lemma ld64_st64_disj: "rng_disj a 8 b 8 \<Longrightarrow> ld64 (st64 m b v) a = ld64 m a"
  by (simp add: ldst_defs ld_le_st_le_disj del: st_le.simps ld_le.simps)

lemma st64_outside: "\<not> in_rng a 8 x \<Longrightarrow> st64 m a v x = m x"
  by (simp add: st64_def st_le_outside del: st_le.simps)

lemma st64_ld64_same: "st64 m a (ld64 m a) = m"
proof
  fix x
  show "st64 m a (ld64 m a) x = m x"
  proof (cases "in_rng a 8 x")
    case True
    then obtain i where i: "i < 8" "x = a + of_nat i" by (rule in_rngE)
    have u: "unat (of_nat i :: u64) = i" using i by (intro unat_of_nat_lt) simp
    have "ucast (drop_bit (8 * i) (ld_le 8 m a)) = m x"
    proof (rule bit_word_eqI)
      fix k assume "k < LENGTH(8)"
      moreover have "(k + 8 * i) div 8 = i" "(k + 8 * i) mod 8 = k" if "k < 8" using that by auto
      ultimately show "bit (ucast (drop_bit (8 * i) (ld_le 8 m a)) :: u8) k = bit (m x) k"
        using i by (auto simp: bit_simps bit_ld_le add.commute simp del: ld_le.simps)
    qed
    with True u show ?thesis by (simp add: st64_def ld64_def st_le_apply i(2) del: ld_le.simps st_le.simps)
  qed (rule st64_outside)
qed

lemma st32_outside: "\<not> in_rng a 4 x \<Longrightarrow> st32 m a v x = m x"
  by (simp add: st32_def st_le_outside del: st_le.simps)

lemma st16_outside: "\<not> in_rng a 2 x \<Longrightarrow> st16 m a v x = m x"
  by (simp add: st16_def st_le_outside del: st_le.simps)

lemma ld64_cong: "(\<And>x. in_rng a 8 x \<Longrightarrow> m x = m' x) \<Longrightarrow> ld64 m a = ld64 m' a"
  unfolding ld64_def by (rule ld_le_cong) simp_all

lemma ld32_cong: "(\<And>x. in_rng a 4 x \<Longrightarrow> m x = m' x) \<Longrightarrow> ld32 m a = ld32 m' a"
  unfolding ld32_def by (rule arg_cong [where f = ucast], rule ld_le_cong) simp_all

lemma ld16_cong: "(\<And>x. in_rng a 2 x \<Longrightarrow> m x = m' x) \<Longrightarrow> ld16 m a = ld16 m' a"
  unfolding ld16_def by (rule arg_cong [where f = ucast], rule ld_le_cong) simp_all

section \<open>Alignment\<close>

definition aligned :: "nat \<Rightarrow> u64 \<Rightarrow> bool" where
  "aligned k a \<longleftrightarrow> unat a mod 2 ^ k = 0"

lemma aligned_0 [simp]: "aligned k 0"
  by (simp add: aligned_def)

lemma aligned_take_bit: "aligned k a \<longleftrightarrow> take_bit k a = 0"
  by (metis aligned_def unat_0_iff unat_take_bit)

lemma aligned_weaken: "aligned k a \<Longrightarrow> j \<le> k \<Longrightarrow> aligned j a"
  by (metis aligned_def dvd_eq_mod_eq_0 dvd_trans le_imp_power_dvd)

text \<open>Two different addresses aligned to \<open>2 ^ k\<close> start disjoint blocks of \<open>2 ^ k\<close>
  bytes, none of which runs past the end of the address space.\<close>

lemma aligned_gap:
  assumes "aligned k a" "aligned k b" "unat a < unat b"
  shows "unat a + 2 ^ k \<le> unat b"
proof -
  obtain i j where i: "unat a = 2 ^ k * i" and j: "unat b = 2 ^ k * j"
    using assms(1,2) unfolding aligned_def by (metis mod_0_imp_dvd dvdE)
  with assms(3) have "Suc i \<le> j" by simp
  then have "2 ^ k * Suc i \<le> 2 ^ k * j" by (rule mult_le_mono2)
  then show ?thesis using i j by simp
qed

lemma aligned_nowrap:
  assumes "aligned k a" "k \<le> 64"
  shows "unat a + 2 ^ k \<le> 2 ^ 64"
proof -
  obtain i where i: "unat a = 2 ^ k * i"
    using assms(1) unfolding aligned_def by (metis mod_0_imp_dvd dvdE)
  have p: "(2::nat) ^ 64 = 2 ^ k * 2 ^ (64 - k)"
    using assms(2) by (simp flip: power_add)
  have "2 ^ k * i < (2::nat) ^ k * 2 ^ (64 - k)"
    using i p unat_lt_64 [of a] by simp
  then have "Suc i \<le> 2 ^ (64 - k)" by simp
  then have "2 ^ k * Suc i \<le> (2::nat) ^ k * 2 ^ (64 - k)" by (rule mult_le_mono2)
  then show ?thesis using i p by simp
qed

lemma aligned_disj:
  assumes "aligned k a" "aligned k b" "a \<noteq> b" "k \<le> 64"
  shows "rng_disj a (2 ^ k) b (2 ^ k)"
proof -
  have "unat a < unat b \<or> unat b < unat a"
    using assms(3) by (metis linorder_neqE_nat unsigned_word_eqI)
  then show ?thesis
    using assms aligned_gap aligned_nowrap by (intro rng_disjI) blast+
qed

section \<open>Byte strings in memory\<close>

definition bytes :: "memory \<Rightarrow> u64 \<Rightarrow> nat \<Rightarrow> u8 list" where
  "bytes m a n = map (\<lambda>i. m (a + of_nat i)) [0..<n]"

lemma length_bytes [simp]: "length (bytes m a n) = n"
  by (simp add: bytes_def)

lemma nth_bytes [simp]: "i < n \<Longrightarrow> bytes m a n ! i = m (a + of_nat i)"
  by (simp add: bytes_def)

lemma bytes_append: "bytes m a (n + k) = bytes m a n @ bytes m (a + of_nat n) k"
  by (rule nth_equalityI) (auto simp: nth_append add.assoc simp flip: of_nat_add)

lemma bytes_eq_iff: "bytes m a n = bytes m' b n \<longleftrightarrow> (\<forall>i<n. m (a + of_nat i) = m' (b + of_nat i))"
  by (auto simp: bytes_def)

lemma bytes_cong: "n \<le> 2 ^ 64 \<Longrightarrow> (\<And>x. in_rng a n x \<Longrightarrow> m x = m' x) \<Longrightarrow> bytes m a n = bytes m' a n"
  by (simp add: bytes_def in_rng_offset)

text \<open>The memory that holds a byte string at an address and is zero elsewhere.\<close>

definition mem_of :: "u64 \<Rightarrow> u8 list \<Rightarrow> memory" where
  "mem_of base bs = (\<lambda>a. if unat (a - base) < length bs then bs ! unat (a - base) else 0)"

lemma bytes_mem_of: "length bs \<le> 2 ^ 64 \<Longrightarrow> bytes (mem_of base bs) base (length bs) = bs"
  by (rule nth_equalityI) (auto simp: mem_of_def unat_of_nat_lt)

section \<open>Step systems\<close>

text \<open>A step relation and a predicate that every step keeps: it holds along every run.\<close>

locale invariant_system =
  fixes step :: "'c \<Rightarrow> 'c \<Rightarrow> bool" and good :: "'c \<Rightarrow> bool"
  assumes good_step: "good c \<Longrightarrow> step c c' \<Longrightarrow> good c'"
begin

lemma good_run: "step\<^sup>*\<^sup>* c c' \<Longrightarrow> good c \<Longrightarrow> good c'"
  by (induction rule: rtranclp_induct) (auto intro: good_step)

lemma never_bad: "good c \<Longrightarrow> (\<And>d. good d \<Longrightarrow> \<not> bad d) \<Longrightarrow> step\<^sup>*\<^sup>* c c' \<Longrightarrow> \<not> bad c'"
  using good_run by blast

text \<open>A value that no step of a run changes while a condition holds is the same at its end.\<close>

lemma stable_run:
  assumes "\<And>d d'. good d \<Longrightarrow> step d d' \<Longrightarrow> keep d \<Longrightarrow> v d' = v d \<and> (keep d' \<or> stop d')"
  shows "(\<lambda>d d'. step d d' \<and> \<not> stop d')\<^sup>*\<^sup>* c c' \<Longrightarrow> good c \<Longrightarrow> keep c \<Longrightarrow> v c' = v c \<and> keep c' \<and> good c'"
proof (induction rule: rtranclp_induct)
  case (step d d')
  then show ?case using assms [of d d'] good_step by auto
qed simp

end

end
