(* ===== verification/Utils.thy ===== *)
theory Utils
  imports Kernel_Prelude
begin

text \<open>
  \<^verbatim>\<open>src/src/kernel/utils.c\<close>: the string, number-parsing, alignment and byte-order
  helpers. A C string is an address in a memory; the two loops that look for a
  terminator (\<open>string_len\<close> and, through it, \<open>string_comp\<close>) may run on for ever over
  a memory without one, so they are partial functions with result \<open>None\<close> there. Values
  of the C type \<^verbatim>\<open>int\<close> that only take a few constants are HOL integers; the
  accumulator of \<open>h2i\<close> and the alignment offsets keep their 32 bits. The lemmas show
  the length function exact, the comparisons decided by the first difference, the
  alignment offsets minimal, hexadecimal parsing correct up to the width of the type,
  and \<open>BE2LE\<close> an involution that decodes big-endian words.
\<close>

section \<open>Definitions\<close>

definition CR :: u8 where
  "CR = 13"

definition parse :: "u8 \<Rightarrow> u8" where
  "parse c = (if c = CR then 10 else c)"

partial_function (option) string_len_loop :: "memory \<Rightarrow> u64 \<Rightarrow> nat \<Rightarrow> nat option" where
  "string_len_loop m str i =
     (if m (str + of_nat i) = 0 \<or> m (str + of_nat i) = 10 then Some i
      else string_len_loop m str (Suc i))"

definition string_len :: "memory \<Rightarrow> u64 \<Rightarrow> nat option" where
  "string_len m str = string_len_loop m str 0"

text \<open>The body both comparison loops share: the verdict of the first unmatched byte from
  index \<open>i\<close> on among the first \<open>n\<close>.\<close>

function comp_loop :: "memory \<Rightarrow> u64 \<Rightarrow> u64 \<Rightarrow> nat \<Rightarrow> nat \<Rightarrow> int" where
  "comp_loop m str1 str2 n i =
     (if i < n then
        if m (str1 + of_nat i) > m (str2 + of_nat i) then 1
        else if m (str1 + of_nat i) < m (str2 + of_nat i) then -1
        else comp_loop m str1 str2 n (Suc i)
      else 0)"
  by pat_completeness auto
termination
  by (relation "measure (\<lambda>(m, str1, str2, n, i). n - i)") auto

declare comp_loop.simps [simp del]

definition string_comp :: "memory \<Rightarrow> u64 \<Rightarrow> u64 \<Rightarrow> int option" where
  "string_comp m str1 str2 =
     do {
       l1 \<leftarrow> string_len m str1;
       l2 \<leftarrow> string_len m str2;
       if l1 \<noteq> l2 then Some 1 else Some (comp_loop m str1 str2 l1 0)
     }"

definition string_comp_l :: "memory \<Rightarrow> u64 \<Rightarrow> u64 \<Rightarrow> int \<Rightarrow> int" where
  "string_comp_l m str1 str2 len = comp_loop m str1 str2 (nat len) 0"

function string_set_loop :: "memory \<Rightarrow> u64 \<Rightarrow> u32 \<Rightarrow> nat \<Rightarrow> nat \<Rightarrow> memory" where
  "string_set_loop m str n sz i =
     (if i < sz then string_set_loop (m(str + of_nat i := ucast n)) str n sz (Suc i) else m)"
  by pat_completeness auto
termination
  by (relation "measure (\<lambda>(m, str, n, sz, i). sz - i)") auto

declare string_set_loop.simps [simp del]

definition string_set :: "memory \<Rightarrow> u64 \<Rightarrow> u32 \<Rightarrow> int \<Rightarrow> memory" where
  "string_set m str n sz = string_set_loop m str n (nat sz) 0"

definition h2i_digit :: "u8 \<Rightarrow> u32" where
  "h2i_digit c =
     (if 65 \<le> c \<and> c \<le> 70 then ucast c - 65 + 10
      else if 97 \<le> c \<and> c \<le> 102 then ucast c - 97 + 10
      else ucast c - 48)"

function h2i_loop :: "memory \<Rightarrow> u64 \<Rightarrow> nat \<Rightarrow> nat \<Rightarrow> u32 \<Rightarrow> u32" where
  "h2i_loop m str len i res =
     (if i < len then h2i_loop m str len (Suc i) (push_bit 4 res + h2i_digit (m (str + of_nat i)))
      else res)"
  by pat_completeness auto
termination
  by (relation "measure (\<lambda>(m, str, len, i, res). len - i)") auto

declare h2i_loop.simps [simp del]

definition h2i :: "memory \<Rightarrow> u64 \<Rightarrow> int \<Rightarrow> u32" where
  "h2i m str len = h2i_loop m str (nat len) 0 0"

definition align_offset :: "u32 \<Rightarrow> u32 \<Rightarrow> u32" where
  "align_offset i align = (align - (i mod align)) mod align"

definition align_mem_offset :: "u64 \<Rightarrow> u32 \<Rightarrow> u32" where
  "align_mem_offset i align = ucast ((ucast align - (i mod ucast align)) mod (ucast align :: u64))"

function BE2LE_loop :: "u32 \<Rightarrow> int \<Rightarrow> u32 \<Rightarrow> u32" where
  "BE2LE_loop BE i LE =
     (if i \<ge> 0 then
        BE2LE_loop BE (i - 8) (LE OR push_bit (nat (24 - i)) (drop_bit (nat i) BE AND 0xFF))
      else LE)"
  by pat_completeness auto
termination
  by (relation "measure (\<lambda>(BE, i, LE). nat (i + 1))") auto

declare BE2LE_loop.simps [simp del]

definition BE2LE :: "u32 \<Rightarrow> u32" where
  "BE2LE BE = BE2LE_loop BE 24 0"

definition w32 :: "u64 \<Rightarrow> u32 \<Rightarrow> memory \<Rightarrow> memory" where
  "w32 addr val m = st32 m addr val"

definition r32 :: "u64 \<Rightarrow> memory \<Rightarrow> u32" where
  "r32 addr m = ld32 m addr"

text \<open>\<open>wait_cycles\<close> only spins; the model counts the \<^verbatim>\<open>nop\<close> instructions it issues.\<close>

function wait_cycles_loop :: "u32 \<Rightarrow> u32 \<Rightarrow> nat \<Rightarrow> nat" where
  "wait_cycles_loop cycles i nops =
     (if i < cycles then wait_cycles_loop cycles (i + 1) (Suc nops) else nops)"
  by pat_completeness auto
termination
proof (relation "measure (\<lambda>(cycles, i, nops). unat cycles - unat i)", goal_cases)
  case (2 cycles i nops)
  then show ?case by (simp add: unat_Suc_less word_less_nat_alt)
qed simp

declare wait_cycles_loop.simps [simp del]

definition wait_cycles :: "u32 \<Rightarrow> nat" where
  "wait_cycles cycles = wait_cycles_loop cycles 0 0"

section \<open>String length\<close>

definition is_term :: "u8 \<Rightarrow> bool" where
  "is_term b \<longleftrightarrow> b = 0 \<or> b = 10"

lemma string_len_loop_finds:
  assumes "\<And>j. i \<le> j \<Longrightarrow> j < n \<Longrightarrow> \<not> is_term (m (str + of_nat j))"
    and "is_term (m (str + of_nat n))" and "i \<le> n"
  shows "string_len_loop m str i = Some n"
  using assms
proof (induction "n - i" arbitrary: i)
  case 0
  then show ?case by (subst string_len_loop.simps) (auto simp: is_term_def)
next
  case (Suc d)
  then have "\<not> is_term (m (str + of_nat i))" by simp
  moreover have "string_len_loop m str (Suc i) = Some n"
    using Suc by (intro Suc.hyps(1)) auto
  ultimately show ?case by (subst string_len_loop.simps) (auto simp: is_term_def)
qed

lemma string_len_loop_Some:
  assumes "string_len_loop m str i = Some n"
  shows "i \<le> n \<and> is_term (m (str + of_nat n)) \<and>
    (\<forall>j. i \<le> j \<and> j < n \<longrightarrow> \<not> is_term (m (str + of_nat j)))"
  using assms
proof (rule string_len_loop.raw_induct [rotated])
  fix loop and m :: memory and str i n
  assume IH: "\<And>m str i n. loop m str i = Some n \<Longrightarrow>
      i \<le> n \<and> is_term (m (str + of_nat n)) \<and>
      (\<forall>j. i \<le> j \<and> j < n \<longrightarrow> \<not> is_term (m (str + of_nat j)))"
    and eq: "(if m (str + of_nat i) = 0 \<or> m (str + of_nat i) = 10 then Some i
      else loop m str (Suc i)) = Some n"
  show "i \<le> n \<and> is_term (m (str + of_nat n)) \<and>
      (\<forall>j. i \<le> j \<and> j < n \<longrightarrow> \<not> is_term (m (str + of_nat j)))"
  proof (cases "is_term (m (str + of_nat i))")
    case True
    with eq show ?thesis by (auto simp: is_term_def)
  next
    case False
    with eq have "loop m str (Suc i) = Some n" by (auto simp: is_term_def split: if_splits)
    from IH [OF this] False show ?thesis by (simp add: all_from_step)
  qed
qed

lemma string_len_iff:
  "string_len m str = Some n \<longleftrightarrow>
     is_term (m (str + of_nat n)) \<and> (\<forall>j<n. \<not> is_term (m (str + of_nat j)))"
  using string_len_loop_Some [of m str 0 n] string_len_loop_finds [of 0 n m str]
  by (auto simp: string_len_def)

lemma string_len_returns_iff:
  "(\<exists>n. string_len m str = Some n) \<longleftrightarrow> (\<exists>a. is_term (m a))"
proof
  assume "\<exists>a. is_term (m a)"
  then obtain a where "is_term (m a)" by blast
  then have "is_term (m (str + of_nat (unat (a - str))))" by simp
  then have "\<exists>n. is_term (m (str + of_nat n))" by blast
  then have "is_term (m (str + of_nat (LEAST n. is_term (m (str + of_nat n)))))"
    by (rule LeastI_ex)
  then have "string_len m str = Some (LEAST n. is_term (m (str + of_nat n)))"
    unfolding string_len_iff by (blast dest: not_less_Least)
  then show "\<exists>n. string_len m str = Some n" by blast
qed (auto simp: string_len_iff)

section \<open>Comparison\<close>

lemma comp_loop_0_iff:
  "comp_loop m a b n i = 0 \<longleftrightarrow> (\<forall>j. i \<le> j \<and> j < n \<longrightarrow> m (a + of_nat j) = m (b + of_nat j))"
proof (induction m a b n i rule: comp_loop.induct)
  case (1 m a b n i)
  show ?case
  proof (cases "i < n \<and> m (a + of_nat i) = m (b + of_nat i)")
    case True
    with 1 show ?thesis
      by (subst comp_loop.simps) (simp add: all_from_step)
  next
    case False
    then show ?thesis
      by (subst comp_loop.simps) (auto dest: spec [of _ i])
  qed
qed

lemma comp_loop_nonzero:
  assumes "comp_loop m a b n i = r" "r \<noteq> 0"
  shows "\<exists>k. i \<le> k \<and> k < n \<and> (\<forall>j. i \<le> j \<and> j < k \<longrightarrow> m (a + of_nat j) = m (b + of_nat j)) \<and>
    m (a + of_nat k) \<noteq> m (b + of_nat k) \<and>
    r = (if m (a + of_nat k) > m (b + of_nat k) then 1 else -1)"
  using assms
proof (induction m a b n i rule: comp_loop.induct)
  case (1 m a b n i)
  show ?case
  proof (cases "i < n \<and> m (a + of_nat i) = m (b + of_nat i)")
    case True
    then have "comp_loop m a b n i = comp_loop m a b n (Suc i)"
      by (subst comp_loop.simps) simp
    with 1 True obtain k where k: "Suc i \<le> k" "k < n"
      "\<forall>j. Suc i \<le> j \<and> j < k \<longrightarrow> m (a + of_nat j) = m (b + of_nat j)"
      "m (a + of_nat k) \<noteq> m (b + of_nat k)"
      "r = (if m (a + of_nat k) > m (b + of_nat k) then 1 else -1)"
      by auto
    with True show ?thesis by (intro exI [of _ k]) (simp add: all_from_step)
  next
    case False
    with "1.prems" have "i < n" "m (a + of_nat i) \<noteq> m (b + of_nat i)"
      by (auto simp: comp_loop.simps [of m a b n i] split: if_splits)
    with "1.prems" show ?thesis
      by (intro exI [of _ i]) (auto simp: comp_loop.simps [of m a b n i] split: if_splits)
  qed
qed

lemma string_comp_l_0_iff:
  "string_comp_l m a b len = 0 \<longleftrightarrow> bytes m a (nat len) = bytes m b (nat len)"
  by (simp add: string_comp_l_def comp_loop_0_iff bytes_eq_iff)

lemma string_comp_0_iff:
  assumes "string_len m a = Some l1" "string_len m b = Some l2"
  shows "string_comp m a b = Some 0 \<longleftrightarrow> bytes m a l1 = bytes m b l2"
  using assms by (auto simp: string_comp_def comp_loop_0_iff bytes_eq_iff dest: arg_cong [of _ _ length])

section \<open>Filling\<close>

lemma string_set_loop_apply:
  assumes "sz \<le> 2 ^ 64"
  shows "string_set_loop m str n sz i x =
    (if i \<le> unat (x - str) \<and> unat (x - str) < sz then ucast n else m x)"
  using assms
proof (induction m str n sz i rule: string_set_loop.induct)
  case (1 m str n sz i)
  show ?case
  proof (cases "i < sz")
    case True
    have "x = str + of_nat i \<longleftrightarrow> unat (x - str) = i"
      using True 1(2) by (auto simp: unat_of_nat_lt)
    with True 1 show ?thesis by (subst string_set_loop.simps) (auto simp: fun_upd_def)
  next
    case False
    then show ?thesis by (subst string_set_loop.simps) auto
  qed
qed

section \<open>Alignment\<close>

lemma align_up_mod: "0 < (a::nat) \<Longrightarrow> (l + (a - l mod a) mod a) mod a = 0"
proof -
  assume "0 < a"
  then have "l mod a + (a - l mod a) = a" by (simp add: less_imp_le_nat)
  then show ?thesis by (metis mod_add_eq mod_add_right_eq mod_self)
qed

lemma unat_align_sub:
  assumes "a \<noteq> (0 :: 'a::len word)"
  shows "unat ((a - l mod a) mod a) = (unat a - unat l mod unat a) mod unat a"
proof -
  have "l mod a \<le> a"
    using assms by (simp add: word_le_nat_alt unat_mod_distrib unat_gt_0 less_imp_le_nat)
  then show ?thesis by (simp add: unat_mod_distrib unat_sub)
qed

lemma align_offset_spec:
  assumes "align \<noteq> 0"
  shows "(unat i + unat (align_offset i align)) mod unat align = 0"
    and "unat (align_offset i align) < unat align"
proof -
  have "0 < unat align" using assms by (simp add: unat_gt_0)
  then show "(unat i + unat (align_offset i align)) mod unat align = 0"
    and "unat (align_offset i align) < unat align"
    using assms by (simp_all add: align_offset_def unat_align_sub align_up_mod)
qed

lemma unat_align_mem_offset:
  assumes "align \<noteq> 0"
  shows "unat (align_mem_offset i align) = (unat align - unat i mod unat align) mod unat align"
proof -
  have pos: "0 < unat align" using assms by (simp add: unat_gt_0)
  have ua: "unat (ucast align :: u64) = unat align"
    by (simp add: unat_ucast_up)
  have nz: "ucast align \<noteq> (0 :: u64)"
    using pos ua by (metis less_numeral_extra(3) unat_0_iff)
  have e: "unat ((ucast align - i mod ucast align) mod (ucast align :: u64)) =
      (unat align - unat i mod unat align) mod unat align"
    by (simp only: unat_align_sub [OF nz] ua)
  have "(unat align - unat i mod unat align) mod unat align < 2 ^ 32"
    using less_trans [OF mod_less_divisor [OF pos] unat_lt_32] by simp
  then show ?thesis by (simp add: align_mem_offset_def unat_ucast_mod e)
qed

lemma align_mem_offset_spec:
  assumes "align \<noteq> 0"
  shows "(unat i + unat (align_mem_offset i align)) mod unat align = 0"
    and "unat (align_mem_offset i align) < unat align"
proof -
  have pos: "0 < unat align" using assms by (simp add: unat_gt_0)
  then show "(unat i + unat (align_mem_offset i align)) mod unat align = 0"
    and "unat (align_mem_offset i align) < unat align"
    by (simp_all add: unat_align_mem_offset [OF assms] align_up_mod)
qed

section \<open>Byte order\<close>

lemma BE2LE_unfold:
  "BE2LE x = (drop_bit 24 x AND 0xFF) OR push_bit 8 (drop_bit 16 x AND 0xFF) OR
     push_bit 16 (drop_bit 8 x AND 0xFF) OR push_bit 24 (x AND 0xFF)"
  by (simp add: BE2LE_def BE2LE_loop.simps or.assoc)

lemma mask8: "(0xFF :: 'a::len word) = mask 8"
  by (simp add: mask_eq_exp_minus_1)

lemma bit_BE2LE:
  assumes "n < 32"
  shows "bit (BE2LE x) n \<longleftrightarrow> bit x (24 - 8 * (n div 8) + n mod 8)"
proof -
  consider "n < 8" | "8 \<le> n" "n < 16" | "16 \<le> n" "n < 24" | "24 \<le> n" "n < 32"
    using assms by linarith
  then show ?thesis
  proof cases
    case 1
    then show ?thesis by (simp add: BE2LE_unfold mask8 bit_simps)
  next
    case 2
    then have "n div 8 = 1" "n mod 8 = n - 8" by presburger+
    with 2 show ?thesis by (auto simp: BE2LE_unfold mask8 bit_simps)
  next
    case 3
    then have "n div 8 = 2" "n mod 8 = n - 16" by presburger+
    with 3 show ?thesis by (auto simp: BE2LE_unfold mask8 bit_simps)
  next
    case 4
    then have "n div 8 = 3" "n mod 8 = n - 24" by presburger+
    with 4 show ?thesis by (auto simp: BE2LE_unfold mask8 bit_simps)
  qed
qed

lemma BE2LE_involution: "BE2LE (BE2LE x) = x"
proof (rule bit_word_eqI)
  fix n
  assume "n < LENGTH(32)"
  then have n: "n < 32" by simp
  define q r where "q = n div 8" and "r = n mod 8"
  have qr: "n = 8 * q + r" "r < 8" by (simp_all add: q_def r_def)
  then have q: "q \<le> 3" using n by linarith
  have "bit (BE2LE (BE2LE x)) n = bit (BE2LE x) (8 * (3 - q) + r)"
    using n q by (simp add: bit_BE2LE diff_mult_distrib2 flip: q_def r_def)
  also have "\<dots> = bit x (24 - 8 * (3 - q) + r)"
    using qr q by (subst bit_BE2LE) auto
  also have "24 - 8 * (3 - q) + r = n"
    using qr q by simp
  finally show "bit (BE2LE (BE2LE x)) n = bit x n" .
qed

text \<open>A big-endian 32-bit field, read by a little-endian load and swapped.\<close>

lemma unat_BE2LE_ld32:
  "unat (BE2LE (ld32 m a)) =
     unat (m a) * 2 ^ 24 + unat (m (a + 1)) * 2 ^ 16 + unat (m (a + 2)) * 2 ^ 8 + unat (m (a + 3))"
proof -
  define m' :: memory where "m' = (\<lambda>x. m (a + 3 - x))"
  have e: "BE2LE (ld32 m a) = ld32 m' 0"
  proof (rule bit_word_eqI)
    fix n
    assume "n < LENGTH(32)"
    then have n: "n < 32" by simp
    define q r where "q = n div 8" and "r = n mod 8"
    have qr: "n = 8 * q + r" "r < 8" by (simp_all add: q_def r_def)
    then have q: "q \<le> 3" using n by linarith
    have i: "24 - 8 * q + r = 8 * (3 - q) + r" and lt: "8 * (3 - q) + r < 32"
      using q qr(2) by auto
    have "bit (BE2LE (ld32 m a)) n = bit (m (a + of_nat (3 - q))) r"
      using n q qr(2) by (simp add: bit_BE2LE i lt bit_ld32 flip: q_def r_def del: of_nat_diff)
    also have "a + of_nat (3 - q) = a + 3 - of_nat q" using q by simp
    finally show "bit (BE2LE (ld32 m a)) n = bit (ld32 m' 0) n"
      using n by (simp add: bit_ld32 m'_def flip: q_def r_def)
  qed
  have "unat (ld_le 4 m' 0) = (\<Sum>i<4. unat (m' (of_nat i)) * 256 ^ i)" "unat (ld_le 4 m' 0) < 256 ^ 4"
    using unat_ld_le [of 4 m' 0] by auto
  moreover have "m' 0 = m (a + 3)" "m' 1 = m (a + 2)" "m' 2 = m (a + 1)" "m' 3 = m a"
    by (simp_all add: m'_def add.commute)
  ultimately show ?thesis
    unfolding e by (simp add: ld32_def unat_ucast_mod lessThan_nat_numeral lessThan_Suc
        del: ld_le.simps)
qed

section \<open>Hexadecimal digits\<close>

definition hex_val :: "u8 \<Rightarrow> nat option" where
  "hex_val c =
     (if 48 \<le> c \<and> c \<le> 57 then Some (unat c - 48)
      else if 65 \<le> c \<and> c \<le> 70 then Some (unat c - 55)
      else if 97 \<le> c \<and> c \<le> 102 then Some (unat c - 87)
      else None)"

definition is_hex :: "u8 \<Rightarrow> bool" where
  "is_hex c \<longleftrightarrow> hex_val c \<noteq> None"

definition hex_num :: "u8 list \<Rightarrow> nat" where
  "hex_num cs = foldl (\<lambda>r c. 16 * r + the (hex_val c)) 0 cs"

lemma hex_num_snoc [simp]: "hex_num (cs @ [c]) = 16 * hex_num cs + the (hex_val c)"
  by (simp add: hex_num_def)

lemma hex_num_Nil [simp]: "hex_num [] = 0"
  by (simp add: hex_num_def)

lemma hex_num_Cons: "hex_num (c # cs) = the (hex_val c) * 16 ^ length cs + hex_num cs"
proof -
  have "foldl (\<lambda>r c. 16 * r + the (hex_val c)) a cs =
      a * 16 ^ length cs + foldl (\<lambda>r c. 16 * r + the (hex_val c)) 0 cs" for a
  proof (induction cs arbitrary: a)
    case (Cons d cs)
    show ?case
      using Cons.IH [of "16 * a + the (hex_val d)"] Cons.IH [of "the (hex_val d)"]
      by (simp add: algebra_simps)
  qed simp
  from this [of "the (hex_val c)"] show ?thesis by (simp add: hex_num_def)
qed

lemma hex_val_bound: "hex_val c = Some d \<Longrightarrow> d < 16"
  by (auto simp: hex_val_def word_le_nat_alt split: if_splits)

lemma hex_num_bound: "(\<forall>c\<in>set cs. is_hex c) \<Longrightarrow> hex_num cs < 16 ^ length cs"
proof (induction cs rule: rev_induct)
  case (snoc c cs)
  then have "the (hex_val c) < 16" by (auto simp: is_hex_def dest: hex_val_bound)
  with snoc show ?case by simp
qed simp

lemma unat_h2i_digit: "is_hex c \<Longrightarrow> unat (h2i_digit c) = the (hex_val c)"
  by (auto simp: is_hex_def hex_val_def h2i_digit_def word_le_nat_alt unat_word_ariths
      unat_sub_if_size word_size unat_ucast_up split: if_splits)

lemma h2i_loop_value:
  assumes "len \<le> 8" "\<forall>c\<in>set (bytes m str len). is_hex c" "i \<le> len"
    "unat res = hex_num (bytes m str i)"
  shows "unat (h2i_loop m str len i res) = hex_num (bytes m str len)"
  using assms
proof (induction m str len i res rule: h2i_loop.induct)
  case (1 m str len i res)
  show ?case
  proof (cases "i < len")
    case True
    have hx: "is_hex (m (str + of_nat i))"
      using 1(3) True by (auto simp: bytes_def)
    have snoc: "bytes m str (Suc i) = bytes m str i @ [m (str + of_nat i)]"
      by (simp add: bytes_def)
    have "\<forall>c\<in>set (bytes m str (Suc i)). is_hex c"
      using 1(3) True by (auto simp: bytes_def)
    then have "hex_num (bytes m str (Suc i)) < 16 ^ Suc i"
      using hex_num_bound by fastforce
    moreover have "(16::nat) ^ Suc i \<le> 16 ^ 8"
      using True 1(2) by (intro power_increasing) auto
    ultimately have bnd: "16 * unat res + unat (h2i_digit (m (str + of_nat i))) < 2 ^ 32"
      using 1(5) hx by (simp add: snoc unat_h2i_digit)
    have "unat (push_bit 4 res + h2i_digit (m (str + of_nat i))) =
        16 * unat res + unat (h2i_digit (m (str + of_nat i)))"
      using bnd by (simp add: push_bit_eq_mult unat_word_ariths)
    then have "unat (push_bit 4 res + h2i_digit (m (str + of_nat i))) = hex_num (bytes m str (Suc i))"
      using 1(5) hx by (simp add: snoc unat_h2i_digit)
    with True 1 show ?thesis by (subst h2i_loop.simps) simp
  next
    case False
    with 1 show ?thesis by (subst h2i_loop.simps) simp
  qed
qed

lemma h2i_value:
  "len \<le> 8 \<Longrightarrow> \<forall>c\<in>set (bytes m str (nat len)). is_hex c \<Longrightarrow>
    unat (h2i m str len) = hex_num (bytes m str (nat len))"
  by (simp add: h2i_def h2i_loop_value bytes_def)

lemma wait_cycles_exact: "wait_cycles cycles = unat cycles"
proof -
  have "i \<le> cycles \<Longrightarrow> wait_cycles_loop cycles i nops = nops + (unat cycles - unat i)" for i nops
  proof (induction cycles i nops rule: wait_cycles_loop.induct)
    case (1 cycles i nops)
    then show ?case
      by (subst wait_cycles_loop.simps)
        (auto simp: unat_Suc_less word_less_nat_alt word_le_nat_alt)
  qed
  then show ?thesis by (simp add: wait_cycles_def)
qed

end
