(* ===== verification/Machine.thy ===== *)
theory Machine
  imports Kernel_Prelude
begin

text \<open>
  The hardware state the kernel runs on, as one record that the state of every component
  extends: the byte memory, the control and status registers the code reads or writes, and
  the NS16550A UART.

  \<^item> \<open>mie\<close> and \<open>mip\<close> are the machine-level interrupt enable and pending registers; the
    supervisor registers \<^verbatim>\<open>sie\<close> and \<^verbatim>\<open>sip\<close> are views of the same bits.
  \<^item> The \<^verbatim>\<open>time\<close> register is an input: \<open>time_in n\<close> is what the n-th read returns, and
    \<open>time_rd\<close> counts the reads made so far.
  \<^item> The UART is reached through volatile byte accesses at \<^verbatim>\<open>UART0_BASE + offset\<close>.
    What a read returns is the device's choice: \<open>uart_in n off\<close> is the value of the
    n-th read when it is made at offset \<open>off\<close>, \<open>uart_rd\<close> counts the reads. The writes
    the kernel makes are logged in order in \<open>uart_wr\<close> as pairs of offset and value, so
    the text on the serial line is what is logged at offset 0.
\<close>

record machine =
  mem :: memory
  sstatus :: u64
  mie :: u64
  mip :: u64
  stvec :: u64
  satp :: u64
  time_in :: "nat \<Rightarrow> u64"
  time_rd :: nat
  mtimecmp :: u64
  uart_in :: "nat \<Rightarrow> u8 \<Rightarrow> u8"
  uart_rd :: nat
  uart_wr :: "(u8 \<times> u8) list"

text \<open>The supervisor interrupt enable bit of \<^verbatim>\<open>sstatus\<close>.\<close>

definition SSTATUS_SIE :: u64 where
  "SSTATUS_SIE = push_bit 1 1"

definition sie_on :: "'a machine_scheme \<Rightarrow> bool" where
  "sie_on s \<longleftrightarrow> bit (sstatus s) 1"

text \<open>The control registers the boot sets up.\<close>

definition csrs :: "'a machine_scheme \<Rightarrow> u64 \<times> u64 \<times> u64 \<times> u64 \<times> u64" where
  "csrs s = (stvec s, mie s, sstatus s, mtimecmp s, satp s)"

text \<open>CSR set and clear instructions on a register value.\<close>

definition csr_set :: "u64 \<Rightarrow> u64 \<Rightarrow> u64" where
  "csr_set reg bits = reg OR bits"

definition csr_clear :: "u64 \<Rightarrow> u64 \<Rightarrow> u64" where
  "csr_clear reg bits = reg AND NOT bits"

lemma bit_SSTATUS_SIE [simp]: "bit SSTATUS_SIE n \<longleftrightarrow> n = 1"
  by (auto simp: SSTATUS_SIE_def bit_simps)

lemma bit_csr_set [simp]: "bit (csr_set r b) n \<longleftrightarrow> bit r n \<or> bit b n"
  by (simp add: csr_set_def bit_simps)

lemma bit_csr_clear [simp]: "bit (csr_clear r b) n \<longleftrightarrow> bit r n \<and> \<not> bit b n"
  by (auto simp: csr_clear_def bit_simps dest: bit_imp_le_length)

text \<open>Masking and restoring the enable bit gives the register back.\<close>

lemma csr_restore_SIE: "bit r 1 \<Longrightarrow> csr_set (csr_clear r SSTATUS_SIE) SSTATUS_SIE = r"
  by (rule bit_word_eqI) auto

lemma csr_clear_SIE_id: "\<not> bit r 1 \<Longrightarrow> csr_clear r SSTATUS_SIE = r"
  by (rule bit_word_eqI) auto

lemma and_SIE_iff: "r AND SSTATUS_SIE \<noteq> 0 \<longleftrightarrow> bit r 1"
  by (metis (no_types, lifting) SSTATUS_SIE_def and_exp_eq_0_iff_not_bit push_bit_of_1)

end
