(* ===== verification/Uart.thy ===== *)
theory Uart
  imports Machine Utils
begin

text \<open>
  \<^verbatim>\<open>src/src/kernel/uart.c\<close>: the NS16550A console. The two wait loops poll the line
  status register for as long as the device likes, so they are partial functions:
  \<open>None\<close> is a poll that is never answered. Every other function is built from
  \<open>uart_putc\<close> and \<open>uart_getc\<close> as the C code builds it.

  The interface the rest of the kernel uses is the locale \<open>byte_sink\<close>: an output
  operation that appends one byte to a log, returns whenever the device is live and
  changes nothing else. Its lemmas are proved once and interpreted for \<open>uart_putc\<close>.
\<close>

section \<open>Registers\<close>

definition UART_THR :: u8 where "UART_THR = 0"
definition UART_RHR :: u8 where "UART_RHR = 0"
definition UART_LSB :: u8 where "UART_LSB = 0"
definition UART_MSB :: u8 where "UART_MSB = 1"
definition UART_FCR :: u8 where "UART_FCR = 2"
definition UART_LCR :: u8 where "UART_LCR = 3"
definition UART_LSR :: u8 where "UART_LSR = 5"

definition FCR_FIFO_ENABLE :: u8 where "FCR_FIFO_ENABLE = push_bit 0 1"
definition FCR_FIFO_CLEAR :: u8 where "FCR_FIFO_CLEAR = push_bit 1 3"
definition LCR_DLAB :: u8 where "LCR_DLAB = push_bit 7 1"
definition LSR_RX_READY :: u8 where "LSR_RX_READY = push_bit 0 1"
definition LSR_TX_IDLE :: u8 where "LSR_TX_IDLE = push_bit 5 1"

lemmas uart_reg_defs = UART_THR_def UART_RHR_def UART_LSB_def UART_MSB_def UART_FCR_def
  UART_LCR_def UART_LSR_def FCR_FIFO_ENABLE_def FCR_FIFO_CLEAR_def LCR_DLAB_def
  LSR_RX_READY_def LSR_TX_IDLE_def

definition uart_read :: "u8 \<Rightarrow> 'a machine_scheme \<Rightarrow> u8 \<times> 'a machine_scheme" where
  "uart_read off s = (uart_in s (uart_rd s) off, s\<lparr>uart_rd := Suc (uart_rd s)\<rparr>)"

definition uart_write :: "u8 \<Rightarrow> u8 \<Rightarrow> 'a machine_scheme \<Rightarrow> 'a machine_scheme" where
  "uart_write off v s = s\<lparr>uart_wr := uart_wr s @ [(off, v)]\<rparr>"

section \<open>Operations\<close>

definition uart_init :: "u32 \<Rightarrow> u64 \<Rightarrow> 'a machine_scheme \<Rightarrow> 'a machine_scheme option" where
  \<comment> \<open>a zero \<^verbatim>\<open>baudrate\<close> divides by zero, which C leaves undefined\<close>
  "uart_init baudrate clock_freq s =
     (if baudrate = 0 then None else
      let divisor = (ucast (clock_freq div ucast baudrate) :: u32);
          (v, s) = uart_read UART_LCR s;
          s = uart_write UART_LCR (v OR LCR_DLAB) s;
          s = uart_write UART_LSB (ucast (divisor AND 0xFF)) s;
          s = uart_write UART_MSB (ucast (drop_bit 8 divisor AND 0xFF)) s;
          (v, s) = uart_read UART_LCR s;
          s = uart_write UART_LCR (v AND NOT LCR_DLAB) s;
          s = uart_write UART_LCR 0x03 s;
          s = uart_write UART_FCR (FCR_FIFO_ENABLE OR FCR_FIFO_CLEAR) s
      in Some s)"

partial_function (option) uart_wait :: "u8 \<Rightarrow> 'a machine_scheme \<Rightarrow> 'a machine_scheme option" where
  "uart_wait bits s =
     (let (v, s) = uart_read UART_LSR s
      in if v AND bits \<noteq> 0 then Some s else uart_wait bits s)"

definition uart_putc :: "u8 \<Rightarrow> 'a machine_scheme \<Rightarrow> 'a machine_scheme option" where
  "uart_putc c s = do { s \<leftarrow> uart_wait LSR_TX_IDLE s; Some (uart_write UART_THR c s) }"

definition uart_getc :: "'a machine_scheme \<Rightarrow> (u8 \<times> 'a machine_scheme) option" where
  "uart_getc s = do {
     s \<leftarrow> uart_wait LSR_RX_READY s;
     let (v, s) = uart_read UART_RHR s;
     Some (v AND 0xFF, s)
   }"

text \<open>The string argument is the sequence of bytes from the pointer on; the terminator is
  a zero byte or the end of the sequence (literals are given without it).\<close>

fun uart_puts :: "u8 list \<Rightarrow> 'a machine_scheme \<Rightarrow> 'a machine_scheme option" where
  "uart_puts [] s = Some s"
| "uart_puts (c # str) s =
     (if c = 0 then Some s else do { s \<leftarrow> uart_putc c s; uart_puts str s })"

text \<open>The loop of \<open>uart_gets\<close> runs while \<open>i < maxlen - 1\<close>: \<open>n\<close> is the room left.\<close>

primrec uart_gets_loop ::
  "nat \<Rightarrow> u64 \<Rightarrow> nat \<Rightarrow> 'a machine_scheme \<Rightarrow> (nat \<times> 'a machine_scheme) option" where
  "uart_gets_loop 0 buf i s = Some (i, s)"
| "uart_gets_loop (Suc n) buf i s = do {
     (c, s) \<leftarrow> uart_getc s;
     if c = 10 \<or> c = 13 then Some (i, s)
     else uart_gets_loop n buf (Suc i) (s\<lparr>mem := (mem s)(buf + of_nat i := c)\<rparr>)
   }"

definition uart_gets :: "u64 \<Rightarrow> int \<Rightarrow> 'a machine_scheme \<Rightarrow> (nat \<times> 'a machine_scheme) option" where
  "uart_gets buf maxlen s = do {
     (i, s) \<leftarrow> uart_gets_loop (nat (maxlen - 1)) buf 0 s;
     Some (i, s\<lparr>mem := (mem s)(buf + of_nat i := 0)\<rparr>)
   }"

text \<open>The digit loops of \<open>uart_dec\<close> and \<open>uart_dec64\<close> fill \<^verbatim>\<open>buffer\<close> from index
  0 on; the list is the part of the buffer they have written, least significant digit
  first.\<close>

function dec_digits32 :: "u32 \<Rightarrow> u8 list" where
  "dec_digits32 num =
     (if num > 0 then (48 + ucast (num mod 10)) # dec_digits32 (num div 10) else [])"
  by pat_completeness auto
termination
  by (relation "measure unat") (auto simp: unat_div word_less_nat_alt)

function dec_digits64 :: "u64 \<Rightarrow> u8 list" where
  "dec_digits64 num =
     (if num > 0 then (48 + ucast (num mod 10)) # dec_digits64 (num div 10) else [])"
  by pat_completeness auto
termination
  by (relation "measure unat") (auto simp: unat_div word_less_nat_alt)

declare dec_digits32.simps [simp del] dec_digits64.simps [simp del]

text \<open>Printing the buffer from index \<open>i - 1\<close> down to 0.\<close>

fun put_rev :: "u8 list \<Rightarrow> nat \<Rightarrow> 'a machine_scheme \<Rightarrow> 'a machine_scheme option" where
  "put_rev buffer 0 s = Some s"
| "put_rev buffer (Suc j) s = do { s \<leftarrow> uart_putc (buffer ! j) s; put_rev buffer j s }"

definition uart_dec :: "u32 \<Rightarrow> 'a machine_scheme \<Rightarrow> 'a machine_scheme option" where
  "uart_dec num s =
     (if num = 0 then uart_putc 48 s
      else let buffer = dec_digits32 num in put_rev buffer (length buffer) s)"

definition uart_dec64 :: "u64 \<Rightarrow> 'a machine_scheme \<Rightarrow> 'a machine_scheme option" where
  "uart_dec64 num s =
     (if num = 0 then uart_putc 48 s
      else let buffer = dec_digits64 num in put_rev buffer (length buffer) s)"

text \<open>The loops of \<open>uart_b2x\<close> and \<open>print_hex64\<close> count \<open>i = 4 * k\<close> down in steps of 4:
  \<open>Suc k\<close> nibbles are left.\<close>

primrec b2x_loop :: "nat \<Rightarrow> u32 \<Rightarrow> 'a machine_scheme \<Rightarrow> 'a machine_scheme option" where
  "b2x_loop 0 b s = Some s"
| "b2x_loop (Suc k) b s =
     (let t = drop_bit (4 * k) b AND 0xF;
          t = t + (if t > 9 then 0x37 else 0x30)
      in do { s \<leftarrow> uart_putc (ucast t) s; b2x_loop k b s })"

definition uart_b2x :: "u32 \<Rightarrow> 'a machine_scheme \<Rightarrow> 'a machine_scheme option" where
  "uart_b2x b s = do { s \<leftarrow> uart_puts (lit ''0x'') s; b2x_loop 8 b s }"

primrec hex64_loop :: "nat \<Rightarrow> u64 \<Rightarrow> 'a machine_scheme \<Rightarrow> 'a machine_scheme option" where
  "hex64_loop 0 val s = Some s"
| "hex64_loop (Suc k) val s =
     (let t = drop_bit (4 * k) val AND 0xF;
          t = t + (if t > 9 then 0x37 else 0x30)
      in do { s \<leftarrow> uart_putc (ucast t) s; hex64_loop k val s })"

definition print_hex64 :: "u64 \<Rightarrow> 'a machine_scheme \<Rightarrow> 'a machine_scheme option" where
  "print_hex64 val s = do { s \<leftarrow> uart_puts (lit ''0x'') s; hex64_loop 16 val s }"

text \<open>\<open>n\<close> of the \<open>len\<close> bytes from \<open>str\<close> on are left.\<close>

primrec puts_fixed_loop :: "nat \<Rightarrow> u64 \<Rightarrow> 'a machine_scheme \<Rightarrow> 'a machine_scheme option" where
  "puts_fixed_loop 0 str s = Some s"
| "puts_fixed_loop (Suc n) str s =
     do { s \<leftarrow> uart_putc (mem s str) s; puts_fixed_loop n (str + 1) s }"

definition uart_puts_fixed :: "u64 \<Rightarrow> u64 \<Rightarrow> 'a machine_scheme \<Rightarrow> 'a machine_scheme option" where
  "uart_puts_fixed str len s = puts_fixed_loop (unat len) str s"

section \<open>The interface: an append-only byte sink\<close>

text \<open>\<open>emits s cs s'\<close>: going from \<open>s\<close> to \<open>s'\<close> wrote the bytes \<open>cs\<close>, in order, and
  changed nothing else the client can see. \<open>prints f cs\<close>: the operation \<open>f\<close> emits exactly
  \<open>cs\<close> whenever it returns, and it returns whenever the sink is live.\<close>

locale byte_sink =
  fixes put :: "u8 \<Rightarrow> 's \<Rightarrow> 's option"
    and emits :: "'s \<Rightarrow> u8 list \<Rightarrow> 's \<Rightarrow> bool"
    and live :: "'s \<Rightarrow> bool"
  assumes put_emits: "put c s = Some s' \<Longrightarrow> emits s [c] s'"
    and put_returns: "live s \<Longrightarrow> \<exists>s'. put c s = Some s'"
    and emits_refl: "emits s [] s"
    and emits_trans: "emits s cs s' \<Longrightarrow> emits s' ds s'' \<Longrightarrow> emits s (cs @ ds) s''"
    and emits_live: "emits s cs s' \<Longrightarrow> live s \<Longrightarrow> live s'"
begin

definition prints :: "('s \<Rightarrow> 's option) \<Rightarrow> u8 list \<Rightarrow> bool" where
  "prints f cs \<longleftrightarrow> (\<forall>s s'. f s = Some s' \<longrightarrow> emits s cs s') \<and> (\<forall>s. live s \<longrightarrow> (\<exists>s'. f s = Some s'))"

lemma prints_put: "prints (put c) [c]"
  by (simp add: prints_def put_emits put_returns)

lemma prints_nothing: "prints Some []"
  by (simp add: prints_def emits_refl)

lemma prints_bind:
  assumes "prints f cs" "prints g ds"
  shows "prints (\<lambda>s. Option.bind (f s) g) (cs @ ds)"
  unfolding prints_def
proof (intro conjI allI impI)
  fix s s'
  assume "Option.bind (f s) g = Some s'"
  then obtain t where "f s = Some t" "g t = Some s'" by (auto simp: bind_eq_Some_conv)
  then show "emits s (cs @ ds) s'"
    using assms unfolding prints_def by (blast intro: emits_trans)
next
  fix s
  assume l: "live s"
  then obtain t where t: "f s = Some t" "emits s cs t"
    using assms(1) unfolding prints_def by blast
  with l have "live t" by (blast intro: emits_live)
  then obtain s' where "g t = Some s'"
    using assms(2) unfolding prints_def by blast
  with t show "\<exists>s'. Option.bind (f s) g = Some s'" by simp
qed

lemma prints_ext: "prints g cs \<Longrightarrow> (\<And>s. f s = g s) \<Longrightarrow> prints f cs"
  by (simp add: prints_def)

lemma prints_then:
  "prints f cs \<Longrightarrow> prints g ds \<Longrightarrow> (\<And>s. h s = Option.bind (f s) g) \<Longrightarrow> prints h (cs @ ds)"
  by (rule prints_ext [OF prints_bind])

lemma prints_emits: "prints f cs \<Longrightarrow> f s = Some s' \<Longrightarrow> emits s cs s'"
  by (simp add: prints_def)

lemma prints_total: "prints f cs \<Longrightarrow> live s \<Longrightarrow> \<exists>s'. f s = Some s' \<and> emits s cs s' \<and> live s'"
  unfolding prints_def by (blast dest: emits_live)

text \<open>The same for one run: \<open>says r s cs\<close> is about the result \<open>r\<close> of an operation started in
  \<open>s\<close>, whose later parts may depend on what the earlier ones left.\<close>

definition says :: "'s option \<Rightarrow> 's \<Rightarrow> u8 list \<Rightarrow> bool" where
  "says r s cs \<longleftrightarrow> (\<forall>t. r = Some t \<longrightarrow> emits s cs t) \<and> (live s \<longrightarrow> r \<noteq> None)"

lemma says_prints: "prints f cs \<Longrightarrow> says (f s) s cs"
  by (auto simp: says_def prints_def)

lemma says_nothing: "says (Some s) s []"
  by (simp add: says_def emits_refl)

lemma says_bind:
  assumes "says r s cs" "\<And>t. emits s cs t \<Longrightarrow> says (g t) t ds"
  shows "says (Option.bind r g) s (cs @ ds)"
  unfolding says_def
proof (intro conjI allI impI)
  fix t
  assume "Option.bind r g = Some t"
  then obtain u where u: "r = Some u" "g u = Some t" by (auto simp: bind_eq_Some_conv)
  with assms(1) have "emits s cs u" by (simp add: says_def)
  with assms(2) u show "emits s (cs @ ds) t" by (auto simp: says_def intro: emits_trans)
next
  assume l: "live s"
  with assms(1) obtain u where u: "r = Some u" "emits s cs u" by (auto simp: says_def)
  with l have "live u" by (blast intro: emits_live)
  with assms(2) u show "Option.bind r g \<noteq> None" by (auto simp: says_def)
qed

lemma says_total: "says r s cs \<Longrightarrow> live s \<Longrightarrow> \<exists>t. r = Some t \<and> emits s cs t \<and> live t"
  by (auto simp: says_def intro: emits_live)

lemma says_emits: "says r s cs \<Longrightarrow> r = Some t \<Longrightarrow> emits s cs t"
  by (simp add: says_def)

text \<open>An operation that goes on, with any result, after it has said something.\<close>

lemma says_continue:
  assumes "says r s cs" "live s"
  obtains t where "emits s cs t" "live t" "Option.bind r g = g t"
  using says_total [OF assms] by auto

text \<open>Straight-line code that prints and then goes on with any result: \<open>says_step\<close> passes one
  printing call, \<open>says_last\<close> the last one.\<close>

lemma says_last:
  assumes "says r s cs" "live s"
  shows "\<exists>t. emits s cs t \<and> live t \<and> Option.bind r k = k t"
  using says_total [OF assms] by auto

lemma says_step:
  assumes "says r s cs" "live s"
    and "\<And>u. emits s cs u \<Longrightarrow> live u \<Longrightarrow> \<exists>t. emits u ds t \<and> live t \<and> g u = k t"
  shows "\<exists>t. emits s (cs @ ds) t \<and> live t \<and> Option.bind r g = k t"
proof -
  obtain u where u: "r = Some u" "emits s cs u" "live u" using says_total [OF assms(1,2)] by blast
  with assms(3) obtain t where "emits u ds t" "live t" "g u = k t" by blast
  with u show ?thesis by (auto intro: emits_trans)
qed

lemma says_end: "live s \<Longrightarrow> \<exists>t. emits s [] t \<and> live t \<and> k s = k t"
  using emits_refl by blast

end

definition uart_emits :: "'a machine_scheme \<Rightarrow> u8 list \<Rightarrow> 'a machine_scheme \<Rightarrow> bool" where
  "uart_emits s cs s' \<longleftrightarrow>
     (\<exists>k. s' = s\<lparr>uart_rd := k, uart_wr := uart_wr s @ map (Pair UART_THR) cs\<rparr>)"

text \<open>The transmitter becomes idle again and again.\<close>

definition uart_live :: "'a machine_scheme \<Rightarrow> bool" where
  "uart_live s \<longleftrightarrow> (\<forall>n. \<exists>k\<ge>n. uart_in s k UART_LSR AND LSR_TX_IDLE \<noteq> 0)"

section \<open>The wait loop\<close>

lemma uart_wait_finds:
  assumes "\<And>j. uart_rd s \<le> j \<Longrightarrow> j < k \<Longrightarrow> uart_in s j UART_LSR AND bits = 0"
    and "uart_in s k UART_LSR AND bits \<noteq> 0" and "uart_rd s \<le> k"
  shows "uart_wait bits s = Some (s\<lparr>uart_rd := Suc k\<rparr>)"
  using assms
proof (induction "k - uart_rd s" arbitrary: s)
  case 0
  then show ?case by (subst uart_wait.simps) (simp add: uart_read_def)
next
  case (Suc d)
  have "uart_wait bits (s\<lparr>uart_rd := Suc (uart_rd s)\<rparr>) = Some (s\<lparr>uart_rd := Suc k\<rparr>)"
    using Suc by (subst Suc.hyps(1)) auto
  moreover have "uart_in s (uart_rd s) UART_LSR AND bits = 0" using Suc by simp
  ultimately show ?case by (subst uart_wait.simps) (simp add: uart_read_def)
qed

lemma uart_wait_Some:
  assumes "uart_wait bits s = Some s'"
  shows "\<exists>k\<ge>uart_rd s. s' = s\<lparr>uart_rd := Suc k\<rparr> \<and> uart_in s k UART_LSR AND bits \<noteq> 0"
  using assms
proof (rule uart_wait.raw_induct [rotated])
  fix loop and bits and s s' :: "'a machine_scheme"
  assume IH: "\<And>bits s s'. loop bits s = Some s' \<Longrightarrow>
      \<exists>k\<ge>uart_rd s. s' = s\<lparr>uart_rd := Suc k\<rparr> \<and> uart_in s k UART_LSR AND bits \<noteq> 0"
    and eq: "(let (v, s) = uart_read UART_LSR s in
        if v AND bits \<noteq> 0 then Some s else loop bits s) = Some s'"
  show "\<exists>k\<ge>uart_rd s. s' = s\<lparr>uart_rd := Suc k\<rparr> \<and> uart_in s k UART_LSR AND bits \<noteq> 0"
  proof (cases "uart_in s (uart_rd s) UART_LSR AND bits = 0")
    case True
    with eq have "loop bits (s\<lparr>uart_rd := Suc (uart_rd s)\<rparr>) = Some s'"
      by (simp add: uart_read_def)
    from IH [OF this] show ?thesis by (auto intro: Suc_leD)
  next
    case False
    with eq show ?thesis by (auto simp: uart_read_def)
  qed
qed

lemma uart_wait_returns_iff:
  "(\<exists>s'. uart_wait bits s = Some s') \<longleftrightarrow> (\<exists>k\<ge>uart_rd s. uart_in s k UART_LSR AND bits \<noteq> 0)"
proof
  assume ex: "\<exists>k\<ge>uart_rd s. uart_in s k UART_LSR AND bits \<noteq> 0"
  let ?P = "\<lambda>k. uart_rd s \<le> k \<and> uart_in s k UART_LSR AND bits \<noteq> 0"
  have "\<exists>k. ?P k" using ex by blast
  then obtain k where k: "?P k" "\<And>j. j < k \<Longrightarrow> \<not> ?P j"
    using exists_least_iff [of ?P] by blast
  then have "uart_wait bits s = Some (s\<lparr>uart_rd := Suc k\<rparr>)"
    by (intro uart_wait_finds) simp_all
  then show "\<exists>s'. uart_wait bits s = Some s'" by blast
qed (blast dest: uart_wait_Some)

lemma uart_putc_emits: "uart_putc c s = Some s' \<Longrightarrow> uart_emits s [c] s'"
  by (auto simp: uart_putc_def uart_emits_def uart_write_def bind_eq_Some_conv dest!: uart_wait_Some)

lemma uart_putc_returns: "uart_live s \<Longrightarrow> \<exists>s'. uart_putc c s = Some s'"
proof -
  assume "uart_live s"
  then obtain s' where "uart_wait LSR_TX_IDLE s = Some s'"
    using uart_wait_returns_iff [of LSR_TX_IDLE s] unfolding uart_live_def by blast
  then show ?thesis by (simp add: uart_putc_def)
qed

interpretation uart: byte_sink uart_putc uart_emits uart_live
proof unfold_locales
  fix c and s s' :: "'a machine_scheme"
  show "uart_putc c s = Some s' \<Longrightarrow> uart_emits s [c] s'" by (rule uart_putc_emits)
  show "uart_live s \<Longrightarrow> \<exists>s'. uart_putc c s = Some s'" by (rule uart_putc_returns)
  show "uart_emits s [] s" by (auto simp: uart_emits_def intro: exI [of _ "uart_rd s"])
next
  fix s s' s'' :: "'a machine_scheme" and cs ds
  show "uart_emits s cs s' \<Longrightarrow> uart_emits s' ds s'' \<Longrightarrow> uart_emits s (cs @ ds) s''"
    by (auto simp: uart_emits_def)
  show "uart_emits s cs s' \<Longrightarrow> uart_live s \<Longrightarrow> uart_live s'"
    by (auto simp: uart_emits_def uart_live_def)
qed

section \<open>What each printing function prints\<close>

lemma prints_uart_puts: "uart.prints (uart_puts str) (takeWhile (\<lambda>c. c \<noteq> 0) str)"
proof (induction str)
  case Nil
  show ?case
    unfolding takeWhile.simps by (rule uart.prints_ext [OF uart.prints_nothing]) simp
next
  case (Cons c str)
  show ?case
  proof (cases "c = 0")
    case True
    then show ?thesis by (simp add: uart.prints_ext [OF uart.prints_nothing])
  next
    case False
    then have e: "takeWhile (\<lambda>c. c \<noteq> 0) (c # str) = [c] @ takeWhile (\<lambda>c. c \<noteq> 0) str" by simp
    from False show ?thesis
      unfolding e by (intro uart.prints_then [OF uart.prints_put Cons]) simp
  qed
qed

lemma takeWhile_lit: "0 \<notin> set (lit str) \<Longrightarrow> takeWhile (\<lambda>c. c \<noteq> 0) (lit str) = lit str"
  by (auto simp: takeWhile_eq_all_conv)

lemma put_rev_prints: "n \<le> length buf \<Longrightarrow> uart.prints (put_rev buf n) (rev (take n buf))"
proof (induction n)
  case 0
  show ?case by (simp add: uart.prints_ext [OF uart.prints_nothing])
next
  case (Suc n)
  then have e: "rev (take (Suc n) buf) = [buf ! n] @ rev (take n buf)" and n: "n \<le> length buf"
    by (simp_all add: take_Suc_conv_app_nth)
  show ?case
    unfolding e by (rule uart.prints_then [OF uart.prints_put Suc.IH [OF n]]) simp
qed

text \<open>Decimal text: its digits, least significant first, and the number it denotes.\<close>

fun nat_digits :: "nat \<Rightarrow> u8 list" where
  "nat_digits n = (if n = 0 then [] else (48 + of_nat (n mod 10)) # nat_digits (n div 10))"

declare nat_digits.simps [simp del]

definition dec_num :: "u8 list \<Rightarrow> nat" where
  "dec_num cs = foldl (\<lambda>r c. 10 * r + (unat c - 48)) 0 cs"

lemma dec_num_snoc [simp]: "dec_num (cs @ [c]) = 10 * dec_num cs + (unat c - 48)"
  by (simp add: dec_num_def)

lemma ucast_mod10: "(ucast (num mod 10) :: u8) = of_nat (unat (num mod (10 :: 'n::len word)))"
  by simp

lemma dec_digits64_nat: "dec_digits64 num = nat_digits (unat num)"
proof (induction num rule: dec_digits64.induct)
  case (1 num)
  then show ?case
    by (subst dec_digits64.simps, subst nat_digits.simps)
      (auto simp: unat_div_distrib unat_mod_distrib unat_0_iff word_gt_0 ucast_mod10)
qed

lemma dec_digits32_nat: "dec_digits32 num = nat_digits (unat num)"
proof (induction num rule: dec_digits32.induct)
  case (1 num)
  then show ?case
    by (subst dec_digits32.simps, subst nat_digits.simps)
      (auto simp: unat_div_distrib unat_mod_distrib unat_0_iff word_gt_0 ucast_mod10)
qed

lemma unat_digit: "d < 10 \<Longrightarrow> unat (48 + of_nat d :: u8) = 48 + d"
  by (simp add: unat_word_ariths unat_of_nat)

lemma nat_digits_num: "dec_num (rev (nat_digits n)) = n"
proof (induction n rule: nat_digits.induct)
  case (1 n)
  then show ?case
    by (subst nat_digits.simps) (auto simp: unat_digit dec_num_def)
qed

lemma nat_digits_are_digits: "c \<in> set (nat_digits n) \<Longrightarrow> 48 \<le> unat c \<and> unat c \<le> 57"
proof (induction n rule: nat_digits.induct)
  case (1 n)
  have "unat (48 + of_nat (n mod 10) :: u8) = 48 + n mod 10" by (rule unat_digit) simp
  moreover have "n mod 10 \<le> 9"
    using mod_less_divisor [of 10 n] by linarith
  ultimately show ?case
    using 1 by (subst (asm) nat_digits.simps) (auto split: if_splits)
qed

lemma nat_digits_length: "n < 10 ^ k \<Longrightarrow> length (nat_digits n) \<le> k"
proof (induction n arbitrary: k rule: nat_digits.induct)
  case (1 n)
  show ?case
  proof (cases "n = 0")
    case True
    then show ?thesis by (subst nat_digits.simps) simp
  next
    case False
    with 1(2) obtain j where k: "k = Suc j" by (cases k) auto
    with 1(2) have "n div 10 < 10 ^ j" by (simp add: less_mult_imp_div_less mult.commute)
    with 1(1) False k show ?thesis by (subst nat_digits.simps) simp
  qed
qed

lemma nat_digits_no_leading_zero: "n \<noteq> 0 \<Longrightarrow> last (nat_digits n) \<noteq> 48"
proof (induction n rule: nat_digits.induct)
  case (1 n)
  show ?case
  proof (cases "n div 10 = 0")
    case True
    then have n: "n < 10" "n mod 10 = n" by auto
    have "unat (48 + of_nat n :: u8) \<noteq> unat (48 :: u8)"
      using n(1) 1(2) by (subst unat_digit) auto
    then have "(48 + of_nat n :: u8) \<noteq> 48" by metis
    with 1(2) True n show ?thesis
      by (subst nat_digits.simps, subst nat_digits.simps) simp
  next
    case False
    then have "nat_digits (n div 10) \<noteq> []" by (subst nat_digits.simps) simp
    with 1 False show ?thesis by (subst nat_digits.simps) simp
  qed
qed

lemma put_rev_nat_digits: "uart.prints (put_rev (nat_digits n) (length (nat_digits n))) (rev (nat_digits n))"
  using put_rev_prints [of "length (nat_digits n)" "nat_digits n"] by simp

definition dec_text :: "nat \<Rightarrow> u8 list" where
  "dec_text n = (if n = 0 then [48] else rev (nat_digits n))"

lemma uart_dec_prints: "uart.prints (uart_dec num) (dec_text (unat num))"
proof (cases "num = 0")
  case True
  then have "dec_text (unat num) = [48]" by (simp add: dec_text_def)
  with True show ?thesis by (auto simp: uart_dec_def intro: uart.prints_ext [OF uart.prints_put])
next
  case False
  then have e: "dec_text (unat num) = rev (nat_digits (unat num))" by (simp add: dec_text_def unat_0_iff)
  from False show ?thesis
    unfolding e by (intro uart.prints_ext [OF put_rev_nat_digits]) (simp add: uart_dec_def dec_digits32_nat Let_def)
qed

lemma uart_dec64_prints: "uart.prints (uart_dec64 num) (dec_text (unat num))"
proof (cases "num = 0")
  case True
  then have "dec_text (unat num) = [48]" by (simp add: dec_text_def)
  with True show ?thesis by (auto simp: uart_dec64_def intro: uart.prints_ext [OF uart.prints_put])
next
  case False
  then have e: "dec_text (unat num) = rev (nat_digits (unat num))" by (simp add: dec_text_def unat_0_iff)
  from False show ?thesis
    unfolding e by (intro uart.prints_ext [OF put_rev_nat_digits]) (simp add: uart_dec64_def dec_digits64_nat Let_def)
qed

text \<open>Fixed-width upper-case hexadecimal text.\<close>

definition hex_char :: "nat \<Rightarrow> u8" where
  "hex_char d = (if d > 9 then of_nat (d + 55) else of_nat (d + 48))"

primrec hex_text :: "nat \<Rightarrow> nat \<Rightarrow> u8 list" where
  "hex_text 0 n = []"
| "hex_text (Suc k) n = hex_char (n div 16 ^ k mod 16) # hex_text k n"

lemma length_hex_text [simp]: "length (hex_text k n) = k"
  by (induction k) auto

lemma hex_val_char: "d < 16 \<Longrightarrow> hex_val (hex_char d) = Some d"
  by (auto simp: hex_char_def hex_val_def word_le_nat_alt unat_word_ariths unat_of_nat)

lemma hex_text_is_hex: "c \<in> set (hex_text k n) \<Longrightarrow> is_hex c"
  by (induction k) (auto simp: is_hex_def hex_val_char)

lemma hex_num_text: "hex_num (hex_text k n) = n mod 16 ^ k"
proof (induction k)
  case (Suc k)
  have "n mod (16 ^ k * 16) = 16 ^ k * (n div 16 ^ k mod 16) + n mod 16 ^ k"
    by (rule mod_mult2_eq)
  with Suc show ?case by (simp add: hex_num_Cons hex_val_char mult.commute)
qed simp

lemma nibble_char:
  fixes b :: "'n::len word"
  assumes "8 \<le> LENGTH('n)"
  shows "ucast ((drop_bit (4 * k) b AND 0xF) + (if drop_bit (4 * k) b AND 0xF > 9 then 0x37 else 0x30))
    = hex_char (unat b div 16 ^ k mod 16)"
proof -
  define t where "t = drop_bit (4 * k) b AND 0xF"
  have big: "256 \<le> (2::nat) ^ LENGTH('n)"
    using power_increasing [OF assms, of "2::nat"] by simp
  have m: "(0xF :: 'n word) = mask 4" by (simp add: mask_eq_exp_minus_1)
  have t: "unat t = unat b div 16 ^ k mod 16"
    by (simp add: t_def m and_mask_eq_take unat_take_bit unat_drop_bit power_mult)
  then have lt: "unat t < 16" by simp
  have n: "unat (9 :: 'n word) = 9" "unat (0x37 :: 'n word) = 0x37" "unat (0x30 :: 'n word) = 0x30"
    using big by (simp_all only: unat_numeral mod_less [OF less_le_trans [OF _ big]])
  have "unat (t + (if t > 9 then 0x37 else 0x30)) = unat t + (if unat t > 9 then 55 else 48)"
    using lt big n by (subst unat_add_nowrap) (auto simp: word_less_nat_alt)
  then have "(of_nat (unat (t + (if t > 9 then 0x37 else 0x30))) :: u8) = hex_char (unat t)"
    by (simp only: hex_char_def) simp
  then show ?thesis unfolding of_nat_unat t unfolding t_def .
qed

lemma b2x_loop_prints: "uart.prints (b2x_loop k b) (hex_text k (unat b))"
proof (induction k)
  case 0
  show ?case by (simp add: uart.prints_ext [OF uart.prints_nothing])
next
  case (Suc k)
  have "b2x_loop (Suc k) b s =
      Option.bind (uart_putc (hex_char (unat b div 16 ^ k mod 16)) s) (b2x_loop k b)"
    for s :: "'a machine_scheme"
    by (simp add: Let_def nibble_char)
  from uart.prints_then [OF uart.prints_put Suc.IH this] show ?case
    by (simp only: hex_text.simps append_Cons append_Nil)
qed

lemma hex64_loop_prints: "uart.prints (hex64_loop k b) (hex_text k (unat b))"
proof (induction k)
  case 0
  show ?case by (simp add: uart.prints_ext [OF uart.prints_nothing])
next
  case (Suc k)
  have "hex64_loop (Suc k) b s =
      Option.bind (uart_putc (hex_char (unat b div 16 ^ k mod 16)) s) (hex64_loop k b)"
    for s :: "'a machine_scheme"
    by (simp add: Let_def nibble_char)
  from uart.prints_then [OF uart.prints_put Suc.IH this] show ?case
    by (simp only: hex_text.simps append_Cons append_Nil)
qed

lemma prints_puts_lit: "0 \<notin> set (lit str) \<Longrightarrow> uart.prints (uart_puts (lit str)) (lit str)"
  using prints_uart_puts [of "lit str"] by (simp add: takeWhile_lit)

lemma uart_b2x_prints: "uart.prints (uart_b2x b) (lit ''0x'' @ hex_text 8 (unat b))"
  by (rule uart.prints_then [OF prints_puts_lit b2x_loop_prints]) (simp_all only: uart_b2x_def, simp)

lemma print_hex64_prints: "uart.prints (print_hex64 b) (lit ''0x'' @ hex_text 16 (unat b))"
  by (rule uart.prints_then [OF prints_puts_lit hex64_loop_prints]) (simp_all only: print_hex64_def, simp)

lemma puts_fixed_loop_emits:
  "puts_fixed_loop n str s = Some s' \<Longrightarrow> uart_emits s (bytes (mem s) str n) s'"
proof (induction n arbitrary: str s)
  case 0
  then show ?case by (simp add: uart.emits_refl bytes_def)
next
  case (Suc n)
  then obtain t where t: "uart_putc (mem s str) s = Some t" "puts_fixed_loop n (str + 1) t = Some s'"
    by (auto simp: bind_eq_Some_conv)
  from uart_putc_emits [OF t(1)] have e: "uart_emits s [mem s str] t" and m: "mem t = mem s"
    by (auto simp: uart_emits_def)
  have "bytes (mem s) str (Suc n) = [mem s str] @ bytes (mem s) (str + 1) n"
    by (simp add: bytes_def upt_conv_Cons map_Suc_upt [symmetric] add.assoc del: upt_Suc map_Suc_upt)
  then show ?case
    using uart.emits_trans [OF e Suc.IH [OF t(2)]] m by simp
qed

lemma uart_emits_mem: "uart_emits s cs t \<Longrightarrow> mem t = mem s"
  by (auto simp: uart_emits_def)

lemma zero_in_lit: "0 \<in> set (lit str) \<longleftrightarrow> CHR 0x00 \<in> set str"
proof -
  have "of_char c = (0 :: u8) \<longleftrightarrow> c = CHR 0x00" for c
  proof
    assume "of_char c = (0 :: u8)"
    moreover have "(of_char c :: u8) = of_nat (of_char c)"
      by (cases c) (simp add: of_char_def)
    moreover have "(of_char c :: nat) < 2 ^ LENGTH(8)" by simp
    ultimately have "(of_char c :: nat) = 0" by (metis unat_of_nat_lt unat_0)
    then have "(of_char c :: nat) = of_char (CHR 0x00)" by simp
    then show "c = CHR 0x00" by (simp only: of_char_eq_iff)
  qed simp
  then show ?thesis unfolding lit_def set_map image_iff by metis
qed

lemma says_puts: "CHR 0x00 \<notin> set str \<Longrightarrow> uart.says (uart_puts (lit str) s) s (lit str)"
  by (rule uart.says_prints [OF prints_puts_lit]) (simp add: zero_in_lit)

lemma says_putc: "uart.says (uart_putc c s) s [c]"
  by (rule uart.says_prints [OF uart.prints_put])

lemma says_hex64: "uart.says (print_hex64 b s) s (lit ''0x'' @ hex_text 16 (unat b))"
  by (rule uart.says_prints [OF print_hex64_prints])

lemma says_b2x: "uart.says (uart_b2x b s) s (lit ''0x'' @ hex_text 8 (unat b))"
  by (rule uart.says_prints [OF uart_b2x_prints])

lemma says_dec64: "uart.says (uart_dec64 b s) s (dec_text (unat b))"
  by (rule uart.says_prints [OF uart_dec64_prints])

lemma says_dec: "uart.says (uart_dec b s) s (dec_text (unat b))"
  by (rule uart.says_prints [OF uart_dec_prints])

lemmas says_intros = says_puts says_putc says_hex64 says_b2x says_dec64 says_dec uart.says_nothing

section \<open>Input\<close>

lemma uart_getc_frame:
  "uart_getc s = Some (c, s') \<Longrightarrow> \<exists>k. s' = s\<lparr>uart_rd := k\<rparr>"
  by (auto simp: uart_getc_def uart_read_def bind_eq_Some_conv dest!: uart_wait_Some)

lemma uart_gets_loop_frame:
  assumes "uart_gets_loop n buf i s = Some (j, s')"
  shows "i \<le> j \<and> j \<le> i + n \<and>
    (\<exists>k m. s' = s\<lparr>uart_rd := k, mem := m\<rparr> \<and> (\<forall>x. m x \<noteq> mem s x \<longrightarrow> (\<exists>l. i \<le> l \<and> l < j \<and> x = buf + of_nat l)))"
  using assms
proof (induction n arbitrary: i s)
  case 0
  then show ?case by (auto intro!: exI [of _ "uart_rd s"] exI [of _ "mem s"])
next
  case (Suc n)
  then obtain c t where c: "uart_getc s = Some (c, t)" by (auto simp: bind_eq_Some_conv)
  then obtain k0 where t: "t = s\<lparr>uart_rd := k0\<rparr>" by (auto dest: uart_getc_frame)
  show ?case
  proof (cases "c = 10 \<or> c = 13")
    case True
    with Suc.prems c t show ?thesis
      by (auto intro!: exI [of _ k0] exI [of _ "mem s"])
  next
    case False
    with Suc.prems c
    have r: "uart_gets_loop n buf (Suc i) (t\<lparr>mem := (mem t)(buf + of_nat i := c)\<rparr>) = Some (j, s')"
      by simp
    from Suc.IH [OF r] obtain k m where j: "Suc i \<le> j" "j \<le> Suc i + n"
      and s': "s' = s\<lparr>uart_rd := k, mem := m\<rparr>"
      and m: "\<And>x. m x \<noteq> ((mem s)(buf + of_nat i := c)) x \<Longrightarrow> \<exists>l. Suc i \<le> l \<and> l < j \<and> x = buf + of_nat l"
      by (auto simp: t)
    have "\<exists>l. i \<le> l \<and> l < j \<and> x = buf + of_nat l" if "m x \<noteq> mem s x" for x
    proof (cases "x = buf + of_nat i")
      case True
      with j show ?thesis by auto
    next
      case False
      with that have "m x \<noteq> ((mem s)(buf + of_nat i := c)) x" by simp
      from m [OF this] obtain l where "Suc i \<le> l" "l < j" "x = buf + of_nat l" by blast
      then show ?thesis by (intro exI [of _ l]) simp
    qed
    with j s' show ?thesis by auto
  qed
qed

lemma uart_gets_frame:
  assumes "uart_gets buf maxlen s = Some (i, s')"
  shows "i \<le> nat (maxlen - 1)" "mem s' (buf + of_nat i) = 0"
    "mem s' x \<noteq> mem s x \<Longrightarrow> \<exists>l\<le>i. x = buf + of_nat l"
proof -
  obtain t where t: "uart_gets_loop (nat (maxlen - 1)) buf 0 s = Some (i, t)"
    and s': "s' = t\<lparr>mem := (mem t)(buf + of_nat i := 0)\<rparr>"
    using assms by (auto simp: uart_gets_def bind_eq_Some_conv)
  from uart_gets_loop_frame [OF t] obtain k m where i: "i \<le> nat (maxlen - 1)"
    and m: "t = s\<lparr>uart_rd := k, mem := m\<rparr>"
      "\<forall>x. m x \<noteq> mem s x \<longrightarrow> (\<exists>l. 0 \<le> l \<and> l < i \<and> x = buf + of_nat l)"
    by auto
  show "i \<le> nat (maxlen - 1)" by (rule i)
  show "mem s' (buf + of_nat i) = 0" by (simp add: s')
  show "mem s' x \<noteq> mem s x \<Longrightarrow> \<exists>l\<le>i. x = buf + of_nat l"
    using m(2) by (cases "x = buf + of_nat i") (auto simp: s' m(1) intro: less_imp_le_nat)
qed

section \<open>Properties\<close>

lemma h2i_reads_hex_text:
  assumes "bytes m str 8 = hex_text 8 n" "n < 2 ^ 32"
  shows "unat (h2i m str 8) = n"
  using assms h2i_value [of 8 m str] hex_text_is_hex [of _ 8 n] by (simp add: hex_num_text)

lemma dec_num_text: "dec_num (dec_text n) = n"
  using nat_digits_num [of n] by (auto simp: dec_text_def dec_num_def)

lemma dec_text_shape:
  "dec_text n \<noteq> []" "c \<in> set (dec_text n) \<Longrightarrow> 48 \<le> unat c \<and> unat c \<le> 57" "n \<noteq> 0 \<Longrightarrow> hd (dec_text n) \<noteq> 48"
proof -
  show "dec_text n \<noteq> []" using dec_num_text [of n] by (auto simp: dec_text_def dec_num_def)
  show "c \<in> set (dec_text n) \<Longrightarrow> 48 \<le> unat c \<and> unat c \<le> 57"
    using nat_digits_are_digits [of c n] by (auto simp: dec_text_def split: if_splits)
  show "n \<noteq> 0 \<Longrightarrow> hd (dec_text n) \<noteq> 48"
    using nat_digits_no_leading_zero [of n] by (auto simp: dec_text_def hd_rev)
qed

text \<open>
  C36. Numbers survive the console. On a live console \<open>uart_b2x\<close> returns and puts on the line, after its prefix,
  eight characters that the kernel's own \<open>h2i\<close> reads back as the number printed; \<open>uart_dec64\<close> returns and puts
  out a decimal numeral of exactly the number, without leading zero.
\<close>

theorem numbers_read_back:
  assumes "uart_live s"
  shows "(\<exists>s' cs. uart_b2x b s = Some s' \<and> uart_emits s (lit ''0x'' @ cs) s' \<and> length cs = 8 \<and>
      (\<forall>m str. bytes m str 8 = cs \<longrightarrow> h2i m str 8 = b)) \<and>
    (\<exists>s' cs. uart_dec64 n s = Some s' \<and> uart_emits s cs s' \<and> cs \<noteq> [] \<and> dec_num cs = unat n \<and>
      (\<forall>c\<in>set cs. 48 \<le> unat c \<and> unat c \<le> 57) \<and> (n \<noteq> 0 \<longrightarrow> hd cs \<noteq> 48))"
proof
  obtain s' where "uart_b2x b s = Some s'" "uart_emits s (lit ''0x'' @ hex_text 8 (unat b)) s'"
    using uart.says_total [OF says_b2x assms] by blast
  moreover have "h2i m str 8 = b" if "bytes m str 8 = hex_text 8 (unat b)" for m str
    using h2i_reads_hex_text [OF that] unat_lt_32 [of b] by (simp add: word_unat_eq_iff)
  ultimately show "\<exists>s' cs. uart_b2x b s = Some s' \<and> uart_emits s (lit ''0x'' @ cs) s' \<and> length cs = 8 \<and>
      (\<forall>m str. bytes m str 8 = cs \<longrightarrow> h2i m str 8 = b)"
    by (intro exI [of _ s'] exI [of _ "hex_text 8 (unat b)"]) simp
  obtain t where "uart_dec64 n s = Some t" "uart_emits s (dec_text (unat n)) t"
    using uart.says_total [OF says_dec64 assms] by blast
  then show "\<exists>s' cs. uart_dec64 n s = Some s' \<and> uart_emits s cs s' \<and> cs \<noteq> [] \<and> dec_num cs = unat n \<and>
      (\<forall>c\<in>set cs. 48 \<le> unat c \<and> unat c \<le> 57) \<and> (n \<noteq> 0 \<longrightarrow> hd cs \<noteq> 48)"
    using dec_text_shape [where n = "unat n"] dec_num_text [of "unat n"]
    by (intro exI [of _ t] exI [of _ "dec_text (unat n)"]) (simp add: unat_eq_0)
qed

definition demo_console :: machine where
  "demo_console = \<lparr>mem = (\<lambda>_. 0), sstatus = 0, mie = 0, mip = 0, stvec = 0, satp = 0, time_in = (\<lambda>_. 0), time_rd = 0,
     mtimecmp = 0, uart_in = (\<lambda>_ _. 96), uart_rd = 0, uart_wr = []\<rparr>"

theorem numbers_read_back_witness:
  "\<exists>s' cs. uart_dec64 1024 demo_console = Some s' \<and> uart_emits demo_console cs s' \<and> dec_num cs = 1024"
proof -
  have "uart_live demo_console" by (auto simp: uart_live_def demo_console_def LSR_TX_IDLE_def)
  from numbers_read_back [OF this, of 0 1024] show ?thesis by fastforce
qed

end
