(* ===== verification/Mem_Ops.thy ===== *)
theory Mem_Ops
  imports Machine
begin

text \<open>
  The byte-block operations at the two ends of \<^verbatim>\<open>src/src/kernel/mem.c\<close> (\<open>memset\<close>,
  \<open>mem_set\<close>, \<open>mem_copy\<close>, \<open>mem_compare\<close>) and \<open>mem_zero\<close> of
  \<^verbatim>\<open>src/src/driver/virt_mmio.c\<close>, over the shared byte memory. The loops count with a
  32-bit index as the code does. The lemmas give each operation's effect on every byte of
  memory, and the value of the comparison.
\<close>

section \<open>Definitions\<close>

text \<open>The three filling functions have one and the same loop.\<close>

function fill_loop :: "u64 \<Rightarrow> u8 \<Rightarrow> u32 \<Rightarrow> u32 \<Rightarrow> memory \<Rightarrow> memory" where
  "fill_loop ptr val sz i m =
     (if i < sz then fill_loop ptr val sz (i + 1) (m(ptr + ucast i := val)) else m)"
  by pat_completeness auto
termination
  by (relation "measure (\<lambda>(ptr, val, sz, i, m). unat sz - unat i)")
    (auto simp: unat_Suc_less word_less_nat_alt)

declare fill_loop.simps [simp del]

definition memset :: "u64 \<Rightarrow> u8 \<Rightarrow> u32 \<Rightarrow> memory \<Rightarrow> memory" where
  "memset dest val sz m = fill_loop dest val sz 0 m"

definition mem_set :: "u64 \<Rightarrow> u8 \<Rightarrow> u32 \<Rightarrow> memory \<Rightarrow> memory" where
  "mem_set dest val sz m = fill_loop dest val sz 0 m"

definition mem_zero :: "u64 \<Rightarrow> u32 \<Rightarrow> memory \<Rightarrow> memory" where
  "mem_zero buffer len m = fill_loop buffer 0 len 0 m"

function copy_loop :: "u64 \<Rightarrow> u64 \<Rightarrow> u32 \<Rightarrow> u32 \<Rightarrow> memory \<Rightarrow> memory" where
  "copy_loop d src sz i m =
     (if i < sz then copy_loop d src sz (i + 1) (m(d + ucast i := m (src + ucast i))) else m)"
  by pat_completeness auto
termination
  by (relation "measure (\<lambda>(d, src, sz, i, m). unat sz - unat i)")
    (auto simp: unat_Suc_less word_less_nat_alt)

declare copy_loop.simps [simp del]

definition mem_copy :: "u64 \<Rightarrow> u64 \<Rightarrow> u32 \<Rightarrow> memory \<Rightarrow> memory" where
  "mem_copy dest src sz m = copy_loop dest src sz 0 m"

function compare_loop :: "u64 \<Rightarrow> u64 \<Rightarrow> u32 \<Rightarrow> u32 \<Rightarrow> memory \<Rightarrow> int" where
  "compare_loop b1 b2 sz i m =
     (if i < sz then
        if m (b1 + ucast i) \<noteq> m (b2 + ucast i)
        then (if m (b1 + ucast i) < m (b2 + ucast i) then -1 else 1)
        else compare_loop b1 b2 sz (i + 1) m
      else 0)"
  by pat_completeness auto
termination
  by (relation "measure (\<lambda>(b1, b2, sz, i, m). unat sz - unat i)")
    (auto simp: unat_Suc_less word_less_nat_alt)

declare compare_loop.simps [simp del]

definition mem_compare :: "u64 \<Rightarrow> u64 \<Rightarrow> u32 \<Rightarrow> memory \<Rightarrow> int" where
  "mem_compare buf1 buf2 sz m = compare_loop buf1 buf2 sz 0 m"

section \<open>Filling\<close>

lemma offset_eq_iff: "x = (a :: u64) + ucast (i :: u32) \<longleftrightarrow> unat (x - a) = unat i"
proof
  assume "unat (x - a) = unat i"
  then have "x - a = ucast i"
    by (metis of_nat_unat ucast_id unat_ucast_up len_num1 unsigned_word_eqI)
  then show "x = a + ucast i" by (metis add.commute diff_add_cancel)
qed (simp add: unat_ucast_up)

lemma fill_loop_apply:
  "fill_loop ptr val sz i m x =
     (if unat i \<le> unat (x - ptr) \<and> unat (x - ptr) < unat sz then val else m x)"
proof (induction ptr val sz i m rule: fill_loop.induct)
  case (1 ptr val sz i m)
  show ?case
  proof (cases "i < sz")
    case True
    then have "fill_loop ptr val sz i m x = fill_loop ptr val sz (i + 1) (m(ptr + ucast i := val)) x"
      by (subst fill_loop.simps) simp
    also have "\<dots> = (if unat (i + 1) \<le> unat (x - ptr) \<and> unat (x - ptr) < unat sz then val
        else (m(ptr + ucast i := val)) x)"
      by (rule 1 [OF True])
    finally show ?thesis
      using True by (auto simp: unat_Suc_less word_less_nat_alt offset_eq_iff)
  next
    case False
    then show ?thesis by (subst fill_loop.simps) (auto simp: word_less_nat_alt)
  qed
qed

lemma memset_apply: "memset d v n m x = (if in_rng d (unat n) x then v else m x)"
  by (simp add: memset_def fill_loop_apply in_rng_def)

lemma mem_zero_apply: "mem_zero d n m x = (if in_rng d (unat n) x then 0 else m x)"
  by (simp add: mem_zero_def fill_loop_apply in_rng_def)

lemma mem_set_eq_memset: "mem_set d v n m = memset d v n m"
  by (simp add: mem_set_def memset_def)

lemma mem_zero_eq_memset: "mem_zero d n m = memset d 0 n m"
  by (simp add: mem_zero_def memset_def)

text \<open>A zeroed block reads back as zero at every width.\<close>

lemma ld_le_zero: "(\<And>x. in_rng a n x \<Longrightarrow> m x = 0) \<Longrightarrow> n \<le> 2 ^ 64 \<Longrightarrow> ld_le n m a = 0"
  by (rule bit_word_eqI) (auto simp: bit_ld_le in_rng_offset simp del: ld_le.simps)

lemma ld64_memset_0:
  assumes "\<And>x. in_rng a 8 x \<Longrightarrow> in_rng d (unat n) x"
  shows "ld64 (memset d 0 n m) a = 0"
  unfolding ld64_def by (rule ld_le_zero) (simp_all add: assms memset_apply)

lemma ld64_memset_disj:
  "rng_disj a 8 d (unat n) \<Longrightarrow> ld64 (memset d v n m) a = ld64 m a"
  by (rule ld64_cong) (auto simp: memset_apply dest: rng_disjD)

section \<open>Copying\<close>

text \<open>Source and destination may overlap only where a forward copy is safe.\<close>

lemma copy_loop_apply:
  assumes "rng_disj d (unat sz) src (unat sz)"
  shows "copy_loop d src sz i m x =
    (if unat i \<le> unat (x - d) \<and> unat (x - d) < unat sz then m (src + (x - d)) else m x)"
  using assms
proof (induction d src sz i m rule: copy_loop.induct)
  case (1 d src sz i m)
  show ?case
  proof (cases "i < sz")
    case True
    let ?m = "m(d + ucast i := m (src + ucast i))"
    have "copy_loop d src sz i m x = copy_loop d src sz (i + 1) ?m x"
      using True by (subst copy_loop.simps) simp
    also have "\<dots> = (if unat (i + 1) \<le> unat (x - d) \<and> unat (x - d) < unat sz then ?m (src + (x - d))
        else ?m x)"
      by (rule 1(1) [OF True 1(2)])
    finally have step: "copy_loop d src sz i m x = \<dots>" .
    have src: "?m (src + (x - d)) = m (src + (x - d))" if "unat (x - d) < unat sz"
    proof -
      have "in_rng src (unat sz) (src + (x - d))" using that by (simp add: in_rng_def)
      moreover have "in_rng d (unat sz) (d + ucast i)"
        using True by (simp add: in_rng_def unat_ucast_up word_less_nat_alt)
      ultimately have "src + (x - d) \<noteq> d + ucast i" using 1(2) by (metis rng_disjD)
      then show ?thesis by simp
    qed
    show ?thesis
    proof (cases "x = d + ucast i")
      case xi: True
      with True step show ?thesis
        by (simp add: unat_Suc_less word_less_nat_alt unat_ucast_up)
    next
      case False
      then have "unat (x - d) \<noteq> unat i" by (simp add: offset_eq_iff)
      with False step src True show ?thesis
        by (auto simp: unat_Suc_less word_less_nat_alt)
    qed
  next
    case False
    then show ?thesis by (subst copy_loop.simps) (auto simp: word_less_nat_alt)
  qed
qed

lemma mem_copy_bytes:
  assumes "rng_disj d (unat sz) src (unat sz)"
  shows "bytes (mem_copy d src sz m) d (unat sz) = bytes m src (unat sz)"
    and "\<not> in_rng d (unat sz) x \<Longrightarrow> mem_copy d src sz m x = m x"
proof -
  have "unat (of_nat i :: u64) = i" if "i < unat sz" for i
  proof (rule unat_of_nat_lt)
    have "i < 4294967296" using that unat_lt_32 [of sz] by linarith
    then show "i < 2 ^ LENGTH(64)" by simp
  qed
  then show "bytes (mem_copy d src sz m) d (unat sz) = bytes m src (unat sz)"
    by (auto simp: bytes_eq_iff mem_copy_def copy_loop_apply [OF assms])
  show "\<not> in_rng d (unat sz) x \<Longrightarrow> mem_copy d src sz m x = m x"
    by (simp add: mem_copy_def copy_loop_apply [OF assms] in_rng_def)
qed

text \<open>Whatever source and destination are, only the destination is written.\<close>

lemma copy_loop_outside: "\<not> in_rng d (unat sz) x \<Longrightarrow> copy_loop d src sz i m x = m x"
proof (induction d src sz i m rule: copy_loop.induct)
  case (1 d src sz i m)
  have "x \<noteq> d + ucast i" if "i < sz"
  proof
    assume "x = d + ucast i"
    with that 1(2) show False by (simp add: in_rng_def unat_ucast_up word_less_nat_alt)
  qed
  then have "copy_loop d src sz (i + 1) (m(d + ucast i := m (src + ucast i))) x = m x" if "i < sz"
    using 1(1) [OF that 1(2)] that by (simp add: fun_upd_def)
  then show ?case by (subst copy_loop.simps) simp
qed

lemma mem_copy_outside: "\<not> in_rng d (unat sz) x \<Longrightarrow> mem_copy d src sz m x = m x"
  by (simp add: mem_copy_def copy_loop_outside)

section \<open>Comparing\<close>

lemma compare_loop_char:
  assumes "unat i \<le> unat sz"
  shows "compare_loop a b sz i m =
    (case find (\<lambda>j. m (a + of_nat j) \<noteq> m (b + of_nat j)) [unat i..<unat sz] of
       None \<Rightarrow> 0
     | Some j \<Rightarrow> if m (a + of_nat j) < m (b + of_nat j) then -1 else 1)"
  using assms
proof (induction a b sz i m rule: compare_loop.induct)
  case (1 a b sz i m)
  show ?case
  proof (cases "i < sz")
    case True
    then have "[unat i..<unat sz] = unat i # [unat (i + 1)..<unat sz]"
      by (simp add: unat_Suc_less word_less_nat_alt upt_conv_Cons)
    with 1(1) [OF True] True show ?thesis
      by (subst compare_loop.simps) (auto simp: unat_Suc_less word_less_nat_alt Suc_leI)
  next
    case False
    with 1(2) show ?thesis by (subst compare_loop.simps) (simp add: word_less_nat_alt)
  qed
qed

lemma mem_compare_0_iff:
  "mem_compare a b sz m = 0 \<longleftrightarrow> bytes m a (unat sz) = bytes m b (unat sz)"
  by (auto simp: mem_compare_def compare_loop_char bytes_eq_iff find_None_iff
      split: option.splits dest!: find_Some_iff [THEN iffD1])

end
