(* ===== verification/Page_Alloc.thy ===== *)
theory Page_Alloc
  imports Mem_Ops
begin

text \<open>
  The page allocator of \<^verbatim>\<open>src/src/kernel/mem.c\<close>. A free page stores the address of the
  next free page in its first word, so the free list lives in the byte memory: \<open>ld64\<close> of a
  page is \<^verbatim>\<open>page->next\<close>, \<open>st64\<close> assigns it. The traversals follow these links wherever
  they lead and are partial functions (a cyclic list is never left).

  The contract is an abstract allocator over the list of free pages (\<open>spec_alloc\<close>,
  consing for \<open>mem_free\<close>); \<open>pages_ok s xs\<close> is the abstraction relation, and the lemmas
  show that every operation returns, implements the abstract one, keeps the relation, and
  writes no byte outside pages that are free afterwards. The locale \<open>page_source\<close> is
  what a client that asks for single pages may rely on.
\<close>

section \<open>Constants and state\<close>

definition BASE_ADDR :: u64 where "BASE_ADDR = 0x80000000"
definition VIRT_OFFSET :: u64 where "VIRT_OFFSET = 0xFFFFFFC000000000"
definition KERNEL_BASE_VA :: u64 where "KERNEL_BASE_VA = BASE_ADDR + VIRT_OFFSET"
definition MAX_HEAP_SIZE :: u64 where "MAX_HEAP_SIZE = 0x1000000"
definition PGSHIFT :: nat where "PGSHIFT = 12"
definition PAGE_SIZE :: u64 where "PAGE_SIZE = push_bit PGSHIFT 1"

lemma PAGE_SIZE_val: "PAGE_SIZE = 4096"
  by (simp add: PAGE_SIZE_def PGSHIFT_def)

record alloc = machine +
  free_list :: u64
  heap_start :: u64
  heap_end :: u64
  free_page_count :: u32

section \<open>Operations\<close>

definition virt_to_phys :: "u64 \<Rightarrow> u64" where
  "virt_to_phys addr = (if addr \<ge> KERNEL_BASE_VA then addr - VIRT_OFFSET else addr)"

partial_function (option) init_loop :: "u64 \<Rightarrow> 'a alloc_scheme \<Rightarrow> 'a alloc_scheme option" where
  "init_loop addr s =
     (if addr > heap_start s then
        let addr = addr - PAGE_SIZE
        in init_loop addr
             (s\<lparr>mem := st64 (mem s) addr (free_list s), free_list := addr,
                free_page_count := free_page_count s + 1\<rparr>)
      else Some s)"

text \<open>The linker symbols \<^verbatim>\<open>__heap_start\<close> and \<^verbatim>\<open>__stack_limit\<close> are arguments: they are
  physical addresses during the M-mode boot and virtual ones afterwards.\<close>

definition page_allocator_init ::
  "u64 \<Rightarrow> u64 \<Rightarrow> 'a alloc_scheme \<Rightarrow> 'a alloc_scheme option" where
  "page_allocator_init heap_sym stack_sym s =
     (let start = (virt_to_phys heap_sym + PAGE_SIZE - 1) AND NOT (PAGE_SIZE - 1);
          hend = start + MAX_HEAP_SIZE;
          stack_limit = virt_to_phys stack_sym;
          hend = (if hend > stack_limit then stack_limit else hend);
          hend = hend AND NOT (PAGE_SIZE - 1)
      in init_loop hend
           (s\<lparr>heap_start := start, heap_end := hend, free_list := 0, free_page_count := 0\<rparr>))"

definition allocator_intr_off :: "'a machine_scheme \<Rightarrow> u64 \<times> 'a machine_scheme" where
  "allocator_intr_off s = (sstatus s, s\<lparr>sstatus := csr_clear (sstatus s) SSTATUS_SIE\<rparr>)"

definition allocator_intr_restore :: "u64 \<Rightarrow> 'a machine_scheme \<Rightarrow> 'a machine_scheme" where
  "allocator_intr_restore status s =
     (if status AND SSTATUS_SIE \<noteq> 0 then s\<lparr>sstatus := csr_set (sstatus s) SSTATUS_SIE\<rparr> else s)"

text \<open>The inner counting loop of \<open>mem_alloc\<close>.\<close>

partial_function (option) count_range :: "memory \<Rightarrow> u64 \<Rightarrow> u64 \<Rightarrow> u64 \<Rightarrow> u32 \<Rightarrow> u32 option" where
  "count_range m page start hend found =
     (if page = 0 then Some found
      else count_range m (ld64 m page) start hend
             (if page \<ge> start \<and> page < hend then found + 1 else found))"

text \<open>\<^verbatim>\<open>struct free_page **link\<close> points either at the variable \<^verbatim>\<open>free_list\<close> or at the
  link word of a page.\<close>

datatype link = Head | Next u64

definition link_get :: "link \<Rightarrow> 'a alloc_scheme \<Rightarrow> u64" where
  "link_get l s = (case l of Head \<Rightarrow> free_list s | Next p \<Rightarrow> ld64 (mem s) p)"

definition link_set :: "link \<Rightarrow> u64 \<Rightarrow> 'a alloc_scheme \<Rightarrow> 'a alloc_scheme" where
  "link_set l v s =
     (case l of Head \<Rightarrow> s\<lparr>free_list := v\<rparr> | Next p \<Rightarrow> s\<lparr>mem := st64 (mem s) p v\<rparr>)"

partial_function (option) unlink_loop ::
  "link \<Rightarrow> u64 \<Rightarrow> u64 \<Rightarrow> 'a alloc_scheme \<Rightarrow> 'a alloc_scheme option" where
  "unlink_loop l start hend s =
     (let addr = link_get l s
      in if addr = 0 then Some s
         else if addr \<ge> start \<and> addr < hend
         then unlink_loop l start hend (link_set l (ld64 (mem s) addr) s)
         else unlink_loop (Next addr) start hend s)"

partial_function (option) alloc_scan ::
  "u32 \<Rightarrow> u64 \<Rightarrow> u64 \<Rightarrow> u64 \<Rightarrow> 'a alloc_scheme \<Rightarrow> (u64 \<times> 'a alloc_scheme) option" where
  "alloc_scan count nbytes status first s =
     (if first = 0 then Some (0, allocator_intr_restore status s)
      else
        let start = first; fin = start + nbytes
        in if fin > heap_end s then alloc_scan count nbytes status (ld64 (mem s) first) s
           else do {
             found \<leftarrow> count_range (mem s) (free_list s) start fin 0;
             if found \<noteq> count then alloc_scan count nbytes status (ld64 (mem s) first) s
             else do {
               s \<leftarrow> unlink_loop Head start fin s;
               Some (start,
                 allocator_intr_restore status (s\<lparr>free_page_count := free_page_count s - count\<rparr>))
             }
           })"

definition mem_alloc :: "u32 \<Rightarrow> 'a alloc_scheme \<Rightarrow> (u64 \<times> 'a alloc_scheme) option" where
  "mem_alloc sz s =
     (if sz = 0 then Some (0, s)
      else
        let count = (ucast (drop_bit PGSHIFT (ucast sz + PAGE_SIZE - 1)) :: u32);
            (status, s) = allocator_intr_off s
        in if count > free_page_count s then Some (0, allocator_intr_restore status s)
           else if count = 1 then
             let page = free_list s;
                 s = s\<lparr>free_list := ld64 (mem s) page, free_page_count := free_page_count s - 1\<rparr>
             in Some (page, allocator_intr_restore status s)
           else alloc_scan count (ucast count * PAGE_SIZE) status (free_list s) s)"

definition mem_free :: "u64 \<Rightarrow> 'a alloc_scheme \<Rightarrow> 'a alloc_scheme" where
  "mem_free page s =
     (let addr = virt_to_phys page
      in if page = 0 \<or> addr < heap_start s \<or> addr \<ge> heap_end s \<or> addr AND (PAGE_SIZE - 1) \<noteq> 0
         then s
         else
           let (status, s) = allocator_intr_off s;
               s = s\<lparr>mem := st64 (mem s) addr (free_list s), free_list := addr,
                     free_page_count := free_page_count s + 1\<rparr>
           in allocator_intr_restore status s)"

definition mem_alloc_page :: "'a alloc_scheme \<Rightarrow> (u64 \<times> 'a alloc_scheme) option" where
  "mem_alloc_page s = mem_alloc (ucast PAGE_SIZE) s"

definition mem_free_page :: "u64 \<Rightarrow> 'a alloc_scheme \<Rightarrow> 'a alloc_scheme" where
  "mem_free_page page s = mem_free page s"

section \<open>The free list as a chain of links\<close>

primrec chain :: "memory \<Rightarrow> u64 \<Rightarrow> u64 list \<Rightarrow> bool" where
  "chain m p [] \<longleftrightarrow> p = 0"
| "chain m p (x # xs) \<longleftrightarrow> p = x \<and> x \<noteq> 0 \<and> chain m (ld64 m x) xs"

lemma chain_cong:
  "(\<And>x y. x \<in> set xs \<Longrightarrow> in_rng x 8 y \<Longrightarrow> m y = m' y) \<Longrightarrow> chain m p xs = chain m' p xs"
proof (induction xs arbitrary: p)
  case (Cons x xs)
  then have "ld64 m x = ld64 m' x" by (intro ld64_cong) auto
  moreover have "chain m q xs = chain m' q xs" for q
    by (rule Cons.IH, rule Cons.prems) simp_all
  ultimately show ?case by simp
qed simp

lemma chain_unique: "chain m p xs \<Longrightarrow> chain m p ys \<Longrightarrow> xs = ys"
proof (induction xs arbitrary: p ys)
  case Nil
  then show ?case by (cases ys) auto
next
  case (Cons x xs)
  then show ?case by (cases ys) auto
qed

lemma chain_nonzero: "chain m p xs \<Longrightarrow> x \<in> set xs \<Longrightarrow> x \<noteq> 0"
  by (induction xs arbitrary: p) auto

lemma chain_st64:
  assumes "\<And>x. x \<in> set xs \<Longrightarrow> rng_disj x 8 a 8"
  shows "chain (st64 m a v) p xs = chain m p xs"
proof (rule chain_cong)
  fix x y
  assume "x \<in> set xs" "in_rng x 8 y"
  with assms have "\<not> in_rng a 8 y" by (blast dest: rng_disjD)
  then show "st64 m a v y = m y" by (rule st64_outside)
qed

lemma page_words_disj:
  assumes "aligned 12 a" "aligned 12 b" "a \<noteq> b"
  shows "rng_disj a 8 b 8"
  by (rule rng_disj_mono [OF aligned_disj [OF assms]]) simp_all

lemma count_range_chain:
  "chain m p xs \<Longrightarrow>
    count_range m p a b f = Some (f + of_nat (length (filter (\<lambda>x. a \<le> x \<and> x < b) xs)))"
proof (induction xs arbitrary: p f)
  case Nil
  then show ?case by (subst count_range.simps) simp
next
  case (Cons x xs)
  then show ?case by (subst count_range.simps) (simp add: algebra_simps)
qed

lemma link_get_set [simp]: "link_get l (link_set l v s) = v"
  by (cases l) (simp_all add: link_get_def link_set_def)

definition link_page :: "link \<Rightarrow> u64 set" where
  "link_page l = (case l of Head \<Rightarrow> {} | Next p \<Rightarrow> {p})"

lemma link_set_frame:
  "\<exists>m h. link_set l v s = s\<lparr>mem := m, free_list := h\<rparr> \<and>
     (\<forall>y. m y \<noteq> mem s y \<longrightarrow> (\<exists>x\<in>link_page l. in_rng x 8 y)) \<and> (l \<noteq> Head \<longrightarrow> h = free_list s)"
proof (cases l)
  case Head
  then show ?thesis
    by (intro exI [of _ "mem s"] exI [of _ v]) (simp add: link_set_def)
next
  case (Next p)
  have "st64 (mem s) p v y \<noteq> mem s y \<longrightarrow> in_rng p 8 y" for y
    using st64_outside by metis
  with Next show ?thesis
    by (auto simp: link_set_def link_page_def
        intro!: exI [of _ "st64 (mem s) p v"] exI [of _ "free_list s"])
qed

lemma link_get_cong:
  assumes "\<And>x y. x \<in> link_page l \<Longrightarrow> in_rng x 8 y \<Longrightarrow> mem s y = mem s' y"
    and "l = Head \<Longrightarrow> free_list s = free_list s'"
  shows "link_get l s = link_get l s'"
proof (cases l)
  case Head
  with assms(2) show ?thesis by (simp add: link_get_def)
next
  case (Next p)
  then have "ld64 (mem s) p = ld64 (mem s') p"
    using assms(1) by (intro ld64_cong) (simp add: link_page_def)
  with Next show ?thesis by (simp add: link_get_def)
qed

text \<open>Unlinking a range leaves the chain of the pages outside it, and touches only the link
  words of pages that stay on the list.\<close>

lemma unlink_loop_chain:
  fixes a b :: u64
  assumes "chain (mem s) (link_get l s) xs" "distinct xs" "\<forall>x\<in>set xs. aligned 12 x"
    and "\<forall>p\<in>link_page l. aligned 12 p \<and> p \<notin> set xs"
  defines "keep \<equiv> \<lambda>x. \<not> (a \<le> x \<and> x < b)"
  shows "\<exists>m h. unlink_loop l a b s = Some (s\<lparr>mem := m, free_list := h\<rparr>) \<and>
    chain m (link_get l (s\<lparr>mem := m, free_list := h\<rparr>)) (filter keep xs) \<and>
    (\<forall>y. m y \<noteq> mem s y \<longrightarrow> (\<exists>x\<in>set (filter keep xs) \<union> link_page l. in_rng x 8 y)) \<and>
    (l \<noteq> Head \<longrightarrow> h = free_list s)"
  using assms(1-4)
proof (induction xs arbitrary: l s)
  case Nil
  then have "unlink_loop l a b s = Some s" by (subst unlink_loop.simps) simp
  with Nil show ?case by (intro exI [of _ "mem s"] exI [of _ "free_list s"]) simp
next
  case (Cons x xs)
  have x: "link_get l s = x" "x \<noteq> 0" "aligned 12 x" "x \<notin> set xs" using Cons.prems by auto
  have disj: "rng_disj p 8 y 8" if "p \<in> link_page l" "y \<in> set (x # xs)" for p y
    using that Cons.prems(3,4) by (intro page_words_disj) auto
  show ?case
  proof (cases "keep x")
    case False
    define s1 where "s1 = link_set l (ld64 (mem s) x) s"
    obtain m1 h1 where s1: "s1 = s\<lparr>mem := m1, free_list := h1\<rparr>"
      and m1: "\<And>y. m1 y \<noteq> mem s y \<Longrightarrow> \<exists>p\<in>link_page l. in_rng p 8 y"
      and h1: "l \<noteq> Head \<longrightarrow> h1 = free_list s"
      using link_set_frame [of l "ld64 (mem s) x" s] unfolding s1_def by blast
    have "chain (mem s1) (ld64 (mem s) x) xs = chain (mem s) (ld64 (mem s) x) xs"
    proof (rule chain_cong)
      fix y z
      assume "y \<in> set xs" "in_rng y 8 z"
      then have "\<not> (\<exists>p\<in>link_page l. in_rng p 8 z)" using disj by (auto dest: rng_disjD)
      with m1 show "mem s1 z = mem s z" by (auto simp: s1)
    qed
    then have "chain (mem s1) (link_get l s1) xs"
      using Cons.prems(1) by (simp add: s1_def)
    from Cons.IH [OF this] Cons.prems obtain m h where
      r: "unlink_loop l a b s1 = Some (s1\<lparr>mem := m, free_list := h\<rparr>)"
        "chain m (link_get l (s1\<lparr>mem := m, free_list := h\<rparr>)) (filter keep xs)"
        "\<forall>y. m y \<noteq> mem s1 y \<longrightarrow> (\<exists>x\<in>set (filter keep xs) \<union> link_page l. in_rng x 8 y)"
        "l \<noteq> Head \<longrightarrow> h = free_list s1"
      by auto
    have "unlink_loop l a b s = unlink_loop l a b s1"
      using x False by (subst unlink_loop.simps) (simp add: keep_def s1_def)
    moreover have "\<exists>x\<in>set (filter keep xs) \<union> link_page l. in_rng x 8 y" if "m y \<noteq> mem s y" for y
      using that r(3) m1 [of y] by (cases "m y = m1 y") (auto simp: s1)
    ultimately show ?thesis
      using r h1 False by (intro exI [of _ m] exI [of _ h]) (auto simp: s1)
  next
    case True
    have "chain (mem s) (link_get (Next x) s) xs"
      using Cons.prems(1) x by (simp add: link_get_def)
    from Cons.IH [OF this] Cons.prems x obtain m h where
      r: "unlink_loop (Next x) a b s = Some (s\<lparr>mem := m, free_list := h\<rparr>)"
        "chain m (ld64 m x) (filter keep xs)"
        "\<forall>y. m y \<noteq> mem s y \<longrightarrow> (\<exists>z\<in>set (filter keep xs) \<union> {x}. in_rng z 8 y)"
        "h = free_list s"
      by (auto simp: link_page_def link_get_def)
    have "unlink_loop l a b s = unlink_loop (Next x) a b s"
      using x True by (subst unlink_loop.simps) (auto simp: keep_def)
    moreover have "link_get l (s\<lparr>mem := m, free_list := h\<rparr>) = link_get l s"
    proof (rule link_get_cong)
      fix p y
      assume p: "p \<in> link_page l" "in_rng p 8 y"
      then have "\<not> (\<exists>z\<in>set (filter keep xs) \<union> {x}. in_rng z 8 y)"
        using disj by (auto dest: rng_disjD)
      with r(3) show "mem (s\<lparr>mem := m, free_list := h\<rparr>) y = mem s y" by auto
    qed (simp add: r(4))
    ultimately show ?thesis
      using r x True by (intro exI [of _ m] exI [of _ h]) auto
  qed
qed

section \<open>Runs of contiguous pages\<close>

definition page_at :: "u64 \<Rightarrow> nat \<Rightarrow> u64" where
  "page_at x i = x + of_nat (4096 * i)"

definition is_run :: "u64 \<Rightarrow> nat \<Rightarrow> u64 list \<Rightarrow> u64 \<Rightarrow> bool" where
  "is_run he n xs x \<longleftrightarrow> unat x + 4096 * n \<le> unat he \<and> (\<forall>i<n. page_at x i \<in> set xs)"

definition in_run :: "nat \<Rightarrow> u64 \<Rightarrow> u64 \<Rightarrow> bool" where
  "in_run n x y \<longleftrightarrow> x \<le> y \<and> y < x + of_nat (4096 * n)"

lemma unat_page_at:
  assumes "unat x + 4096 * n < 2 ^ 64" "i \<le> n"
  shows "unat (page_at x i) = unat x + 4096 * i"
proof -
  define w :: u64 where "w = of_nat (4096 * i)"
  have "4096 * i < 2 ^ 64" and sum: "unat x + 4096 * i < 2 ^ 64" using assms by linarith+
  then have w: "unat w = 4096 * i" unfolding w_def by (intro unat_of_nat_lt) simp
  have "unat (x + w) = unat x + unat w" using sum by (intro unat_add_nowrap) (simp add: w)
  then show ?thesis by (simp only: page_at_def w flip: w_def)
qed

lemma in_run_iff:
  assumes "unat x + 4096 * n < 2 ^ 64"
  shows "in_run n x y \<longleftrightarrow> unat x \<le> unat y \<and> unat y < unat x + 4096 * n"
  using unat_page_at [OF assms order_refl]
  by (simp add: in_run_def page_at_def word_le_nat_alt word_less_nat_alt)

lemma in_run_page:
  assumes "unat x + 4096 * n < 2 ^ 64" "aligned 12 x" "aligned 12 y"
  shows "in_run n x y \<longleftrightarrow> (\<exists>i<n. y = page_at x i)"
proof
  assume "in_run n x y"
  then have b: "unat x \<le> unat y" "unat y < unat x + 4096 * n"
    by (simp_all add: in_run_iff [OF assms(1)])
  have "4096 dvd unat y - unat x"
    using assms(2,3) by (auto simp: aligned_def intro!: dvd_diff_nat mod_0_imp_dvd)
  then obtain i where i: "unat y - unat x = 4096 * i" by (elim dvdE)
  then have "i < n" "unat y = unat x + 4096 * i" using b by linarith+
  then have "y = page_at x i"
    using unat_page_at [OF assms(1), of i] by (intro unsigned_word_eqI [where ?'a = nat]) simp
  with \<open>i < n\<close> show "\<exists>i<n. y = page_at x i" by blast
next
  assume "\<exists>i<n. y = page_at x i"
  then show "in_run n x y"
    using unat_page_at [OF assms(1)] by (auto simp: in_run_iff [OF assms(1)])
qed

lemma inj_page_at:
  assumes "unat x + 4096 * n < 2 ^ 64"
  shows "inj_on (page_at x) {..<n}"
proof (rule inj_onI)
  fix i j
  assume ij: "i \<in> {..<n}" "j \<in> {..<n}" "page_at x i = page_at x j"
  have i: "unat (page_at x i) = unat x + 4096 * i"
    by (rule unat_page_at [OF assms]) (use ij in simp)
  have j: "unat (page_at x j) = unat x + 4096 * j"
    by (rule unat_page_at [OF assms]) (use ij in simp)
  have "unat x + 4096 * i = unat x + 4096 * j"
    unfolding i [symmetric] j [symmetric] ij(3) ..
  then show "i = j" by simp
qed

text \<open>Counting the free pages inside a range decides whether the whole range is free.\<close>

lemma count_run:
  assumes "unat x + 4096 * n < 2 ^ 64" "aligned 12 x" "\<forall>y\<in>set xs. aligned 12 y" "distinct xs"
  shows "length (filter (in_run n x) xs) = n \<longleftrightarrow> (\<forall>i<n. page_at x i \<in> set xs)"
    and "length (filter (in_run n x) xs) \<le> n"
proof -
  define R where "R = page_at x ` {..<n}"
  have "inj_on (page_at x) {..<n}" by (rule inj_page_at [OF assms(1)])
  then have cR: "card R = n" "finite R" by (simp_all add: R_def card_image)
  have eq: "set (filter (in_run n x) xs) = R \<inter> set xs"
    using assms in_run_page [OF assms(1,2)] by (auto simp: R_def)
  have len: "length (filter (in_run n x) xs) = card (R \<inter> set xs)"
    using assms(4) by (metis distinct_card distinct_filter eq)
  then show "length (filter (in_run n x) xs) \<le> n"
    using cR card_mono [of R "R \<inter> set xs"] by simp
  have "card (R \<inter> set xs) = n \<longleftrightarrow> R \<subseteq> set xs"
    using cR by (metis card_subset_eq inf.absorb_iff1 inf_le1)
  then show "length (filter (in_run n x) xs) = n \<longleftrightarrow> (\<forall>i<n. page_at x i \<in> set xs)"
    unfolding len by (auto simp: R_def)
qed

section \<open>The abstract allocator\<close>

lemma page_round_up: "n \<le> (n + 4095) div 4096 * 4096" "(n + 4095) div 4096 * 4096 \<le> n + (4095 :: nat)"
proof -
  have "(n + 4095) div 4096 * 4096 + (n + 4095) mod 4096 = n + 4095" by (rule div_mult_mod_eq)
  moreover have "(n + 4095) mod 4096 < 4096" by simp
  ultimately show "n \<le> (n + 4095) div 4096 * 4096" "(n + 4095) div 4096 * 4096 \<le> n + 4095"
    by linarith+
qed

definition npages :: "u32 \<Rightarrow> nat" where
  "npages sz = (unat sz + 4095) div 4096"

definition spec_alloc :: "u64 \<Rightarrow> nat \<Rightarrow> u64 list \<Rightarrow> (u64 \<times> u64 list) option" where
  "spec_alloc he n xs =
     (if n = 0 then None
      else if n = 1 then (case xs of [] \<Rightarrow> None | x # ys \<Rightarrow> Some (x, ys))
      else case find (is_run he n xs) xs of
        None \<Rightarrow> None
      | Some x \<Rightarrow> Some (x, filter (\<lambda>y. \<not> in_run n x y) xs))"

text \<open>What the allocator's variables and the free pages themselves satisfy.\<close>

definition heap_ok :: "'a alloc_scheme \<Rightarrow> bool" where
  "heap_ok s \<longleftrightarrow> aligned 12 (heap_start s) \<and> aligned 12 (heap_end s) \<and> heap_start s \<noteq> 0 \<and>
     unat (heap_end s) \<le> unat (heap_start s) + 2 ^ 24 \<and> unat (heap_end s) \<le> 2 ^ 56"

definition page_ok :: "'a alloc_scheme \<Rightarrow> u64 \<Rightarrow> bool" where
  "page_ok s x \<longleftrightarrow> aligned 12 x \<and> heap_start s \<le> x \<and> x < heap_end s"

definition pages_ok :: "'a alloc_scheme \<Rightarrow> u64 list \<Rightarrow> bool" where
  "pages_ok s xs \<longleftrightarrow> heap_ok s \<and> chain (mem s) (free_list s) xs \<and> distinct xs \<and>
     (\<forall>x\<in>set xs. page_ok s x) \<and> free_page_count s = of_nat (length xs)"

definition alloc_inv :: "'a alloc_scheme \<Rightarrow> bool" where
  "alloc_inv s \<longleftrightarrow> (\<exists>xs. pages_ok s xs)"

text \<open>A heap of at most 16 MB has at most 4096 pages.\<close>

lemma pages_bound:
  assumes "heap_ok s" "distinct xs" "\<forall>x\<in>set xs. page_ok s x"
  shows "length xs \<le> 4096"
proof -
  define f where "f = (\<lambda>x :: u64. (unat x - unat (heap_start s)) div 4096)"
  have d: "4096 dvd unat x - unat (heap_start s)" "unat (heap_start s) \<le> unat x" if "x \<in> set xs" for x
    using assms(1,3) that
    by (auto simp: page_ok_def heap_ok_def aligned_def word_le_nat_alt intro!: dvd_diff_nat mod_0_imp_dvd)
  have "inj_on f (set xs)"
  proof (rule inj_onI)
    fix x y
    assume xy: "x \<in> set xs" "y \<in> set xs" "f x = f y"
    then have "unat x = unat y"
      using d [OF xy(1)] d [OF xy(2)] by (auto simp: f_def elim!: dvdE)
    then show "x = y" by (rule unsigned_word_eqI)
  qed
  moreover have "f x < 4096" if "x \<in> set xs" for x
    using assms(1,3) that by (force simp: f_def page_ok_def heap_ok_def word_less_nat_alt)
  then have "f ` set xs \<subseteq> {..<4096}" by auto
  ultimately have "card (set xs) \<le> card {..<4096::nat}"
    by (metis card_inj_on_le finite_lessThan)
  then show ?thesis using assms(2) by (simp add: distinct_card)
qed

section \<open>Interrupt masking\<close>

lemma intr_restore_masked:
  "sstatus t = csr_clear r SSTATUS_SIE \<Longrightarrow> allocator_intr_restore r t = t\<lparr>sstatus := r\<rparr>"
  by (auto simp: allocator_intr_restore_def and_SIE_iff csr_restore_SIE csr_clear_SIE_id)

section \<open>The search loop\<close>

lemma page_ok_nowrap:
  "heap_ok s \<Longrightarrow> page_ok s x \<Longrightarrow> n \<le> 2 ^ 20 \<Longrightarrow> unat x + 4096 * n < 2 ^ 64"
  by (simp add: heap_ok_def page_ok_def word_less_nat_alt)

lemma alloc_scan_find:
  assumes "heap_ok s" "chain (mem s) (free_list s) xs" "distinct xs" "\<forall>x\<in>set xs. page_ok s x"
    and n: "n \<le> 2 ^ 20" "count = of_nat n" "nbytes = of_nat (4096 * n)"
    and ys: "chain (mem s) p ys" "set ys \<subseteq> set xs"
  shows "alloc_scan count nbytes st p s =
    (case find (is_run (heap_end s) n xs) ys of
       None \<Rightarrow> Some (0, allocator_intr_restore st s)
     | Some x \<Rightarrow> do {
         s \<leftarrow> unlink_loop Head x (x + nbytes) s;
         Some (x, allocator_intr_restore st (s\<lparr>free_page_count := free_page_count s - count\<rparr>))
       })"
  using ys
proof (induction ys arbitrary: p)
  case Nil
  then show ?case by (subst alloc_scan.simps) simp
next
  case (Cons x ys)
  then have x: "p = x" "x \<noteq> 0" "page_ok s x" and nx: "chain (mem s) (ld64 (mem s) x) ys"
    using assms(4) by auto
  have nw: "unat x + 4096 * n < 2 ^ 64" using page_ok_nowrap assms(1) x(3) n(1) by blast
  have al: "aligned 12 x" "\<forall>y\<in>set xs. aligned 12 y" using x(3) assms(4) by (auto simp: page_ok_def)
  have fin: "x + nbytes > heap_end s \<longleftrightarrow> \<not> unat x + 4096 * n \<le> unat (heap_end s)"
    using unat_page_at [OF nw order_refl] by (simp add: page_at_def n word_less_nat_alt not_le)
  have cnt: "count_range (mem s) (free_list s) x (x + nbytes) 0 =
      Some (of_nat (length (filter (in_run n x) xs)))"
    using count_range_chain [OF assms(2), of x "x + nbytes" 0]
    by (simp add: in_run_def [abs_def] n)
  have eq: "(of_nat (length (filter (in_run n x) xs)) :: u32) = count \<longleftrightarrow> (\<forall>i<n. page_at x i \<in> set xs)"
  proof -
    let ?k = "length (filter (in_run n x) xs)"
    have "?k < 2 ^ 32" "n < 2 ^ 32"
      using count_run(2) [OF nw al assms(3)] n(1) by simp_all
    then have "(of_nat ?k :: u32) = of_nat n \<longleftrightarrow> ?k = n"
      by (intro of_nat_word_inj) simp_all
    then show ?thesis using count_run(1) [OF nw al assms(3)] n(2) by simp
  qed
  show ?case
  proof (cases "is_run (heap_end s) n xs x")
    case True
    then show ?thesis
      using x by (subst alloc_scan.simps) (simp add: Let_def fin cnt eq is_run_def)
  next
    case False
    then have "alloc_scan count nbytes st p s = alloc_scan count nbytes st (ld64 (mem s) x) s"
      using x by (subst alloc_scan.simps) (simp add: Let_def fin cnt eq is_run_def)
    with False Cons.IH [OF nx] Cons.prems show ?thesis by simp
  qed
qed

section \<open>Allocation implements the abstract allocator\<close>

lemma npages_bounds: "npages sz \<le> 2 ^ 20" "npages sz = 0 \<longleftrightarrow> sz = 0"
proof -
  have "unat sz + 4095 < 1048577 * 4096" using unat_lt_32 [of sz] by simp
  then have "npages sz < 1048577" unfolding npages_def by (rule less_mult_imp_div_less)
  then show "npages sz \<le> 2 ^ 20" by simp
  have "npages sz = 0 \<longleftrightarrow> unat sz = 0" by (auto simp: npages_def div_eq_0_iff)
  then show "npages sz = 0 \<longleftrightarrow> sz = 0" by (simp add: unat_0_iff)
qed

lemma mem_alloc_count:
  "(ucast (drop_bit PGSHIFT (ucast (sz :: u32) + PAGE_SIZE - 1)) :: u32) = of_nat (npages sz)"
proof -
  have a: "ucast sz + PAGE_SIZE - 1 = ucast sz + (4095 :: u64)" by (simp add: PAGE_SIZE_val)
  have "unat (ucast sz + (4095 :: u64)) = unat sz + 4095"
    using unat_lt_32 [of sz] by (subst unat_add_nowrap) (simp_all add: unat_ucast_up)
  then have u: "unat (drop_bit 12 (ucast sz + (4095 :: u64))) = npages sz"
    by (simp add: unat_drop_bit npages_def)
  have "(of_nat (unat (drop_bit 12 (ucast sz + (4095 :: u64)))) :: u32) = of_nat (npages sz)"
    by (simp only: u)
  then show ?thesis unfolding a PGSHIFT_def of_nat_unat .
qed

lemma spec_alloc_short:
  assumes "pages_ok s xs" "length xs < n" "n \<le> 2 ^ 20"
  shows "spec_alloc (heap_end s) n xs = None"
proof -
  have "find (is_run (heap_end s) n xs) xs = None"
  proof (subst find_None_iff, rule notI)
    assume "\<exists>x. x \<in> set xs \<and> is_run (heap_end s) n xs x"
    then obtain x where x: "x \<in> set xs" "\<forall>i<n. page_at x i \<in> set xs"
      by (auto simp: is_run_def)
    have "page_ok s x" "heap_ok s" using assms(1) x(1) by (auto simp: pages_ok_def)
    then have "length (filter (in_run n x) xs) = n"
      using count_run(1) [OF page_ok_nowrap, of s x n xs] assms x(2)
      by (auto simp: pages_ok_def page_ok_def)
    then show False using assms(2) length_filter_le [of "in_run n x" xs] by simp
  qed
  then show ?thesis using assms(2) by (cases xs) (auto simp: spec_alloc_def)
qed

lemma pages_ok_sstatus [simp]: "pages_ok (s\<lparr>sstatus := r\<rparr>) xs = pages_ok s xs"
  by (simp add: pages_ok_def heap_ok_def page_ok_def)

lemma mem_alloc_unfold:
  assumes "pages_ok s xs" "sz \<noteq> 0"
  defines "s1 \<equiv> s\<lparr>sstatus := csr_clear (sstatus s) SSTATUS_SIE\<rparr>" and "n \<equiv> npages sz"
  shows "mem_alloc sz s =
    (if length xs < n then Some (0, s)
     else if n = 1 then
       Some (free_list s, s\<lparr>free_list := ld64 (mem s) (free_list s), free_page_count := free_page_count s - 1\<rparr>)
     else alloc_scan (of_nat n) (of_nat (4096 * n)) (sstatus s) (free_list s1) s1)"
proof -
  have n: "n \<le> 2 ^ 20" "n \<noteq> 0" using npages_bounds [of sz] assms(2) by (auto simp: n_def)
  have len: "length xs \<le> 4096" using assms(1) pages_bound by (auto simp: pages_ok_def)
  have un: "unat (of_nat n :: u32) = n" "unat (of_nat (length xs) :: u32) = length xs"
    using n len by (auto intro!: unat_of_nat_lt)
  have gt: "of_nat n > free_page_count s \<longleftrightarrow> length xs < n"
    using assms(1) un by (simp add: pages_ok_def word_less_nat_alt)
  have one: "(of_nat n :: u32) = 1 \<longleftrightarrow> n = 1"
    using un(1) by (metis unat_1 of_nat_1)
  have nb: "ucast (of_nat n :: u32) * PAGE_SIZE = of_nat (4096 * n)"
  proof -
    have "ucast (of_nat n :: u32) = (of_nat (unat (of_nat n :: u32)) :: u64)" by simp
    then show ?thesis by (simp only: un) (simp add: PAGE_SIZE_val)
  qed
  show ?thesis
    using assms(2) unfolding mem_alloc_def mem_alloc_count n_def [symmetric] allocator_intr_off_def
    by (simp add: Let_def gt one nb intr_restore_masked s1_def)
qed

lemma unlink_run:
  assumes ok: "pages_ok s xs" and x: "x \<in> set xs" "is_run (heap_end s) n xs x" and n: "n \<le> 2 ^ 20"
  defines "ys \<equiv> filter (\<lambda>y. \<not> in_run n x y) xs"
  shows "\<exists>m h. unlink_loop Head x (x + of_nat (4096 * n)) s = Some (s\<lparr>mem := m, free_list := h\<rparr>) \<and>
      chain m h ys \<and> (\<forall>y. m y \<noteq> mem s y \<longrightarrow> (\<exists>p\<in>set ys. in_rng p 8 y))"
    and "length xs = length ys + n"
proof -
  have hp: "heap_ok s" "page_ok s x" and al: "aligned 12 x" "\<forall>y\<in>set xs. aligned 12 y"
    and d: "distinct xs" and c: "chain (mem s) (link_get Head s) xs"
    using ok x(1) by (auto simp: pages_ok_def page_ok_def link_get_def)
  have nw: "unat x + 4096 * n < 2 ^ 64" using page_ok_nowrap hp n by blast
  show "\<exists>m h. unlink_loop Head x (x + of_nat (4096 * n)) s = Some (s\<lparr>mem := m, free_list := h\<rparr>) \<and>
      chain m h ys \<and> (\<forall>y. m y \<noteq> mem s y \<longrightarrow> (\<exists>p\<in>set ys. in_rng p 8 y))"
    using unlink_loop_chain [OF c d al(2), of x "x + of_nat (4096 * n)"]
    by (simp add: link_page_def link_get_def ys_def in_run_def)
  have "length (filter (in_run n x) xs) = n"
    using count_run(1) [OF nw al d] x(2) by (simp add: is_run_def)
  then show "length xs = length ys + n"
    using sum_length_filter_compl [of "in_run n x" xs] by (simp add: ys_def)
qed

text \<open>The scan for a run of several pages.\<close>

lemma mem_alloc_scans:
  assumes ok: "pages_ok s xs" and n_def: "n = npages sz" and n20: "n \<le> 2 ^ 20" and 4: "sz \<noteq> 0" "n \<noteq> 1" "\<not> length xs < n"
  shows "case spec_alloc (heap_end s) n xs of
      None \<Rightarrow> mem_alloc sz s = Some (0, s)
    | Some (x, ys) \<Rightarrow> \<exists>m h.
        mem_alloc sz s =
          Some (x, s\<lparr>mem := m, free_list := h, free_page_count := of_nat (length ys)\<rparr>) \<and>
        pages_ok (s\<lparr>mem := m, free_list := h, free_page_count := of_nat (length ys)\<rparr>) ys \<and>
        (\<forall>y. m y \<noteq> mem s y \<longrightarrow> (\<exists>p\<in>set ys. in_rng p 8 y))"
proof -
  define s1 where "s1 = s\<lparr>sstatus := csr_clear (sstatus s) SSTATUS_SIE\<rparr>"
  have ok1: "pages_ok s1 xs" using ok by (simp add: s1_def)
  have n0: "n \<noteq> 0" using 4(1) npages_bounds(2) by (simp add: n_def)
  have "mem_alloc sz s =
      alloc_scan (of_nat n) (of_nat (4096 * n)) (sstatus s) (free_list s1) s1"
    unfolding mem_alloc_unfold [OF ok 4(1)] n_def [symmetric] s1_def using 4(2,3) by simp
  also have "\<dots> = (case find (is_run (heap_end s1) n xs) xs of
       None \<Rightarrow> Some (0, allocator_intr_restore (sstatus s) s1)
     | Some x \<Rightarrow> do {
         t \<leftarrow> unlink_loop Head x (x + of_nat (4096 * n)) s1;
         Some (x, allocator_intr_restore (sstatus s) (t\<lparr>free_page_count := free_page_count t - of_nat n\<rparr>))
       })"
    using ok1 n20 by (intro alloc_scan_find) (auto simp: pages_ok_def)
  finally have eq: "mem_alloc sz s = \<dots>" .
  show ?thesis
  proof (cases "find (is_run (heap_end s) n xs) xs")
    case None
    then show ?thesis
      using eq 4 n0 by (simp add: spec_alloc_def intr_restore_masked s1_def)
  next
    case (Some x)
    then have x: "x \<in> set xs" "is_run (heap_end s1) n xs x"
      by (auto simp: find_Some_iff s1_def)
    define ys where "ys = filter (\<lambda>y. \<not> in_run n x y) xs"
    have sp: "spec_alloc (heap_end s) n xs = Some (x, ys)"
      using Some 4 n0 by (simp add: spec_alloc_def ys_def)
    obtain m h where u: "unlink_loop Head x (x + of_nat (4096 * n)) s1 = Some (s1\<lparr>mem := m, free_list := h\<rparr>)"
      "chain m h ys" "\<forall>y. m y \<noteq> mem s1 y \<longrightarrow> (\<exists>p\<in>set ys. in_rng p 8 y)"
      using unlink_run(1) [OF ok1 x n20] unfolding ys_def by blast
    have "free_page_count s - of_nat n = of_nat (length ys)"
      using unlink_run(2) [OF ok1 x n20] ok by (simp add: pages_ok_def ys_def)
    then have "mem_alloc sz s =
        Some (x, s\<lparr>mem := m, free_list := h, free_page_count := of_nat (length ys)\<rparr>)"
      using eq Some u(1) by (simp add: intr_restore_masked s1_def del: of_nat_mult)
    moreover have "pages_ok (s\<lparr>mem := m, free_list := h, free_page_count := of_nat (length ys)\<rparr>) ys"
      using ok u(2) by (auto simp: pages_ok_def heap_ok_def page_ok_def ys_def)
    ultimately show ?thesis using u(3) unfolding sp by (auto simp: s1_def)
  qed
qed

lemma mem_alloc_refines:
  assumes ok: "pages_ok s xs" and n_def: "n = npages sz"
  shows "case spec_alloc (heap_end s) n xs of
      None \<Rightarrow> mem_alloc sz s = Some (0, s)
    | Some (x, ys) \<Rightarrow> \<exists>m h.
        mem_alloc sz s =
          Some (x, s\<lparr>mem := m, free_list := h, free_page_count := of_nat (length ys)\<rparr>) \<and>
        pages_ok (s\<lparr>mem := m, free_list := h, free_page_count := of_nat (length ys)\<rparr>) ys \<and>
        (\<forall>y. m y \<noteq> mem s y \<longrightarrow> (\<exists>p\<in>set ys. in_rng p 8 y))"
proof -
  have n20: "n \<le> 2 ^ 20" using npages_bounds by (simp add: n_def)
  consider "sz = 0" | "sz \<noteq> 0" "length xs < n" | "sz \<noteq> 0" "n = 1" "\<not> length xs < n"
    | "sz \<noteq> 0" "n \<noteq> 1" "\<not> length xs < n" by blast
  then show ?thesis
  proof cases
    case 1
    then show ?thesis by (simp add: mem_alloc_def spec_alloc_def n_def npages_def)
  next
    case 2
    then show ?thesis
      using spec_alloc_short [OF ok 2(2) n20] mem_alloc_unfold [OF ok 2(1)] by (simp add: n_def)
  next
    case 3
    then obtain x ys where xs: "xs = x # ys" by (cases xs) auto
    then have sp: "spec_alloc (heap_end s) n xs = Some (x, ys)"
      using 3 by (simp add: spec_alloc_def)
    have "mem_alloc sz s = Some (x, s\<lparr>mem := mem s, free_list := ld64 (mem s) x,
        free_page_count := of_nat (length ys)\<rparr>)"
      using mem_alloc_unfold [OF ok 3(1)] 3 ok by (simp add: n_def [symmetric] xs pages_ok_def)
    then show ?thesis
      using ok unfolding sp
      by (auto simp: xs pages_ok_def heap_ok_def page_ok_def
          intro!: exI [of _ "mem s"] exI [of _ "ld64 (mem s) x"])
  next
    case 4
    show ?thesis by (rule mem_alloc_scans [OF ok n_def n20 4])
  qed
qed

section \<open>Freeing\<close>

lemma page_mask: "PAGE_SIZE - 1 = mask 12"
  by (simp add: PAGE_SIZE_val mask_eq_exp_minus_1)

lemma page_offset_0_iff: "addr AND (PAGE_SIZE - 1) = 0 \<longleftrightarrow> aligned 12 addr"
  by (simp add: page_mask and_mask_eq_take aligned_take_bit)

lemma mem_free_ignores:
  "page = 0 \<or> \<not> page_ok s (virt_to_phys page) \<Longrightarrow> mem_free page s = s"
  by (auto simp: mem_free_def Let_def page_offset_0_iff page_ok_def)

lemma mem_free_unfold:
  assumes "page \<noteq> 0" "page_ok s (virt_to_phys page)"
  shows "mem_free page s = s\<lparr>mem := st64 (mem s) (virt_to_phys page) (free_list s),
    free_list := virt_to_phys page, free_page_count := free_page_count s + 1\<rparr>"
proof -
  have "\<not> virt_to_phys page < heap_start s" "\<not> virt_to_phys page \<ge> heap_end s"
    "aligned 12 (virt_to_phys page)"
    using assms(2) by (auto simp: page_ok_def)
  with assms(1) show ?thesis
    by (simp add: mem_free_def Let_def page_offset_0_iff allocator_intr_off_def intr_restore_masked)
qed

lemma page_ok_nonzero: "heap_ok s \<Longrightarrow> page_ok s x \<Longrightarrow> x \<noteq> 0"
  by (auto simp: heap_ok_def page_ok_def word_le_nat_alt unat_0_iff)

lemma chain_push:
  assumes "chain m h xs" "x \<noteq> 0" "aligned 12 x" "\<forall>y\<in>set xs. aligned 12 y" "x \<notin> set xs"
  shows "chain (st64 m x h) x (x # xs)"
proof -
  have "rng_disj y 8 x 8" if "y \<in> set xs" for y
    using that assms by (intro page_words_disj) auto
  with assms show ?thesis by (simp add: chain_st64)
qed

lemma mem_free_pages:
  assumes "pages_ok s xs" "page \<noteq> 0" "page_ok s (virt_to_phys page)" "virt_to_phys page \<notin> set xs"
  shows "pages_ok (mem_free page s) (virt_to_phys page # xs)"
proof -
  have "chain (st64 (mem s) (virt_to_phys page) (free_list s)) (virt_to_phys page) (virt_to_phys page # xs)"
    using assms page_ok_nonzero by (intro chain_push) (auto simp: pages_ok_def page_ok_def)
  then show ?thesis
    using assms unfolding mem_free_unfold [OF assms(2,3)]
    by (simp add: pages_ok_def heap_ok_def page_ok_def)
qed

section \<open>Initialisation\<close>

lemma init_loop_chain:
  assumes "unat hs + 4096 * k < 2 ^ 64" "aligned 12 hs" "hs \<noteq> 0" "heap_start s = hs"
    and "chain (mem s) (free_list s) xs" "distinct xs"
    and "\<forall>x\<in>set xs. aligned 12 x \<and> unat hs + 4096 * k \<le> unat x"
  shows "\<exists>m h. init_loop (page_at hs k) s =
      Some (s\<lparr>mem := m, free_list := h, free_page_count := free_page_count s + of_nat k\<rparr>) \<and>
    chain m h (map (page_at hs) [0..<k] @ xs) \<and>
    (\<forall>y. m y \<noteq> mem s y \<longrightarrow> (\<exists>i<k. in_rng (page_at hs i) 8 y))"
  using assms
proof (induction k arbitrary: s xs)
  case 0
  then have "init_loop (page_at hs 0) s = Some s"
    by (subst init_loop.simps) (simp add: page_at_def)
  with 0 show ?case by (intro exI [of _ "mem s"] exI [of _ "free_list s"]) simp
next
  case (Suc k)
  define x where "x = page_at hs k"
  define s1 where "s1 = s\<lparr>mem := st64 (mem s) x (free_list s), free_list := x,
      free_page_count := free_page_count s + 1\<rparr>"
  have ux: "unat x = unat hs + 4096 * k"
    unfolding x_def by (rule unat_page_at [OF Suc.prems(1)]) simp
  have "unat (page_at hs (Suc k)) = unat hs + 4096 * Suc k"
    by (rule unat_page_at [OF Suc.prems(1)]) simp
  then have gt: "page_at hs (Suc k) > hs" by (simp add: word_less_nat_alt)
  have "page_at hs (Suc k) - PAGE_SIZE = x"
    by (simp add: x_def page_at_def PAGE_SIZE_val)
  then have step: "init_loop (page_at hs (Suc k)) s = init_loop x s1"
    using gt Suc.prems(4) by (subst init_loop.simps) (simp add: Let_def s1_def)
  have ax: "aligned 12 x" "x \<noteq> 0" "x \<notin> set xs"
    using Suc.prems(2,3,7) ux by (auto simp: aligned_def unat_0_iff [symmetric])
  have "chain (mem s1) (free_list s1) (x # xs)"
    using chain_push [OF Suc.prems(5) ax(2,1) _ ax(3)] Suc.prems(7) by (simp add: s1_def)
  moreover have "\<forall>y\<in>set (x # xs). aligned 12 y \<and> unat hs + 4096 * k \<le> unat y"
    using Suc.prems(7) ax ux by auto
  ultimately obtain m h where r: "init_loop x s1 =
      Some (s1\<lparr>mem := m, free_list := h, free_page_count := free_page_count s1 + of_nat k\<rparr>)"
    "chain m h (map (page_at hs) [0..<k] @ x # xs)"
    "\<forall>y. m y \<noteq> mem s1 y \<longrightarrow> (\<exists>i<k. in_rng (page_at hs i) 8 y)"
    using Suc.IH [of s1 "x # xs"] Suc.prems ax unfolding x_def [symmetric] by (auto simp: s1_def)
  have "\<exists>i<Suc k. in_rng (page_at hs i) 8 y" if "m y \<noteq> mem s y" for y
  proof (cases "in_rng x 8 y")
    case True
    then show ?thesis unfolding x_def by blast
  next
    case False
    then have "mem s1 y = mem s y" by (simp add: s1_def st64_outside)
    with that r(3) show ?thesis by (metis less_SucI)
  qed
  with step r show ?case
    by (intro exI [of _ m] exI [of _ h]) (simp add: s1_def x_def [symmetric] algebra_simps)
qed

text \<open>Where the heap lies: from the first page boundary at or above \<^verbatim>\<open>__heap_start\<close> for at
  most 16 MB, but not past the last page boundary below \<^verbatim>\<open>__stack_limit\<close>.\<close>

definition heap_first :: "u64 \<Rightarrow> nat" where
  "heap_first heap_sym = (unat (virt_to_phys heap_sym) + 4095) div 4096 * 4096"

definition heap_last :: "u64 \<Rightarrow> u64 \<Rightarrow> nat" where
  "heap_last heap_sym stack_sym =
     min (heap_first heap_sym + 2 ^ 24) (unat (virt_to_phys stack_sym)) div 4096 * 4096"

definition heap_syms_ok :: "u64 \<Rightarrow> u64 \<Rightarrow> bool" where
  "heap_syms_ok heap_sym stack_sym \<longleftrightarrow>
     0 < unat (virt_to_phys heap_sym) \<and> unat (virt_to_phys heap_sym) < 2 ^ 55 \<and>
     unat (virt_to_phys stack_sym) < 2 ^ 55"

text \<open>The rounding of the heap's bounds.\<close>

lemma heap_bounds:
  assumes syms: "heap_syms_ok hsym ssym"
  obtains hs he where "\<And>s. page_allocator_init hsym ssym s =
      init_loop he (s\<lparr>heap_start := hs, heap_end := he, free_list := 0, free_page_count := 0\<rparr>)"
    "unat hs = heap_first hsym" "unat he = heap_last hsym ssym" "aligned 12 hs" "aligned 12 he" "hs \<noteq> 0"
    "heap_last hsym ssym \<le> heap_first hsym + 2 ^ 24" "heap_last hsym ssym < 2 ^ 55" "heap_first hsym < 2 ^ 55 + 4096"
proof -
  define v where "v = virt_to_phys hsym"
  define l where "l = virt_to_phys ssym"
  define hs where "hs = (v + PAGE_SIZE - 1) AND NOT (PAGE_SIZE - 1)"
  define e where "e = (if hs + MAX_HEAP_SIZE > l then l else hs + MAX_HEAP_SIZE)"
  define he where "he = e AND NOT (PAGE_SIZE - 1)"
  have b: "0 < unat v" "unat v < 2 ^ 55" "unat l < 2 ^ 55"
    using syms by (auto simp: heap_syms_ok_def v_def l_def)
  have up: "v + PAGE_SIZE - 1 = v + 4095" by (simp add: PAGE_SIZE_val)
  have uv: "unat (v + 4095) = unat v + 4095" using b by (subst unat_add_nowrap) simp_all
  have uhs: "unat hs = heap_first hsym"
    unfolding hs_def up page_mask unat_and_not_mask uv heap_first_def v_def [symmetric] by simp
  have fle: "heap_first hsym \<le> unat v + 4095" "unat v \<le> heap_first hsym"
    using page_round_up [of "unat v"] unfolding heap_first_def v_def [symmetric] by simp_all
  have "unat (hs + MAX_HEAP_SIZE) = heap_first hsym + 2 ^ 24"
    using fle b uhs by (subst unat_add_nowrap) (simp_all add: MAX_HEAP_SIZE_def)
  then have ue: "unat e = min (heap_first hsym + 2 ^ 24) (unat l)"
    by (auto simp: e_def word_less_nat_alt)
  then have uhe: "unat he = heap_last hsym ssym"
    unfolding he_def page_mask unat_and_not_mask heap_last_def l_def [symmetric] by simp
  have le: "heap_last hsym ssym \<le> heap_first hsym + 2 ^ 24" "heap_last hsym ssym < 2 ^ 55"
    using b(3) unfolding heap_last_def l_def [symmetric] by (auto intro: le_less_trans [OF div_times_less_eq_dividend] order_trans [OF div_times_less_eq_dividend])
  have al: "aligned 12 hs" "aligned 12 he" "hs \<noteq> 0"
    using uhs uhe fle b(1) by (auto simp: aligned_def heap_first_def heap_last_def unat_0_iff [symmetric])
  have "page_allocator_init hsym ssym s = init_loop he (s\<lparr>heap_start := hs, heap_end := he, free_list := 0, free_page_count := 0\<rparr>)" for s :: "'a alloc_scheme"
    unfolding page_allocator_init_def Let_def v_def [symmetric] l_def [symmetric] hs_def [symmetric]
      e_def [symmetric] he_def [symmetric] ..
  moreover have "heap_first hsym < 2 ^ 55 + 4096" using fle(1) b(2) by simp
  ultimately show ?thesis using uhs uhe al le by (intro that)
qed

lemma page_allocator_init_pages:
  assumes syms: "heap_syms_ok hsym ssym"
  defines "k \<equiv> (heap_last hsym ssym - heap_first hsym) div 4096"
  shows "\<exists>m h hs he. page_allocator_init hsym ssym s =
      Some (s\<lparr>heap_start := hs, heap_end := he, mem := m, free_list := h, free_page_count := of_nat k\<rparr>) \<and>
    unat hs = heap_first hsym \<and> unat he = heap_last hsym ssym \<and>
    pages_ok (s\<lparr>heap_start := hs, heap_end := he, mem := m, free_list := h, free_page_count := of_nat k\<rparr>)
      (map (page_at hs) [0..<k]) \<and>
    (\<forall>y. m y \<noteq> mem s y \<longrightarrow> (\<exists>i<k. in_rng (page_at hs i) 8 y))"
proof -
  obtain hs he where init0: "page_allocator_init hsym ssym s =
      init_loop he (s\<lparr>heap_start := hs, heap_end := he, free_list := 0, free_page_count := 0\<rparr>)"
    and uhs: "unat hs = heap_first hsym" and uhe: "unat he = heap_last hsym ssym"
    and al: "aligned 12 hs" "aligned 12 he" "hs \<noteq> 0"
    and le: "heap_last hsym ssym \<le> heap_first hsym + 2 ^ 24" "heap_last hsym ssym < 2 ^ 55" "heap_first hsym < 2 ^ 55 + 4096"
    by (rule heap_bounds [OF syms]) blast
  define s0 where "s0 = s\<lparr>heap_start := hs, heap_end := he, free_list := 0, free_page_count := 0\<rparr>"
  have init: "page_allocator_init hsym ssym s = init_loop he s0" unfolding init0 s0_def ..
  have hk: "4096 * k = heap_last hsym ssym - heap_first hsym"
    unfolding k_def heap_first_def heap_last_def
    by (simp add: dvd_diff_nat dvd_mult_div_cancel)
  then have nw: "unat hs + 4096 * k < 2 ^ 64" using le uhs by simp
  obtain m h where r: "init_loop he s0 = Some (s0\<lparr>mem := m, free_list := h, free_page_count := of_nat k\<rparr>)"
    "chain m h (map (page_at hs) [0..<k])" "\<forall>y. m y \<noteq> mem s y \<longrightarrow> (\<exists>i<k. in_rng (page_at hs i) 8 y)"
  proof (cases "heap_last hsym ssym \<le> heap_first hsym")
    case True
    then have "\<not> he > heap_start s0" by (simp add: s0_def word_less_nat_alt uhs uhe)
    then have "init_loop he s0 = Some s0" by (subst init_loop.simps) simp
    moreover have "k = 0" using True by (simp add: k_def)
    ultimately show ?thesis by (intro that [of 0 "mem s"]) (simp_all add: s0_def)
  next
    case False
    then have "unat he = unat (page_at hs k)"
      using hk uhs uhe unat_page_at [OF nw order_refl] by linarith
    then have he: "he = page_at hs k" by (rule unsigned_word_eqI)
    show ?thesis
      using init_loop_chain [OF nw al(1,3), of s0 "[]"] unfolding he [symmetric]
      by (auto simp: s0_def intro: that)
  qed
  have "page_ok (s0\<lparr>mem := m, free_list := h, free_page_count := of_nat k\<rparr>) (page_at hs i)" if "i < k" for i
  proof -
    have "unat (page_at hs i) = unat hs + 4096 * i"
      by (rule unat_page_at [OF nw]) (use that in simp)
    with that hk uhs uhe al(1) show ?thesis
      by (auto simp: page_ok_def s0_def aligned_def word_le_nat_alt word_less_nat_alt)
  qed
  moreover have "distinct (map (page_at hs) [0..<k])"
    using inj_page_at [OF nw] by (simp add: distinct_map atLeast0LessThan)
  moreover have "heap_ok (s0\<lparr>mem := m, free_list := h, free_page_count := of_nat k\<rparr>)"
    using al le uhs uhe by (simp add: heap_ok_def s0_def)
  ultimately have "pages_ok (s0\<lparr>mem := m, free_list := h, free_page_count := of_nat k\<rparr>) (map (page_at hs) [0..<k])"
    using r(2) by (auto simp: pages_ok_def)
  with init r uhs uhe show ?thesis
    by - (rule exI [of _ m], rule exI [of _ h], rule exI [of _ hs], rule exI [of _ he], simp add: s0_def)
qed

section \<open>The interface offered to clients\<close>

text \<open>
  A source of single pages: \<open>fr s\<close> is the set of pages the source still owns, and a client
  may write anywhere outside them without disturbing it. Taking a page either fails and
  changes nothing, or hands out an aligned page the source owned, gives it up, and leaves
  every byte outside the pages it still owns as it was.
\<close>

locale page_source =
  fixes get :: "'s \<Rightarrow> (u64 \<times> 's) option"
    and inv :: "'s \<Rightarrow> bool"
    and fr :: "'s \<Rightarrow> u64 set"
    and rd :: "'s \<Rightarrow> memory"
    and wr :: "memory \<Rightarrow> 's \<Rightarrow> 's"
  assumes rd_wr: "rd (wr m s) = m"
    and wr_wr: "wr m (wr m' s) = wr m s"
    and inv_page: "inv s \<Longrightarrow> p \<in> fr s \<Longrightarrow> aligned 12 p \<and> p \<noteq> 0"
    and get_cases: "inv s \<Longrightarrow> (fr s = {} \<and> get s = Some (0, s)) \<or>
      (\<exists>p s'. get s = Some (p, s') \<and> p \<in> fr s \<and> inv s' \<and> fr s' = fr s - {p} \<and> rd s' = rd s)"
    and wr_inv: "inv s \<Longrightarrow> (\<And>p y. p \<in> fr s \<Longrightarrow> in_rng p 8 y \<Longrightarrow> m y = rd s y) \<Longrightarrow>
      inv (wr m s) \<and> fr (wr m s) = fr s"
begin

lemma get_fails: "inv s \<Longrightarrow> get s = Some (0, s') \<Longrightarrow> fr s = {} \<and> s' = s"
  using get_cases inv_page by fastforce

lemma get_page:
  assumes "inv s" "get s = Some (p, s')" "p \<noteq> 0"
  shows "p \<in> fr s \<and> aligned 12 p \<and> inv s' \<and> fr s' = fr s - {p} \<and> rd s' = rd s"
  using get_cases [OF assms(1)] assms inv_page by auto

lemma get_returns: "inv s \<Longrightarrow> \<exists>p s'. get s = Some (p, s')"
  using get_cases by blast

text \<open>A page just taken may be overwritten as a whole.\<close>

lemma fill_page:
  assumes "inv s" "get s = Some (p, s')" "p \<noteq> 0" "\<And>y. \<not> in_rng p 4096 y \<Longrightarrow> m y = rd s' y"
  shows "inv (wr m s')" "fr (wr m s') = fr s - {p}"
proof -
  from get_page [OF assms(1-3)] have p: "aligned 12 p" "inv s'" "fr s' = fr s - {p}" by auto
  have "m y = rd s' y" if "q \<in> fr s'" "in_rng q 8 y" for q y
  proof (rule assms(4))
    have "rng_disj q (2 ^ 12) p (2 ^ 12)"
      using that p inv_page [OF p(2) that(1)] by (intro aligned_disj) auto
    moreover have "in_rng q (2 ^ 12) y" using that(2) by (rule in_rng_mono) simp
    ultimately have "\<not> in_rng p (2 ^ 12) y" by (rule rng_disjD)
    then show "\<not> in_rng p 4096 y" by simp
  qed
  then have "inv (wr m s') \<and> fr (wr m s') = fr s'" using wr_inv [OF p(2)] by blast
  with p(3) show "inv (wr m s')" "fr (wr m s') = fr s - {p}" by simp_all
qed

end

definition free_pages :: "'a alloc_scheme \<Rightarrow> u64 set" where
  "free_pages s = {x. \<exists>xs. pages_ok s xs \<and> x \<in> set xs}"

lemma pages_ok_unique: "pages_ok s xs \<Longrightarrow> pages_ok s ys \<Longrightarrow> xs = ys"
  by (auto simp: pages_ok_def intro: chain_unique)

lemma free_pages_eq: "pages_ok s xs \<Longrightarrow> free_pages s = set xs"
  by (auto simp: free_pages_def dest: pages_ok_unique)

lemma alloc_invI: "pages_ok s xs \<Longrightarrow> alloc_inv s"
  by (auto simp: alloc_inv_def)

lemma spec_alloc_one: "spec_alloc he (npages (ucast PAGE_SIZE)) xs =
    (case xs of [] \<Rightarrow> None | x # ys \<Rightarrow> Some (x, ys))"
  by (simp add: spec_alloc_def npages_def PAGE_SIZE_val)

lemma mem_alloc_page_pops:
  assumes "pages_ok s (x # xs)"
  shows "mem_alloc (ucast PAGE_SIZE) s =
      Some (x, s\<lparr>free_list := ld64 (mem s) x, free_page_count := of_nat (length xs)\<rparr>)"
    and "pages_ok (s\<lparr>free_list := ld64 (mem s) x, free_page_count := of_nat (length xs)\<rparr>) xs"
proof -
  have n: "npages (ucast PAGE_SIZE) = 1" by (simp add: npages_def PAGE_SIZE_val)
  have nz: "(ucast PAGE_SIZE :: u32) \<noteq> 0" by (simp add: PAGE_SIZE_val)
  show "mem_alloc (ucast PAGE_SIZE) s =
      Some (x, s\<lparr>free_list := ld64 (mem s) x, free_page_count := of_nat (length xs)\<rparr>)"
    using mem_alloc_unfold [OF assms nz] assms unfolding n by (simp add: pages_ok_def)
  show "pages_ok (s\<lparr>free_list := ld64 (mem s) x, free_page_count := of_nat (length xs)\<rparr>) xs"
    using assms by (simp add: pages_ok_def heap_ok_def page_ok_def)
qed

lemma mem_alloc_page_empty:
  assumes "pages_ok s []"
  shows "mem_alloc (ucast PAGE_SIZE) s = Some (0, s)"
  using mem_alloc_refines [OF assms refl, of "ucast PAGE_SIZE"] by (simp add: spec_alloc_one)

lemma pages_ok_write:
  assumes "pages_ok s xs" "\<And>p y. p \<in> set xs \<Longrightarrow> in_rng p 8 y \<Longrightarrow> m y = mem s y"
  shows "pages_ok (s\<lparr>mem := m\<rparr>) xs"
  using assms chain_cong [of xs m "mem s" "free_list s"]
  by (simp add: pages_ok_def heap_ok_def page_ok_def)

lemma pages_ok_satp [simp]: "pages_ok (s\<lparr>satp := r\<rparr>) xs = pages_ok s xs"
  by (simp add: pages_ok_def heap_ok_def page_ok_def)

lemma alloc_inv_satp [simp]:
  "alloc_inv (s\<lparr>satp := r\<rparr>) = alloc_inv s" "free_pages (s\<lparr>satp := r\<rparr>) = free_pages s"
  by (simp_all add: alloc_inv_def free_pages_def)

interpretation pages: page_source "mem_alloc (ucast PAGE_SIZE)" alloc_inv free_pages mem
  "\<lambda>m s. s\<lparr>mem := m\<rparr>"
proof unfold_locales
  fix s :: "'a alloc_scheme" and p
  assume i: "alloc_inv s"
  then obtain xs where xs: "pages_ok s xs" by (auto simp: alloc_inv_def)
  show "p \<in> free_pages s \<Longrightarrow> aligned 12 p \<and> p \<noteq> 0"
    using xs by (auto simp: free_pages_eq pages_ok_def page_ok_def dest: chain_nonzero)
  show "(free_pages s = {} \<and> mem_alloc (ucast PAGE_SIZE) s = Some (0, s)) \<or>
      (\<exists>p s'. mem_alloc (ucast PAGE_SIZE) s = Some (p, s') \<and> p \<in> free_pages s \<and> alloc_inv s' \<and>
        free_pages s' = free_pages s - {p} \<and> mem s' = mem s)"
  proof (cases xs)
    case Nil
    with xs show ?thesis by (simp add: free_pages_eq mem_alloc_page_empty)
  next
    case (Cons x ys)
    note ok = xs [unfolded Cons]
    have "x \<notin> set ys" using ok by (simp add: pages_ok_def)
    with mem_alloc_page_pops [OF ok] free_pages_eq [OF ok]
      free_pages_eq [OF mem_alloc_page_pops(2) [OF ok]] alloc_invI [OF mem_alloc_page_pops(2) [OF ok]]
    show ?thesis by auto
  qed
next
  fix s :: "'a alloc_scheme" and m
  assume i: "alloc_inv s" and w: "\<And>p y. p \<in> free_pages s \<Longrightarrow> in_rng p 8 y \<Longrightarrow> m y = mem s y"
  from i obtain xs where xs: "pages_ok s xs" by (auto simp: alloc_inv_def)
  then have "pages_ok (s\<lparr>mem := m\<rparr>) xs" by (rule pages_ok_write) (use w in \<open>simp add: free_pages_eq [OF xs]\<close>)
  then show "alloc_inv (s\<lparr>mem := m\<rparr>) \<and> free_pages (s\<lparr>mem := m\<rparr>) = free_pages s"
    using xs by (simp add: free_pages_eq alloc_invI)
qed simp_all

section \<open>What the abstract allocator hands out\<close>

lemma page_ok_end: "heap_ok s \<Longrightarrow> page_ok s x \<Longrightarrow> unat x + 4096 \<le> unat (heap_end s)"
  using aligned_gap [of 12 x "heap_end s"] by (simp add: heap_ok_def page_ok_def word_less_nat_alt)

lemma page_at_0 [simp]: "page_at x 0 = x"
  by (simp add: page_at_def)

lemma spec_alloc_Some:
  assumes ok: "pages_ok s xs" and n: "n \<le> 2 ^ 20" and sp: "spec_alloc (heap_end s) n xs = Some (x, ys)"
  shows "n \<noteq> 0" "x \<in> set xs" "is_run (heap_end s) n xs x" "set ys = set xs - page_at x ` {..<n}"
proof -
  show n0: "n \<noteq> 0" using sp by (auto simp: spec_alloc_def split: if_splits)
  have "x \<in> set xs \<and> is_run (heap_end s) n xs x \<and> set ys = set xs - page_at x ` {..<n}"
  proof (cases "n = 1")
    case True
    with sp have xs: "xs = x # ys" by (auto simp: spec_alloc_def split: list.splits)
    have "unat x + 4096 \<le> unat (heap_end s)"
      using ok xs by (intro page_ok_end) (auto simp: pages_ok_def)
    with True xs ok show ?thesis by (auto simp: is_run_def pages_ok_def)
  next
    case False
    with sp n0 have x: "x \<in> set xs" "is_run (heap_end s) n xs x"
      and ys: "ys = filter (\<lambda>y. \<not> in_run n x y) xs"
      by (auto simp: spec_alloc_def find_Some_iff split: option.splits)
    have "page_ok s x" "heap_ok s" and al: "\<forall>y\<in>set xs. aligned 12 y"
      using ok x(1) by (auto simp: pages_ok_def page_ok_def)
    then have "in_run n x y \<longleftrightarrow> (\<exists>i<n. y = page_at x i)" if "y \<in> set xs" for y
      using that n by (intro in_run_page page_ok_nowrap) (auto simp: page_ok_def)
    with x ys show ?thesis by auto
  qed
  then show "x \<in> set xs" "is_run (heap_end s) n xs x" "set ys = set xs - page_at x ` {..<n}"
    by auto
qed

lemma spec_alloc_None:
  assumes ok: "pages_ok s xs" and n: "n \<noteq> 0" "n \<le> 2 ^ 20" and sp: "spec_alloc (heap_end s) n xs = None"
  shows "\<not> (\<forall>i<n. page_at x i \<in> set xs)"
proof
  assume run: "\<forall>i<n. page_at x i \<in> set xs"
  with n(1) have x: "x \<in> set xs" by (metis page_at_0 bot_nat_0.not_eq_extremum)
  with n(1) sp have "n \<noteq> 1" "find (is_run (heap_end s) n xs) xs = None"
    by (auto simp: spec_alloc_def split: list.splits option.splits if_splits)
  with x have nr: "\<not> is_run (heap_end s) n xs x" by (auto simp: find_None_iff)
  have hp: "heap_ok s" "page_ok s x" using ok x by (auto simp: pages_ok_def)
  have "unat (page_at x (n - 1)) = unat x + 4096 * (n - 1)"
    using page_ok_nowrap [OF hp n(2)] by (rule unat_page_at) simp
  moreover have "page_at x (n - 1) \<in> set xs" using run n(1) by simp
  then have "unat (page_at x (n - 1)) + 4096 \<le> unat (heap_end s)"
    using ok hp(1) by (intro page_ok_end) (auto simp: pages_ok_def)
  moreover have "4096 * n = 4096 * (n - 1) + 4096" using n(1) by (cases n) auto
  ultimately have "unat x + 4096 * n \<le> unat (heap_end s)" by linarith
  with run nr show False by (simp add: is_run_def)
qed

lemma mem_alloc_cases:
  assumes "pages_ok s xs"
  obtains (null) "mem_alloc sz s = Some (0, s)" "sz = 0 \<or> (\<forall>x. \<exists>i<npages sz. page_at x i \<notin> set xs)"
  | (page) x s' ys where "mem_alloc sz s = Some (x, s')" "x \<noteq> 0" "sz \<noteq> 0" "x \<in> set xs"
      "is_run (heap_end s) (npages sz) xs x" "pages_ok s' ys"
      "set ys = set xs - page_at x ` {..<npages sz}"
      "\<exists>m h c. s' = s\<lparr>mem := m, free_list := h, free_page_count := c\<rparr>"
      "\<forall>y. mem s' y \<noteq> mem s y \<longrightarrow> (\<exists>p\<in>set ys. in_rng p 8 y)"
proof (cases "spec_alloc (heap_end s) (npages sz) xs")
  case None
  then have "mem_alloc sz s = Some (0, s)" using mem_alloc_refines [OF assms refl, of sz] by simp
  moreover have "sz = 0 \<or> (\<forall>x. \<exists>i<npages sz. page_at x i \<notin> set xs)"
    using spec_alloc_None [OF assms _ npages_bounds(1) None] npages_bounds(2) by blast
  ultimately show ?thesis by (rule null)
next
  case (Some r)
  obtain x ys where r: "r = (x, ys)" by (cases r)
  note f = spec_alloc_Some [OF assms npages_bounds(1) Some [unfolded r]]
  have "x \<noteq> 0" using assms f(2) by (auto simp: pages_ok_def dest: chain_nonzero)
  moreover have "sz \<noteq> 0" using f(1) npages_bounds(2) [of sz] by simp
  ultimately show ?thesis
    using mem_alloc_refines [OF assms refl, of sz] Some r f by (auto intro!: page)
qed

lemma mem_alloc_frame:
  assumes "alloc_inv s" "mem_alloc sz s = Some (p, s')"
  obtains m h c where "s' = s\<lparr>mem := m, free_list := h, free_page_count := c\<rparr>"
proof -
  obtain xs where xs: "pages_ok s xs" using assms(1) by (auto simp: alloc_inv_def)
  have "\<exists>m h c. s' = s\<lparr>mem := m, free_list := h, free_page_count := c\<rparr>"
  proof (cases rule: mem_alloc_cases [OF xs, of sz])
    case 1
    then show ?thesis
      using assms(2) by (intro exI [of _ "mem s"] exI [of _ "free_list s"] exI [of _ "free_page_count s"]) simp
  next
    case (2 x t ys)
    then show ?thesis using assms(2) by simp
  qed
  with that show ?thesis by blast
qed

lemma heap_identity:
  assumes "heap_ok s" "page_ok s x"
  shows "virt_to_phys x = x"
proof -
  have "unat x < 2 ^ 56" using assms by (simp add: heap_ok_def page_ok_def word_less_nat_alt)
  moreover have "unat KERNEL_BASE_VA = 0xFFFFFFC080000000" by (simp add: KERNEL_BASE_VA_def BASE_ADDR_def VIRT_OFFSET_def)
  ultimately show ?thesis by (simp add: virt_to_phys_def word_le_nat_alt)
qed

section \<open>Properties\<close>

text \<open>A heap of three free pages, on which the properties are tried out.\<close>

definition three_pages :: alloc where
  "three_pages = \<lparr>mem = st64 (st64 (\<lambda>_. 0) 0x80001000 0x80002000) 0x80002000 0x80003000,
     sstatus = 2, mie = 0, mip = 0, stvec = 0, satp = 0, time_in = (\<lambda>_. 0), time_rd = 0,
     mtimecmp = 0, uart_in = (\<lambda>_ _. 0x60), uart_rd = 0, uart_wr = [],
     free_list = 0x80001000, heap_start = 0x80001000, heap_end = 0x80004000, free_page_count = 3\<rparr>"

lemma three_pages_ok: "pages_ok three_pages [0x80001000, 0x80002000, 0x80003000]"
proof -
  have d: "rng_disj 0x80001000 8 0x80002000 8" "rng_disj 0x80003000 8 0x80001000 8" "rng_disj 0x80003000 8 0x80002000 8"
    by (rule rng_disjI; simp)+
  have z: "ld64 (\<lambda>_. 0) a = 0" for a by (simp add: ld64_def ld_le_zero del: ld_le.simps)
  show ?thesis
    by (simp add: three_pages_def pages_ok_def heap_ok_def page_ok_def aligned_def z d [THEN ld64_st64_disj])
qed

lemma count_range_self_loop:
  assumes "count_range m p a b f = Some c"
  shows "p = 0 \<or> ld64 m p \<noteq> p"
  by (rule count_range.raw_induct [where P = "\<lambda>m p a b f c. p = 0 \<or> ld64 m p \<noteq> p", OF _ assms])
    (metis option.distinct(1))

text \<open>
  C1. \<open>mem_alloc\<close> implements the abstract allocator: whenever the variables and the links in
  memory represent the list \<open>xs\<close> of free pages, \<open>mem_alloc\<close> returns, answers what
  \<open>spec_alloc\<close> answers on \<open>xs\<close> (the head for one page, the first address on the list
  that starts a free contiguous run otherwise, NULL and no change when there is none), leaves a
  state that represents the remaining list, and changes no register and no byte except
  link words of pages that are still free.
\<close>

theorem mem_alloc_implements_spec:
  assumes "pages_ok s xs"
  shows "case spec_alloc (heap_end s) (npages sz) xs of
      None \<Rightarrow> mem_alloc sz s = Some (0, s)
    | Some (x, ys) \<Rightarrow> \<exists>m h.
        mem_alloc sz s =
          Some (x, s\<lparr>mem := m, free_list := h, free_page_count := of_nat (length ys)\<rparr>) \<and>
        pages_ok (s\<lparr>mem := m, free_list := h, free_page_count := of_nat (length ys)\<rparr>) ys \<and>
        (\<forall>y. m y \<noteq> mem s y \<longrightarrow> (\<exists>p\<in>set ys. in_rng p 8 y))"
  by (rule mem_alloc_refines [OF assms refl])

theorem mem_alloc_implements_spec_witness:
  "\<exists>m h. mem_alloc 8192 three_pages = Some (0x80001000,
      three_pages\<lparr>mem := m, free_list := h, free_page_count := 1\<rparr>) \<and>
    pages_ok (three_pages\<lparr>mem := m, free_list := h, free_page_count := 1\<rparr>) [0x80003000]"
proof -
  have "spec_alloc (heap_end three_pages) (npages 8192) [0x80001000, 0x80002000, 0x80003000] =
      Some (0x80001000, [0x80003000])"
    by (simp add: spec_alloc_def npages_def is_run_def page_at_def in_run_def three_pages_def
        less_2_cases_iff)
  then show ?thesis
    using mem_alloc_implements_spec [OF three_pages_ok, of 8192] by auto
qed

text \<open>
  C27. A block handed out by \<open>mem_alloc\<close> is page aligned, lies inside the heap, is large enough
  for the request, consists of contiguous pages that were all free and that are no longer
  free; every other free page stays free, the interrupt enable bit is back to its value,
  and no byte outside the link words of pages that are still free has changed.
\<close>

theorem mem_alloc_contiguous:
  assumes inv: "alloc_inv s" and run: "mem_alloc sz s = Some (p, s')" and p: "p \<noteq> 0"
  shows "aligned 12 p \<and> heap_start s \<le> p \<and> unat p + 4096 * npages sz \<le> unat (heap_end s) \<and>
    unat sz \<le> 4096 * npages sz \<and>
    page_at p ` {..<npages sz} \<subseteq> free_pages s \<and>
    free_pages s' = free_pages s - page_at p ` {..<npages sz} \<and> alloc_inv s' \<and>
    sstatus s' = sstatus s \<and>
    (\<forall>y. mem s' y \<noteq> mem s y \<longrightarrow> (\<exists>q\<in>free_pages s'. in_rng q 8 y))"
proof -
  obtain xs where xs: "pages_ok s xs" using inv by (auto simp: alloc_inv_def)
  from xs show ?thesis
  proof (cases rule: mem_alloc_cases [where sz = sz])
    case null
    with run p show ?thesis by simp
  next
    case (page x t ys)
    with run have eq: "x = p" "t = s'" by auto
    have "page_ok s p" using xs page(4) eq by (auto simp: pages_ok_def)
    moreover have "unat sz \<le> 4096 * npages sz" 
      using page_round_up [of "unat sz"] unfolding npages_def by simp
    moreover have "sstatus s' = sstatus s" using page(8) eq by auto
    ultimately show ?thesis
      using page free_pages_eq [OF xs] free_pages_eq [OF page(6)] alloc_invI [OF page(6)]
      unfolding eq by (auto simp: is_run_def page_ok_def)
  qed
qed

text \<open>
  C28. \<open>mem_alloc\<close> always returns on a well-formed heap, and it returns NULL exactly when the
  size is zero or no contiguous run of free pages of the rounded-up size exists anywhere;
  a failed request changes nothing.
\<close>

theorem mem_alloc_null_iff:
  assumes "alloc_inv s"
  shows "\<exists>p s'. mem_alloc sz s = Some (p, s') \<and>
    (p = 0 \<longleftrightarrow> sz = 0 \<or> (\<forall>x. \<not> page_at x ` {..<npages sz} \<subseteq> free_pages s)) \<and>
    (p = 0 \<longrightarrow> s' = s)"
proof -
  obtain xs where xs: "pages_ok s xs" using assms by (auto simp: alloc_inv_def)
  from xs show ?thesis
  proof (cases rule: mem_alloc_cases [where sz = sz])
    case null
    then show ?thesis by (auto simp: free_pages_eq [OF xs] image_subset_iff)
  next
    case (page x t ys)
    then show ?thesis by (force simp: free_pages_eq [OF xs] is_run_def)
  qed
qed

theorem mem_alloc_contiguous_witness:
  "\<exists>s'. mem_alloc 4096 three_pages = Some (0x80001000, s') \<and> aligned 12 0x80001000 \<and>
    free_pages s' = free_pages three_pages - page_at 0x80001000 ` {..<npages 4096} \<and> alloc_inv s'"
proof -
  obtain s' where s': "mem_alloc 4096 three_pages = Some (0x80001000, s')"
    using mem_alloc_page_pops(1) [OF three_pages_ok] by (simp add: PAGE_SIZE_val)
  with mem_alloc_contiguous [OF alloc_invI [OF three_pages_ok] s'] show ?thesis by auto
qed

theorem mem_alloc_null_iff_witness:
  "\<exists>s'. mem_alloc 0 three_pages = Some (0, s') \<and> s' = three_pages"
  using mem_alloc_null_iff [OF alloc_invI [OF three_pages_ok], of 0] by auto


lemma page_ok_frame [simp]:
  "page_ok (s\<lparr>mem := m, free_list := h, free_page_count := c\<rparr>) x = page_ok s x"
  "heap_ok (s\<lparr>mem := m, free_list := h, free_page_count := c\<rparr>) = heap_ok s"
  by (simp_all add: page_ok_def heap_ok_def)

lemma mem_free_heap: "page_ok (mem_free p s) x = page_ok s x"
  by (cases "p = 0 \<or> \<not> page_ok s (virt_to_phys p)") (simp_all add: mem_free_ignores mem_free_unfold)

lemma mem_free_list:
  assumes "pages_ok s xs" "distinct ys" "set ys \<inter> set xs = {}" "\<forall>y\<in>set ys. page_ok s y"
  shows "pages_ok (fold mem_free ys s) (rev ys @ xs)"
  using assms
proof (induction ys arbitrary: s xs)
  case (Cons y ys)
  have ok: "heap_ok s" "page_ok s y" using Cons.prems by (simp_all add: pages_ok_def)
  then have v: "virt_to_phys y = y" "y \<noteq> 0" by (auto dest: heap_identity page_ok_nonzero)
  then have "pages_ok (mem_free y s) (y # xs)"
    using mem_free_pages [OF Cons.prems(1), of y] Cons.prems ok by auto
  then have "pages_ok (fold mem_free ys (mem_free y s)) (rev ys @ y # xs)"
    using Cons.prems by (intro Cons.IH) (auto simp: mem_free_heap)
  then show ?case by simp
qed simp

text \<open>
  Freeing a page just allocated undoes the allocation: the state is exactly what it was, and
  if the owner has overwritten the page in between, the same free list is represented again.
\<close>

theorem mem_free_undoes_alloc:
  assumes inv: "alloc_inv s" and run: "mem_alloc_page s = Some (p, s')" and p: "p \<noteq> 0"
    and used: "\<forall>y. m y \<noteq> mem s' y \<longrightarrow> in_rng p 4096 y"
  shows "mem_free_page p s' = s \<and>
    (\<exists>xs. pages_ok s (p # xs) \<and> pages_ok (mem_free_page p (s'\<lparr>mem := m\<rparr>)) (p # xs))"
proof -
  obtain ys where ys: "pages_ok s ys" using inv by (auto simp: alloc_inv_def)
  with run p obtain xs where "ys = p # xs"
    using mem_alloc_page_empty [of s] mem_alloc_page_pops(1) [of s]
    by (cases ys) (auto simp: mem_alloc_page_def)
  with ys have ok: "pages_ok s (p # xs)" by simp
  have s': "s' = s\<lparr>free_list := ld64 (mem s) p, free_page_count := of_nat (length xs)\<rparr>"
    using run mem_alloc_page_pops(1) [OF ok] by (simp add: mem_alloc_page_def)
  have hp: "heap_ok s" "page_ok s p" using ok by (simp_all add: pages_ok_def)
  then have v: "virt_to_phys p = p" by (rule heap_identity)
  have p': "page_ok s' p" using hp(2) by (simp add: s' page_ok_def)
  then have "mem_free p s' = s"
    using ok unfolding mem_free_unfold [OF p, unfolded v, OF p']
    by (simp add: s' st64_ld64_same pages_ok_def)
  moreover have "pages_ok (mem_free p (s'\<lparr>mem := m\<rparr>)) (p # xs)"
  proof -
    have al: "\<forall>q\<in>set (p # xs). aligned 12 q" "p \<notin> set xs" using ok by (auto simp: pages_ok_def page_ok_def)
    have "m y = mem s' y" if "q \<in> set xs" "in_rng q 8 y" for q y
    proof (rule ccontr)
      assume "m y \<noteq> mem s' y"
      with used have "in_rng p (2 ^ 12) y" by simp
      moreover have "in_rng q (2 ^ 12) y" using that(2) by (rule in_rng_mono) simp
      moreover have "rng_disj q (2 ^ 12) p (2 ^ 12)" using al that(1) by (intro aligned_disj) auto
      ultimately show False by (blast dest: rng_disjD)
    qed
    then have "pages_ok (s'\<lparr>mem := m\<rparr>) xs"
      using mem_alloc_page_pops(2) [OF ok] by (intro pages_ok_write) (simp_all add: s')
    then show ?thesis
      using mem_free_pages [of "s'\<lparr>mem := m\<rparr>" xs p] v p p' al by (simp add: page_ok_def)
  qed
  ultimately show ?thesis using ok by (auto simp: mem_free_page_def)
qed

theorem mem_free_undoes_alloc_witness:
  "\<exists>s'. mem_alloc_page three_pages = Some (0x80001000, s') \<and> mem_free_page 0x80001000 s' = three_pages"
proof -
  obtain s' where s': "mem_alloc_page three_pages = Some (0x80001000, s')"
    using mem_alloc_page_pops(1) [OF three_pages_ok] by (simp add: mem_alloc_page_def)
  with mem_free_undoes_alloc [OF alloc_invI [OF three_pages_ok] s', of "mem s'"] show ?thesis by auto
qed

text \<open>
  C30. A multi-page block may be returned page by page in any order, as the interface asks:
  afterwards the free pages and their count are those before the allocation.
\<close>

theorem mem_free_run_restores:
  assumes inv: "alloc_inv s" and run: "mem_alloc sz s = Some (p, s')" and p: "p \<noteq> 0"
    and order: "set ps = page_at p ` {..<npages sz}" "distinct ps"
  shows "alloc_inv (fold mem_free ps s') \<and> free_pages (fold mem_free ps s') = free_pages s \<and>
    free_page_count (fold mem_free ps s') = free_page_count s"
proof -
  obtain xs where xs: "pages_ok s xs" using inv by (auto simp: alloc_inv_def)
  from xs show ?thesis
  proof (cases rule: mem_alloc_cases [where sz = sz])
    case null
    with run p show ?thesis by simp
  next
    case (page x t ys)
    with run have eq: "x = p" "t = s'" by auto
    note ok = page(6) [unfolded eq]
    have sub: "set ps \<subseteq> set xs" using page(5) by (auto simp: order(1) is_run_def eq)
    obtain m h c where s': "s' = s\<lparr>mem := m, free_list := h, free_page_count := c\<rparr>"
      using page(8) eq by auto
    have "pages_ok (fold mem_free ps s') (rev ps @ ys)"
    proof (rule mem_free_list [OF ok order(2)])
      show "set ps \<inter> set ys = {}" using page(7) by (auto simp: order(1) eq)
      show "\<forall>y\<in>set ps. page_ok s' y" using xs sub by (auto simp: s' pages_ok_def)
    qed
    moreover have "set (rev ps @ ys) = set xs" using sub page(7) by (auto simp: order(1) eq)
    moreover have "distinct (rev ps @ ys)" using calculation(1) by (simp add: pages_ok_def)
    then have "length (rev ps @ ys) = length xs"
      using xs calculation(2) by (metis distinct_card pages_ok_def)
    ultimately have "pages_ok (fold mem_free ps s') (rev ps @ ys)" "set (rev ps @ ys) = set xs"
      "free_page_count (fold mem_free ps s') = of_nat (length xs)"
      unfolding pages_ok_def by metis+
    then show ?thesis
      using xs free_pages_eq alloc_invI by (metis pages_ok_def)
  qed
qed

theorem mem_free_run_restores_witness:
  "\<exists>s'. mem_alloc 4096 three_pages = Some (0x80001000, s') \<and>
    free_pages (fold mem_free [0x80001000] s') = free_pages three_pages"
proof -
  obtain s' where s': "mem_alloc 4096 three_pages = Some (0x80001000, s')"
    using mem_alloc_page_pops(1) [OF three_pages_ok] by (simp add: PAGE_SIZE_val)
  have "npages 4096 = 1" by (simp add: npages_def)
  with mem_free_run_restores [OF alloc_invI [OF three_pages_ok] s', of "[0x80001000]"] s'
  show ?thesis by (auto simp: lessThan_Suc)
qed


text \<open>
  \<open>mem_free\<close> ignores NULL, addresses outside the heap and unaligned addresses; any other
  page that is not free already becomes the head of the free list, and only its first word
  is written.
\<close>

theorem mem_free_guards:
  assumes "pages_ok s xs"
  shows "if page \<noteq> 0 \<and> page_ok s (virt_to_phys page)
    then (virt_to_phys page \<notin> set xs \<longrightarrow> pages_ok (mem_free page s) (virt_to_phys page # xs)) \<and>
      sstatus (mem_free page s) = sstatus s \<and>
      (\<forall>y. mem (mem_free page s) y \<noteq> mem s y \<longrightarrow> in_rng (virt_to_phys page) 8 y)
    else mem_free page s = s"
proof (cases "page \<noteq> 0 \<and> page_ok s (virt_to_phys page)")
  case True
  then have "mem (mem_free page s) y = mem s y" if "\<not> in_rng (virt_to_phys page) 8 y" for y
    using that by (simp add: mem_free_unfold st64_outside)
  with True mem_free_pages [OF assms] show ?thesis by (auto simp: mem_free_unfold)
next
  case False
  then show ?thesis using mem_free_ignores by auto
qed

theorem mem_free_guards_witness:
  "mem_free 0x80001008 three_pages = three_pages"
  using mem_free_guards [OF three_pages_ok, of "0x80001008"]
  by (simp add: page_ok_def aligned_def virt_to_phys_def KERNEL_BASE_VA_def BASE_ADDR_def VIRT_OFFSET_def)

lemma alloc_scan_self_loop:
  assumes "alloc_scan c n st p s = Some r"
  shows "p = 0 \<or> ld64 (mem s) p \<noteq> p \<or> free_list s \<noteq> p"
  by (rule alloc_scan.raw_induct
      [where P = "\<lambda>c n st p s r. p = 0 \<or> ld64 (mem s) p \<noteq> p \<or> free_list s \<noteq> p", OF _ assms])
    (auto simp: Let_def dest: count_range_self_loop split: if_splits Option.bind_splits; blast)

text \<open>
  Freeing a page twice, which the interface forbids and the code does not check, ties the
  free list into a loop: the next request for two or more pages that passes the count test
  never returns, with interrupts masked.
\<close>

theorem double_free_hangs_alloc:
  assumes ok: "pages_ok s (p # xs)" and n: "2 \<le> npages sz" "npages sz \<le> length xs + 2"
  shows "mem_alloc sz (mem_free p s) = None"
proof -
  have hp: "heap_ok s" "page_ok s p" using ok by (simp_all add: pages_ok_def)
  then have v: "virt_to_phys p = p" "p \<noteq> 0" by (auto dest: heap_identity page_ok_nonzero)
  have len: "length (p # xs) \<le> 4096" using ok by (intro pages_bound [of s]) (simp_all add: pages_ok_def)
  define t where "t = mem_free p s"
  have t: "t = s\<lparr>mem := st64 (mem s) p p, free_list := p, free_page_count := of_nat (length xs + 2)\<rparr>"
    using mem_free_unfold [of p s] v hp ok by (simp add: t_def pages_ok_def)
  define t' where "t' = t\<lparr>sstatus := csr_clear (sstatus t) SSTATUS_SIE\<rparr>"
  have "alloc_scan c b st p t' = None" for c b st
    using alloc_scan_self_loop [of c b st p t'] v(2) by (cases "alloc_scan c b st p t'") (auto simp: t t'_def)
  moreover have "\<not> (of_nat (npages sz) :: u32) > free_page_count t'" "(of_nat (npages sz) :: u32) \<noteq> 1" "sz \<noteq> 0"
  proof -
    have u: "unat (of_nat (npages sz) :: u32) = npages sz" "unat (of_nat (length xs + 2) :: u32) = length xs + 2"
      using len n by (auto intro!: unat_of_nat_lt simp del: of_nat_add of_nat_Suc)
    then show "\<not> (of_nat (npages sz) :: u32) > free_page_count t'"
      using n(2) by (simp add: t'_def t word_less_nat_alt del: of_nat_add of_nat_Suc)
    show "(of_nat (npages sz) :: u32) \<noteq> 1" using u(1) n(1) by auto
    show "sz \<noteq> 0" using n(1) by (auto simp: npages_def)
  qed
  ultimately show ?thesis
    unfolding t_def [symmetric] mem_alloc_def mem_alloc_count allocator_intr_off_def
    by (simp add: Let_def t'_def t)
qed

theorem double_free_hangs_alloc_witness:
  "mem_alloc 8192 (mem_free 0x80001000 three_pages) = None"
  using double_free_hangs_alloc [OF three_pages_ok, of 8192] by (simp add: npages_def)

text \<open>
  C29. \<open>page_allocator_init\<close> returns and establishes the invariant: the heap starts at the first
  page boundary at or above \<^verbatim>\<open>__heap_start\<close>, ends at the last one below 16 MB or
  \<^verbatim>\<open>__stack_limit\<close>, the free list holds all of its pages in ascending order, and only
  their link words have been written.
\<close>

theorem page_allocator_init_establishes:
  assumes "heap_syms_ok hsym ssym"
  shows "\<exists>s' hs. page_allocator_init hsym ssym s = Some s' \<and>
    unat hs = heap_first hsym \<and> heap_start s' = hs \<and> unat (heap_end s') = heap_last hsym ssym \<and>
    pages_ok s' (map (page_at hs) [0..<(heap_last hsym ssym - heap_first hsym) div 4096]) \<and>
    (\<forall>y. mem s' y \<noteq> mem s y \<longrightarrow> (\<exists>p\<in>free_pages s'. in_rng p 8 y))"
proof -
  from page_allocator_init_pages [OF assms, of s] obtain m h hs he where r:
    "page_allocator_init hsym ssym s = Some (s\<lparr>heap_start := hs, heap_end := he, mem := m,
       free_list := h, free_page_count := of_nat ((heap_last hsym ssym - heap_first hsym) div 4096)\<rparr>)"
    "unat hs = heap_first hsym" "unat he = heap_last hsym ssym"
    "pages_ok (s\<lparr>heap_start := hs, heap_end := he, mem := m, free_list := h,
       free_page_count := of_nat ((heap_last hsym ssym - heap_first hsym) div 4096)\<rparr>)
      (map (page_at hs) [0..<(heap_last hsym ssym - heap_first hsym) div 4096])"
    "\<forall>y. m y \<noteq> mem s y \<longrightarrow>
      (\<exists>i<(heap_last hsym ssym - heap_first hsym) div 4096. in_rng (page_at hs i) 8 y)"
    by blast
  from r(5) have "\<forall>y. m y \<noteq> mem s y \<longrightarrow> (\<exists>p\<in>set (map (page_at hs)
      [0..<(heap_last hsym ssym - heap_first hsym) div 4096]). in_rng p 8 y)"
    by (metis (no_types, lifting) atLeastLessThan_iff image_eqI list.set_map set_upt zero_le)
  with r(1-4) show ?thesis unfolding free_pages_eq [OF r(4), symmetric] by auto
qed

theorem page_allocator_init_establishes_witness:
  "\<exists>s'. page_allocator_init 0xFFFFFFC080001234 0xFFFFFFC080005FFF three_pages = Some s' \<and>
    unat (heap_start s') = 0x80002000 \<and> unat (heap_end s') = 0x80005000 \<and> alloc_inv s'"
proof -
  have v: "virt_to_phys 0xFFFFFFC080001234 = 0x80001234" "virt_to_phys 0xFFFFFFC080005FFF = 0x80005FFF"
    by (simp_all add: virt_to_phys_def KERNEL_BASE_VA_def BASE_ADDR_def VIRT_OFFSET_def)
  have "heap_syms_ok 0xFFFFFFC080001234 0xFFFFFFC080005FFF" by (simp add: heap_syms_ok_def v)
  moreover have "heap_first 0xFFFFFFC080001234 = 0x80002000"
    "heap_last 0xFFFFFFC080001234 0xFFFFFFC080005FFF = 0x80005000"
    by (simp_all add: heap_first_def heap_last_def v)
  ultimately show ?thesis
    using page_allocator_init_establishes [of "0xFFFFFFC080001234" "0xFFFFFFC080005FFF" three_pages]
      alloc_invI by fastforce
qed

end
