(* ===== verification/Paging.thy ===== *)
theory Paging
  imports Page_Alloc
begin

text \<open>
  The Sv39 page tables of \<^verbatim>\<open>src/src/kernel/mem.c\<close>: \<open>map_page\<close>, \<open>va2pa\<close>, and the two
  sequences that build the kernel's address space and switch \<^verbatim>\<open>satp\<close> to it
  (\<open>relocate_kernel\<close> during the M-mode boot, \<open>mem_init\<close> afterwards). Tables are 4096-byte
  pages of the byte memory taken from the page allocator.

  \<open>map_page\<close> does not check what \<open>mem_alloc\<close> returns: with no page left it would clear the
  4096 bytes at address 0 and go on with a table there. The model stops at that point with
  the fault value \<open>Null_table\<close>, and the lemmas say when it cannot happen.

  The specification is the address translation of the architecture, \<open>sv39\<close>: the walk over
  three levels of 512 entries, superpages included. \<open>pt_inv s root\<close> says that the tables
  below \<open>root\<close> form a tree of pages that are not free.
\<close>

section \<open>Definitions\<close>

definition PA2PTE :: "u64 \<Rightarrow> u64" where
  "PA2PTE pa = push_bit 10 (drop_bit PGSHIFT pa)"

definition PTE2PA :: "u64 \<Rightarrow> u64" where
  "PTE2PA pte = push_bit PGSHIFT (drop_bit 10 pte)"

definition PXMASK :: u64 where "PXMASK = 0x1FF"

definition PXSHIFT :: "nat \<Rightarrow> nat" where
  "PXSHIFT level = PGSHIFT + 9 * level"

definition PX :: "nat \<Rightarrow> u64 \<Rightarrow> u64" where
  "PX level va = drop_bit (PXSHIFT level) va AND PXMASK"

definition BIT_MASK :: "nat \<Rightarrow> u32" where
  "BIT_MASK n = push_bit n 1"

definition PTE_V :: u64 where "PTE_V = ucast (BIT_MASK 0)"
definition PTE_R :: u64 where "PTE_R = ucast (BIT_MASK 1)"
definition PTE_W :: u64 where "PTE_W = ucast (BIT_MASK 2)"
definition PTE_X :: u64 where "PTE_X = ucast (BIT_MASK 3)"

text \<open>The address of \<^verbatim>\<open>pt[vpn]\<close>.\<close>

definition slot :: "u64 \<Rightarrow> u64 \<Rightarrow> u64" where
  "slot pt vpn = pt + 8 * vpn"

datatype map_fault = Null_table

text \<open>The loop of \<open>map_page\<close> at level \<open>l\<close> with the current table \<open>pt\<close>.\<close>

primrec map_walk ::
  "nat \<Rightarrow> u64 \<Rightarrow> u64 \<Rightarrow> 'a alloc_scheme \<Rightarrow> (map_fault + u64 \<times> 'a alloc_scheme) option" where
  "map_walk 0 pt va s = Some (Inr (pt, s))"
| "map_walk (Suc l) pt va s =
     (let vpn = PX (Suc l) va;
          pte = slot pt vpn
      in if ld64 (mem s) pte AND PTE_V \<noteq> 0
         then map_walk l (PTE2PA (ld64 (mem s) pte)) va s
         else do {
           (next_pt, s) \<leftarrow> mem_alloc (ucast PAGE_SIZE) s;
           if next_pt = 0 then Some (Inl Null_table)
           else
             let s = s\<lparr>mem := memset next_pt 0 (ucast PAGE_SIZE) (mem s)\<rparr>;
                 s = s\<lparr>mem := st64 (mem s) pte (PA2PTE (virt_to_phys next_pt) OR PTE_V)\<rparr>
             in map_walk l next_pt va s
         })"

definition map_page ::
  "u64 \<Rightarrow> u64 \<Rightarrow> u64 \<Rightarrow> u64 \<Rightarrow> 'a alloc_scheme \<Rightarrow> (map_fault + 'a alloc_scheme) option" where
  "map_page root va pa flags s =
     rbind (map_walk 2 root va s) (\<lambda>(pt, s).
       let vpn0 = PX 0 va
       in Some (Inr (s\<lparr>mem := st64 (mem s) (slot pt vpn0) (PA2PTE pa OR flags OR PTE_V)\<rparr>)))"

text \<open>\<open>va2pa\<close> stores its result through a pointer; the model returns it.\<close>

primrec va2pa_walk :: "nat \<Rightarrow> memory \<Rightarrow> u64 \<Rightarrow> u64 \<Rightarrow> u64 option" where
  "va2pa_walk 0 m pt va = Some pt"
| "va2pa_walk (Suc l) m pt va =
     (let vpn = PX (Suc l) va;
          pte = ld64 m (slot pt vpn)
      in if pte AND PTE_V = 0 then None else va2pa_walk l m (PTE2PA pte) va)"

definition va2pa :: "memory \<Rightarrow> u64 \<Rightarrow> u64 \<Rightarrow> u64" where
  "va2pa m root va =
     (case va2pa_walk 2 m root va of
        None \<Rightarrow> 0
      | Some pt \<Rightarrow>
          let vpn0 = PX 0 va;
              final_pte = ld64 m (slot pt vpn0)
          in if final_pte AND PTE_V = 0 then 0
             else PTE2PA final_pte OR (va AND (PAGE_SIZE - 1)))"

definition setup_uart_mapping ::
  "u64 \<Rightarrow> 'a alloc_scheme \<Rightarrow> (map_fault + 'a alloc_scheme) option" where
  "setup_uart_mapping root s =
     map_page root 0x10000000 0x10000000 (PTE_R OR PTE_W OR PTE_V OR PTE_X) s"

definition GPIO_BASE_ADDR :: u64 where "GPIO_BASE_ADDR = 0x10000000"
definition VIRTIO_SIZE :: u32 where "VIRTIO_SIZE = 0x1000"
definition VIRTIO_SLOTS :: u32 where "VIRTIO_SLOTS = 8"

definition VIRT_MMIO :: "u32 \<Rightarrow> u64" where
  "VIRT_MMIO x = GPIO_BASE_ADDR + ucast x"

function virtio_map_loop ::
  "u64 \<Rightarrow> u32 \<Rightarrow> 'a alloc_scheme \<Rightarrow> (map_fault + 'a alloc_scheme) option" where
  "virtio_map_loop root slt s =
     (if slt \<le> VIRTIO_SLOTS then
        let addr = VIRT_MMIO (slt * VIRTIO_SIZE)
        in rbind (map_page root addr addr (PTE_R OR PTE_W) s) (virtio_map_loop root (slt + 1))
      else Some (Inr s))"
  by pat_completeness auto
termination
  by (relation "measure (\<lambda>(root, slt, s). 9 - unat slt)")
    (auto simp: VIRTIO_SLOTS_def word_le_nat_alt unat_add_nowrap)

declare virtio_map_loop.simps [simp del]

definition setup_virtio_mappings ::
  "u64 \<Rightarrow> 'a alloc_scheme \<Rightarrow> (map_fault + 'a alloc_scheme) option" where
  "setup_virtio_mappings root s = virtio_map_loop root 1 s"

text \<open>The address of \<^verbatim>\<open>boot_page_table\<close> is an argument (the linker places the array).\<close>

definition setup_boot_page_table :: "u64 \<Rightarrow> 'a alloc_scheme \<Rightarrow> 'a alloc_scheme" where
  "setup_boot_page_table boot_pt s =
     (let s = s\<lparr>mem := st64 (mem s) (slot boot_pt (PX 2 BASE_ADDR))
                  (PA2PTE BASE_ADDR OR PTE_V OR PTE_R OR PTE_W OR PTE_X)\<rparr>
      in s\<lparr>mem := st64 (mem s) (slot boot_pt (PX 2 KERNEL_BASE_VA))
                  (PA2PTE BASE_ADDR OR PTE_V OR PTE_R OR PTE_W OR PTE_X)\<rparr>)"

definition satp_value :: "u64 \<Rightarrow> u64" where
  "satp_value root = push_bit 60 8 OR drop_bit PGSHIFT (virt_to_phys root)"

definition relocate_kernel ::
  "u64 \<Rightarrow> u64 \<Rightarrow> u64 \<Rightarrow> 'a alloc_scheme \<Rightarrow> (map_fault + 'a alloc_scheme) option" where
  "relocate_kernel heap_sym stack_sym boot_pt s = do {
     s \<leftarrow> page_allocator_init heap_sym stack_sym s;
     let s = setup_boot_page_table boot_pt s;
     rbind (setup_uart_mapping boot_pt s) (\<lambda>s.
       rbind (setup_virtio_mappings boot_pt s) (\<lambda>s.
         Some (Inr (s\<lparr>satp := satp_value boot_pt\<rparr>))))
   }"

definition mem_init :: "'a alloc_scheme \<Rightarrow> (map_fault + u8 \<times> 'a alloc_scheme) option" where
  "mem_init s = do {
     (root, s) \<leftarrow> mem_alloc (ucast PAGE_SIZE) s;
     if root = 0 then Some (Inr (- 1, s))
     else
       let s = s\<lparr>mem := memset root 0 (ucast PAGE_SIZE) (mem s)\<rparr>;
           pa = BASE_ADDR;
           s = s\<lparr>mem := st64 (mem s) (slot root (PX 2 BASE_ADDR))
                  (PA2PTE pa OR PTE_R OR PTE_W OR PTE_X OR PTE_V)\<rparr>;
           s = s\<lparr>mem := st64 (mem s) (slot root (PX 2 KERNEL_BASE_VA))
                  (PA2PTE pa OR PTE_R OR PTE_W OR PTE_X OR PTE_V)\<rparr>
       in rbind (setup_uart_mapping root s) (\<lambda>s.
            rbind (setup_virtio_mappings root s) (\<lambda>s.
              Some (Inr (0, s\<lparr>satp := satp_value root\<rparr>))))
   }"

section \<open>The specification: Sv39 translation\<close>

text \<open>An entry is valid when bit 0 is set; the reserved bits 54 to 63 must be zero. A valid
  entry with none of R, W, X points at the next table, one with R or X is a leaf, one with W
  alone is reserved.\<close>

definition pte_valid :: "u64 \<Rightarrow> bool" where
  "pte_valid e \<longleftrightarrow> bit e 0"

definition pte_ptr :: "u64 \<Rightarrow> bool" where
  "pte_ptr e \<longleftrightarrow> bit e 0 \<and> \<not> bit e 1 \<and> \<not> bit e 2 \<and> \<not> bit e 3 \<and> drop_bit 54 e = 0"

definition pte_leaf :: "u64 \<Rightarrow> bool" where
  "pte_leaf e \<longleftrightarrow> bit e 0 \<and> (bit e 1 \<or> \<not> bit e 2 \<and> bit e 3) \<and> drop_bit 54 e = 0"

primrec sv39_walk :: "nat \<Rightarrow> memory \<Rightarrow> u64 \<Rightarrow> u64 \<Rightarrow> (nat \<times> u64) option" where
  "sv39_walk 0 m pt va =
     (let e = ld64 m (slot pt (PX 0 va)) in if pte_leaf e then Some (0, e) else None)"
| "sv39_walk (Suc l) m pt va =
     (let e = ld64 m (slot pt (PX (Suc l) va))
      in if pte_leaf e then Some (Suc l, e)
         else if pte_ptr e then sv39_walk l m (PTE2PA e) va
         else None)"

text \<open>A virtual address must be the sign extension of its low 39 bits. A leaf at level \<open>l\<close>
  replaces the bits above the low \<open>12 + 9 * l\<close>, which must be zero in the leaf (no misaligned
  superpage).\<close>

definition canonical :: "u64 \<Rightarrow> bool" where
  "canonical va \<longleftrightarrow> drop_bit 38 va = 0 \<or> drop_bit 38 va = mask 26"

definition sv39 :: "memory \<Rightarrow> u64 \<Rightarrow> u64 \<Rightarrow> u64 option" where
  "sv39 m root va =
     (if canonical va then
        case sv39_walk 2 m root va of
          None \<Rightarrow> None
        | Some (l, e) \<Rightarrow>
            if take_bit (PXSHIFT l) (PTE2PA e) = 0
            then Some (PTE2PA e OR take_bit (PXSHIFT l) va) else None
      else None)"

section \<open>Entries and slots\<close>

lemma PXMASK_mask: "PXMASK = mask 9"
  by (simp add: PXMASK_def mask_eq_exp_minus_1)

lemma PX_take: "PX l va = take_bit 9 (drop_bit (PXSHIFT l) va)"
  by (simp add: PX_def PXMASK_mask and_mask_eq_take)

lemma unat_PX: "unat (PX l va) < 512"
  by (simp add: PX_take unat_take_bit)

lemma unat_slot:
  assumes "aligned 12 t" "unat i < 512"
  shows "unat (slot t i) = unat t + 8 * unat i"
proof -
  have "unat t + 2 ^ 12 \<le> 2 ^ 64" using aligned_nowrap [OF assms(1)] by simp
  moreover have "unat (8 * i) = 8 * unat i" using assms(2) by (simp add: unat_word_ariths)
  ultimately show ?thesis using assms(2) unfolding slot_def by (subst unat_add_nowrap) simp_all
qed

lemma slot_in_page:
  assumes "aligned 12 t" "unat i < 512" "in_rng (slot t i) 8 x"
  shows "in_rng t 4096 x"
proof -
  have "unat t + 2 ^ 12 \<le> 2 ^ 64" using aligned_nowrap [OF assms(1)] by simp
  then show ?thesis using assms(2,3) unat_slot [OF assms(1,2)] by (simp add: in_rng_iff)
qed

lemma pages_apart:
  assumes "aligned 12 t" "aligned 12 u" "t \<noteq> u" "in_rng t 4096 x"
  shows "\<not> in_rng u 4096 x"
  using rng_disjD [OF aligned_disj [OF assms(1-3)], of x] assms(4) by simp

lemma slot_disj:
  assumes "aligned 12 t" "aligned 12 u" "unat i < 512" "unat j < 512" "t \<noteq> u \<or> i \<noteq> j"
  shows "rng_disj (slot t i) 8 (slot u j) 8"
proof (cases "t = u")
  case True
  with assms have "unat i < unat j \<or> unat j < unat i"
    by (metis linorder_neqE_nat unsigned_word_eqI)
  moreover have "unat t + 2 ^ 12 \<le> 2 ^ 64" using aligned_nowrap [OF assms(1)] by simp
  ultimately show ?thesis
    using assms True by (intro rng_disjI) (auto simp: unat_slot)
next
  case False
  then show ?thesis
    unfolding rng_disj_def using assms slot_in_page pages_apart by blast
qed

lemma ld64_st64_slot:
  assumes "aligned 12 t" "aligned 12 u" "unat i < 512" "unat j < 512"
  shows "ld64 (st64 m (slot t i) v) (slot u j) = (if t = u \<and> i = j then v else ld64 m (slot u j))"
  using ld64_st64_disj [OF slot_disj [OF assms(2,1,4,3)]] by auto

lemma ld64_memset_page:
  assumes "aligned 12 p" "aligned 12 u" "unat j < 512"
  shows "ld64 (memset p 0 (ucast PAGE_SIZE) m) (slot u j) = (if p = u then 0 else ld64 m (slot u j))"
proof -
  have n: "unat (ucast PAGE_SIZE :: u32) = 4096" by (simp add: PAGE_SIZE_val)
  show ?thesis
  proof (cases "p = u")
    case True
    then show ?thesis using ld64_memset_0 [of "slot u j" p] slot_in_page assms(2,3) by (simp add: n)
  next
    case False
    then have "rng_disj (slot u j) 8 p 4096"
      unfolding rng_disj_def using assms slot_in_page pages_apart by blast
    with False show ?thesis by (simp add: ld64_memset_disj n)
  qed
qed

lemma pte_bits: "PTE_V = 1" "PTE_R = 2" "PTE_W = 4" "PTE_X = 8"
  by (simp_all add: PTE_V_def PTE_R_def PTE_W_def PTE_X_def BIT_MASK_def)

lemma and_PTE_V: "e AND PTE_V = 0 \<longleftrightarrow> \<not> pte_valid e"
  by (simp add: pte_bits pte_valid_def and_one_eq bit_0 even_iff_mod_2_eq_zero)

lemma small_bits: "unat (x :: 'a::len word) < 2 ^ k \<Longrightarrow> bit x n \<Longrightarrow> n < k"
proof -
  assume "unat x < 2 ^ k"
  then have "take_bit k x = x" by (metis mod_less unat_take_bit unsigned_word_eqI)
  moreover assume "bit x n"
  ultimately show "n < k" by (metis bit_take_bit_iff)
qed

lemma aligned_bits: "aligned k a \<Longrightarrow> bit a n \<Longrightarrow> k \<le> n"
  unfolding aligned_take_bit by (metis bit_0_eq bit_take_bit_iff bot_apply bot_bool_def not_less)

lemma PTE2PA_PA2PTE:
  assumes "aligned 12 pa" "unat pa < 2 ^ 56" "unat f < 2 ^ 10"
  shows "PTE2PA (PA2PTE pa OR f) = pa" "drop_bit 54 (PA2PTE pa OR f) = 0"
    "n < 10 \<Longrightarrow> bit (PA2PTE pa OR f) n = bit f n"
proof -
  note b = aligned_bits [OF assms(1)] small_bits [OF assms(2)] small_bits [OF assms(3)]
  show "PTE2PA (PA2PTE pa OR f) = pa"
    by (rule bit_word_eqI) (use b in \<open>auto simp: PTE2PA_def PA2PTE_def PGSHIFT_def bit_simps\<close>)
  show "drop_bit 54 (PA2PTE pa OR f) = 0"
    by (rule bit_word_eqI) (use b in \<open>fastforce simp: PA2PTE_def PGSHIFT_def bit_simps\<close>)
  show "n < 10 \<Longrightarrow> bit (PA2PTE pa OR f) n = bit f n"
    by (auto simp: PA2PTE_def bit_simps)
qed

lemma pte_ptr_new:
  assumes "aligned 12 p" "unat p < 2 ^ 56"
  shows "pte_ptr (PA2PTE p OR PTE_V)" "PTE2PA (PA2PTE p OR PTE_V) = p"
  using PTE2PA_PA2PTE [OF assms, of PTE_V] by (simp_all add: pte_ptr_def pte_bits bit_1_iff)

section \<open>The tree of tables\<close>

text \<open>The table that translation of \<open>va\<close> reaches after \<open>d\<close> pointer entries, the entry it reads
  there, and the indices that lead there.\<close>

primrec tbl :: "memory \<Rightarrow> u64 \<Rightarrow> u64 \<Rightarrow> nat \<Rightarrow> u64 option" where
  "tbl m root va 0 = Some root"
| "tbl m root va (Suc d) =
     (case tbl m root va d of
        None \<Rightarrow> None
      | Some t \<Rightarrow>
          let e = ld64 m (slot t (PX (2 - d) va)) in if pte_ptr e then Some (PTE2PA e) else None)"

definition entry :: "memory \<Rightarrow> u64 \<Rightarrow> u64 \<Rightarrow> nat \<Rightarrow> u64 option" where
  "entry m root va d = map_option (\<lambda>t. ld64 m (slot t (PX (2 - d) va))) (tbl m root va d)"

definition path :: "nat \<Rightarrow> u64 \<Rightarrow> u64 list" where
  "path d va = map (\<lambda>i. PX (2 - i) va) [0..<d]"

definition pt_tree :: "memory \<Rightarrow> u64 set \<Rightarrow> u64 \<Rightarrow> bool" where
  "pt_tree m F root \<longleftrightarrow>
     (\<forall>va d t. d \<le> 2 \<longrightarrow> tbl m root va d = Some t \<longrightarrow> aligned 12 t \<and> t \<notin> F) \<and>
     (\<forall>va va' d d' t. d \<le> 2 \<longrightarrow> d' \<le> 2 \<longrightarrow> tbl m root va d = Some t \<longrightarrow> tbl m root va' d' = Some t \<longrightarrow>
        path d va = path d' va')"

text \<open>No superpage (and no malformed entry) on the way to the last level.\<close>

definition no_leaf :: "memory \<Rightarrow> u64 \<Rightarrow> u64 \<Rightarrow> bool" where
  "no_leaf m root va \<longleftrightarrow> (\<forall>d<2. \<forall>e. entry m root va d = Some e \<longrightarrow> pte_valid e \<longrightarrow> pte_ptr e)"

lemma path_0 [simp]: "path 0 va = []"
  by (simp add: path_def)

lemma path_Suc: "path (Suc d) va = path d va @ [PX (2 - d) va]"
  by (simp add: path_def)

lemma length_path [simp]: "length (path d va) = d"
  by (simp add: path_def)

lemma tbl_path: "path d va = path d va' \<Longrightarrow> tbl m root va d = tbl m root va' d"
  by (induction d) (auto simp: path_Suc split: option.splits)

lemma tbl_Suc_entry:
  "tbl m root va (Suc d) = (case entry m root va d of None \<Rightarrow> None
    | Some e \<Rightarrow> if pte_ptr e then Some (PTE2PA e) else None)"
  by (simp add: entry_def Let_def split: option.splits)

declare tbl.simps(2) [simp del]

lemma tbl_Suc_Some: "tbl m root va (Suc d) = Some t \<Longrightarrow> \<exists>u. tbl m root va d = Some u"
  by (auto simp: tbl.simps(2) split: option.splits)

lemma ptr_not_leaf: "pte_ptr e \<Longrightarrow> \<not> pte_leaf e"
  by (simp add: pte_ptr_def pte_leaf_def)

lemma walk_at:
  "d \<le> 2 \<Longrightarrow> tbl m root va d = Some t \<Longrightarrow> sv39_walk 2 m root va = sv39_walk (2 - d) m t va"
proof (induction d arbitrary: t)
  case (Suc d)
  then obtain u where u: "tbl m root va d = Some u" by (auto dest: tbl_Suc_Some)
  define e where "e = ld64 m (slot u (PX (2 - d) va))"
  have e: "pte_ptr e" "t = PTE2PA e"
    using Suc.prems(2) u by (auto simp: tbl.simps(2) e_def Let_def split: if_splits)
  obtain k where k: "2 - d = Suc k" "2 - Suc d = k" using Suc.prems(1) by (cases "2 - d") auto
  have "sv39_walk 2 m root va = sv39_walk (2 - d) m u va" using Suc u by simp
  also have "\<dots> = sv39_walk k m t va"
    using e ptr_not_leaf unfolding k e_def by (simp add: Let_def)
  finally show ?case unfolding k(2) .
qed simp

lemma walk_cong:
  assumes "\<And>d. d \<le> 2 \<Longrightarrow> entry m root va d = entry m' root va d"
  shows "sv39_walk 2 m root va = sv39_walk 2 m' root va"
proof -
  note e = assms [of 0] assms [of 1] assms [of 2]
  show ?thesis
    using e by (auto simp: entry_def tbl.simps(2) numeral_2_eq_2 Let_def split: if_splits)
qed

text \<open>Linking a cleared page \<open>p\<close> into the empty slot that \<open>va\<close> selects in its table at depth
  \<open>d\<close>: the tree grows by one table, and no translation changes.\<close>

definition linked ::
  "memory \<Rightarrow> u64 set \<Rightarrow> u64 \<Rightarrow> u64 \<Rightarrow> nat \<Rightarrow> u64 \<Rightarrow> u64 \<Rightarrow> u64 \<Rightarrow> memory \<Rightarrow> bool" where
  "linked m F root va d t p e m' \<longleftrightarrow>
     pt_tree m F root \<and> tbl m root va d = Some t \<and> d < 2 \<and> p \<in> F \<and> aligned 12 p \<and>
     \<not> pte_valid (ld64 m (slot t (PX (2 - d) va))) \<and>
     pte_ptr e \<and> PTE2PA e = p \<and>
     m' = st64 (memset p 0 (ucast PAGE_SIZE) m) (slot t (PX (2 - d) va)) e"

lemma pt_treeD:
  assumes "pt_tree m F root" "tbl m root va d = Some t" "d \<le> 2"
  shows "aligned 12 t" "t \<notin> F"
    and "tbl m root va' d' = Some t \<Longrightarrow> d' \<le> 2 \<Longrightarrow> path d va = path d' va' \<and> d = d'"
proof -
  show "aligned 12 t" "t \<notin> F" using assms by (auto simp: pt_tree_def)
  show "tbl m root va' d' = Some t \<Longrightarrow> d' \<le> 2 \<Longrightarrow> path d va = path d' va' \<and> d = d'"
    using assms unfolding pt_tree_def by (metis length_path)
qed

lemma linked_facts:
  assumes "linked m F root va d t p e m'"
  shows "pt_tree m F root" "tbl m root va d = Some t" "d < 2" "p \<in> F" "aligned 12 p"
    "\<not> pte_ptr (ld64 m (slot t (PX (2 - d) va)))" "\<not> pte_leaf (ld64 m (slot t (PX (2 - d) va)))"
    "aligned 12 t" "t \<notin> F" "t \<noteq> p" "pte_ptr e" "PTE2PA e = p"
proof -
  show l: "pt_tree m F root" "tbl m root va d = Some t" "d < 2" "p \<in> F" "aligned 12 p" "pte_ptr e" "PTE2PA e = p"
    using assms unfolding linked_def by blast+
  show "\<not> pte_ptr (ld64 m (slot t (PX (2 - d) va)))" "\<not> pte_leaf (ld64 m (slot t (PX (2 - d) va)))"
    using assms unfolding linked_def by (simp_all add: pte_valid_def pte_ptr_def pte_leaf_def)
  show "aligned 12 t" "t \<notin> F" using pt_treeD [OF l(1,2)] l(3) by simp_all
  with l(4) show "t \<noteq> p" by auto
qed

lemma linked_ld:
  assumes "linked m F root va d t p e m'" "aligned 12 u" "unat i < 512"
  shows "ld64 m' (slot u i) =
    (if u = t \<and> i = PX (2 - d) va then e else if u = p then 0 else ld64 m (slot u i))"
proof -
  have "m' = st64 (memset p 0 (ucast PAGE_SIZE) m) (slot t (PX (2 - d) va)) e"
    using assms(1) by (simp add: linked_def)
  then show ?thesis
    using linked_facts [OF assms(1)] assms(2,3) by (auto simp: ld64_st64_slot unat_PX ld64_memset_page)
qed

lemma linked_same_path:
  assumes "linked m F root va d t p e m'" "path (Suc d) va' = path (Suc d) va"
  shows "tbl m root va' d = Some t" "PX (2 - d) va' = PX (2 - d) va" "tbl m root va' (Suc d) = None"
  using assms(2) linked_facts [OF assms(1)] tbl_path [of d va' va m root] by (auto simp: path_Suc tbl.simps(2))

text \<open>Only the path to the new table meets the slot that is written.\<close>

lemma linked_slot:
  assumes l: "linked m F root va d t p e m'" and u: "tbl m root va' k = Some u" "k \<le> 2"
    and "\<not> (k = d \<and> path (Suc d) va' = path (Suc d) va)"
  shows "ld64 m' (slot u (PX (2 - k) va')) = ld64 m (slot u (PX (2 - k) va'))"
proof -
  note f = linked_facts [OF l] and T = pt_treeD [OF linked_facts(1) [OF l] u]
  have "\<not> (u = t \<and> PX (2 - k) va' = PX (2 - d) va)"
    using T(3) [of va d] f(2,3) assms(4) by (auto simp: path_Suc)
  moreover have "u \<noteq> p" using T(2) f(4) by auto
  ultimately show ?thesis using linked_ld [OF l T(1) unat_PX] by auto
qed

lemma linked_zero:
  assumes l: "linked m F root va d t p e m'" and "unat i < 512"
  shows "ld64 m' (slot p i) = 0"
proof -
  show ?thesis using linked_ld [OF l, of p i] linked_facts [OF l] assms(2) by simp
qed

lemma linked_tbl:
  assumes l: "linked m F root va d t p e m'" and "k \<le> 2"
  shows "tbl m' root va' k =
    (if k = Suc d \<and> path (Suc d) va' = path (Suc d) va then Some p else tbl m root va' k)"
  using assms(2)
proof (induction k)
  case (Suc j)
  note f = linked_facts [OF l] and same = linked_same_path [OF l, of va']
  consider (below) "j = Suc d" "path (Suc d) va' = path (Suc d) va"
    | (here) "j = d" "path (Suc d) va' = path (Suc d) va"
    | (other) "\<not> (j = d \<and> path (Suc d) va' = path (Suc d) va)"
        "\<not> (j = Suc d \<and> path (Suc d) va' = path (Suc d) va)" by blast
  then show ?case
  proof cases
    case below
    then show ?thesis
      using Suc same linked_zero [OF l unat_PX, of "2 - j" va'] by (simp add: tbl.simps(2) pte_ptr_def)
  next
    case here
    then show ?thesis using Suc same f linked_ld [OF l f(8) unat_PX, of "2 - d" va] by (simp add: tbl.simps(2))
  next
    case other
    then have eq: "tbl m' root va' j = tbl m root va' j" using Suc by auto
    show ?thesis
    proof (cases "tbl m root va' j")
      case None
      with eq other show ?thesis by (auto simp: tbl.simps(2))
    next
      case (Some u)
      with eq other linked_slot [OF l Some _ other(1)] Suc.prems show ?thesis by (auto simp: tbl.simps(2))
    qed
  qed
qed simp

lemma linked_entry:
  assumes l: "linked m F root va d t p e m'" and k: "k \<le> 2"
  obtains "entry m' root va' k = entry m root va' k" "\<not> (k = d \<and> path (Suc d) va' = path (Suc d) va)"
    | "k = d" "entry m' root va' k = Some e" "pte_ptr e" "path (Suc d) va' = path (Suc d) va"
    | "k = Suc d" "entry m' root va' k = Some 0" "path (Suc d) va' = path (Suc d) va"
proof (cases "path (Suc d) va' = path (Suc d) va \<and> (k = d \<or> k = Suc d)")
  case True
  note f = linked_facts [OF l] and same = linked_same_path [OF l, of va']
  show ?thesis
  proof (cases "k = d")
    case kd: True
    then have "entry m' root va' k = Some e"
      using linked_tbl [OF l k, of va'] True same linked_ld [OF l f(8) unat_PX, of "2 - d" va] by (simp add: entry_def)
    with kd f(11) True that(2) show ?thesis by blast
  next
    case False
    then have "entry m' root va' k = Some 0"
      using linked_tbl [OF l k, of va'] True linked_zero [OF l unat_PX] by (simp add: entry_def)
    with False True that(3) show ?thesis by blast
  qed
next
  case False
  then have "entry m' root va' k = entry m root va' k"
    using linked_tbl [OF l k, of va'] linked_slot [OF l _ k, of va']
    by (cases "tbl m root va' k") (auto simp: entry_def)
  with False that(1) show ?thesis by blast
qed

lemma linked_walk:
  assumes l: "linked m F root va d t p e m'"
  shows "sv39_walk 2 m' root va' = sv39_walk 2 m root va'"
proof (cases "path (Suc d) va' = path (Suc d) va")
  case True
  note f = linked_facts [OF l] and same = linked_same_path [OF l True]
  obtain k where k: "2 - d = Suc k" "2 - Suc d = k" using f(3) by (cases "2 - d") auto
  have "sv39_walk 2 m root va' = sv39_walk (2 - d) m t va'" using walk_at [OF _ same(1)] f(3) by simp
  also have "\<dots> = None" using f(6,7) same(2) unfolding k by (simp add: Let_def)
  finally have old: "sv39_walk 2 m root va' = None" .
  have "sv39_walk 2 m' root va' = sv39_walk k m' p va'"
    using walk_at [of "Suc d" m' root va' p] linked_tbl [OF l, of "Suc d" va'] f(3) True k(2) by simp
  also have "\<dots> = None"
    using linked_zero [OF l unat_PX] by (cases k) (simp_all add: Let_def pte_leaf_def pte_ptr_def)
  finally show ?thesis using old by simp
next
  case False
  have "entry m' root va' k = entry m root va' k" if "k \<le> 2" for k
    by (rule linked_entry [OF l that, of va']) (use False in simp_all)
  then show ?thesis by (rule walk_cong)
qed

lemma linked_no_leaf:
  assumes l: "linked m F root va d t p e m'" and n: "no_leaf m root va'"
  shows "no_leaf m' root va'"
  unfolding no_leaf_def
proof (intro allI impI)
  fix k f
  assume k: "k < (2::nat)" "entry m' root va' k = Some f" "pte_valid f"
  then have "k \<le> 2" by simp
  then show "pte_ptr f"
    by (rule linked_entry [OF l, of k va']) (use n k in \<open>auto simp: no_leaf_def pte_valid_def\<close>)
qed

lemma linked_tree:
  assumes l: "linked m F root va d t p e m'"
  shows "pt_tree m' (F - {p}) root"
proof -
  note f = linked_facts [OF l] and T = pt_treeD [OF linked_facts(1) [OF l]]
  have new: "k = Suc d \<and> path (Suc d) va' = path (Suc d) va" if "k \<le> 2" "tbl m' root va' k = Some p" for k va'
  proof (rule ccontr)
    assume "\<not> ?thesis"
    then have "tbl m root va' k = Some p" using linked_tbl [OF l that(1), of va'] that(2) by auto
    with T(2) [OF this that(1)] f(4) show False by simp
  qed
  have old: "tbl m root va' k = Some u" if "k \<le> 2" "tbl m' root va' k = Some u" "u \<noteq> p" for k va' u
    using linked_tbl [OF l that(1), of va'] that by (auto split: if_splits)
  have "aligned 12 u \<and> u \<notin> F - {p}" if "k \<le> 2" "tbl m' root va' k = Some u" for va' k u
    using old [OF that] T(1,2) that(1) f(5) by (cases "u = p") blast+
  moreover have "path d1 va1 = path d2 va2"
    if "d1 \<le> 2" "d2 \<le> 2" "tbl m' root va1 d1 = Some u" "tbl m' root va2 d2 = Some u" for va1 va2 d1 d2 u
  proof (cases "u = p")
    case True
    with that new [of d1 va1] new [of d2 va2] show ?thesis by metis
  next
    case False
    with T(3) [OF old [OF that(1,3)] that(1) old [OF that(2,4)] that(2)] show ?thesis by blast
  qed
  ultimately show ?thesis unfolding pt_tree_def by blast
qed

lemma linked_frame:
  assumes l: "linked m F root va d t p e m'" and "m' y \<noteq> m y"
  shows "in_rng p 4096 y \<or> in_rng (slot t (PX (2 - d) va)) 8 y"
proof -
  have "m' = st64 (memset p 0 (ucast PAGE_SIZE) m) (slot t (PX (2 - d) va)) e"
    using l by (simp add: linked_def)
  with assms(2) st64_outside [of "slot t (PX (2 - d) va)" y] show ?thesis
    by (auto simp: memset_apply PAGE_SIZE_val split: if_splits)
qed

section \<open>Steps of the walk on the kernel state\<close>

definition pt_inv :: "u64 \<Rightarrow> 'a alloc_scheme \<Rightarrow> bool" where
  "pt_inv root s \<longleftrightarrow> alloc_inv s \<and> pt_tree (mem s) (free_pages s) root"

text \<open>\<open>grows root s s'\<close>: tables may have been added below \<open>root\<close>, from the free pages; no
  translation has changed, and only the new tables and tables that existed have been written.\<close>

definition grows :: "u64 \<Rightarrow> 'a alloc_scheme \<Rightarrow> 'a alloc_scheme \<Rightarrow> bool" where
  "grows root s s' \<longleftrightarrow> pt_inv root s' \<and> free_pages s' \<subseteq> free_pages s \<and>
     (\<exists>m h c. s' = s\<lparr>mem := m, free_list := h, free_page_count := c\<rparr>) \<and>
     (\<forall>va. sv39_walk 2 (mem s') root va = sv39_walk 2 (mem s) root va) \<and>
     (\<forall>va. no_leaf (mem s) root va \<longrightarrow> no_leaf (mem s') root va) \<and>
     (\<forall>va d t. d \<le> 2 \<longrightarrow> tbl (mem s) root va d = Some t \<longrightarrow> tbl (mem s') root va d = Some t)"

lemma grows_refl: "pt_inv root s \<Longrightarrow> grows root s s"
  by (auto simp: grows_def intro!: exI [of _ "mem s"] exI [of _ "free_list s"] exI [of _ "free_page_count s"])

lemma grows_trans: "grows root s s' \<Longrightarrow> grows root s' s'' \<Longrightarrow> grows root s s''"
  unfolding grows_def by fastforce

lemma free_page_facts:
  assumes "alloc_inv s" "p \<in> free_pages s"
  shows "aligned 12 p" "p \<noteq> 0" "unat p < 2 ^ 56" "virt_to_phys p = p" "finite (free_pages s)"
proof -
  obtain xs where xs: "pages_ok s xs" "p \<in> set xs"
    using assms by (auto simp: free_pages_def)
  then have hp: "heap_ok s" "page_ok s p" by (auto simp: pages_ok_def)
  show "aligned 12 p" "virt_to_phys p = p" "p \<noteq> 0"
    using hp heap_identity page_ok_nonzero by (auto simp: page_ok_def)
  show "unat p < 2 ^ 56" using hp by (simp add: heap_ok_def page_ok_def word_less_nat_alt)
  show "finite (free_pages s)" using free_pages_eq [OF xs(1)] by simp
qed

lemma link_step:
  assumes inv: "pt_inv root s" and t: "tbl (mem s) root va d = Some t" "d < 2"
    and bad: "\<not> pte_valid (ld64 (mem s) (slot t (PX (2 - d) va)))"
    and get: "mem_alloc (ucast PAGE_SIZE) s = Some (p, s1)" "p \<noteq> 0"
  defines "m' \<equiv> st64 (memset p 0 (ucast PAGE_SIZE) (mem s1)) (slot t (PX (2 - d) va)) (PA2PTE (virt_to_phys p) OR PTE_V)"
  shows "grows root s (s1\<lparr>mem := m'\<rparr>)" "tbl m' root va (Suc d) = Some p"
    "free_pages (s1\<lparr>mem := m'\<rparr>) = free_pages s - {p}" "p \<in> free_pages s"
    "m' y \<noteq> mem s y \<Longrightarrow> in_rng p 4096 y \<or> in_rng t 4096 y"
    "k \<le> 2 \<Longrightarrow> tbl m' root va k = (if k = Suc d then Some p else tbl (mem s) root va k)"
proof -
  have ai: "alloc_inv s" and tree: "pt_tree (mem s) (free_pages s) root" using inv by (auto simp: pt_inv_def)
  have p: "p \<in> free_pages s" "aligned 12 p" "alloc_inv s1" "free_pages s1 = free_pages s - {p}" "mem s1 = mem s"
    using pages.get_page [OF ai get] by auto
  note pf = free_page_facts [OF ai p(1)]
  have l: "linked (mem s) (free_pages s) root va d t p (PA2PTE (virt_to_phys p) OR PTE_V) m'"
    using tree t bad p pte_ptr_new [OF pf(1,3)] unfolding linked_def m'_def by (simp add: pf(4))
  show fr: "in_rng p 4096 y \<or> in_rng t 4096 y" if "m' y \<noteq> mem s y" for y
    using that linked_frame [OF l] slot_in_page [OF linked_facts(8) [OF l] unat_PX] by metis
  show "tbl m' root va k = (if k = Suc d then Some p else tbl (mem s) root va k)" if "k \<le> 2" for k
    using linked_tbl [OF l that, of va] by simp
  have keep: "m' y = mem s1 y" if "q \<in> free_pages s1" "in_rng q 8 y" for q y
  proof (rule ccontr)
    assume "m' y \<noteq> mem s1 y"
    then have "in_rng p 4096 y \<or> in_rng t 4096 y" using fr p(5) by simp
    moreover have "in_rng q 4096 y" using that(2) by (rule in_rng_mono) simp
    moreover have "aligned 12 q" "q \<noteq> p" "q \<noteq> t"
      using free_page_facts(1) [OF p(3) that(1)] that(1) p(4) linked_facts(9) [OF l] by auto
    ultimately show False
      using pages_apart [OF _ p(2)] pages_apart [OF _ linked_facts(8) [OF l]] by blast
  qed
  from pages.wr_inv [OF p(3) keep] have w: "alloc_inv (s1\<lparr>mem := m'\<rparr>)" "free_pages (s1\<lparr>mem := m'\<rparr>) = free_pages s - {p}"
    using p(4) by simp_all
  show "free_pages (s1\<lparr>mem := m'\<rparr>) = free_pages s - {p}" "p \<in> free_pages s" by (rule w(2), rule p(1))
  show "tbl m' root va (Suc d) = Some p" using linked_tbl [OF l, of "Suc d" va] t(2) by simp
  obtain m h c where s1: "s1 = s\<lparr>mem := m, free_list := h, free_page_count := c\<rparr>"
    by (rule mem_alloc_frame [OF ai get(1)])
  have "tbl m' root vb k = Some u" if "k \<le> 2" "tbl (mem s) root vb k = Some u" for vb k u
    using linked_tbl [OF l that(1), of vb] that linked_same_path(3) [OF l, of vb] by auto
  then show "grows root s (s1\<lparr>mem := m'\<rparr>)"
    using w linked_tree [OF l] linked_walk [OF l] linked_no_leaf [OF l]
    unfolding grows_def pt_inv_def s1 by (auto intro!: exI [of _ m'] exI [of _ h] exI [of _ c])
qed

lemma no_leaf_entry:
  assumes "no_leaf m root va" "tbl m root va d = Some t" "d < 2" "pte_valid (ld64 m (slot t (PX (2 - d) va)))"
  shows "tbl m root va (Suc d) = Some (PTE2PA (ld64 m (slot t (PX (2 - d) va))))"
proof -
  have "entry m root va d = Some (ld64 m (slot t (PX (2 - d) va)))" using assms(2) by (simp add: entry_def)
  then have "pte_ptr (ld64 m (slot t (PX (2 - d) va)))" using assms by (auto simp: no_leaf_def)
  then show ?thesis using assms(2) by (simp add: tbl.simps(2) Let_def)
qed

lemma map_walk_grows:
  assumes "pt_inv root s" "no_leaf (mem s) root va" "tbl (mem s) root va (2 - l) = Some pt" "l \<le> 2"
  shows "(map_walk l pt va s = Some (Inl Null_table) \<and> card (free_pages s) < l) \<or>
    (\<exists>t s'. map_walk l pt va s = Some (Inr (t, s')) \<and> grows root s s' \<and> tbl (mem s') root va 2 = Some t \<and>
       card (free_pages s) \<le> card (free_pages s') + l)"
  using assms
proof (induction l arbitrary: pt s)
  case 0
  then show ?case by (auto simp: grows_refl)
next
  case (Suc l)
  define d where "d = 2 - Suc l"
  have d: "2 - d = Suc l" "Suc d = 2 - l" "d < 2" using Suc.prems(4) by (auto simp: d_def)
  define e where "e = ld64 (mem s) (slot pt (PX (2 - d) va))"
  have t: "tbl (mem s) root va d = Some pt" using Suc.prems(3) by (simp add: d_def)
  show ?case
  proof (cases "pte_valid e")
    case True
    have "tbl (mem s) root va (2 - l) = Some (PTE2PA e)"
      using no_leaf_entry [OF Suc.prems(2) t d(3)] True unfolding d(2) by (simp add: e_def)
    moreover have "map_walk (Suc l) pt va s = map_walk l (PTE2PA e) va s"
      using True by (simp add: Let_def and_PTE_V e_def d(1))
    ultimately show ?thesis
      using Suc.IH [OF Suc.prems(1,2)] Suc.prems(4) by fastforce
  next
    case False
    have ai: "alloc_inv s" using Suc.prems(1) by (simp add: pt_inv_def)
    then obtain p s1 where get: "mem_alloc (ucast PAGE_SIZE) s = Some (p, s1)" using pages.get_returns by blast
    show ?thesis
    proof (cases "p = 0")
      case True
      then have "map_walk (Suc l) pt va s = Some (Inl Null_table)"
        using False get by (simp add: Let_def and_PTE_V e_def d(1))
      moreover have "free_pages s = {}" using pages.get_fails [OF ai] get True by blast
      ultimately show ?thesis by simp
    next
      case p: False
      define s2 where "s2 = s1\<lparr>mem := st64 (memset p 0 (ucast PAGE_SIZE) (mem s1)) (slot pt (PX (2 - d) va))
        (PA2PTE (virt_to_phys p) OR PTE_V)\<rparr>"
      note step = link_step [OF Suc.prems(1) t d(3) False [unfolded e_def] get p, folded s2_def]
      have "tbl (mem s2) root va (2 - l) = Some p" using step(2) by (simp add: s2_def d(2))
      moreover have "pt_inv root s2" "no_leaf (mem s2) root va"
        using step(1) Suc.prems(2) by (auto simp: grows_def)
      moreover have w: "map_walk (Suc l) pt va s = map_walk l p va s2"
        using False get p by (simp add: Let_def and_PTE_V e_def d(1) s2_def)
      moreover have "card (free_pages s) = Suc (card (free_pages s2))"
        using card.remove [OF free_page_facts(5) [OF ai step(4)] step(4)] by (simp add: step(3))
      ultimately have c: "card (free_pages s) = Suc (card (free_pages s2))"
        and IH: "(map_walk l p va s2 = Some (Inl Null_table) \<and> card (free_pages s2) < l) \<or>
          (\<exists>t s'. map_walk l p va s2 = Some (Inr (t, s')) \<and> grows root s2 s' \<and>
             tbl (mem s') root va 2 = Some t \<and> card (free_pages s2) \<le> card (free_pages s') + l)"
        using Suc.IH [of s2 p] Suc.prems(4) by simp_all
      from IH show ?thesis
        unfolding w c using grows_trans [OF step(1)] by auto
    qed
  qed
qed

text \<open>The walk writes only into tables it passes and into pages it takes.\<close>

definition covered :: "u64 set \<Rightarrow> u64 \<Rightarrow> bool" where
  "covered D y \<longleftrightarrow> (\<exists>p\<in>D. in_rng p 4096 y)"

lemma map_walk_frame:
  assumes "pt_inv root s" "no_leaf (mem s) root va" "tbl (mem s) root va (2 - l) = Some pt" "l \<le> 2"
    and "map_walk l pt va s = Some (Inr (t, s'))" "free_pages s \<subseteq> D"
    and "\<And>d u. d \<le> 2 \<Longrightarrow> tbl (mem s) root va d = Some u \<Longrightarrow> u \<in> D"
  shows "t \<in> D \<and> (\<forall>y. mem s' y \<noteq> mem s y \<longrightarrow> covered D y)"
  using assms
proof (induction l arbitrary: pt s)
  case 0
  then show ?case by auto
next
  case (Suc l)
  define d where "d = 2 - Suc l"
  have d: "2 - d = Suc l" "Suc d = 2 - l" "d < 2" using Suc.prems(4) by (auto simp: d_def)
  define e where "e = ld64 (mem s) (slot pt (PX (2 - d) va))"
  have t: "tbl (mem s) root va d = Some pt" using Suc.prems(3) by (simp add: d_def)
  show ?case
  proof (cases "pte_valid e")
    case True
    have "tbl (mem s) root va (2 - l) = Some (PTE2PA e)"
      using no_leaf_entry [OF Suc.prems(2) t d(3)] True unfolding d(2) by (simp add: e_def)
    moreover have "map_walk l (PTE2PA e) va s = Some (Inr (t, s'))"
      using Suc.prems(5) True by (simp add: Let_def and_PTE_V e_def d(1))
    ultimately show ?thesis using Suc.IH [OF Suc.prems(1,2)] Suc.prems(4,6,7) by simp
  next
    case False
    have ai: "alloc_inv s" using Suc.prems(1) by (simp add: pt_inv_def)
    then obtain p s1 where get: "mem_alloc (ucast PAGE_SIZE) s = Some (p, s1)" using pages.get_returns by blast
    have p: "p \<noteq> 0" using Suc.prems(5) False get by (auto simp: Let_def and_PTE_V e_def d(1))
    define s2 where "s2 = s1\<lparr>mem := st64 (memset p 0 (ucast PAGE_SIZE) (mem s1)) (slot pt (PX (2 - d) va))
      (PA2PTE (virt_to_phys p) OR PTE_V)\<rparr>"
    note step = link_step [OF Suc.prems(1) t d(3) False [unfolded e_def] get p, folded s2_def]
    have m2: "mem s2 = st64 (memset p 0 (ucast PAGE_SIZE) (mem s1)) (slot pt (PX (2 - d) va)) (PA2PTE (virt_to_phys p) OR PTE_V)"
      by (simp add: s2_def)
    have in_D: "p \<in> D" "pt \<in> D" using step(4) Suc.prems(6) Suc.prems(7) [OF _ t] d(3) by auto
    have "tbl (mem s2) root va (2 - l) = Some p" using step(2) by (simp add: m2 d(2))
    moreover have "pt_inv root s2" "no_leaf (mem s2) root va" using step(1) Suc.prems(2) by (auto simp: grows_def)
    moreover have "map_walk l p va s2 = Some (Inr (t, s'))"
      using Suc.prems(5) False get p by (simp add: Let_def and_PTE_V e_def d(1) s2_def)
    moreover have "free_pages s2 \<subseteq> D" using step(3) Suc.prems(6) by auto
    moreover have "u \<in> D" if "k \<le> 2" "tbl (mem s2) root va k = Some u" for k u
      using step(6) [OF that(1)] that in_D Suc.prems(7) by (auto simp: m2 split: if_splits)
    ultimately have IH: "t \<in> D \<and> (\<forall>y. mem s' y \<noteq> mem s2 y \<longrightarrow> covered D y)"
      using Suc.IH [of s2 p] Suc.prems(4) by simp
    have "covered D y" if "mem s2 y \<noteq> mem s y" for y
      using step(5) [of y] that in_D unfolding m2 by (auto simp: covered_def)
    with IH show ?thesis by metis
  qed
qed

text \<open>Writing an entry of a last-level table changes the translation of one page only.\<close>

lemma leaf_write:
  fixes e :: u64
  assumes tree: "pt_tree m F root" and t: "tbl m root va 2 = Some t"
  defines "m' \<equiv> st64 m (slot t (PX 0 va)) e"
  shows "k \<le> 2 \<Longrightarrow> tbl m' root va' k = tbl m root va' k"
    and "k < 2 \<Longrightarrow> entry m' root va' k = entry m root va' k"
    and "path 3 va' \<noteq> path 3 va \<Longrightarrow> k \<le> 2 \<Longrightarrow> entry m' root va' k = entry m root va' k"
    and "entry m' root va 2 = Some e"
proof -
  have at: "aligned 12 t" using pt_treeD [OF tree t] by simp
  have ld: "ld64 m' (slot u i) = (if u = t \<and> i = PX 0 va then e else ld64 m (slot u i))"
    if "aligned 12 u" "unat i < 512" for u i
    using that at by (auto simp: m'_def ld64_st64_slot unat_PX)
  have slot: "ld64 m' (slot u (PX (2 - k) va')) = ld64 m (slot u (PX (2 - k) va'))"
    if "tbl m root va' k = Some u" "k \<le> 2" "k < 2 \<or> path 3 va' \<noteq> path 3 va" for u k va'
  proof -
    note T = pt_treeD [OF tree that(1,2)]
    have "\<not> (u = t \<and> PX (2 - k) va' = PX 0 va)"
      using T(3) [of va 2] t that(3) by (auto simp: path_Suc numeral_3_eq_3 numeral_2_eq_2)
    then show ?thesis using ld [OF T(1) unat_PX] by auto
  qed
  show tb: "tbl m' root va' k = tbl m root va' k" if "k \<le> 2" for k va'
    using that
  proof (induction k)
    case (Suc j)
    then show ?case using slot [of va' j] by (cases "tbl m root va' j") (auto simp: tbl.simps(2))
  qed simp
  show "k < 2 \<Longrightarrow> entry m' root va' k = entry m root va' k"
    using tb [of k va'] slot [of va' k] by (cases "tbl m root va' k") (auto simp: entry_def)
  show "path 3 va' \<noteq> path 3 va \<Longrightarrow> k \<le> 2 \<Longrightarrow> entry m' root va' k = entry m root va' k"
    using tb [of k va'] slot [of va' k] by (cases "tbl m root va' k") (auto simp: entry_def)
  show "entry m' root va 2 = Some e" using tb [of 2 va] t by (simp add: entry_def m'_def)
qed

text \<open>\<open>remaps root va e s s'\<close>: the last-level entry of \<open>va\<close> is now \<open>e\<close>, every other page is
  translated as before, and what \<open>map_page\<close> relies on still holds.\<close>

definition remaps :: "u64 \<Rightarrow> u64 \<Rightarrow> u64 \<Rightarrow> 'a alloc_scheme \<Rightarrow> 'a alloc_scheme \<Rightarrow> bool" where
  "remaps root va e s s' \<longleftrightarrow> pt_inv root s' \<and> free_pages s' \<subseteq> free_pages s \<and>
     (\<exists>m h c. s' = s\<lparr>mem := m, free_list := h, free_page_count := c\<rparr>) \<and>
     entry (mem s') root va 2 = Some e \<and>
     (\<forall>va'. path 3 va' \<noteq> path 3 va \<longrightarrow> sv39_walk 2 (mem s') root va' = sv39_walk 2 (mem s) root va') \<and>
     (\<forall>va'. no_leaf (mem s) root va' \<longrightarrow> no_leaf (mem s') root va') \<and>
     (\<forall>va' d t. d \<le> 2 \<longrightarrow> tbl (mem s) root va' d = Some t \<longrightarrow> tbl (mem s') root va' d = Some t)"

lemma leaf_write_remaps:
  fixes e :: u64
  assumes g: "grows root s s1" and t: "tbl (mem s1) root va 2 = Some t"
  defines "s2 \<equiv> s1\<lparr>mem := st64 (mem s1) (slot t (PX 0 va)) e\<rparr>"
  shows "remaps root va e s s2 \<and> free_pages s2 = free_pages s1"
proof -
  have inv: "alloc_inv s1" and tree: "pt_tree (mem s1) (free_pages s1) root"
    using g by (auto simp: grows_def pt_inv_def)
  note lw = leaf_write [OF tree t, where e = e] and T = pt_treeD [OF tree t]
  have keep: "st64 (mem s1) (slot t (PX 0 va)) e y = mem s1 y" if "q \<in> free_pages s1" "in_rng q 8 y" for q y
  proof (rule st64_outside, rule notI)
    assume "in_rng (slot t (PX 0 va)) 8 y"
    then have "in_rng t 4096 y" using T(1) unat_PX slot_in_page by blast
    moreover have "in_rng q 4096 y" using that(2) by (rule in_rng_mono) simp
    moreover have "aligned 12 q" "q \<noteq> t" using free_page_facts(1) [OF inv that(1)] that(1) T(2) by auto
    ultimately show False using pages_apart [OF _ T(1)] T(1) by auto
  qed
  from pages.wr_inv [OF inv keep] have w: "alloc_inv s2" "free_pages s2 = free_pages s1"
    by (simp_all add: s2_def)
  have tb: "tbl (mem s2) root va' k = tbl (mem s1) root va' k" if "k \<le> 2" for va' k
    using lw(1) [OF that] by (simp add: s2_def)
  have "pt_tree (mem s2) (free_pages s2) root"
    using tree tb w(2) unfolding pt_tree_def by (metis (no_types, lifting))
  moreover have "no_leaf (mem s2) root va' = no_leaf (mem s1) root va'" for va'
    using lw(2) by (simp add: no_leaf_def s2_def)
  moreover have "sv39_walk 2 (mem s2) root va' = sv39_walk 2 (mem s1) root va'" if "path 3 va' \<noteq> path 3 va" for va'
    using lw(3) [OF that] by (intro walk_cong) (simp add: s2_def)
  moreover have "entry (mem s2) root va 2 = Some e" using lw(4) by (simp add: s2_def)
  moreover obtain m h c where "s1 = s\<lparr>mem := m, free_list := h, free_page_count := c\<rparr>"
    using g by (auto simp: grows_def)
  then have "\<exists>m h c. s2 = s\<lparr>mem := m, free_list := h, free_page_count := c\<rparr>"
    by (auto simp: s2_def intro!: exI [of _ "st64 (mem s1) (slot t (PX 0 va)) e"] exI [of _ h] exI [of _ c])
  ultimately show ?thesis
    using g w tb unfolding remaps_def grows_def pt_inv_def by auto
qed

lemma map_page_remaps:
  assumes "pt_inv root s" "no_leaf (mem s) root va"
  shows "(map_page root va pa flags s = Some (Inl Null_table) \<and> card (free_pages s) < 2) \<or>
    (\<exists>s'. map_page root va pa flags s = Some (Inr s') \<and> 
       remaps root va (PA2PTE pa OR flags OR PTE_V) s s' \<and>
       card (free_pages s) \<le> card (free_pages s') + 2)"
proof -
  have "tbl (mem s) root va (2 - 2) = Some root" by simp
  from map_walk_grows [OF assms(1,2) this order_refl] show ?thesis
  proof (elim disjE exE conjE)
    fix t s1
    assume "map_walk 2 root va s = Some (Inr (t, s1))" "grows root s s1" "tbl (mem s1) root va 2 = Some t"
      "card (free_pages s) \<le> card (free_pages s1) + 2"
    with leaf_write_remaps [of root s s1 va t "PA2PTE pa OR flags OR PTE_V"] show ?thesis
      by (auto simp: map_page_def)
  qed (simp_all add: map_page_def)
qed

text \<open>Where the last-level table of \<open>va\<close> exists already, no page is needed.\<close>

lemma tbl_two:
  assumes "tbl m root va 2 = Some t"
  defines "e0 \<equiv> ld64 m (slot root (PX 2 va))"
  shows "pte_valid e0" "pte_valid (ld64 m (slot (PTE2PA e0) (PX 1 va)))"
    "t = PTE2PA (ld64 m (slot (PTE2PA e0) (PX 1 va)))"
  using assms by (auto simp: tbl.simps(2) numeral_2_eq_2 Let_def pte_ptr_def pte_valid_def split: if_splits)

lemma map_walk_existing:
  "tbl (mem s) root va 2 = Some t \<Longrightarrow> map_walk 2 root va s = Some (Inr (t, s))"
  using tbl_two [of "mem s" root va t] by (simp add: numeral_2_eq_2 Let_def and_PTE_V)

lemma va2pa_walk_existing:
  "tbl m root va 2 = Some t \<Longrightarrow> va2pa_walk 2 m root va = Some t"
  using tbl_two [of m root va t] by (simp add: numeral_2_eq_2 Let_def and_PTE_V)

lemma map_page_existing:
  assumes "pt_inv root s" "tbl (mem s) root va 2 = Some t"
  shows "\<exists>s'. map_page root va pa flags s = Some (Inr s') \<and>
    remaps root va (PA2PTE pa OR flags OR PTE_V) s s' \<and> free_pages s' = free_pages s"
  using leaf_write_remaps [OF grows_refl [OF assms(1)] assms(2)] map_walk_existing [OF assms(2)]
  by (simp add: map_page_def)

lemma map_page_frame:
  assumes inv: "pt_inv root s" "no_leaf (mem s) root va" and map: "map_page root va pa flags s = Some (Inr s')"
    and free: "free_pages s \<subseteq> D" and tabs: "\<And>d u. d \<le> 2 \<Longrightarrow> tbl (mem s) root va d = Some u \<Longrightarrow> u \<in> D"
  shows "(\<exists>t\<in>D. tbl (mem s') root va 2 = Some t) \<and> (\<forall>y. mem s' y \<noteq> mem s y \<longrightarrow> covered D y)"
proof -
  have t0: "tbl (mem s) root va (2 - 2) = Some root" by simp
  obtain t s1 where w: "map_walk 2 root va s = Some (Inr (t, s1))"
    and s': "s' = s1\<lparr>mem := st64 (mem s1) (slot t (PX 0 va)) (PA2PTE pa OR flags OR PTE_V)\<rparr>"
    using map by (auto simp: map_page_def rbind_def split: option.splits sum.splits)
  have g: "grows root s s1" "tbl (mem s1) root va 2 = Some t"
    using map_walk_grows [OF inv t0 order_refl] w by auto
  have f: "t \<in> D \<and> (\<forall>y. mem s1 y \<noteq> mem s y \<longrightarrow> covered D y)"
    by (rule map_walk_frame [OF inv t0 order_refl w free]) (rule tabs)
  have tree: "pt_tree (mem s1) (free_pages s1) root" using g(1) by (auto simp: grows_def pt_inv_def)
  have "tbl (mem s') root va 2 = Some t" using leaf_write(1) [OF tree g(2), of 2 _ va] g(2) by (simp add: s')
  moreover have "in_rng t 4096 y" if "mem s' y \<noteq> mem s1 y" for y
    using that st64_outside [of "slot t (PX 0 va)" y "mem s1"] slot_in_page [OF pt_treeD(1) [OF tree g(2)] unat_PX, of 0 va y]
    unfolding s' by fastforce
  ultimately show ?thesis using f by (metis covered_def)
qed

text \<open>A well-formed last-level entry determines the translation.\<close>

definition leaf_flags :: "u64 \<Rightarrow> bool" where
  "leaf_flags flags \<longleftrightarrow> unat flags < 2 ^ 10 \<and> (bit flags 1 \<or> \<not> bit flags 2 \<and> bit flags 3)"

lemma PTE_V_flags: "unat (flags :: u64) < 2 ^ 10 \<Longrightarrow> unat (flags OR PTE_V) < 2 ^ 10"
proof -
  assume "unat flags < 2 ^ 10"
  then have "take_bit 10 flags = flags" by (metis mod_less unat_take_bit unsigned_word_eqI)
  then have "take_bit 10 (flags OR PTE_V) = flags OR PTE_V" by (simp add: take_bit_or pte_bits)
  then have "unat (flags OR PTE_V) = unat (flags OR PTE_V) mod 2 ^ 10" by (metis unat_take_bit)
  also have "\<dots> < 2 ^ 10" by simp
  finally show ?thesis .
qed

lemma leaf_entry:
  assumes "aligned 12 pa" "unat pa < 2 ^ 56" "leaf_flags flags"
  shows "pte_leaf (PA2PTE pa OR flags OR PTE_V)" "PTE2PA (PA2PTE pa OR flags OR PTE_V) = pa"
proof -
  have f: "unat (flags OR PTE_V) < 2 ^ 10" using PTE_V_flags assms(3) by (simp add: leaf_flags_def)
  note n = PTE2PA_PA2PTE [OF assms(1,2) f]
  have "bit (flags OR PTE_V) k \<longleftrightarrow> k = 0 \<or> bit flags k" if "k < 10" for k
    using that by (auto simp: pte_bits bit_or_iff bit_1_iff)
  with n(2,3) assms(3) show "pte_leaf (PA2PTE pa OR flags OR PTE_V)"
    unfolding pte_leaf_def leaf_flags_def or.assoc by simp
  show "PTE2PA (PA2PTE pa OR flags OR PTE_V) = pa" unfolding or.assoc by (rule n(1))
qed

lemma sv39_entry:
  assumes "entry m root va 2 = Some (PA2PTE pa OR flags OR PTE_V)" "canonical va"
    and pa: "aligned 12 pa" "unat pa < 2 ^ 56" "leaf_flags flags"
  shows "sv39 m root va = Some (pa OR take_bit 12 va)"
proof -
  obtain t where t: "tbl m root va 2 = Some t" "ld64 m (slot t (PX 0 va)) = PA2PTE pa OR flags OR PTE_V"
    using assms(1) by (auto simp: entry_def)
  have "sv39_walk 2 m root va = sv39_walk 0 m t va" using walk_at [OF _ t(1)] by simp
  with t(2) leaf_entry [OF pa] assms(2) pa(1) show ?thesis
    by (simp add: sv39_def PXSHIFT_def PGSHIFT_def aligned_take_bit)
qed

lemma va2pa_entry:
  assumes "entry m root va 2 = Some (PA2PTE pa OR flags OR PTE_V)"
    and pa: "aligned 12 pa" "unat pa < 2 ^ 56" "leaf_flags flags"
  shows "va2pa m root va = pa OR take_bit 12 va"
proof -
  obtain t where t: "tbl m root va 2 = Some t" "ld64 m (slot t (PX 0 va)) = PA2PTE pa OR flags OR PTE_V"
    using assms(1) by (auto simp: entry_def)
  have "pte_valid (PA2PTE pa OR flags OR PTE_V)"
    using leaf_entry(1) [OF pa] by (simp add: pte_leaf_def pte_valid_def)
  with t leaf_entry(2) [OF pa] va2pa_walk_existing [OF t(1)] show ?thesis
    by (simp add: va2pa_def and_PTE_V page_mask and_mask_eq_take)
qed

section \<open>The kernel's address space\<close>

text \<open>Indices of a canonical address.\<close>

lemma unat_PX_div: "unat (PX l va) = unat va div 2 ^ PXSHIFT l mod 512"
  by (simp add: PX_take unat_take_bit unat_drop_bit)

lemma canonical_div: "canonical va \<longleftrightarrow> unat va div 2 ^ 38 = 0 \<or> unat va div 2 ^ 38 = 2 ^ 26 - 1"
proof -
  have "drop_bit 38 va = w \<longleftrightarrow> unat va div 2 ^ 38 = unat w" for w :: u64
    by (metis unat_drop_bit unsigned_word_eqI)
  then show ?thesis by (simp add: canonical_def mask_eq_exp_minus_1)
qed

lemma div_256_512: "(q::nat) div 256 = 2 * (q div 512) + (if q mod 512 < 256 then 0 else 1)"
proof -
  define a r where "a = q div 512" and "r = q mod 512"
  have q: "q = 256 * (2 * a) + r" and r: "r < 512" by (simp_all add: a_def r_def)
  have "q div 256 = 2 * a + r div 256" unfolding q by (simp only: div_mult_self4)
  moreover have "r div 256 = (if r < 256 then 0 else 1)" using r by (simp add: le_div_geq)
  ultimately show ?thesis by (simp only: a_def r_def)
qed

lemma canonical_top:
  assumes "canonical va"
  shows "unat va div 2 ^ 30 =
    (if unat (PX 2 va) < 256 then unat (PX 2 va) else 2 ^ 34 - 512 + unat (PX 2 va))"
proof -
  define q where "q = unat va div 2 ^ 30"
  have "unat va div 2 ^ 38 = q div 256" unfolding q_def by (simp flip: div_mult2_eq)
  with assms have "q div 256 = 0 \<or> q div 256 = 2 ^ 26 - 1" by (simp add: canonical_div)
  moreover have p: "unat (PX 2 va) = q mod 512" by (simp add: unat_PX_div PXSHIFT_def PGSHIFT_def q_def)
  moreover note div_256_512 [of q]
  moreover have "q = 512 * (q div 512) + q mod 512" by simp
  moreover have "x = (if r < 256 then r else 2 ^ 34 - 512 + r)"
    if "2 * a + (if r < 256 then 0 else 1) = 0 \<or> 2 * a + (if r < 256 then 0 else 1) = 2 ^ 26 - 1"
      "x = 512 * a + r" for x a r :: nat
    using that by (cases "r < 256") (auto, presburger)
  ultimately have "q = (if q mod 512 < 256 then q mod 512 else 2 ^ 34 - 512 + q mod 512)"
    by metis
  then show ?thesis by (simp only: p flip: q_def)
qed

lemma path_23: "path 2 va = [PX 2 va, PX 1 va]" "path 3 va = [PX 2 va, PX 1 va, PX 0 va]"
  by (simp_all add: path_def numeral_2_eq_2 numeral_3_eq_3)

lemma path_same_page:
  assumes "canonical va" "canonical va'"
  shows "path 3 va = path 3 va' \<longleftrightarrow> drop_bit 12 va = drop_bit 12 va'"
proof
  assume "path 3 va = path 3 va'"
  then have px: "PX 2 va = PX 2 va'" "PX 1 va = PX 1 va'" "PX 0 va = PX 0 va'"
    by (simp_all add: path_23)
  define q q' where "q = unat va div 2 ^ 12" and "q' = unat va' div 2 ^ 12"
  have "unat va div 2 ^ 30 = unat va' div 2 ^ 30" using canonical_top assms px(1) by simp
  then have "q div 512 div 512 = q' div 512 div 512" by (simp add: q_def q'_def flip: div_mult2_eq)
  moreover have "q div 512 mod 512 = q' div 512 mod 512" "q mod 512 = q' mod 512"
    using px(2,3) unat_PX_div [of 1 va] unat_PX_div [of 1 va'] unat_PX_div [of 0 va] unat_PX_div [of 0 va']
    by (simp_all add: PXSHIFT_def PGSHIFT_def q_def q'_def flip: div_mult2_eq)
  ultimately have "q = q'" by (metis mult_div_mod_eq)
  then have "unat va div 2 ^ 12 = unat va' div 2 ^ 12" by (simp only: q_def q'_def)
  then show "drop_bit 12 va = drop_bit 12 va'" by (metis unat_drop_bit unsigned_word_eqI)
next
  assume "drop_bit 12 va = drop_bit 12 va'"
  moreover have "drop_bit (PXSHIFT l) w = drop_bit (9 * l) (drop_bit 12 w)" for l and w :: u64
    by (simp add: drop_bit_drop_bit PXSHIFT_def PGSHIFT_def add.commute)
  ultimately have "PX l va = PX l va'" for l unfolding PX_take by (simp only:)
  then show "path 3 va = path 3 va'" by (simp add: path_def)
qed

text \<open>A root table with the two gigapages of the kernel and nothing else.\<close>

definition giga_pte :: u64 where "giga_pte = 0x2000000F"

definition kernel_root :: "u64 \<Rightarrow> memory \<Rightarrow> bool" where
  "kernel_root root m \<longleftrightarrow>
     (\<forall>i. unat i < 512 \<longrightarrow> ld64 m (slot root i) = (if i = 2 \<or> i = 258 then giga_pte else 0))"

definition giga_walk :: "u64 \<Rightarrow> (nat \<times> u64) option" where
  "giga_walk va = (if PX 2 va = 2 \<or> PX 2 va = 258 then Some (2, giga_pte) else None)"

lemma giga_pte_leaf: "pte_leaf giga_pte" "\<not> pte_ptr giga_pte" "\<not> pte_ptr 0" "\<not> pte_leaf 0"
  by (simp_all add: giga_pte_def pte_leaf_def pte_ptr_def)

lemma kernel_root_empty:
  assumes "kernel_root root m" "aligned 12 root" "root \<notin> F"
  shows "pt_tree m F root" "sv39_walk 2 m root va = giga_walk va" "PX 2 va = 0 \<Longrightarrow> no_leaf m root va"
    "tbl m root va d = Some t \<longleftrightarrow> d = 0 \<and> t = root"
proof -
  have e: "ld64 m (slot root (PX 2 va)) = (if PX 2 va = 2 \<or> PX 2 va = 258 then giga_pte else 0)" for va
    using assms(1) unat_PX by (simp add: kernel_root_def)
  have t: "tbl m root va (Suc d) = None" for va d
    using e giga_pte_leaf by (induction d) (auto simp: tbl.simps(2))
  then show t': "tbl m root va d = Some t \<longleftrightarrow> d = 0 \<and> t = root" for va d t by (cases d) auto
  show "pt_tree m F root" using assms(2,3) by (simp add: pt_tree_def t')
  show "sv39_walk 2 m root va = giga_walk va"
    using e giga_pte_leaf by (simp add: numeral_2_eq_2 Let_def giga_walk_def)
  show "no_leaf m root va" if "PX 2 va = 0"
  proof -
    have "entry m root va d = Some f \<longleftrightarrow> d = 0 \<and> f = 0" for d f
      using that e [of va] t by (cases d) (auto simp: entry_def)
    then show ?thesis by (simp add: no_leaf_def pte_valid_def)
  qed
qed

text \<open>The UART page and the VirtIO slots are pages 0 to 8 of one last-level table.\<close>

definition io_addr :: "nat \<Rightarrow> u64" where
  "io_addr j = 0x10000000 + of_nat (4096 * j)"

definition io_pte :: "nat \<Rightarrow> u64" where
  "io_pte j = PA2PTE (io_addr j) OR
     (if j = 0 then PTE_R OR PTE_W OR PTE_V OR PTE_X else PTE_R OR PTE_W) OR PTE_V"

definition io_walk :: "nat \<Rightarrow> u64 \<Rightarrow> (nat \<times> u64) option" where
  "io_walk k va =
     (if PX 2 va = 0 \<and> PX 1 va = 0x80 \<and> unat (PX 0 va) < k then Some (0, io_pte (unat (PX 0 va)))
      else giga_walk va)"

lemma unat_io_addr: "j < 512 \<Longrightarrow> unat (io_addr j) = 0x10000000 + 4096 * j"
proof -
  assume "j < 512"
  then have "unat (of_nat (4096 * j) :: u64) = 4096 * j" by (intro unat_of_nat_lt) simp
  with \<open>j < 512\<close> show ?thesis unfolding io_addr_def by (subst unat_add_nowrap) simp_all
qed

lemma io_addr_PX:
  assumes "j < 512"
  shows "PX 2 (io_addr j) = 0" "PX 1 (io_addr j) = 0x80" "PX 0 (io_addr j) = of_nat j"
proof -
  have "unat (PX 2 (io_addr j)) = unat (0 :: u64)" "unat (PX 1 (io_addr j)) = unat (0x80 :: u64)"
    "unat (PX 0 (io_addr j)) = unat (of_nat j :: u64)"
    using assms mod_add_left_eq [of 65536 512 j]
    by (simp_all add: unat_PX_div unat_io_addr PXSHIFT_def PGSHIFT_def unat_of_nat_lt)
  then show "PX 2 (io_addr j) = 0" "PX 1 (io_addr j) = 0x80" "PX 0 (io_addr j) = of_nat j"
    by (blast intro: unsigned_word_eqI)+
qed

lemma io_path: "j < 512 \<Longrightarrow> path 3 va = path 3 (io_addr j) \<longleftrightarrow>
    PX 2 va = 0 \<and> PX 1 va = 0x80 \<and> unat (PX 0 va) = j"
proof -
  assume j: "j < 512"
  have "PX 0 va = of_nat j \<longleftrightarrow> unat (PX 0 va) = j"
    using j by (auto simp: unat_of_nat_lt)
  with j show ?thesis by (auto simp: path_23 io_addr_PX [unfolded One_nat_def])
qed

lemma io_flags: "leaf_flags (PTE_R OR PTE_W OR PTE_V OR PTE_X)" "leaf_flags (PTE_R OR PTE_W)"
  by (simp_all add: leaf_flags_def pte_bits)

lemma io_pte_leaf:
  assumes "j < 512"
  shows "pte_leaf (io_pte j)" "PTE2PA (io_pte j) = io_addr j"
proof -
  have "aligned 12 (io_addr j)" "unat (io_addr j) < 2 ^ 56"
    using assms by (simp_all add: aligned_def unat_io_addr)
  then show "pte_leaf (io_pte j)" "PTE2PA (io_pte j) = io_addr j"
    using leaf_entry [OF _ _ io_flags(1)] leaf_entry [OF _ _ io_flags(2)]
    by (cases "j = 0"; simp add: io_pte_def)+
qed

text \<open>The state after the first \<open>k\<close> I/O pages are mapped.\<close>

definition io_mapped :: "u64 \<Rightarrow> nat \<Rightarrow> 'a alloc_scheme \<Rightarrow> bool" where
  "io_mapped root k s \<longleftrightarrow> pt_inv root s \<and> (\<forall>va. sv39_walk 2 (mem s) root va = io_walk k va) \<and>
     (\<exists>t. \<forall>j<512. tbl (mem s) root (io_addr j) 2 = Some t)"

lemma entry_walk:
  "entry m root va 2 = Some e \<Longrightarrow> pte_leaf e \<Longrightarrow> sv39_walk 2 m root va = Some (0, e)"
  using walk_at [of 2 m root va] by (auto simp: entry_def)

lemma walk_path: "path 3 va = path 3 va' \<Longrightarrow> sv39_walk 2 m root va = sv39_walk 2 m root va'"
  unfolding path_23 by (simp add: numeral_2_eq_2 Let_def)

lemma remaps_io:
  assumes r: "remaps root (io_addr k) (io_pte k) s s'" and k: "k < 512"
    and old: "\<And>va. sv39_walk 2 (mem s) root va = io_walk k va"
  shows "io_mapped root (Suc k) s'"
proof -
  have e: "entry (mem s') root (io_addr k) 2 = Some (io_pte k)" and inv: "pt_inv root s'"
    and other: "\<And>va. path 3 va \<noteq> path 3 (io_addr k) \<Longrightarrow> sv39_walk 2 (mem s') root va = io_walk k va"
    using r old by (auto simp: remaps_def)
  have "sv39_walk 2 (mem s') root va = io_walk (Suc k) va" for va
  proof (cases "path 3 va = path 3 (io_addr k)")
    case True
    then have "sv39_walk 2 (mem s') root va = Some (0, io_pte k)"
      using entry_walk [OF e] io_pte_leaf(1) [OF k] walk_path by metis
    with True k show ?thesis by (simp add: io_path io_walk_def)
  next
    case False
    with other [OF False] k show ?thesis by (auto simp: io_path io_walk_def less_Suc_eq)
  qed
  moreover obtain t where "tbl (mem s') root (io_addr k) 2 = Some t" using e by (auto simp: entry_def)
  then have "tbl (mem s') root (io_addr j) 2 = Some t" if "j < 512" for j
    using tbl_path [of 2 "io_addr j" "io_addr k"] that k by (simp add: path_23 io_addr_PX [unfolded One_nat_def])
  ultimately show ?thesis using inv by (auto simp: io_mapped_def)
qed

lemma setup_uart_mapping_maps:
  assumes root: "kernel_root root (mem s)" "aligned 12 root" "root \<notin> free_pages s" "alloc_inv s"
    and pages: "2 \<le> card (free_pages s)"
  shows "\<exists>s' m h c. setup_uart_mapping root s = Some (Inr s') \<and> io_mapped root 1 s' \<and>
    s' = s\<lparr>mem := m, free_list := h, free_page_count := c\<rparr> \<and> card (free_pages s) \<le> card (free_pages s') + 2 \<and>
    free_pages s' \<subseteq> free_pages s \<and> (\<exists>t\<in>insert root (free_pages s). tbl (mem s') root (io_addr 0) 2 = Some t) \<and>
    (\<forall>y. mem s' y \<noteq> mem s y \<longrightarrow> covered (insert root (free_pages s)) y)"
proof -
  note r = kernel_root_empty [OF root(1-3)]
  have inv: "pt_inv root s" using r(1) root(4) by (simp add: pt_inv_def)
  have a: "io_addr 0 = 0x10000000" by (simp add: io_addr_def)
  have nl: "no_leaf (mem s) root (io_addr 0)" using r(3) [of "io_addr 0"] io_addr_PX(1) [of 0] by simp
  from map_page_remaps [OF inv nl, of "io_addr 0" "PTE_R OR PTE_W OR PTE_V OR PTE_X"] pages
  obtain s' where s': "setup_uart_mapping root s = Some (Inr s')" "remaps root (io_addr 0) (io_pte 0) s s'"
    and cd: "card (free_pages s) \<le> card (free_pages s') + 2"
    by (auto simp: setup_uart_mapping_def io_pte_def a)
  have "map_page root (io_addr 0) 0x10000000 (PTE_R OR PTE_W OR PTE_V OR PTE_X) s = Some (Inr s')"
    using s'(1) by (simp add: setup_uart_mapping_def a)
  moreover have "u \<in> insert root (free_pages s)" if "tbl (mem s) root (io_addr 0) d = Some u" for d u
    using that r(4) by simp
  ultimately have fr: "(\<exists>t\<in>insert root (free_pages s). tbl (mem s') root (io_addr 0) 2 = Some t) \<and>
      (\<forall>y. mem s' y \<noteq> mem s y \<longrightarrow> covered (insert root (free_pages s)) y)"
    by (intro map_page_frame [OF inv nl]) auto
  have "io_mapped root 1 s'"
    using remaps_io [OF s'(2)] r(2) by (simp add: io_walk_def)
  with s' cd fr show ?thesis by (auto simp: remaps_def)
qed

lemma VIRT_MMIO_addr:
  assumes "k < 9"
  shows "VIRT_MMIO (of_nat k * VIRTIO_SIZE) = io_addr k"
proof -
  have "unat (of_nat (4096 * k) :: u32) = 4096 * k" using assms by (intro unat_of_nat_lt) simp
  moreover have "of_nat k * VIRTIO_SIZE = of_nat (4096 * k)" by (simp add: VIRTIO_SIZE_def)
  ultimately have "ucast (of_nat k * VIRTIO_SIZE) = (of_nat (4096 * k) :: u64)" by (metis of_nat_unat)
  then show ?thesis by (simp only: VIRT_MMIO_def io_addr_def GPIO_BASE_ADDR_def)
qed

lemma virtio_map_loop_maps:
  assumes "io_mapped root k s" "1 \<le> k" "k \<le> 9" "tbl (mem s) root (io_addr 0) 2 = Some t"
  shows "\<exists>s' m h c. virtio_map_loop root (of_nat k) s = Some (Inr s') \<and> io_mapped root 9 s' \<and>
    s' = s\<lparr>mem := m, free_list := h, free_page_count := c\<rparr> \<and> free_pages s' = free_pages s \<and>
    (\<forall>y. mem s' y \<noteq> mem s y \<longrightarrow> in_rng t 4096 y)"
  using assms
proof (induction "9 - k" arbitrary: k s)
  case 0
  then have "virtio_map_loop root (of_nat k) s = Some (Inr s)"
    by (subst virtio_map_loop.simps) (simp add: VIRTIO_SLOTS_def)
  with 0 show ?case
    by (intro exI [of _ s] exI [of _ "mem s"] exI [of _ "free_list s"] exI [of _ "free_page_count s"]) simp
next
  case (Suc n)
  then have k: "k < 9" by simp
  have u: "unat (of_nat k :: u32) = k" using k by (intro unat_of_nat_lt) simp
  have addr: "VIRT_MMIO (of_nat k * VIRTIO_SIZE) = io_addr k" using k by (rule VIRT_MMIO_addr)
  have le: "of_nat k \<le> VIRTIO_SLOTS" unfolding VIRTIO_SLOTS_def word_le_nat_alt u using k by simp
  have t: "tbl (mem s) root (io_addr k) 2 = Some t" using Suc.prems(1,4) k by (force simp: io_mapped_def)
  have inv: "pt_inv root s" "\<And>va. sv39_walk 2 (mem s) root va = io_walk k va"
    using Suc.prems(1) by (auto simp: io_mapped_def)
  from map_page_existing [OF inv(1) t, of "io_addr k" "PTE_R OR PTE_W"] obtain s1 where
    s1: "map_page root (io_addr k) (io_addr k) (PTE_R OR PTE_W) s = Some (Inr s1)"
      "remaps root (io_addr k) (io_pte k) s s1" "free_pages s1 = free_pages s"
    using Suc.prems(2) by (auto simp: io_pte_def)
  have m1: "mem s1 = st64 (mem s) (slot t (PX 0 (io_addr k))) (PA2PTE (io_addr k) OR (PTE_R OR PTE_W) OR PTE_V)"
    using s1(1) map_walk_existing [OF t] by (auto simp: map_page_def)
  have in_t: "in_rng t 4096 y" if "mem s1 y \<noteq> mem s y" for y
    using that st64_outside [of "slot t (PX 0 (io_addr k))" y "mem s"] inv(1)
      slot_in_page [OF pt_treeD(1) [OF _ t] unat_PX, of _ 0 "io_addr k" y] unfolding m1 pt_inv_def by fastforce
  have t1: "tbl (mem s1) root (io_addr 0) 2 = Some t" using s1(2) Suc.prems(4) by (auto simp: remaps_def)
  have "virtio_map_loop root (of_nat k) s = virtio_map_loop root (of_nat (Suc k)) s1"
    using le by (subst virtio_map_loop.simps) (simp add: addr s1(1) add.commute)
  moreover have n: "n = 9 - Suc k" using Suc.hyps(2) by simp
  have "io_mapped root (Suc k) s1" using remaps_io [OF s1(2) _ inv(2)] k by simp
  then obtain s' m h c where "virtio_map_loop root (of_nat (Suc k)) s1 = Some (Inr s')" "io_mapped root 9 s'"
    "s' = s1\<lparr>mem := m, free_list := h, free_page_count := c\<rparr>" "free_pages s' = free_pages s"
    and later: "\<forall>y. mem s' y \<noteq> mem s1 y \<longrightarrow> in_rng t 4096 y"
    using Suc.hyps(1) [of "Suc k" s1, OF n] Suc.prems k t1 s1(3) by auto
  moreover obtain m1 h1 c1 where "s1 = s\<lparr>mem := m1, free_list := h1, free_page_count := c1\<rparr>"
    using s1(2) by (auto simp: remaps_def)
  moreover have "\<forall>y. mem s' y \<noteq> mem s y \<longrightarrow> in_rng t 4096 y" using later in_t by metis
  ultimately show ?case by auto
qed

text \<open>The address space of the kernel, page by page: the UART and the VirtIO slots and the
  first gigabyte of RAM at their physical addresses, the same gigabyte in the high half.\<close>

definition kernel_space :: "u64 \<Rightarrow> u64 option" where
  "kernel_space va =
     (if 0x10000000 \<le> va \<and> va < 0x10009000 \<or> 0x80000000 \<le> va \<and> va < 0xC0000000 then Some va
      else if 0xFFFFFFC080000000 \<le> va \<and> va < 0xFFFFFFC0C0000000 then Some (va - VIRT_OFFSET)
      else None)"

lemma div_range: "0 < (d::nat) \<Longrightarrow> v div d = q \<longleftrightarrow> q * d \<le> v \<and> v < Suc q * d"
  by (metis div_nat_eqI div_times_less_eq_dividend dividend_less_times_div mult.commute mult_Suc add.commute)

lemma PX2_iff:
  assumes "canonical va"
  shows "PX 2 va = 0 \<longleftrightarrow> unat va div 2 ^ 30 = 0" "PX 2 va = 2 \<longleftrightarrow> unat va div 2 ^ 30 = 2"
    "PX 2 va = 258 \<longleftrightarrow> unat va div 2 ^ 30 = 2 ^ 34 - 254"
proof -
  have eq: "PX 2 va = w \<longleftrightarrow> unat (PX 2 va) = unat w" for w by (metis unsigned_word_eqI)
  have "unat va div 2 ^ 30 = (if p < 256 then p else 2 ^ 34 - 512 + p)" "p < 512" if "p = unat (PX 2 va)" for p
    using canonical_top [OF assms] unat_PX that by simp_all
  from this [OF refl] show "PX 2 va = 0 \<longleftrightarrow> unat va div 2 ^ 30 = 0" "PX 2 va = 2 \<longleftrightarrow> unat va div 2 ^ 30 = 2"
    "PX 2 va = 258 \<longleftrightarrow> unat va div 2 ^ 30 = 2 ^ 34 - 254"
    unfolding eq by (auto split: if_splits)
qed

lemma canonical_range: "canonical va \<longleftrightarrow> unat va < 2 ^ 38 \<or> 2 ^ 64 - 2 ^ 38 \<le> unat va"
  using unat_lt_64 [of va] unfolding canonical_div by (subst (1 2) div_range) auto

lemma io_range:
  assumes "canonical va"
  shows "PX 2 va = 0 \<and> PX 1 va = 0x80 \<and> unat (PX 0 va) < 9 \<longleftrightarrow> 0x10000000 \<le> va \<and> va < 0x10009000"
    and "PX 2 va = 0 \<and> PX 1 va = 0x80 \<Longrightarrow> unat va div 4096 = 0x10000 + unat (PX 0 va)"
proof -
  define q where "q = unat va div 4096"
  have p1: "PX 1 va = 0x80 \<longleftrightarrow> q div 512 mod 512 = 0x80"
  proof -
    have "PX 1 va = w \<longleftrightarrow> unat (PX 1 va) = unat w" for w by (metis unsigned_word_eqI)
    then show ?thesis by (simp add: unat_PX_div PXSHIFT_def PGSHIFT_def q_def flip: div_mult2_eq)
  qed
  have p0: "unat (PX 0 va) = q mod 512" by (simp add: unat_PX_div PXSHIFT_def PGSHIFT_def q_def)
  have p2: "PX 2 va = 0 \<longleftrightarrow> q div 512 div 512 = 0"
    unfolding PX2_iff(1) [OF assms] by (simp add: q_def flip: div_mult2_eq)
  have q: "q div 512 div 512 = 0 \<and> q div 512 mod 512 = 0x80 \<longleftrightarrow> q = 0x10000 + q mod 512"
  proof -
    define a where "a = q div 512"
    have "a div 512 = 0 \<and> a mod 512 = 0x80 \<longleftrightarrow> a = 0x80" by (auto simp: div_eq_0_iff)
    moreover have "q = 512 * a + q mod 512" by (simp add: a_def)
    ultimately show ?thesis unfolding a_def [symmetric] by linarith
  qed
  show "PX 2 va = 0 \<and> PX 1 va = 0x80 \<Longrightarrow> unat va div 4096 = 0x10000 + unat (PX 0 va)"
    using q p0 p1 p2 by (simp flip: q_def)
  have "0x10000000 \<le> va \<and> va < 0x10009000 \<longleftrightarrow> 0x10000 \<le> q \<and> q < 0x10009"
    unfolding q_def word_le_nat_alt word_less_nat_alt
    by (simp add: less_eq_div_iff_mult_less_eq div_less_iff_less_mult)
  moreover have "q = 0x10000 + q mod 512 \<and> q mod 512 < 9 \<longleftrightarrow> 0x10000 \<le> q \<and> q < 0x10009"
  proof
    assume r: "0x10000 \<le> q \<and> q < 0x10009"
    define k where "k = q - 0x10000"
    have k: "q = k + 512 * 128" "k < 9" using r unfolding k_def by linarith+
    then have "q mod 512 = k" by (simp only: mod_mult_self2) simp
    with k show "q = 0x10000 + q mod 512 \<and> q mod 512 < 9" by simp
  qed auto
  ultimately show "PX 2 va = 0 \<and> PX 1 va = 0x80 \<and> unat (PX 0 va) < 9 \<longleftrightarrow> 0x10000000 \<le> va \<and> va < 0x10009000"
    using q p0 p1 p2 by metis
qed

lemma or_take_page:
  assumes "unat va div 2 ^ k = unat y" "unat (push_bit k y) = 2 ^ k * unat y"
  shows "push_bit k y OR take_bit k va = (va :: u64)"
proof -
  have "unat (take_bit k va OR push_bit k y) = unat (take_bit k va) + 2 ^ k * unat y"
  proof (rule unat_or_push_bit)
    show "unat (take_bit k va) < 2 ^ k" by (simp add: unat_take_bit)
    show "unat (take_bit k va) + 2 ^ k * unat y < 2 ^ LENGTH(64)"
      using unat_lt_64 [of va] by (simp add: unat_take_bit assms(1) [symmetric])
  qed
  also have "\<dots> = unat va" by (simp add: unat_take_bit assms(1) [symmetric])
  finally show ?thesis unfolding or.commute [of "push_bit k y"] by (rule unsigned_word_eqI)
qed

lemma giga_result: "PTE2PA giga_pte = push_bit 30 2" "take_bit (PXSHIFT 2) (PTE2PA giga_pte) = 0"
  by (simp_all add: giga_pte_def PTE2PA_def PGSHIFT_def PXSHIFT_def take_bit_eq_mask mask_eq_exp_minus_1)

lemma giga_high:
  assumes "unat va div 2 ^ 30 = 2 ^ 34 - 254"
  shows "push_bit 30 2 OR take_bit 30 va = va - VIRT_OFFSET"
proof -
  have r: "0xFFFFFFC080000000 \<le> unat va"
    using div_times_less_eq_dividend [of "unat va" "2 ^ 30"] assms by simp
  have "unat (take_bit 30 va OR push_bit 30 2) = unat (take_bit 30 va) + 2 ^ 30 * unat (2 :: u64)"
    by (rule unat_or_push_bit) (simp_all add: unat_take_bit)
  also have "\<dots> = unat va - 0xFFFFFFC000000000"
    using assms mult_div_mod_eq [of "2 ^ 30" "unat va"] by (simp add: unat_take_bit)
  also have "\<dots> = unat (va - VIRT_OFFSET)"
    using r by (subst unat_sub) (simp_all add: VIRT_OFFSET_def word_le_nat_alt)
  finally show ?thesis unfolding or.commute [of "push_bit 30 2"] by (rule unsigned_word_eqI)
qed

lemma io_mapped_space:
  assumes "io_mapped root 9 s"
  shows "sv39 (mem s) root va = kernel_space va"
proof (cases "canonical va")
  case False
  then have "kernel_space va = None"
    by (auto simp: canonical_range kernel_space_def word_le_nat_alt word_less_nat_alt)
  with False show ?thesis by (simp add: sv39_def)
next
  case True
  have walk: "sv39_walk 2 (mem s) root va = io_walk 9 va" using assms by (simp add: io_mapped_def)
  have giga: "0x80000000 \<le> va \<and> va < 0xC0000000 \<longleftrightarrow> unat va div 2 ^ 30 = 2"
    "0xFFFFFFC080000000 \<le> va \<and> va < 0xFFFFFFC0C0000000 \<longleftrightarrow> unat va div 2 ^ 30 = 2 ^ 34 - 254"
    by (simp_all add: div_range word_le_nat_alt word_less_nat_alt)
  note px = PX2_iff [OF True]
  consider (io) "PX 2 va = 0 \<and> PX 1 va = 0x80 \<and> unat (PX 0 va) < 9"
    | (low) "\<not> (PX 2 va = 0 \<and> PX 1 va = 0x80 \<and> unat (PX 0 va) < 9)" "PX 2 va = 2"
    | (high) "\<not> (PX 2 va = 0 \<and> PX 1 va = 0x80 \<and> unat (PX 0 va) < 9)" "PX 2 va = 258"
    | (none) "\<not> (PX 2 va = 0 \<and> PX 1 va = 0x80 \<and> unat (PX 0 va) < 9)" "PX 2 va \<noteq> 2" "PX 2 va \<noteq> 258"
    by blast
  then show ?thesis
  proof cases
    case io
    define j where "j = unat (PX 0 va)"
    have j: "j < 512" "unat va div 4096 = 0x10000 + j" using io_range(2) [OF True] io by (auto simp: j_def)
    have a: "io_addr j = push_bit 12 (of_nat (0x10000 + j))"
      by (simp add: io_addr_def push_bit_eq_mult algebra_simps)
    have u: "unat (of_nat (0x10000 + j) :: u64) = 0x10000 + j" using j(1) by (intro unat_of_nat_lt) simp
    have "io_addr j OR take_bit 12 va = va"
      unfolding a
    proof (rule or_take_page)
      show "unat va div 2 ^ 12 = unat (of_nat (0x10000 + j) :: u64)" unfolding u using j(2) by simp
      show "unat (push_bit 12 (of_nat (0x10000 + j) :: u64)) = 2 ^ 12 * unat (of_nat (0x10000 + j) :: u64)"
        unfolding u a [symmetric] unat_io_addr [OF j(1)] by simp
    qed
    moreover have "take_bit 12 (io_addr j) = 0"
      using unat_io_addr [OF j(1)] by (simp add: aligned_def flip: aligned_take_bit)
    ultimately have "sv39 (mem s) root va = Some va"
      using True walk io io_pte_leaf(2) [OF j(1)]
      by (simp add: sv39_def io_walk_def PXSHIFT_def PGSHIFT_def flip: j_def)
    moreover have "0x10000000 \<le> va \<and> va < 0x10009000" using io io_range(1) [OF True] by blast
    ultimately show ?thesis by (simp add: kernel_space_def)
  next
    case low
    then have d: "unat va div 2 ^ 30 = 2" using px by blast
    have "push_bit 30 2 OR take_bit 30 va = va" by (rule or_take_page) (use d in simp_all)
    then have "sv39 (mem s) root va = Some va"
      using True walk low giga_result by (simp add: sv39_def io_walk_def giga_walk_def PXSHIFT_def PGSHIFT_def)
    with d giga show ?thesis by (simp add: kernel_space_def)
  next
    case high
    then have d: "unat va div 2 ^ 30 = 2 ^ 34 - 254" using px by blast
    have "sv39 (mem s) root va = Some (va - VIRT_OFFSET)"
      using True walk high giga_result giga_high [OF d]
      by (simp add: sv39_def io_walk_def giga_walk_def PXSHIFT_def PGSHIFT_def)
    moreover have "\<not> (0x10000000 \<le> va \<and> va < 0x10009000)" using high(1) io_range(1) [OF True] by blast
    ultimately show ?thesis using d giga by (auto simp: kernel_space_def)
  next
    case none
    then have "io_walk 9 va = None" by (auto simp: io_walk_def giga_walk_def)
    with walk have "sv39 (mem s) root va = None" by (simp add: sv39_def)
    moreover have "\<not> (0x10000000 \<le> va \<and> va < 0x10009000)" using none(1) io_range(1) [OF True] by blast
    ultimately show ?thesis using none px giga by (simp add: kernel_space_def)
  qed
qed

lemma boot_mappings:
  assumes root: "kernel_root root (mem s)" "aligned 12 root" "root \<notin> free_pages s" "alloc_inv s"
    and pages: "2 \<le> card (free_pages s)"
  shows "\<exists>s' m h c. rbind (setup_uart_mapping root s) (setup_virtio_mappings root) = Some (Inr s') \<and>
    (\<forall>va. sv39 (mem s') root va = kernel_space va) \<and> alloc_inv s' \<and> root \<notin> free_pages s' \<and>
    s' = s\<lparr>mem := m, free_list := h, free_page_count := c\<rparr> \<and> free_pages s' \<subseteq> free_pages s \<and>
    card (free_pages s) \<le> card (free_pages s') + 2 \<and>
    (\<forall>y. mem s' y \<noteq> mem s y \<longrightarrow> covered (insert root (free_pages s)) y)"
proof -
  obtain s1 m1 h1 c1 t where s1: "setup_uart_mapping root s = Some (Inr s1)" "io_mapped root 1 s1"
    "s1 = s\<lparr>mem := m1, free_list := h1, free_page_count := c1\<rparr>" "card (free_pages s) \<le> card (free_pages s1) + 2"
    "free_pages s1 \<subseteq> free_pages s" "t \<in> insert root (free_pages s)" "tbl (mem s1) root (io_addr 0) 2 = Some t"
    and f1: "\<forall>y. mem s1 y \<noteq> mem s y \<longrightarrow> covered (insert root (free_pages s)) y"
    using setup_uart_mapping_maps [OF assms] by blast
  obtain s2 m2 h2 c2 where s2: "virtio_map_loop root 1 s1 = Some (Inr s2)" "io_mapped root 9 s2"
    "s2 = s1\<lparr>mem := m2, free_list := h2, free_page_count := c2\<rparr>" "free_pages s2 = free_pages s1"
    and f2: "\<forall>y. mem s2 y \<noteq> mem s1 y \<longrightarrow> in_rng t 4096 y"
    using virtio_map_loop_maps [OF s1(2) _ _ s1(7)] by auto
  have fr: "covered (insert root (free_pages s)) y" if "mem s2 y \<noteq> mem s y" for y
    using that f1 f2 s1(6) unfolding covered_def by metis
  have "pt_inv root s2" using s2(2) by (simp add: io_mapped_def)
  then have "alloc_inv s2" "root \<notin> free_pages s2"
    using pt_treeD(2) [of "mem s2" _ root 0 0] by (auto simp: pt_inv_def)
  then show ?thesis
    using s1(1,3,4,5) s2(1,3,4) fr io_mapped_space [OF s2(2)]
    by (intro exI [of _ s2] exI [of _ m2] exI [of _ h2] exI [of _ c2]) (simp add: setup_virtio_mappings_def)
qed

lemma giga_pte_eqs:
  "PA2PTE BASE_ADDR OR PTE_R OR PTE_W OR PTE_X OR PTE_V = giga_pte"
  "PA2PTE BASE_ADDR OR PTE_V OR PTE_R OR PTE_W OR PTE_X = giga_pte"
  "PX 2 BASE_ADDR = 2" "PX 2 KERNEL_BASE_VA = 258"
  by (simp_all add: PA2PTE_def BASE_ADDR_def pte_bits giga_pte_def PX_take PXSHIFT_def PGSHIFT_def
      KERNEL_BASE_VA_def VIRT_OFFSET_def take_bit_eq_mask mask_eq_exp_minus_1)

lemma kernel_root_write:
  assumes "aligned 12 root" "\<And>i. unat i < 512 \<Longrightarrow> ld64 m (slot root i) = 0"
  shows "kernel_root root (st64 (st64 m (slot root 2) giga_pte) (slot root 258) giga_pte)"
  using assms by (auto simp: kernel_root_def ld64_st64_slot)

lemma root_write_frame:
  assumes "aligned 12 root" "unat i < 512" "\<not> in_rng root 4096 y"
  shows "st64 m (slot root i) v y = m y"
  using st64_outside slot_in_page [OF assms(1,2)] assms(3) by blast

text \<open>The first half of \<open>mem_init\<close>: a page becomes the root table, with the two gigapages entered.\<close>

lemma mem_init_root:
  assumes inv: "alloc_inv s" and some: "free_pages s \<noteq> {}"
  obtains root m h c where "root \<in> free_pages s" "aligned 12 root" "kernel_root root m"
    "alloc_inv (s\<lparr>mem := m, free_list := h, free_page_count := c\<rparr>)"
    "free_pages (s\<lparr>mem := m, free_list := h, free_page_count := c\<rparr>) = free_pages s - {root}"
    "\<forall>y. m y \<noteq> mem s y \<longrightarrow> in_rng root 4096 y"
    "mem_init s = rbind (rbind (setup_uart_mapping root (s\<lparr>mem := m, free_list := h, free_page_count := c\<rparr>))
       (setup_virtio_mappings root)) (\<lambda>s. Some (Inr (0, s\<lparr>satp := satp_value root\<rparr>)))"
proof -
  obtain root s1 where get: "mem_alloc (ucast PAGE_SIZE) s = Some (root, s1)"
    using pages.get_returns [OF inv] by blast
  have "root \<noteq> 0" using pages.get_fails [OF inv, of s1] get some by auto
  note p = pages.get_page [OF inv get this] and get = get this
  define m1 where "m1 = memset root 0 (ucast PAGE_SIZE) (mem s1)"
  define m2 where "m2 = st64 (st64 m1 (slot root 2) giga_pte) (slot root 258) giga_pte"
  have al: "aligned 12 root" using p by blast
  have root_only: "m2 y = mem s1 y" if "\<not> in_rng root 4096 y" for y
    using that root_write_frame [OF al _ that] by (simp add: m2_def m1_def memset_apply PAGE_SIZE_val)
  from pages.fill_page [OF inv get root_only] have f: "alloc_inv (s1\<lparr>mem := m2\<rparr>)"
    "free_pages (s1\<lparr>mem := m2\<rparr>) = free_pages s - {root}" by auto
  have k: "kernel_root root m2"
    unfolding m2_def by (rule kernel_root_write [OF al]) (simp add: m1_def ld64_memset_page al)
  obtain m' h c where s1: "s1 = s\<lparr>mem := m', free_list := h, free_page_count := c\<rparr>"
    by (rule mem_alloc_frame [OF inv get(1)])
  have init: "mem_init s = rbind (rbind (setup_uart_mapping root (s1\<lparr>mem := m2\<rparr>)) (setup_virtio_mappings root))
      (\<lambda>s. Some (Inr (0, s\<lparr>satp := satp_value root\<rparr>)))"
    using get by (simp add: mem_init_def Let_def giga_pte_eqs m2_def m1_def rbind_assoc)
  have out: "\<forall>y. m2 y \<noteq> mem s y \<longrightarrow> in_rng root 4096 y" using root_only p by metis
  have e: "s1\<lparr>mem := m2\<rparr> = s\<lparr>mem := m2, free_list := h, free_page_count := c\<rparr>" by (simp add: s1)
  show thesis by (rule that [OF conjunct1 [OF p] al k f [unfolded e] out init [unfolded e]])
qed

lemma mem_init_maps:
  assumes inv: "alloc_inv s" and pages: "3 \<le> card (free_pages s)"
  shows "\<exists>s' root m h c. mem_init s = Some (Inr (0, s')) \<and>
    s' = s\<lparr>mem := m, free_list := h, free_page_count := c, satp := satp_value root\<rparr> \<and>
    root \<in> free_pages s \<and> root \<notin> free_pages s' \<and> alloc_inv s' \<and>
    (\<forall>va. sv39 (mem s') root va = kernel_space va) \<and> free_pages s' \<subseteq> free_pages s \<and>
    card (free_pages s) \<le> card (free_pages s') + 3 \<and>
    (\<forall>y. mem s' y \<noteq> mem s y \<longrightarrow> covered (free_pages s) y)"
proof -
  have "free_pages s \<noteq> {}" using pages by auto
  then obtain root m1 h1 c1 where r: "root \<in> free_pages s" "aligned 12 root" "kernel_root root m1"
    "alloc_inv (s\<lparr>mem := m1, free_list := h1, free_page_count := c1\<rparr>)"
    "free_pages (s\<lparr>mem := m1, free_list := h1, free_page_count := c1\<rparr>) = free_pages s - {root}"
    "\<forall>y. m1 y \<noteq> mem s y \<longrightarrow> in_rng root 4096 y"
    "mem_init s = rbind (rbind (setup_uart_mapping root (s\<lparr>mem := m1, free_list := h1, free_page_count := c1\<rparr>))
       (setup_virtio_mappings root)) (\<lambda>s. Some (Inr (0, s\<lparr>satp := satp_value root\<rparr>)))"
    by (rule mem_init_root [OF inv])
  let ?t = "s\<lparr>mem := m1, free_list := h1, free_page_count := c1\<rparr>"
  have cd: "Suc (card (free_pages ?t)) = card (free_pages s)"
    using pages r(1,5) by (simp add: card_Diff_singleton_if)
  obtain s2 m h c where s2: "rbind (setup_uart_mapping root ?t) (setup_virtio_mappings root) = Some (Inr s2)"
    "\<forall>va. sv39 (mem s2) root va = kernel_space va" "alloc_inv s2" "root \<notin> free_pages s2"
    "s2 = ?t\<lparr>mem := m, free_list := h, free_page_count := c\<rparr>" "free_pages s2 \<subseteq> free_pages ?t"
    "card (free_pages ?t) \<le> card (free_pages s2) + 2"
    and f2: "\<forall>y. mem s2 y \<noteq> mem ?t y \<longrightarrow> covered (insert root (free_pages ?t)) y"
    using boot_mappings [of root ?t] r(2-5) pages cd by auto
  have fr: "covered (free_pages s) y" if "mem s2 y \<noteq> mem s y" for y
    using that f2 r(1,5) r(6) by (cases "mem s2 y = m1 y") (auto simp: covered_def)
  have less: "free_pages s2 \<subseteq> free_pages s" "card (free_pages s) \<le> card (free_pages s2) + 3"
    using s2(6,7) r(5) cd by auto
  have "mem_init s = Some (Inr (0, s2\<lparr>satp := satp_value root\<rparr>))" using r(7) s2(1) by simp
  moreover have "alloc_inv (s2\<lparr>satp := x\<rparr>)" "free_pages (s2\<lparr>satp := x\<rparr>) = free_pages s2" for x
    using s2(3) by simp_all
  ultimately show ?thesis using s2 r(1) fr less by auto
qed

text \<open>With one or two free pages there is a root table, but no page for one of the two tables below it.\<close>

lemma get_none: "alloc_inv s \<Longrightarrow> free_pages s = {} \<Longrightarrow> mem_alloc (ucast PAGE_SIZE) s = Some (0, s)"
proof -
  assume inv: "alloc_inv s" and none: "free_pages s = {}"
  obtain p s1 where get: "mem_alloc (ucast PAGE_SIZE) s = Some (p, s1)" using pages.get_returns [OF inv] by blast
  then have "p = 0" using pages.get_page [OF inv get] none by auto
  then show ?thesis using pages.get_fails [OF inv, of s1] get by simp
qed

lemma page_counts:
  assumes "alloc_inv s"
  shows "free_pages s = {} \<or> (card (free_pages s) = 1 \<or> card (free_pages s) = 2) \<or> 3 \<le> card (free_pages s)"
proof -
  have "finite (free_pages s)" using assms free_pages_eq by (force simp: alloc_inv_def)
  then have "free_pages s = {} \<longleftrightarrow> card (free_pages s) = 0" by simp
  then show ?thesis by linarith
qed

lemma map_walk_starved:
  assumes inv: "alloc_inv s" and root: "aligned 12 root" "root \<notin> free_pages s" and no: "ld64 (mem s) (slot root (PX 2 va)) AND PTE_V = 0"
    and few: "free_pages s = {} \<or> card (free_pages s) = 1"
  shows "map_walk 2 root va s = Some (Inl Null_table)"
proof (cases "free_pages s = {}")
  case True
  show ?thesis using no unfolding numeral_2_eq_2 by (simp add: get_none [OF inv True])
next
  case False
  obtain p s1 where get: "mem_alloc (ucast PAGE_SIZE) s = Some (p, s1)" using pages.get_returns [OF inv] by blast
  have "p \<noteq> 0" using pages.get_fails [OF inv, of s1] get False by auto
  note p = pages.get_page [OF inv get this] and get = get this
  have F: "free_pages s1 = {}" using few False p by (auto simp: card_1_singleton_iff)
  define m where "m = st64 (memset p 0 (ucast PAGE_SIZE) (mem s1)) (slot root (PX (Suc (Suc 0)) va)) (PA2PTE (virt_to_phys p) OR PTE_V)"
  have f: "alloc_inv (s1\<lparr>mem := m\<rparr>)" "free_pages (s1\<lparr>mem := m\<rparr>) = {}" using pages.wr_inv [of s1 m] p F by auto
  have "p \<noteq> root" using p root by auto
  then have "ld64 m (slot p (PX (Suc 0) va)) = 0"
    using p root(1) unat_PX by (simp add: m_def ld64_st64_slot ld64_memset_page)
  then show ?thesis
    using no get get_none [OF f] unfolding numeral_2_eq_2 by (simp add: m_def Let_def)
qed

lemma mem_init_starved:
  assumes inv: "alloc_inv s" and few: "card (free_pages s) = 1 \<or> card (free_pages s) = 2"
  shows "mem_init s = Some (Inl Null_table)"
proof -
  have "free_pages s \<noteq> {}" using few by auto
  then obtain root m h c where r: "root \<in> free_pages s" "aligned 12 root" "kernel_root root m"
    "alloc_inv (s\<lparr>mem := m, free_list := h, free_page_count := c\<rparr>)"
    "free_pages (s\<lparr>mem := m, free_list := h, free_page_count := c\<rparr>) = free_pages s - {root}"
    "\<forall>y. m y \<noteq> mem s y \<longrightarrow> in_rng root 4096 y"
    "mem_init s = rbind (rbind (setup_uart_mapping root (s\<lparr>mem := m, free_list := h, free_page_count := c\<rparr>))
       (setup_virtio_mappings root)) (\<lambda>s. Some (Inr (0, s\<lparr>satp := satp_value root\<rparr>)))"
    by (rule mem_init_root [OF inv])
  let ?t = "s\<lparr>mem := m, free_list := h, free_page_count := c\<rparr>"
  have fin: "finite (free_pages s)" using few card.infinite by fastforce
  have "card (free_pages ?t) = card (free_pages s) - 1" "finite (free_pages ?t)" "root \<notin> free_pages ?t"
    unfolding r(5) using fin r(1) by simp_all
  then have "free_pages ?t = {} \<or> card (free_pages ?t) = 1" "root \<notin> free_pages ?t"
    using few by (metis card_0_eq diff_self_eq_0 one_add_one add_diff_cancel_left')+
  moreover have "ld64 (mem ?t) (slot root (PX 2 0x10000000)) AND PTE_V = 0"
    using r(3) by (simp add: kernel_root_def PX_take PXSHIFT_def PGSHIFT_def)
  ultimately have "map_walk 2 root 0x10000000 ?t = Some (Inl Null_table)" by (intro map_walk_starved [OF r(4,2)])
  then show ?thesis by (simp add: r(7) setup_uart_mapping_def map_page_def)
qed

lemma pages_ok_within:
  assumes "pages_ok s xs" "p \<in> set xs"
  shows "unat (heap_start s) \<le> unat p \<and> unat p + 4096 \<le> unat (heap_end s)"
  using assms aligned_gap [of 12 p "heap_end s"]
  by (auto simp: pages_ok_def page_ok_def heap_ok_def word_le_nat_alt word_less_nat_alt)

text \<open>The heap right after \<open>page_allocator_init\<close>, without the list that represents it.\<close>

lemma page_allocator_init_heap:
  assumes syms: "heap_syms_ok hsym ssym"
  obtains s1 where "page_allocator_init hsym ssym s = Some s1" "alloc_inv s1"
    "\<exists>hs he m h c. s1 = s\<lparr>heap_start := hs, heap_end := he, mem := m, free_list := h, free_page_count := c\<rparr>"
    "card (free_pages s1) = (heap_last hsym ssym - heap_first hsym) div 4096" "heap_last hsym ssym \<le> 2 ^ 56"
    "\<forall>p\<in>free_pages s1. heap_first hsym \<le> unat p \<and> unat p + 4096 \<le> heap_last hsym ssym"
    "\<forall>y. mem s1 y \<noteq> mem s y \<longrightarrow> (\<exists>p\<in>free_pages s1. in_rng p 8 y)"
proof -
  define k where "k = (heap_last hsym ssym - heap_first hsym) div 4096"
  obtain m h hs he where init: "page_allocator_init hsym ssym s =
      Some (s\<lparr>heap_start := hs, heap_end := he, mem := m, free_list := h, free_page_count := of_nat k\<rparr>)"
    "unat hs = heap_first hsym" "unat he = heap_last hsym ssym"
    "pages_ok (s\<lparr>heap_start := hs, heap_end := he, mem := m, free_list := h, free_page_count := of_nat k\<rparr>)
      (map (page_at hs) [0..<k])"
    "\<forall>y. m y \<noteq> mem s y \<longrightarrow> (\<exists>i<k. in_rng (page_at hs i) 8 y)"
    using page_allocator_init_pages [OF syms, of s] unfolding k_def by blast
  define s1 where "s1 = s\<lparr>heap_start := hs, heap_end := he, mem := m, free_list := h, free_page_count := of_nat k\<rparr>"
  note ok = init(4) [folded s1_def]
  have fr: "free_pages s1 = set (map (page_at hs) [0..<k])" by (rule free_pages_eq [OF ok])
  have "card (free_pages s1) = k"
    using ok unfolding fr pages_ok_def by (metis distinct_card length_map length_upt diff_zero)
  moreover have "heap_first hsym \<le> unat p \<and> unat p + 4096 \<le> heap_last hsym ssym" if "p \<in> free_pages s1" for p
    using pages_ok_within [OF ok, of p] that init(2,3) unfolding fr by (simp add: s1_def)
  moreover have "heap_last hsym ssym \<le> 2 ^ 56" using ok init(3) by (simp add: pages_ok_def heap_ok_def s1_def)
  moreover have "\<exists>p\<in>free_pages s1. in_rng p 8 y" if "mem s1 y \<noteq> mem s y" for y
    using init(5) that unfolding fr by (fastforce simp: s1_def)
  moreover have "\<exists>hs he m h c. s1 = s\<lparr>heap_start := hs, heap_end := he, mem := m, free_list := h, free_page_count := c\<rparr>"
    unfolding s1_def by blast
  ultimately show ?thesis using alloc_invI [OF ok] init(1) [folded s1_def] unfolding k_def by (intro that) auto
qed

lemma relocate_kernel_maps:
  assumes syms: "heap_syms_ok hsym ssym" and room: "heap_first hsym + 2 * 4096 \<le> heap_last hsym ssym"
    and boot: "aligned 12 boot_pt" "unat boot_pt < heap_first hsym \<or> heap_last hsym ssym \<le> unat boot_pt"
    and bss: "\<And>y. in_rng boot_pt 4096 y \<Longrightarrow> mem s y = 0"
  shows "\<exists>s'. relocate_kernel hsym ssym boot_pt s = Some (Inr s') \<and> satp s' = satp_value boot_pt \<and>
    (\<forall>va. sv39 (mem s') boot_pt va = kernel_space va) \<and> alloc_inv s' \<and> boot_pt \<notin> free_pages s' \<and>
    (\<exists>hs he m h c. s' = s\<lparr>heap_start := hs, heap_end := he, mem := m, free_list := h, free_page_count := c,
       satp := satp_value boot_pt\<rparr>) \<and>
    (heap_last hsym ssym - heap_first hsym) div 4096 \<le> card (free_pages s') + 2 \<and>
    (\<forall>p\<in>free_pages s'. heap_first hsym \<le> unat p \<and> unat p + 4096 \<le> heap_last hsym ssym) \<and>
    (\<forall>y. mem s' y \<noteq> mem s y \<longrightarrow> in_rng boot_pt 4096 y \<or> heap_first hsym \<le> unat y \<and> unat y < heap_last hsym ssym)"
proof -
  define k where "k = (heap_last hsym ssym - heap_first hsym) div 4096"
  obtain s1 where init: "page_allocator_init hsym ssym s = Some s1" "alloc_inv s1"
    "\<exists>hs he m h c. s1 = s\<lparr>heap_start := hs, heap_end := he, mem := m, free_list := h, free_page_count := c\<rparr>"
    "card (free_pages s1) = k" "heap_last hsym ssym \<le> 2 ^ 56"
    "\<forall>p\<in>free_pages s1. heap_first hsym \<le> unat p \<and> unat p + 4096 \<le> heap_last hsym ssym"
    "\<forall>y. mem s1 y \<noteq> mem s y \<longrightarrow> (\<exists>p\<in>free_pages s1. in_rng p 8 y)"
    using page_allocator_init_heap [OF syms, of s] unfolding k_def by blast
  note inv = init(2)
  have nb: "boot_pt \<notin> free_pages s1" using boot(2) init(6) by fastforce
  have "2 \<le> k" using room unfolding k_def by (simp add: less_eq_div_iff_mult_less_eq)
  with init(4) have cd: "2 \<le> card (free_pages s1)" by simp
  have in_heap: "heap_first hsym \<le> unat y \<and> unat y < heap_last hsym ssym"
    if "p \<in> free_pages s1" "in_rng p 4096 y" for p y
    using init(5,6) that in_rng_iff [of p 4096 y] by fastforce
  define m2 where "m2 = st64 (st64 (mem s1) (slot boot_pt 2) giga_pte) (slot boot_pt 258) giga_pte"
  have apart: "\<not> in_rng boot_pt 4096 y" if "q \<in> free_pages s1" "in_rng q 8 y" for q y
  proof (rule pages_apart)
    show "aligned 12 q" "q \<noteq> boot_pt" using free_page_facts(1) [OF inv that(1)] that(1) nb by auto
    show "in_rng q 4096 y" using that(2) by (rule in_rng_mono) simp
  qed (rule boot(1))
  have "mem s1 y = 0" if "in_rng boot_pt 4096 y" for y
    using init(7) apart bss [OF that] that by metis
  then have "ld64 (mem s1) (slot boot_pt i) = 0" if "unat i < 512" for i
    unfolding ld64_def using slot_in_page [OF boot(1) that] by (intro ld_le_zero) auto
  then have kr: "kernel_root boot_pt m2" unfolding m2_def by (intro kernel_root_write [OF boot(1)])
  have "m2 y = mem s1 y" if "q \<in> free_pages s1" "in_rng q 8 y" for q y
    unfolding m2_def using root_write_frame [OF boot(1) _ apart [OF that]] by simp
  then have w: "alloc_inv (s1\<lparr>mem := m2\<rparr>)" "free_pages (s1\<lparr>mem := m2\<rparr>) = free_pages s1"
    using pages.wr_inv [OF inv] by blast+
  obtain s2 where s2:
    "rbind (setup_uart_mapping boot_pt (s1\<lparr>mem := m2\<rparr>)) (setup_virtio_mappings boot_pt) = Some (Inr s2)"
    "\<forall>va. sv39 (mem s2) boot_pt va = kernel_space va" "alloc_inv s2" "boot_pt \<notin> free_pages s2"
    "\<exists>m h c. s2 = s1\<lparr>mem := m, free_list := h, free_page_count := c\<rparr>" "free_pages s2 \<subseteq> free_pages s1"
    "k \<le> card (free_pages s2) + 2"
    and f2: "\<And>y. mem s2 y \<noteq> m2 y \<Longrightarrow> covered (insert boot_pt (free_pages s1)) y"
    using boot_mappings [of boot_pt "s1\<lparr>mem := m2\<rparr>"] kr boot(1) nb w cd init(4) by auto
  have frame: "in_rng boot_pt 4096 y \<or> heap_first hsym \<le> unat y \<and> unat y < heap_last hsym ssym"
    if "mem s2 y \<noteq> mem s y" for y
  proof (rule ccontr)
    assume no: "\<not> (in_rng boot_pt 4096 y \<or> heap_first hsym \<le> unat y \<and> unat y < heap_last hsym ssym)"
    then have "mem s2 y = m2 y" using f2 [of y] in_heap by (auto simp: covered_def)
    also have "\<dots> = mem s1 y" unfolding m2_def using root_write_frame [OF boot(1)] no by simp
    also have "\<dots> = mem s y" using init(7) in_heap [of _ y] in_rng_mono [of _ 8 y 4096] no by fastforce
    finally show False using that by simp
  qed
  have "relocate_kernel hsym ssym boot_pt s = Some (Inr (s2\<lparr>satp := satp_value boot_pt\<rparr>))"
    using init(1) s2(1) rbind_assoc [of "setup_uart_mapping boot_pt (s1\<lparr>mem := m2\<rparr>)"
        "setup_virtio_mappings boot_pt" "\<lambda>s. Some (Inr (s\<lparr>satp := satp_value boot_pt\<rparr>))"]
    by (simp add: relocate_kernel_def setup_boot_page_table_def Let_def giga_pte_eqs m2_def)
  moreover have "\<exists>hs he m h c. s2\<lparr>satp := satp_value boot_pt\<rparr> = s\<lparr>heap_start := hs, heap_end := he, mem := m,
      free_list := h, free_page_count := c, satp := satp_value boot_pt\<rparr>"
    using init(3) s2(5) by (elim exE) (simp, blast)
  ultimately show ?thesis
    using s2(2-4,6,7) init(6) frame by (intro exI [of _ "s2\<lparr>satp := satp_value boot_pt\<rparr>"]) (auto simp: k_def)
qed



section \<open>Properties\<close>

lemma empty_root:
  assumes "\<And>i. unat i < 512 \<Longrightarrow> ld64 m (slot root i) = 0" "aligned 12 root" "root \<notin> F"
  shows "pt_tree m F root" "no_leaf m root va"
proof -
  have e: "ld64 m (slot root (PX 2 va)) = 0" for va using assms(1) unat_PX by blast
  have t: "tbl m root va (Suc d) = None" for va d
    using e giga_pte_leaf by (induction d) (auto simp: tbl.simps(2))
  then have t': "tbl m root va d = Some t \<longleftrightarrow> d = 0 \<and> t = root" for va d t by (cases d) auto
  show "pt_tree m F root" using assms(2,3) by (simp add: pt_tree_def t')
  have "entry m root va d = Some f \<longleftrightarrow> d = 0 \<and> f = 0" for d f
    using e [of va] t by (cases d) (auto simp: entry_def)
  then show "no_leaf m root va" by (simp add: no_leaf_def pte_valid_def)
qed

lemma three_pages_below:
  assumes "in_rng 0x80000000 4096 y"
  shows "mem three_pages y = 0"
proof -
  have "unat y < 0x80001000" using assms by (simp add: in_rng_iff)
  then have "\<not> in_rng 0x80001000 8 y" "\<not> in_rng 0x80002000 8 y" by (simp_all add: in_rng_iff)
  then show ?thesis by (simp add: three_pages_def st64_outside)
qed

lemma three_pages_free: "free_pages three_pages = {0x80001000, 0x80002000, 0x80003000}"
  using free_pages_eq [OF three_pages_ok] by simp

lemma three_pages_root:
  "pt_inv 0x80000000 three_pages" "no_leaf (mem three_pages) 0x80000000 va"
proof -
  have al: "aligned 12 0x80000000" by (simp add: aligned_def)
  have z: "ld64 (mem three_pages) (slot 0x80000000 i) = 0" if "unat i < 512" for i
    unfolding ld64_def using three_pages_below slot_in_page [OF al that] by (intro ld_le_zero) auto
  have "0x80000000 \<notin> free_pages three_pages" by (simp add: three_pages_free)
  note e = empty_root [OF z al this]
  show "pt_inv 0x80000000 three_pages" using e(1) alloc_invI [OF three_pages_ok] by (simp add: pt_inv_def)
  show "no_leaf (mem three_pages) 0x80000000 va" by (rule e(2))
qed

text \<open>
  C2. \<open>map_page\<close> followed by translation: with two free pages for missing tables, \<open>map_page\<close>
  returns, the Sv39 walk of the hardware then sends every address of the page of \<open>va\<close> to the
  page \<open>pa\<close> at the same offset, the kernel's own \<open>va2pa\<close> agrees for \<open>va\<close>, every other page is
  translated as before, and the tables are again a tree of pages that are not free.
\<close>

theorem map_page_translates:
  assumes inv: "pt_inv root s" and leaf: "no_leaf (mem s) root va" and pages: "2 \<le> card (free_pages s)"
    and can: "canonical va" and pa: "aligned 12 pa" "unat pa < 2 ^ 56" "leaf_flags flags"
  shows "\<exists>s'. map_page root va pa flags s = Some (Inr s') \<and> pt_inv root s' \<and>
    va2pa (mem s') root va = pa OR take_bit 12 va \<and>
    (\<forall>va'. canonical va' \<longrightarrow> sv39 (mem s') root va' =
       (if drop_bit 12 va' = drop_bit 12 va then Some (pa OR take_bit 12 va') else sv39 (mem s) root va'))"
proof -
  obtain s' where s': "map_page root va pa flags s = Some (Inr s')"
    and r: "remaps root va (PA2PTE pa OR flags OR PTE_V) s s'"
    using map_page_remaps [OF inv leaf, of pa flags] pages by auto
  have e: "entry (mem s') root va 2 = Some (PA2PTE pa OR flags OR PTE_V)" using r by (simp add: remaps_def)
  have "sv39 (mem s') root va' =
      (if drop_bit 12 va' = drop_bit 12 va then Some (pa OR take_bit 12 va') else sv39 (mem s) root va')"
    if c: "canonical va'" for va'
  proof (cases "drop_bit 12 va' = drop_bit 12 va")
    case True
    then have "path 3 va' = path 3 va" using path_same_page [OF c can] by simp
    then have "sv39_walk 2 (mem s') root va' = sv39_walk 2 (mem s') root va" by (rule walk_path)
    also have "\<dots> = Some (0, PA2PTE pa OR flags OR PTE_V)" by (rule entry_walk [OF e leaf_entry(1) [OF pa]])
    finally show ?thesis
      using True c leaf_entry(2) [OF pa] pa(1) by (simp add: sv39_def PXSHIFT_def PGSHIFT_def aligned_take_bit)
  next
    case False
    then have "path 3 va' \<noteq> path 3 va" using path_same_page [OF c can] by simp
    with r False show ?thesis by (simp add: remaps_def sv39_def)
  qed
  with s' r va2pa_entry [OF e pa] show ?thesis by (auto simp: remaps_def)
qed

theorem map_page_translates_witness:
  "\<exists>s'. map_page 0x80000000 0x10000123 0x30000000 2 three_pages = Some (Inr s') \<and>
    sv39 (mem s') 0x80000000 0x10000123 = Some 0x30000123"
proof -
  have "2 \<le> card (free_pages three_pages)" by (simp add: three_pages_free)
  from map_page_translates [OF three_pages_root this, of "0x10000123" "0x30000000" 2]
  show ?thesis
    by (force simp: canonical_range aligned_def leaf_flags_def take_bit_eq_mask mask_eq_exp_minus_1)
qed

text \<open>
  \<open>map_page\<close> does not test what \<open>mem_alloc\<close> returns: when the first table of the path is
  missing and no page is free it goes on with a table at address 0.
\<close>

theorem map_page_null_table:
  assumes "alloc_inv s" "free_pages s = {}" "ld64 (mem s) (slot root (PX 2 va)) AND PTE_V = 0"
  shows "map_page root va pa flags s = Some (Inl Null_table)"
proof -
  obtain p s1 where get: "mem_alloc (ucast PAGE_SIZE) s = Some (p, s1)"
    using pages.get_returns [OF assms(1)] by blast
  then have "p = 0" using pages.get_page [OF assms(1) get] assms(2) by auto
  with get assms(3) have "map_walk (Suc (Suc 0)) root va s = Some (Inl Null_table)"
    unfolding numeral_2_eq_2 by (simp add: Let_def)
  then show ?thesis by (simp add: map_page_def numeral_2_eq_2)
qed

definition no_pages :: alloc where
  "no_pages = three_pages\<lparr>free_list := 0, free_page_count := 0\<rparr>"

lemma no_pages_ok: "pages_ok no_pages []"
  using three_pages_ok by (simp add: no_pages_def pages_ok_def heap_ok_def)

theorem map_page_null_table_witness:
  "map_page 0x80000000 0x10000000 0x10000000 2 no_pages = Some (Inl Null_table)"
proof (rule map_page_null_table)
  show "alloc_inv no_pages" "free_pages no_pages = {}"
    using alloc_invI [OF no_pages_ok] free_pages_eq [OF no_pages_ok] by simp_all
  have al: "aligned 12 0x80000000" by (simp add: aligned_def)
  have "ld64 (mem no_pages) (slot 0x80000000 (PX 2 0x10000000)) = 0"
    unfolding ld64_def
    using three_pages_below slot_in_page [OF al unat_PX] by (intro ld_le_zero) (auto simp: no_pages_def)
  then show "ld64 (mem no_pages) (slot 0x80000000 (PX 2 0x10000000)) AND PTE_V = 0" by simp
qed

text \<open>
  C13. \<open>mem_init\<close>, by the number of free pages. With none it returns -1 and changes nothing. With at least three it
  returns 0, and the address space it switches \<^verbatim>\<open>satp\<close> to is exactly the kernel's: the UART
  page, the eight VirtIO slots and the first gigabyte of RAM at their physical addresses, the
  same gigabyte at the high half, and no other address. The root table is a page taken
  from the allocator, whose invariant still holds. With one or two it gets a root table, but then goes on with a
  NULL pointer as a page table, which is where the model stops.
\<close>

theorem mem_init_address_space:
  assumes "alloc_inv s"
  shows "if free_pages s = {} then mem_init s = Some (Inr (- 1, s))
    else if card (free_pages s) < 3 then mem_init s = Some (Inl Null_table)
    else
      (\<exists>s' root m h c. mem_init s = Some (Inr (0, s')) \<and>
        s' = s\<lparr>mem := m, free_list := h, free_page_count := c, satp := satp_value root\<rparr> \<and>
        root \<in> free_pages s \<and> root \<notin> free_pages s' \<and> alloc_inv s' \<and>
        (\<forall>va. sv39 (mem s') root va = kernel_space va))"
proof -
  consider "free_pages s = {}" | "free_pages s \<noteq> {}" "card (free_pages s) = 1 \<or> card (free_pages s) = 2"
    | "free_pages s \<noteq> {}" "3 \<le> card (free_pages s)"
    using page_counts [OF assms] by blast
  then show ?thesis
  proof cases
    case 1
    then have "mem_init s = Some (Inr (- 1, s))" using get_none [OF assms] by (simp add: mem_init_def)
    with 1 show ?thesis by simp
  next
    case 2
    then show ?thesis using mem_init_starved [OF assms 2(2)] by auto
  next
    case 3
    then have "\<not> card (free_pages s) < 3" by simp
    with 3 show ?thesis using mem_init_maps [OF assms 3(2)] by (simp only: if_False) blast
  qed
qed

theorem mem_init_address_space_witness:
  "\<exists>s' root. mem_init three_pages = Some (Inr (0, s')) \<and>
    sv39 (mem s') root 0xFFFFFFC080001000 = Some 0x80001000 \<and> sv39 (mem s') root 0x10009000 = None"
proof -
  have "kernel_space 0xFFFFFFC080001000 = Some 0x80001000" "kernel_space 0x10009000 = None"
    by (simp_all add: kernel_space_def VIRT_OFFSET_def)
  moreover have "free_pages three_pages \<noteq> {}" "\<not> card (free_pages three_pages) < 3"
    by (simp_all add: three_pages_free)
  then obtain s' root where "mem_init three_pages = Some (Inr (0, s'))"
    "\<forall>va. sv39 (mem s') root va = kernel_space va"
    using mem_init_address_space [OF alloc_invI [OF three_pages_ok]] by (simp only: if_False) blast
  ultimately show ?thesis by metis
qed

text \<open>
  \<open>relocate_kernel\<close>, run before any page has been handed out: if the linker symbols lie in
  physical memory with room for two pages between them and the boot page table is a zeroed page
  outside the heap, it returns with \<^verbatim>\<open>satp\<close> pointing at the boot table, whose address space
  is exactly the kernel's, and with the page allocator's invariant established.
\<close>

theorem relocate_kernel_address_space:
  assumes "heap_syms_ok hsym ssym" "heap_first hsym + 2 * 4096 \<le> heap_last hsym ssym"
    and "aligned 12 boot_pt" "unat boot_pt < heap_first hsym \<or> heap_last hsym ssym \<le> unat boot_pt"
    and "\<forall>y. in_rng boot_pt 4096 y \<longrightarrow> mem s y = 0"
  shows "\<exists>s'. relocate_kernel hsym ssym boot_pt s = Some (Inr s') \<and> satp s' = satp_value boot_pt \<and>
    (\<forall>va. sv39 (mem s') boot_pt va = kernel_space va) \<and> alloc_inv s' \<and> boot_pt \<notin> free_pages s'"
  using relocate_kernel_maps [OF assms(1-4)] assms(5) by blast

theorem relocate_kernel_address_space_witness:
  "\<exists>s'. relocate_kernel 0x80001000 0x80004000 0x80000000 three_pages = Some (Inr s') \<and>
    satp s' = 0x8000000000080000 \<and> sv39 (mem s') 0x80000000 0x80000010 = Some 0x80000010"
proof -
  have v: "virt_to_phys 0x80001000 = 0x80001000" "virt_to_phys 0x80004000 = 0x80004000"
    "virt_to_phys 0x80000000 = 0x80000000"
    by (simp_all add: virt_to_phys_def KERNEL_BASE_VA_def BASE_ADDR_def VIRT_OFFSET_def)
  have h: "heap_syms_ok 0x80001000 0x80004000" "heap_first 0x80001000 = 0x80001000"
    "heap_last 0x80001000 0x80004000 = 0x80004000"
    by (simp_all add: heap_syms_ok_def heap_first_def heap_last_def v)
  have sv: "satp_value 0x80000000 = 0x8000000000080000" by (simp add: satp_value_def v PGSHIFT_def)
  have k: "kernel_space 0x80000010 = Some 0x80000010" by (simp add: kernel_space_def)
  from relocate_kernel_address_space [OF h(1), of "0x80000000" three_pages] three_pages_below
  show ?thesis by (force simp: h aligned_def sv k)
qed




text \<open>The superpages of the kernel's own address space are not among those addresses: \<open>va2pa\<close> reads the RAM
  they map as a page table.\<close>

theorem va2pa_superpage:
  assumes "ld64 m (slot root 2) = giga_pte" "\<not> pte_valid (ld64 m 0x80000000)"
  shows "va2pa m root 0x80000000 = 0" "sv39 m root 0x80000000 = Some 0x80000000"
proof -
  have p: "PX 2 0x80000000 = 2" "PX 1 0x80000000 = 0" using giga_pte_eqs(3)
    by (simp_all add: PX_take PXSHIFT_def PGSHIFT_def BASE_ADDR_def)
  have g: "PTE2PA giga_pte = 0x80000000" by (simp add: PTE2PA_def giga_pte_def PGSHIFT_def)
  have "va2pa_walk 2 m root 0x80000000 = None"
    using assms p g giga_pte_leaf(1) by (simp add: numeral_2_eq_2 and_PTE_V slot_def pte_leaf_def pte_valid_def)
  then show "va2pa m root 0x80000000 = 0" by (simp add: va2pa_def)
  have "sv39_walk 2 m root 0x80000000 = Some (2, giga_pte)"
    using assms(1) p giga_pte_leaf(1) by (simp add: numeral_2_eq_2)
  then show "sv39 m root 0x80000000 = Some 0x80000000"
    by (simp add: sv39_def g canonical_range PXSHIFT_def PGSHIFT_def take_bit_eq_mask mask_eq_exp_minus_1)
qed

end
