(* ===== verification/Dtb.thy ===== *)
theory Dtb
  imports Utils
begin

text \<open>
  \<^verbatim>\<open>src/src/kernel/dtb.c\<close>: the traversal of the flattened device tree. The blob lies in
  memory as the firmware left it; \<open>fdt_traverse\<close> walks over the tokens of its structure
  block and calls back for every property with a value. The model returns the calls made, in
  order, with the unit address of the node the code has at hand at that moment (the code
  prints it in its debug build only).

  The specification is the encoding of a token sequence as the device-tree format defines it
  (\<open>fdt_encode\<close>); the lemmas show that the traversal of an encoded block terminates and makes
  exactly the calls of the sequence. The strings \<^verbatim>\<open>dtb_callback\<close> compares with are literals in
  the kernel image: their addresses are arguments.
\<close>

section \<open>Definitions\<close>

definition FDT_BEGIN_NODE :: u32 where "FDT_BEGIN_NODE = 1"
definition FDT_END_NODE :: u32 where "FDT_END_NODE = 2"
definition FDT_PROP :: u32 where "FDT_PROP = 3"
definition FDT_NOP :: u32 where "FDT_NOP = 4"
definition FDT_END :: u32 where "FDT_END = 9"

lemmas fdt_tokens = FDT_BEGIN_NODE_def FDT_END_NODE_def FDT_PROP_def FDT_NOP_def FDT_END_def

text \<open>Offsets of the fields of \<^verbatim>\<open>struct fdt_header\<close>.\<close>

definition fdt_magic :: "memory \<Rightarrow> u64 \<Rightarrow> u32" where "fdt_magic m fdt = ld32 m fdt"
definition off_dt_struct :: "memory \<Rightarrow> u64 \<Rightarrow> u32" where "off_dt_struct m fdt = ld32 m (fdt + 8)"
definition size_dt_struct :: "memory \<Rightarrow> u64 \<Rightarrow> u32" where "size_dt_struct m fdt = ld32 m (fdt + 36)"

text \<open>\<^verbatim>\<open>prop_len\<close> is passed on as an \<^verbatim>\<open>int\<close>: a length of \<open>2 ^ 31\<close> or more becomes negative.\<close>

definition dtb_callback :: "u64 \<Rightarrow> u64 \<Rightarrow> memory \<Rightarrow> u64 \<Rightarrow> u32 \<Rightarrow> int" where
  "dtb_callback ns16550a virtio_mmio m string_addr prop_len =
     (if string_comp_l m string_addr ns16550a (sint prop_len) = 0 then 1
      else if string_comp_l m string_addr virtio_mmio (sint prop_len) = 0 then 2
      else 0)"

partial_function (option) skip_at :: "memory \<Rightarrow> u64 \<Rightarrow> u64 option" where
  "skip_at m p = (if m p \<noteq> 64 \<and> m p \<noteq> 0 then skip_at m (p + 1) else Some p)"

partial_function (option) unit_loop :: "memory \<Rightarrow> u64 \<Rightarrow> u64 \<Rightarrow> u64 option" where
  "unit_loop m p addr =
     (if m p = 0 then Some addr
      else
        let addr = push_bit 4 addr
        in if 48 \<le> m p \<and> m p \<le> 57 then unit_loop m (p + 1) (addr + (ucast (m p) - 48))
           else if 97 \<le> m p \<and> m p \<le> 102 then unit_loop m (p + 1) (addr + (ucast (m p) - 97 + 10))
           else if 65 \<le> m p \<and> m p \<le> 70 then unit_loop m (p + 1) (addr + (ucast (m p) - 65 + 10))
           else Some addr)"

definition parse_dtb_unit_name :: "memory \<Rightarrow> u64 \<Rightarrow> u64 option" where
  "parse_dtb_unit_name m unit_name = do {
     p \<leftarrow> skip_at m unit_name;
     unit_loop m (p + 1) 0
   }"

record fdt_call =
  node_addr :: u64
  string_addr :: u64
  prop_len :: u32
  ret :: int

partial_function (option) fdt_loop ::
  "memory \<Rightarrow> (u64 \<Rightarrow> u32 \<Rightarrow> int) \<Rightarrow> u64 \<Rightarrow> u64 \<Rightarrow> u64 \<Rightarrow> fdt_call list option" where
  "fdt_loop m callback fin struct_ptr addr =
     (if struct_ptr < fin then
        let token = BE2LE (ld32 m struct_ptr);
            struct_ptr = struct_ptr + 4
        in if token = FDT_NOP then fdt_loop m callback fin struct_ptr addr
           else if token = FDT_BEGIN_NODE then do {
             len \<leftarrow> string_len m struct_ptr;
             let print_len = (of_nat len :: u32);
             addr \<leftarrow> parse_dtb_unit_name m struct_ptr;
             let struct_ptr = struct_ptr + ucast print_len;
             let struct_ptr = struct_ptr + 1;
             let struct_ptr = struct_ptr + ucast (align_mem_offset struct_ptr 4);
             fdt_loop m callback fin struct_ptr addr
           }
           else if token = FDT_PROP then
             let plen = BE2LE (ld32 m struct_ptr);
                 struct_ptr = struct_ptr + 4;
                 struct_ptr = struct_ptr + 4
             in if plen > 0 then do {
                  let call = \<lparr>node_addr = addr, string_addr = struct_ptr, prop_len = plen,
                    ret = callback struct_ptr plen\<rparr>;
                  let struct_ptr = struct_ptr + ucast plen;
                  let struct_ptr = struct_ptr + ucast (align_mem_offset struct_ptr 4);
                  calls \<leftarrow> fdt_loop m callback fin struct_ptr addr;
                  Some (call # calls)
                }
                else
                  let struct_ptr = struct_ptr + ucast (align_mem_offset struct_ptr 4)
                  in fdt_loop m callback fin struct_ptr addr
           else if token = FDT_END_NODE \<or> token = FDT_END then fdt_loop m callback fin struct_ptr addr
           else Some []
      else Some [])"

definition fdt_traverse ::
  "memory \<Rightarrow> u64 \<Rightarrow> (u64 \<Rightarrow> u32 \<Rightarrow> int) \<Rightarrow> fdt_call list option" where
  "fdt_traverse m dtb_addr callback =
     (if BE2LE (fdt_magic m dtb_addr) \<noteq> 0xd00dfeed then Some []
      else
        let struct_size = BE2LE (size_dt_struct m dtb_addr);
            struct_ptr = dtb_addr + ucast (BE2LE (off_dt_struct m dtb_addr))
        in fdt_loop m callback (struct_ptr + ucast struct_size) struct_ptr 0)"

section \<open>The specification: the encoding of a structure block\<close>

datatype fdt_token =
    Begin_node "u8 list"
  | End_node
  | Prop u32 "u8 list"
  | Nop
  | End

definition be32 :: "u32 \<Rightarrow> u8 list" where
  "be32 w = [ucast (drop_bit 24 w), ucast (drop_bit 16 w), ucast (drop_bit 8 w), ucast w]"

definition pad4 :: "nat \<Rightarrow> u8 list" where
  "pad4 n = replicate ((4 - n mod 4) mod 4) 0"

fun fdt_token_bytes :: "fdt_token \<Rightarrow> u8 list" where
  "fdt_token_bytes (Begin_node name) = be32 1 @ name @ [0] @ pad4 (length name + 1)"
| "fdt_token_bytes End_node = be32 2"
| "fdt_token_bytes (Prop off v) = be32 3 @ be32 (of_nat (length v)) @ be32 off @ v @ pad4 (length v)"
| "fdt_token_bytes Nop = be32 4"
| "fdt_token_bytes End = be32 9"

definition fdt_encode :: "fdt_token list \<Rightarrow> u8 list" where
  "fdt_encode ts = concat (map fdt_token_bytes ts)"

text \<open>The unit address of a node name: the hexadecimal number after the at sign, 0 without one.\<close>

definition unit_address :: "u8 list \<Rightarrow> u64" where
  "unit_address name = of_nat (hex_num (drop 1 (dropWhile (\<lambda>c. c \<noteq> 64) name)))"

text \<open>Names hold no NUL and no newline, and only hexadecimal digits after the at sign; lengths
  fit in 31 bits; a node's opening token is not the last token.\<close>

definition name_ok :: "u8 list \<Rightarrow> bool" where
  "name_ok name \<longleftrightarrow> 0 \<notin> set name \<and> 10 \<notin> set name \<and> length name < 2 ^ 31 \<and>
     (\<forall>c\<in>set (drop 1 (dropWhile (\<lambda>c. c \<noteq> 64) name)). is_hex c)"

fun tokens_ok :: "fdt_token list \<Rightarrow> bool" where
  "tokens_ok [] = True"
| "tokens_ok (Begin_node name # ts) = (name_ok name \<and> ts \<noteq> [] \<and> tokens_ok ts)"
| "tokens_ok (Prop off v # ts) = (length v < 2 ^ 31 \<and> tokens_ok ts)"
| "tokens_ok (t # ts) = tokens_ok ts"

fun fdt_calls :: "(u64 \<Rightarrow> u32 \<Rightarrow> int) \<Rightarrow> u64 \<Rightarrow> u64 \<Rightarrow> fdt_token list \<Rightarrow> fdt_call list" where
  "fdt_calls cb p addr [] = []"
| "fdt_calls cb p addr (t # ts) =
     (let q = p + of_nat (length (fdt_token_bytes t))
      in case t of
           Begin_node name \<Rightarrow> fdt_calls cb q (unit_address name) ts
         | Prop off v \<Rightarrow>
             (if v = [] then []
              else [\<lparr>node_addr = addr, string_addr = p + 12, prop_len = of_nat (length v),
                     ret = cb (p + 12) (of_nat (length v))\<rparr>])
             @ fdt_calls cb q addr ts
         | _ \<Rightarrow> fdt_calls cb q addr ts)"

section \<open>Bytes in memory\<close>

definition holds :: "memory \<Rightarrow> u64 \<Rightarrow> u8 list \<Rightarrow> bool" where
  "holds m p bs \<longleftrightarrow> bytes m p (length bs) = bs"

lemma holds_append: "holds m p (xs @ ys) \<longleftrightarrow> holds m p xs \<and> holds m (p + of_nat (length xs)) ys"
  by (simp add: holds_def bytes_append)

lemma holds_Nil [simp]: "holds m p []"
  by (simp add: holds_def bytes_def)

lemma holds_Cons: "holds m p (x # xs) \<longleftrightarrow> m p = x \<and> holds m (p + 1) xs"
  using holds_append [of m p "[x]" xs] by (simp add: holds_def bytes_def)

lemma holds_nth: "holds m p bs \<Longrightarrow> i < length bs \<Longrightarrow> m (p + of_nat i) = bs ! i"
  by (metis holds_def nth_bytes)

lemma length_be32 [simp]: "length (be32 w) = 4"
  by (simp add: be32_def)

lemma unat_byte: "unat (ucast (drop_bit k (w :: u32)) :: u8) = unat w div 2 ^ k mod 256"
  by (simp add: unat_ucast_mod unat_drop_bit)

lemma holds_be32:
  assumes "holds m p (be32 w)"
  shows "BE2LE (ld32 m p) = w"
proof -
  have b: "m p = ucast (drop_bit 24 w)" "m (p + 1) = ucast (drop_bit 16 w)"
    "m (p + 2) = ucast (drop_bit 8 w)" "m (p + 3) = ucast w"
    using assms by (simp_all add: be32_def holds_Cons add.assoc)
  define n where "n = unat w"
  have n: "n < 2 ^ 32" using unat_lt_32 [of w] by (simp add: n_def)
  have "unat (BE2LE (ld32 m p)) =
      n div 2 ^ 24 mod 256 * 2 ^ 24 + n div 2 ^ 16 mod 256 * 2 ^ 16 + n div 2 ^ 8 mod 256 * 2 ^ 8 + n mod 256"
    unfolding unat_BE2LE_ld32 b unat_byte using unat_byte [of 0 w] by (simp add: n_def)
  also have "\<dots> = n"
  proof -
    define a where "a = n div 256"
    define c where "c = a div 256"
    define d where "d = c div 256"
    have "n = a * 256 + n mod 256" "a = c * 256 + a mod 256" "c = d * 256 + c mod 256"
      by (simp_all add: a_def c_def d_def)
    moreover have "d < 256" using n by (simp add: a_def c_def d_def less_mult_imp_div_less flip: div_mult2_eq)
    moreover have "n div 2 ^ 8 = a" "n div 2 ^ 16 = c" "n div 2 ^ 24 = d"
      by (simp_all add: a_def c_def d_def flip: div_mult2_eq)
    ultimately show ?thesis by simp
  qed
  finally show ?thesis unfolding n_def by (rule unsigned_word_eqI)
qed

section \<open>Unit names\<close>

lemma skip_at_finds:
  assumes "holds m p cs" "\<forall>c\<in>set cs. c \<noteq> 64 \<and> c \<noteq> 0" "m (p + of_nat (length cs)) = 64 \<or> m (p + of_nat (length cs)) = 0"
  shows "skip_at m p = Some (p + of_nat (length cs))"
  using assms
proof (induction cs arbitrary: p)
  case Nil
  then show ?case by (subst skip_at.simps) auto
next
  case (Cons c cs)
  then have "skip_at m (p + 1) = Some (p + of_nat (length (c # cs)))"
    using Cons.IH [of "p + 1"] by (simp add: holds_Cons add.assoc)
  with Cons.prems show ?case by (subst skip_at.simps) (simp add: holds_Cons)
qed

text \<open>One hexadecimal digit, as the loop adds it.\<close>

lemma unit_loop_digit:
  assumes "hex_val (m p) = Some d"
  shows "unit_loop m p addr = unit_loop m (p + 1) (16 * addr + of_nat d)"
proof -
  have u: "ucast (m p) = (of_nat (unat (m p)) :: u64)" by simp
  have nz: "m p \<noteq> 0" using assms by (auto simp: hex_val_def)
  consider "48 \<le> m p" "m p \<le> 57" "d = unat (m p) - 48"
    | "97 \<le> m p" "m p \<le> 102" "d = unat (m p) - 87"
    | "65 \<le> m p" "m p \<le> 70" "d = unat (m p) - 55"
    using assms by (auto simp: hex_val_def split: if_splits)
  then show ?thesis
  proof cases
    case 1
    then have "ucast (m p) - 48 = (of_nat d :: u64)"
      unfolding u by (simp add: word_le_nat_alt of_nat_diff)
    with 1 nz show ?thesis by (subst unit_loop.simps) (simp add: push_bit_eq_mult mult.commute)
  next
    case 2
    then have "ucast (m p) - 97 + 10 = (of_nat d :: u64)" "\<not> m p \<le> 57"
      unfolding u by (simp_all add: word_le_nat_alt of_nat_diff)
    with 2 nz show ?thesis by (subst unit_loop.simps) (simp add: push_bit_eq_mult mult.commute)
  next
    case 3
    then have "ucast (m p) - 65 + 10 = (of_nat d :: u64)" "\<not> m p \<le> 57" "\<not> 97 \<le> m p"
      unfolding u by (simp_all add: word_le_nat_alt of_nat_diff)
    with 3 nz show ?thesis by (subst unit_loop.simps) (simp add: push_bit_eq_mult mult.commute)
  qed
qed

lemma unit_loop_digits:
  assumes "holds m p cs" "\<forall>c\<in>set cs. is_hex c"
  shows "unit_loop m p addr =
    unit_loop m (p + of_nat (length cs)) (addr * 16 ^ length cs + of_nat (hex_num cs))"
  using assms
proof (induction cs arbitrary: p addr)
  case (Cons c cs)
  then obtain d where d: "hex_val c = Some d" "m p = c" by (auto simp: is_hex_def holds_Cons)
  have "unit_loop m p addr = unit_loop m (p + 1) (16 * addr + of_nat d)"
    using d by (intro unit_loop_digit) simp
  also have "\<dots> = unit_loop m (p + 1 + of_nat (length cs))
      ((16 * addr + of_nat d) * 16 ^ length cs + of_nat (hex_num cs))"
    using Cons by (intro Cons.IH) (simp_all add: holds_Cons)
  finally show ?case by (simp add: hex_num_Cons d algebra_simps)
qed simp

lemma unit_loop_ends: "m p = 0 \<Longrightarrow> unit_loop m p addr = Some addr"
  by (subst unit_loop.simps) simp

lemma unit_loop_stops: "m p \<noteq> 0 \<Longrightarrow> \<not> is_hex (m p) \<Longrightarrow> unit_loop m p addr = Some (16 * addr)"
  by (subst unit_loop.simps) (auto simp: is_hex_def hex_val_def push_bit_eq_mult mult.commute split: if_splits)

text \<open>The byte after a name without an at sign is read too: it must be 0 for the address to be 0.\<close>

lemma parse_dtb_unit_name_ok:
  assumes h: "holds m p (name @ [0])" and ok: "name_ok name" and z: "m (p + of_nat (length name) + 1) = 0"
  shows "parse_dtb_unit_name m p = Some (unit_address name)"
proof (cases "64 \<in> set name")
  case False
  have "skip_at m p = Some (p + of_nat (length name))"
    using h ok False by (intro skip_at_finds) (auto simp: holds_append name_ok_def holds_Cons)
  moreover have "dropWhile (\<lambda>c. c \<noteq> 64) name = []" using False by (auto simp: dropWhile_eq_Nil_conv)
  then have "unit_address name = 0" unfolding unit_address_def by (simp only: drop_Nil hex_num_Nil) simp
  ultimately show ?thesis using z by (simp add: parse_dtb_unit_name_def unit_loop_ends)
next
  case True
  define pre where "pre = takeWhile (\<lambda>c. c \<noteq> 64) name"
  define hx where "hx = drop 1 (dropWhile (\<lambda>c. c \<noteq> 64) name)"
  have dw: "dropWhile (\<lambda>c. c \<noteq> 64) name = 64 # hx"
    using True hd_dropWhile [of "\<lambda>c. c \<noteq> 64" name] unfolding hx_def
    by (cases "dropWhile (\<lambda>c. c \<noteq> 64) name") (auto simp: dropWhile_eq_Nil_conv)
  have name: "name = pre @ 64 # hx" unfolding pre_def dw [symmetric] by simp
  have "c \<noteq> 64 \<and> c \<in> set name" if "c \<in> set pre" for c
    using set_takeWhileD [OF that [unfolded pre_def]] by simp
  then have "\<forall>c\<in>set pre. c \<noteq> 64 \<and> c \<noteq> 0" using ok unfolding name_ok_def by blast
  moreover have hs: "holds m p pre" "m (p + of_nat (length pre)) = 64"
    "holds m (p + of_nat (length pre) + 1) hx" "m (p + of_nat (length pre) + 1 + of_nat (length hx)) = 0"
    using h by (simp_all add: name holds_append holds_Cons add.assoc)
  ultimately have "skip_at m p = Some (p + of_nat (length pre))" by (intro skip_at_finds) simp_all
  then have "parse_dtb_unit_name m p = unit_loop m (p + of_nat (length pre) + 1) 0"
    by (simp add: parse_dtb_unit_name_def)
  also have "\<dots> = unit_loop m (p + of_nat (length pre) + 1 + of_nat (length hx)) (of_nat (hex_num hx))"
    using unit_loop_digits [OF hs(3), of 0] ok [unfolded name_ok_def, folded hx_def] by simp
  also have "\<dots> = Some (of_nat (hex_num hx))" using hs(4) by (rule unit_loop_ends)
  finally show ?thesis by (simp add: unit_address_def hx_def)
qed

section \<open>The traversal of an encoded block\<close>

lemma length_pad4: "length (pad4 n) = (4 - n mod 4) mod 4" "(n + length (pad4 n)) mod 4 = 0"
  by (simp_all add: pad4_def align_up_mod)

lemma align4:
  assumes "unat p mod 4 = n mod 4"
  shows "ucast (align_mem_offset p 4) = (of_nat (length (pad4 n)) :: u64)"
proof -
  have "unat (align_mem_offset p 4) = length (pad4 n)"
    using assms by (simp add: unat_align_mem_offset length_pad4(1))
  then show ?thesis by (metis of_nat_unat)
qed

lemma token_length: "length (fdt_token_bytes t) mod 4 = 0" "4 \<le> length (fdt_token_bytes t)"
proof -
  have p: "4 dvd n + length (pad4 n)" for n using length_pad4(2) [of n] by (rule mod_0_imp_dvd)
  have "4 dvd length (fdt_token_bytes t)"
  proof (cases t)
    case (Begin_node name)
    have "length (fdt_token_bytes t) = 4 + (length name + 1 + length (pad4 (length name + 1)))"
      by (simp add: Begin_node)
    then show ?thesis using p [of "length name + 1"] by (simp only: dvd_add_right_iff dvd_refl)
  next
    case (Prop off v)
    have "length (fdt_token_bytes t) = 4 * 3 + (length v + length (pad4 (length v)))" by (simp add: Prop)
    then show ?thesis using p [of "length v"] by (simp only: dvd_add_right_iff dvd_triv_left)
  qed simp_all
  then show "length (fdt_token_bytes t) mod 4 = 0" by simp
  show "4 \<le> length (fdt_token_bytes t)" by (cases t) simp_all
qed

text \<open>Every token starts with a zero byte, which is what follows an unpadded name.\<close>

lemma token_zero: "fdt_token_bytes t = 0 # tl (fdt_token_bytes t)"
  by (cases t) (simp_all add: be32_def)

lemma string_len_name:
  assumes "holds m p (name @ [0])" "name_ok name"
  shows "string_len m p = Some (length name)"
  unfolding string_len_iff
proof (intro conjI allI impI)
  show "is_term (m (p + of_nat (length name)))"
    using assms(1) by (simp add: holds_append holds_Cons is_term_def)
  fix j
  assume "j < length name"
  moreover have "holds m p name" using assms(1) by (simp add: holds_append)
  ultimately have "m (p + of_nat j) \<in> set name" by (simp add: holds_nth)
  then show "\<not> is_term (m (p + of_nat j))" using assms(2) unfolding is_term_def name_ok_def by metis
qed

lemma fdt_loop_Begin:
  assumes h: "holds m p (fdt_token_bytes (Begin_node name))" and ok: "name_ok name" and lt: "p < fin"
    and al: "unat p mod 4 = 0" and z: "m (p + of_nat (length (fdt_token_bytes (Begin_node name)))) = 0"
    and nw: "unat p + length (fdt_token_bytes (Begin_node name)) < 2 ^ 64"
  shows "fdt_loop m cb fin p addr =
    fdt_loop m cb fin (p + of_nat (length (fdt_token_bytes (Begin_node name)))) (unit_address name)"
proof -
  define n where "n = length name"
  have hs: "holds m p (be32 1)" "holds m (p + 4) (name @ [0])" "holds m (p + 4 + of_nat n + 1) (pad4 (n + 1))"
    using h by (simp_all add: holds_append holds_Cons n_def add.assoc)
  have tok: "BE2LE (ld32 m p) = 1" by (rule holds_be32 [OF hs(1)])
  have q: "unat (p + 4 + of_nat n + 1) = unat p + 5 + n"
    using unat_offset [of p "5 + n"] nw by (simp add: n_def algebra_simps)
  have a: "ucast (align_mem_offset (p + 4 + of_nat n + 1) 4) = (of_nat (length (pad4 (n + 1))) :: u64)"
    by (rule align4, unfold q) (use al in presburger)
  have z: "m (p + 4 + of_nat n + 1) = 0"
  proof (cases "pad4 (n + 1)")
    case Nil
    then show ?thesis using z by (simp add: n_def add.assoc)
  next
    case (Cons b bs)
    then have "b = 0" by (metis in_set_replicate list.set_intros(1) pad4_def)
    with Cons hs(3) show ?thesis by (simp add: holds_Cons)
  qed
  have u: "parse_dtb_unit_name m (p + 4) = Some (unit_address name)"
    by (rule parse_dtb_unit_name_ok [OF hs(2) ok]) (use z in \<open>simp add: n_def\<close>)
  have len: "ucast (of_nat n :: u32) = (of_nat n :: u64)"
    using ok by (intro ucast_of_nat_32) (simp add: n_def name_ok_def)
  have "fdt_loop m cb fin p addr = fdt_loop m cb fin
      (p + 4 + of_nat n + 1 + of_nat (length (pad4 (n + 1)))) (unit_address name)"
    using lt string_len_name [OF hs(2) ok] a
    by (subst fdt_loop.simps) (simp add: tok fdt_tokens u Let_def len flip: n_def)
  then show ?thesis by (simp add: n_def add.assoc)
qed

lemma fdt_loop_Prop:
  assumes h: "holds m p (fdt_token_bytes (Prop off v))" and v: "length v < 2 ^ 31" and lt: "p < fin"
    and al: "unat p mod 4 = 0"
    and nw: "unat p + length (fdt_token_bytes (Prop off v)) < 2 ^ 64"
    and rest: "fdt_loop m cb fin (p + of_nat (length (fdt_token_bytes (Prop off v)))) addr = Some cs"
  shows "fdt_loop m cb fin p addr = Some ((if v = [] then []
      else [\<lparr>node_addr = addr, string_addr = p + 12, prop_len = of_nat (length v),
             ret = cb (p + 12) (of_nat (length v))\<rparr>]) @ cs)"
proof -
  define n where "n = length v"
  have hs: "holds m p (be32 3)" "holds m (p + 4) (be32 (of_nat n))"
    using h by (simp_all add: holds_append n_def)
  have tok: "BE2LE (ld32 m p) = 3" "BE2LE (ld32 m (p + 4)) = of_nat n"
    by (rule holds_be32 [OF hs(1)], rule holds_be32 [OF hs(2)])
  have un: "unat (of_nat n :: u32) = n" using v by (intro unat_of_nat_lt) (simp add: n_def)
  then have len: "ucast (of_nat n :: u32) = (of_nat n :: u64)" by (metis of_nat_unat)
  have q: "unat (p + 12 + of_nat n) = unat p + 12 + n"
    using unat_offset [of p "12 + n"] nw by (simp add: n_def algebra_simps)
  have a: "ucast (align_mem_offset (p + 12 + of_nat n) 4) = (of_nat (length (pad4 n)) :: u64)"
    by (rule align4, unfold q) (use al in presburger)
  have pos: "(0 :: u32) < of_nat n \<longleftrightarrow> v \<noteq> []" using un by (simp add: word_less_nat_alt n_def)
  have "p + of_nat (length (fdt_token_bytes (Prop off v))) = p + 12 + of_nat n + of_nat (length (pad4 n))"
    by (simp add: n_def add.assoc)
  note rest = rest [unfolded this]
  show ?thesis
  proof (cases "v = []")
    case True
    then have "n = 0" by (simp add: n_def)
    with True rest a lt show ?thesis
      by (subst fdt_loop.simps) (simp add: tok fdt_tokens Let_def add.assoc)
  next
    case False
    with rest a lt pos show ?thesis
      unfolding n_def [symmetric] by (subst fdt_loop.simps) (simp add: tok fdt_tokens Let_def add.assoc len)
  qed
qed

lemma fdt_loop_plain:
  assumes "holds m p (fdt_token_bytes t)" "t = End_node \<or> t = Nop \<or> t = End" "p < fin"
  shows "fdt_loop m cb fin p addr = fdt_loop m cb fin (p + 4) addr"
proof -
  have "BE2LE (ld32 m p) = (case t of End_node \<Rightarrow> 2 | Nop \<Rightarrow> 4 | _ \<Rightarrow> 9)"
    using assms(1,2) by (intro holds_be32) auto
  with assms(2,3) show ?thesis by (subst fdt_loop.simps) (auto simp: fdt_tokens Let_def)
qed

lemma fdt_loop_encoded:
  assumes "holds m p (fdt_encode ts)" "tokens_ok ts" "unat p mod 4 = 0"
    and "fin = p + of_nat (length (fdt_encode ts))" "unat p + length (fdt_encode ts) < 2 ^ 64"
  shows "fdt_loop m cb fin p addr = Some (fdt_calls cb p addr ts)"
  using assms
proof (induction ts arbitrary: p addr)
  case Nil
  then show ?case by (subst fdt_loop.simps) (simp add: fdt_encode_def)
next
  case (Cons t ts)
  define n where "n = length (fdt_token_bytes t)"
  define k where "k = length (fdt_encode ts)"
  have enc: "fdt_encode (t # ts) = fdt_token_bytes t @ fdt_encode ts" by (simp add: fdt_encode_def)
  have hs: "holds m p (fdt_token_bytes t)" "holds m (p + of_nat n) (fdt_encode ts)"
    using Cons.prems(1) unfolding enc by (simp_all add: holds_append n_def)
  have n: "n mod 4 = 0" "4 \<le> n" unfolding n_def by (rule token_length)+
  have bound: "unat p + n + k < 2 ^ 64" using Cons.prems(5) unfolding enc by (simp add: n_def k_def)
  have up: "unat (p + of_nat n) = unat p + n" using bound by (intro unat_offset) simp
  have fin: "fin = p + of_nat n + of_nat k"
    using Cons.prems(4) unfolding enc by (simp add: n_def k_def add.assoc)
  have "unat fin = unat p + n + k" using unat_offset [of p "n + k"] bound by (simp add: fin add.assoc)
  then have lt: "p < fin" using n(2) by (simp add: word_less_nat_alt)
  have al: "unat (p + of_nat n) mod 4 = 0" unfolding up using n(1) Cons.prems(3) by (simp add: mod_add_eq [symmetric])
  have tok: "tokens_ok ts" using Cons.prems(2) by (cases t) auto
  have IH: "fdt_loop m cb fin (p + of_nat n) a = Some (fdt_calls cb (p + of_nat n) a ts)" for a
    using Cons.IH [OF hs(2) tok al] fin bound unfolding up k_def by simp
  have nw: "unat p + length (fdt_token_bytes t) < 2 ^ 64" using bound by (simp add: n_def)
  show ?case
  proof (cases t)
    case (Begin_node name)
    have nm: "name_ok name" "ts \<noteq> []" using Cons.prems(2) by (simp_all add: Begin_node)
    obtain u us where "ts = u # us" using nm(2) by (cases ts) auto
    moreover obtain bs where "fdt_token_bytes u = 0 # bs" using token_zero by blast
    ultimately have "fdt_encode ts = 0 # bs @ fdt_encode us" by (simp add: fdt_encode_def)
    then have z: "m (p + of_nat n) = 0" using hs(2) by (metis holds_Cons)
    show ?thesis
      using fdt_loop_Begin [OF hs(1) [unfolded Begin_node] nm(1) lt Cons.prems(3)] z nw IH
      by (simp add: Begin_node Let_def n_def)
  next
    case (Prop off v)
    have v: "length v < 2 ^ 31" using Cons.prems(2) by (simp add: Prop)
    show ?thesis
      using fdt_loop_Prop [OF hs(1) [unfolded Prop] v lt Cons.prems(3) nw [unfolded Prop] IH [unfolded n_def Prop]]
      by (simp add: Prop Let_def)
  qed (use fdt_loop_plain [OF hs(1) _ lt] IH in \<open>simp_all add: n_def Let_def\<close>)
qed

text \<open>A well-formed blob in memory. It stays one as long as its header and its structure block are not
  written.\<close>

definition fdt_at :: "memory \<Rightarrow> u64 \<Rightarrow> u32 \<Rightarrow> fdt_token list \<Rightarrow> bool" where
  "fdt_at m dtb off ts \<longleftrightarrow> holds m dtb (be32 0xd00dfeed) \<and> holds m (dtb + 8) (be32 off) \<and>
     holds m (dtb + 36) (be32 (of_nat (length (fdt_encode ts)))) \<and> length (fdt_encode ts) < 2 ^ 32 \<and>
     holds m (dtb + ucast off) (fdt_encode ts) \<and> tokens_ok ts \<and> unat (dtb + ucast off) mod 4 = 0 \<and>
     unat (dtb + ucast off) + length (fdt_encode ts) < 2 ^ 64"

definition in_fdt :: "u64 \<Rightarrow> u32 \<Rightarrow> fdt_token list \<Rightarrow> u64 \<Rightarrow> bool" where
  "in_fdt dtb off ts y \<longleftrightarrow> in_rng dtb 40 y \<or> in_rng (dtb + ucast off) (length (fdt_encode ts)) y"

lemma holds_cong:
  "holds m p bs \<Longrightarrow> (\<And>y. in_rng p (length bs) y \<Longrightarrow> m' y = m y) \<Longrightarrow> length bs \<le> 2 ^ 64 \<Longrightarrow> holds m' p bs"
  unfolding holds_def by (metis bytes_cong)

lemma fdt_at_cong:
  assumes at: "fdt_at m dtb off ts" and same: "\<And>y. in_fdt dtb off ts y \<Longrightarrow> m' y = m y"
  shows "fdt_at m' dtb off ts"
proof -
  have "m' y = m y" if "in_rng (dtb + of_nat k) 4 y" "k + 4 \<le> 40" for k y
    using that in_rng_sub [of dtb k 4 y 40] by (intro same) (simp add: in_fdt_def)
  from this [of 0] this [of 8] this [of 36] same at show ?thesis
    unfolding fdt_at_def by (auto simp: in_fdt_def intro!: holds_cong [of m])
qed

lemma fdt_at_traverse:
  assumes "fdt_at m dtb off ts"
  shows "fdt_traverse m dtb cb = Some (fdt_calls cb (dtb + ucast off) 0 ts)"
proof -
  have "BE2LE (fdt_magic m dtb) = 0xd00dfeed" "BE2LE (off_dt_struct m dtb) = off"
    "BE2LE (size_dt_struct m dtb) = of_nat (length (fdt_encode ts))"
    using assms by (simp_all add: fdt_at_def fdt_magic_def off_dt_struct_def size_dt_struct_def holds_be32)
  moreover have "ucast (of_nat (length (fdt_encode ts)) :: u32) = (of_nat (length (fdt_encode ts)) :: u64)"
    using assms by (intro ucast_of_nat_32) (simp add: fdt_at_def)
  ultimately show ?thesis
    using fdt_loop_encoded [of m "dtb + ucast off" ts] assms by (simp add: fdt_traverse_def Let_def fdt_at_def)
qed

section \<open>Properties\<close>

text \<open>
  C12. The traversal of a well-formed blob returns and makes exactly the calls its structure block
  asks for, in order: one per property with a value, with the address and the length of the value
  and the unit address of the node opened last. The structure block is the encoding of a token
  sequence, lies 4-byte aligned below the end of the address space and has the magic number,
  offset and size of the header.
\<close>

theorem fdt_traverse_visits_properties:
  assumes "holds m dtb (be32 0xd00dfeed)" "holds m (dtb + 8) (be32 off)"
    and "holds m (dtb + 36) (be32 (of_nat (length (fdt_encode ts))))" "length (fdt_encode ts) < 2 ^ 32"
    and "holds m (dtb + ucast off) (fdt_encode ts)" "tokens_ok ts" "unat (dtb + ucast off) mod 4 = 0"
    and "unat (dtb + ucast off) + length (fdt_encode ts) < 2 ^ 64"
  shows "fdt_traverse m dtb cb = Some (fdt_calls cb (dtb + ucast off) 0 ts)"
  using assms by (intro fdt_at_traverse) (simp add: fdt_at_def)

text \<open>A blob with one node and one property.\<close>

definition one_node :: "fdt_token list" where
  "one_node = [Begin_node (lit ''uart@10000000''), Prop 0 (lit ''ns16550a'' @ [0]), End_node, End]"

definition fdt_blob :: "fdt_token list \<Rightarrow> u8 list" where
  "fdt_blob ts = be32 0xd00dfeed @ be32 0 @ be32 40 @ replicate 24 0 @
     be32 (of_nat (length (fdt_encode ts))) @ fdt_encode ts"

lemma holds_blob:
  assumes "holds m dtb (fdt_blob ts)"
  shows "holds m dtb (be32 0xd00dfeed)" "holds m (dtb + 8) (be32 40)"
    "holds m (dtb + 36) (be32 (of_nat (length (fdt_encode ts))))" "holds m (dtb + 40) (fdt_encode ts)"
  using assms by (simp_all add: fdt_blob_def holds_append add.assoc)

lemma holds_mem_of: "length bs \<le> 2 ^ 64 \<Longrightarrow> holds (mem_of base bs) base bs"
  by (simp add: holds_def bytes_mem_of)

theorem fdt_traverse_visits_properties_witness:
  "fdt_traverse (mem_of 0x82200000 (fdt_blob one_node)) 0x82200000 (\<lambda>_ _. 1) =
    Some [\<lparr>node_addr = 0x10000000, string_addr = 0x82200048, prop_len = 9, ret = 1\<rparr>]"
proof -
  let ?m = "mem_of 0x82200000 (fdt_blob one_node)"
  have len: "length (fdt_encode one_node) = 52"
    by (simp add: fdt_encode_def one_node_def pad4_def)
  then have h: "holds ?m 0x82200000 (fdt_blob one_node)"
    by (intro holds_mem_of) (simp add: fdt_blob_def)
  note b = holds_blob [OF h]
  have ok: "tokens_ok one_node"
    by (simp add: one_node_def name_ok_def is_hex_def hex_val_def)
  have "unit_address (lit ''uart@10000000'') = 0x10000000"
    by (simp add: unit_address_def hex_num_def hex_val_def)
  then have "fdt_calls (\<lambda>_ _. 1) (0x82200000 + ucast (40 :: u32)) 0 one_node =
      [\<lparr>node_addr = 0x10000000, string_addr = 0x82200048, prop_len = 9, ret = 1\<rparr>]"
    by (simp add: one_node_def Let_def pad4_def)
  then show ?thesis
    using fdt_traverse_visits_properties [OF b(1,2,3), of "\<lambda>_ _. 1"] b(4) ok len by simp
qed

text \<open>
  The unit address of a node name is the hexadecimal number after the at sign only when the
  digits run to the end of the name: when another character follows (as in \<^verbatim>\<open>cpu@1,0\<close>) the
  loop has already shifted its accumulator before it stops, and the result is sixteen times the
  number.
\<close>

theorem unit_name_trailing_shift:
  assumes "holds m p (pre @ 64 # hx @ [c])" "64 \<notin> set pre" "0 \<notin> set pre" "\<forall>d\<in>set hx. is_hex d"
    and "\<not> is_hex c"
  shows "parse_dtb_unit_name m p =
    Some (if c = 0 then of_nat (hex_num hx) else 16 * of_nat (hex_num hx))"
proof -
  have hs: "holds m p pre" "m (p + of_nat (length pre)) = 64"
    "holds m (p + of_nat (length pre) + 1) hx" "m (p + of_nat (length pre) + 1 + of_nat (length hx)) = c"
    using assms(1) by (simp_all add: holds_append holds_Cons add.assoc)
  have "skip_at m p = Some (p + of_nat (length pre))"
    using hs(1,2) assms(2,3) by (intro skip_at_finds) auto
  then have "parse_dtb_unit_name m p =
      unit_loop m (p + of_nat (length pre) + 1 + of_nat (length hx)) (of_nat (hex_num hx))"
    using unit_loop_digits [OF hs(3) assms(4), of 0] by (simp add: parse_dtb_unit_name_def)
  then show ?thesis using hs(4) unit_loop_ends [of m] unit_loop_stops [of m] assms(5) by simp
qed

theorem unit_name_trailing_shift_witness:
  "parse_dtb_unit_name (mem_of 0x1000 (lit ''cpu@1,0'')) 0x1000 = Some 0x10"
proof -
  let ?m = "mem_of 0x1000 (lit ''cpu@1,0'')"
  have "holds ?m 0x1000 (lit ''cpu@1,0'')" by (rule holds_mem_of) simp
  moreover have "lit ''cpu@1,0'' = (lit ''cpu'' @ 64 # lit ''1'' @ [of_char CHR '','']) @ lit ''0''" by simp
  ultimately have "holds ?m 0x1000 (lit ''cpu'' @ 64 # lit ''1'' @ [of_char CHR '',''])"
    by (metis holds_append)
  from unit_name_trailing_shift [OF this] show ?thesis
    by (simp add: is_hex_def hex_val_def hex_num_def)
qed

text \<open>
  \<open>dtb_callback\<close> compares the first \<open>prop_len\<close> bytes only: given its two literals in memory it
  answers 1 for a property that is the string \<^verbatim>\<open>ns16550a\<close> or a prefix of it, 2 for
  \<^verbatim>\<open>virtio,mmio\<close> or a nonempty prefix, terminators included, and 0 for every other property no
  longer than the literals.
\<close>

theorem dtb_callback_matches:
  assumes lits: "holds m l1 (lit ''ns16550a'' @ [0])" "holds m l2 (lit ''virtio,mmio'' @ [0])"
    and n: "0 < unat n" "unat n \<le> 9"
  shows "dtb_callback l1 l2 m p n =
    (if bytes m p (unat n) = take (unat n) (lit ''ns16550a'' @ [0]) then 1
     else if bytes m p (unat n) = take (unat n) (lit ''virtio,mmio'' @ [0]) then 2 else 0)"
proof -
  have s: "nat (sint n) = unat n"
  proof -
    have u: "0 \<le> uint n" "uint n \<le> 9" using n(2) by (simp, metis of_nat_le_iff of_nat_numeral uint_nat)
    moreover have "signed_take_bit 31 k = k" if "0 \<le> k" "k \<le> 9" for k :: int
      using that by (intro signed_take_bit_int_eq_self) simp_all
    ultimately have "sint n = uint n" unfolding sint_uint by simp
    then show ?thesis by simp
  qed
  have tk: "bytes m l (unat n) = take (unat n) bs" if "holds m l bs" "unat n \<le> length bs" for l bs
  proof -
    have "bytes m l (unat n + (length bs - unat n)) = bs" using that by (simp add: holds_def)
    then show ?thesis unfolding bytes_append by (metis append_eq_conv_conj length_bytes)
  qed
  have "bytes m l1 (unat n) = take (unat n) (lit ''ns16550a'' @ [0])"
    "bytes m l2 (unat n) = take (unat n) (lit ''virtio,mmio'' @ [0])"
    using n(2) by (intro tk lits; simp)+
  then show ?thesis by (simp only: dtb_callback_def string_comp_l_0_iff s)
qed

theorem dtb_callback_matches_witness:
  "dtb_callback 0x1000 0x1009 (mem_of 0x1000 ((lit ''ns16550a'' @ [0]) @ (lit ''virtio,mmio'' @ [0]))) 0x1009 9 = 2"
proof -
  define m where "m = mem_of 0x1000 ((lit ''ns16550a'' @ [0]) @ (lit ''virtio,mmio'' @ [0]))"
  have "holds m 0x1000 ((lit ''ns16550a'' @ [0]) @ (lit ''virtio,mmio'' @ [0]))"
    unfolding m_def by (rule holds_mem_of) simp
  then have l: "holds m 0x1000 (lit ''ns16550a'' @ [0])"
    and "holds m (0x1000 + of_nat (length (lit ''ns16550a'' @ [0]))) (lit ''virtio,mmio'' @ [0])"
    unfolding holds_append [of _ _ "lit ''ns16550a'' @ [0]"] by (rule conjunct1, rule conjunct2)
  then have l2: "holds m 0x1009 (lit ''virtio,mmio'' @ [0])" by simp
  have "bytes m 0x1009 9 = lit ''virtio,mm''"
    by (simp add: bytes_def m_def mem_of_def upt_rec)
  then have "bytes m 0x1009 (unat (9 :: u32)) = take (unat (9 :: u32)) (lit ''virtio,mmio'' @ [0])"
    "bytes m 0x1009 (unat (9 :: u32)) \<noteq> take (unat (9 :: u32)) (lit ''ns16550a'' @ [0])" by simp_all
  with dtb_callback_matches [OF l l2, of 9 "0x1009"] show ?thesis unfolding m_def by simp
qed

end
