(* ===== verification/Process.thy ===== *)
theory Process
  imports Page_Alloc Uart
begin

text \<open>
  \<^verbatim>\<open>src/src/kernel/process.c\<close> and the context switch of \<^verbatim>\<open>src/src/asm/process.S\<close>: the process
  table, process creation, \<open>yield\<close>, and the round-robin scheduler.

  The callee-saved registers of the hart are a \<open>context\<close> of the state, \<open>cpu\<close>; \<open>swtch\<close> stores
  them in one saved context and loads another, and execution goes on at the loaded return
  address. The three return addresses that occur are link-time constants and are
  given as a record \<open>code\<close>. Control is a location \<open>loc\<close>; the scheduler loop, the
  process code and the switches between them are the step relation \<open>kstep\<close>. A process is
  arbitrary code that leaves the process table alone, may yield at any point (by a call or
  because the timer interrupted it) and may return from its entry function. The interleaving of a
  timer interrupt with the scheduler's own critical section is in \<open>Preempt\<close>.
\<close>

section \<open>Data\<close>

datatype proc_state = PROC_UNUSED | PROC_RUNNABLE | PROC_RUNNING | PROC_ZOMBIE

record context_t =
  reg_ra :: u64
  reg_sp :: u64
  reg_s0 :: u64
  reg_s1 :: u64
  reg_s2 :: u64
  reg_s3 :: u64
  reg_s4 :: u64
  reg_s5 :: u64
  reg_s6 :: u64
  reg_s7 :: u64
  reg_s8 :: u64
  reg_s9 :: u64
  reg_s10 :: u64
  reg_s11 :: u64

record process =
  pid :: u32
  state :: proc_state
  stack :: u64
  saved :: context_t
  entry_fn :: u64
  pname :: "u8 list"

definition NPROC :: nat where "NPROC = 16"
definition STACK_SIZE :: u32 where "STACK_SIZE = 4096"

record kernel = alloc +
  procs :: "process list"
  current_process :: "nat option"
  sched_context :: context_t
  cpu :: context_t

record code =
  forkret_pc :: u64
  sched_pc :: u64
  yield_pc :: u64

definition zero_context :: context_t where
  "zero_context = \<lparr>reg_ra = 0, reg_sp = 0, reg_s0 = 0, reg_s1 = 0, reg_s2 = 0, reg_s3 = 0, reg_s4 = 0,
     reg_s5 = 0, reg_s6 = 0, reg_s7 = 0, reg_s8 = 0, reg_s9 = 0, reg_s10 = 0, reg_s11 = 0\<rparr>"

section \<open>Operations\<close>

definition proc_at :: "'a kernel_scheme \<Rightarrow> nat \<Rightarrow> process" where
  "proc_at s i = procs s ! i"

definition set_proc :: "nat \<Rightarrow> (process \<Rightarrow> process) \<Rightarrow> 'a kernel_scheme \<Rightarrow> 'a kernel_scheme" where
  "set_proc i f s = s\<lparr>procs := (procs s)[i := f (procs s ! i)]\<rparr>"

text \<open>The two kinds of saved context \<^verbatim>\<open>swtch\<close> is called with.\<close>

datatype ctx_ref = Sched_ctx | Proc_ctx nat

definition ctx_load :: "ctx_ref \<Rightarrow> 'a kernel_scheme \<Rightarrow> context_t" where
  "ctx_load r s = (case r of Sched_ctx \<Rightarrow> sched_context s | Proc_ctx i \<Rightarrow> saved (proc_at s i))"

definition ctx_store :: "ctx_ref \<Rightarrow> context_t \<Rightarrow> 'a kernel_scheme \<Rightarrow> 'a kernel_scheme" where
  "ctx_store r c s =
     (case r of Sched_ctx \<Rightarrow> s\<lparr>sched_context := c\<rparr> | Proc_ctx i \<Rightarrow> set_proc i (saved_update (\<lambda>_. c)) s)"

definition swtch :: "ctx_ref \<Rightarrow> ctx_ref \<Rightarrow> 'a kernel_scheme \<Rightarrow> 'a kernel_scheme" where
  "swtch old new s = (let s = ctx_store old (cpu s) s in s\<lparr>cpu := ctx_load new s\<rparr>)"

text \<open>The call instruction leaves the address after it in \<^verbatim>\<open>ra\<close>.\<close>

definition call_swtch :: "u64 \<Rightarrow> ctx_ref \<Rightarrow> ctx_ref \<Rightarrow> 'a kernel_scheme \<Rightarrow> 'a kernel_scheme" where
  "call_swtch pc old new s = swtch old new (s\<lparr>cpu := (cpu s)\<lparr>reg_ra := pc\<rparr>\<rparr>)"

definition proc_init :: "'a kernel_scheme \<Rightarrow> 'a kernel_scheme" where
  "proc_init s = s\<lparr>procs := map (\<lambda>p. p\<lparr>pid := 0, state := PROC_UNUSED, stack := 0, entry_fn := 0,
       pname := (pname p)[0 := 0], saved := zero_context\<rparr>) (procs s),
     current_process := None, sched_context := zero_context\<rparr>"

function find_unused :: "process list \<Rightarrow> nat \<Rightarrow> nat option" where
  "find_unused ps i =
     (if i < NPROC then if state (ps ! i) = PROC_UNUSED then Some i else find_unused ps (Suc i)
      else None)"
  by pat_completeness auto
termination
  by (relation "measure (\<lambda>(ps, i). NPROC - i)") auto

declare find_unused.simps [simp del]

text \<open>The name is a NUL-terminated string; the list is the bytes from the pointer on, the
  terminator being a zero byte or the end of the list.\<close>

function copy_name :: "u8 list \<Rightarrow> nat \<Rightarrow> u8 list \<Rightarrow> u8 list" where
  "copy_name name len buf =
     (if len < length name \<and> name ! len \<noteq> 0 \<and> len < 15
      then copy_name name (Suc len) (buf[len := name ! len])
      else buf[len := 0])"
  by pat_completeness auto
termination
  by (relation "measure (\<lambda>(name, len, buf). 15 - len)") auto

declare copy_name.simps [simp del]

definition msg_no_slots :: "u8 list" where
  "msg_no_slots = lit (''proc_create: no free process slots.'' @ [CHR 0x0A])"

definition msg_no_stack :: "u8 list" where
  "msg_no_stack = lit (''proc_create: failed to allocate stack.'' @ [CHR 0x0A])"

definition proc_create ::
  "code \<Rightarrow> u64 \<Rightarrow> u8 list option \<Rightarrow> 'a kernel_scheme \<Rightarrow> (nat option \<times> 'a kernel_scheme) option" where
  "proc_create A entry name s =
     (case find_unused (procs s) 0 of
        None \<Rightarrow> do {
          s \<leftarrow> uart_puts msg_no_slots s;
          Some (None, s)
        }
      | Some i \<Rightarrow> do {
          (stk, s) \<leftarrow> mem_alloc STACK_SIZE s;
          if stk = 0 then do {
            s \<leftarrow> uart_puts msg_no_stack s;
            Some (None, s)
          }
          else
            let s = set_proc i (\<lambda>p. p\<lparr>pid := of_nat i + 1, state := PROC_RUNNABLE, stack := stk,
                      entry_fn := entry,
                      pname := (case name of Some n \<Rightarrow> copy_name n 0 (pname p) | None \<Rightarrow> (pname p)[0 := 0]),
                      saved := zero_context\<lparr>reg_sp := stk + ucast STACK_SIZE, reg_ra := forkret_pc A\<rparr>\<rparr>) s
            in Some (Some i, s)
        })"

definition yield :: "code \<Rightarrow> 'a kernel_scheme \<Rightarrow> 'a kernel_scheme" where
  "yield A s =
     (case current_process s of
        None \<Rightarrow> s
      | Some i \<Rightarrow>
          let s = (if state (proc_at s i) = PROC_RUNNING
                   then set_proc i (state_update (\<lambda>_. PROC_RUNNABLE)) s else s);
              s = s\<lparr>current_process := None\<rparr>
          in call_swtch (yield_pc A) (Proc_ctx i) Sched_ctx s)"

text \<open>What \<open>forkret\<close> does once the entry function has returned, up to its call of \<open>yield\<close>, and
  that call.\<close>

definition forkret_exit :: "code \<Rightarrow> 'a kernel_scheme \<Rightarrow> 'a kernel_scheme option" where
  "forkret_exit A s = do {
     s \<leftarrow> (case current_process s of
            None \<Rightarrow> Some s
          | Some i \<Rightarrow> do {
              s \<leftarrow> uart_puts (lit (''Process '' @ [CHR 0x27])) s;
              s \<leftarrow> uart_puts (pname (proc_at s i)) s;
              s \<leftarrow> uart_puts (lit ([CHR 0x27] @ '' finished execution. Exiting...'' @ [CHR 0x0A])) s;
              Some (set_proc i (state_update (\<lambda>_. PROC_ZOMBIE)) s)
            });
     Some (yield A s)
   }"

text \<open>The scheduler picks process \<open>i\<close>: marking it and making it current, and the switch.\<close>

definition sched_mark :: "nat \<Rightarrow> 'a kernel_scheme \<Rightarrow> 'a kernel_scheme" where
  "sched_mark i s = (set_proc i (state_update (\<lambda>_. PROC_RUNNING)) s)\<lparr>current_process := Some i\<rparr>"

definition sched_dispatch :: "code \<Rightarrow> nat \<Rightarrow> 'a kernel_scheme \<Rightarrow> 'a kernel_scheme" where
  "sched_dispatch A i s = call_swtch (sched_pc A) Sched_ctx (Proc_ctx i) (sched_mark i s)"

definition active :: "'a kernel_scheme \<Rightarrow> bool" where
  "active s = list_ex (\<lambda>i. state (proc_at s i) \<noteq> PROC_UNUSED \<and> state (proc_at s i) \<noteq> PROC_ZOMBIE) [0..<NPROC]"

definition sched_exit_msg :: "u8 list" where
  "sched_exit_msg = lit (''scheduler: no active processes remaining. Exiting scheduler.'' @ [CHR 0x0A])"

section \<open>Control\<close>

text \<open>\<open>L_scan i found\<close>: the scheduler is about to examine slot \<open>i\<close>. \<open>L_run i\<close>: the code of process
  \<open>i\<close> executes. \<open>L_back i\<close>: \<^verbatim>\<open>swtch\<close> has returned in the scheduler's iteration \<open>i\<close>.
  \<open>L_wild\<close>: a switch has gone to an address that is no return address.\<close>

datatype loc = L_scan nat bool | L_run nat | L_back nat | L_wfi | L_exit | L_wild

definition enter_proc :: "code \<Rightarrow> nat \<Rightarrow> 'a kernel_scheme \<Rightarrow> loc" where
  "enter_proc A i s =
     (if reg_ra (cpu s) = forkret_pc A \<or> reg_ra (cpu s) = yield_pc A then L_run i else L_wild)"

definition enter_sched :: "code \<Rightarrow> nat \<Rightarrow> 'a kernel_scheme \<Rightarrow> loc" where
  "enter_sched A i s = (if reg_ra (cpu s) = sched_pc A then L_back i else L_wild)"

text \<open>Process code may change anything but the process table, the current process and the
  scheduler's context.\<close>

definition user_step :: "'a kernel_scheme \<Rightarrow> 'a kernel_scheme \<Rightarrow> bool" where
  "user_step s s' \<longleftrightarrow> procs s' = procs s \<and> current_process s' = current_process s \<and>
     sched_context s' = sched_context s"

inductive kstep :: "code \<Rightarrow> loc \<times> 'a kernel_scheme \<Rightarrow> loc \<times> 'a kernel_scheme \<Rightarrow> bool" for A where
  pick: "i < NPROC \<Longrightarrow> state (proc_at s i) = PROC_RUNNABLE \<Longrightarrow> s' = sched_dispatch A i s \<Longrightarrow>
    kstep A (L_scan i found, s) (enter_proc A i s', s')"
| skip: "i < NPROC \<Longrightarrow> state (proc_at s i) \<noteq> PROC_RUNNABLE \<Longrightarrow>
    kstep A (L_scan i found, s) (L_scan (Suc i) found, s)"
| returned: "kstep A (L_back i, s) (L_scan (Suc i) True, s\<lparr>current_process := None\<rparr>)"
| again: "\<not> i < NPROC \<Longrightarrow> kstep A (L_scan i True, s) (L_scan 0 False, s)"
| exit: "\<not> i < NPROC \<Longrightarrow> \<not> active s \<Longrightarrow> uart_puts sched_exit_msg s = Some s' \<Longrightarrow>
    kstep A (L_scan i False, s) (L_exit, s')"
| idle: "\<not> i < NPROC \<Longrightarrow> active s \<Longrightarrow> kstep A (L_scan i False, s) (L_wfi, s)"
| wake: "kstep A (L_wfi, s) (L_scan 0 False, s)"
| user: "user_step s s' \<Longrightarrow> kstep A (L_run i, s) (L_run i, s')"
| yields: "s' = yield A s \<Longrightarrow> kstep A (L_run i, s) (enter_sched A i s', s')"
| finish: "forkret_exit A s = Some s' \<Longrightarrow> kstep A (L_run i, s) (enter_sched A i s', s')"

inductive_cases kstep_scanE: "kstep A (L_scan i found, s) c"
inductive_cases kstep_backE: "kstep A (L_back i, s) c"
inductive_cases kstep_runE: "kstep A (L_run i, s) c"
inductive_cases kstep_wfiE: "kstep A (L_wfi, s) c"
inductive_cases kstep_exitE: "kstep A (L_exit, s) c"
inductive_cases kstep_wildE: "kstep A (L_wild, s) c"

section \<open>The process table under the operations\<close>

lemma proc_at_set_proc:
  "i < length (procs s) \<Longrightarrow> proc_at (set_proc i f s) j = (if i = j then f (proc_at s i) else proc_at s j)"
  by (auto simp: proc_at_def set_proc_def nth_list_update)

lemma set_proc_simps [simp]:
  "length (procs (set_proc i f s)) = length (procs s)"
  "current_process (set_proc i f s) = current_process s"
  "sched_context (set_proc i f s) = sched_context s"
  "cpu (set_proc i f s) = cpu s" "uart_in (set_proc i f s) = uart_in s"
  by (simp_all add: set_proc_def)

lemma proc_at_updates [simp]:
  "proc_at (s\<lparr>current_process := c\<rparr>) = proc_at s" "proc_at (s\<lparr>sched_context := d\<rparr>) = proc_at s"
  "proc_at (s\<lparr>cpu := e\<rparr>) = proc_at s" "proc_at (s\<lparr>uart_rd := k, uart_wr := w\<rparr>) = proc_at s"
  by (simp_all add: proc_at_def fun_eq_iff)

lemma sched_dispatch_effect:
  assumes "length (procs s) = NPROC" "i < NPROC"
  shows "length (procs (sched_dispatch A i s)) = NPROC"
    "proc_at (sched_dispatch A i s) j = (if j = i then (proc_at s i)\<lparr>state := PROC_RUNNING\<rparr> else proc_at s j)"
    "current_process (sched_dispatch A i s) = Some i"
    "sched_context (sched_dispatch A i s) = (cpu s)\<lparr>reg_ra := sched_pc A\<rparr>"
    "cpu (sched_dispatch A i s) = saved (proc_at s i)"
  using assms
  by (simp_all add: sched_dispatch_def call_swtch_def swtch_def ctx_store_def ctx_load_def sched_mark_def
      proc_at_set_proc Let_def)

lemma yield_effect:
  assumes "length (procs s) = NPROC" "current_process s = Some i" "i < NPROC"
  shows "length (procs (yield A s)) = NPROC"
    "proc_at (yield A s) j = (if j = i then (proc_at s i)\<lparr>
       state := (if state (proc_at s i) = PROC_RUNNING then PROC_RUNNABLE else state (proc_at s i)),
       saved := (cpu s)\<lparr>reg_ra := yield_pc A\<rparr>\<rparr> else proc_at s j)"
    "current_process (yield A s) = None" "sched_context (yield A s) = sched_context s"
    "cpu (yield A s) = sched_context s"
  using assms
  by (auto simp: yield_def call_swtch_def swtch_def ctx_store_def ctx_load_def proc_at_set_proc Let_def)

lemma uart_puts_frame:
  "uart_puts str s = Some s' \<Longrightarrow> \<exists>k w. s' = s\<lparr>uart_rd := k, uart_wr := w\<rparr>"
  using uart.prints_emits [OF prints_uart_puts] unfolding uart_emits_def by blast

lemma forkret_exit_effect:
  assumes "length (procs s) = NPROC" "current_process s = Some i" "i < NPROC" "forkret_exit A s = Some s'"
  shows "length (procs s') = NPROC"
    "proc_at s' j = (if j = i then (proc_at s i)\<lparr>state := PROC_ZOMBIE,
       saved := (cpu s)\<lparr>reg_ra := yield_pc A\<rparr>\<rparr> else proc_at s j)"
    "current_process s' = None" "sched_context s' = sched_context s" "cpu s' = sched_context s"
proof -
  obtain s1 s2 s3 where p: "uart_puts (lit (''Process '' @ [CHR 0x27])) s = Some s1"
    "uart_puts (pname (proc_at s1 i)) s1 = Some s2"
    "uart_puts (lit ([CHR 0x27] @ '' finished execution. Exiting...'' @ [CHR 0x0A])) s2 = Some s3"
    and s': "s' = yield A (set_proc i (state_update (\<lambda>_. PROC_ZOMBIE)) s3)"
    using assms(2,4) by (auto simp: forkret_exit_def bind_eq_Some_conv)
  obtain k w where s3: "s3 = s\<lparr>uart_rd := k, uart_wr := w\<rparr>"
    using p [THEN uart_puts_frame] by auto
  define t where "t = set_proc i (state_update (\<lambda>_. PROC_ZOMBIE)) s3"
  have t: "length (procs t) = NPROC" "current_process t = Some i" "cpu t = cpu s" "sched_context t = sched_context s"
    "proc_at t j = (if j = i then (proc_at s i)\<lparr>state := PROC_ZOMBIE\<rparr> else proc_at s j)" for j
    using assms(1-3) by (auto simp: t_def s3 proc_at_set_proc)
  note y = yield_effect [OF t(1,2) assms(3), of A, folded s' [folded t_def]]
  show "length (procs s') = NPROC" "current_process s' = None" "sched_context s' = sched_context s"
    "cpu s' = sched_context s"
    using y t by simp_all
  show "proc_at s' j = (if j = i then (proc_at s i)\<lparr>state := PROC_ZOMBIE,
       saved := (cpu s)\<lparr>reg_ra := yield_pc A\<rparr>\<rparr> else proc_at s j)"
    using y(2) [of j] t(3) t(5) by simp
qed

section \<open>The scheduler's invariant\<close>

definition ra_ok :: "code \<Rightarrow> context_t \<Rightarrow> bool" where
  "ra_ok A c \<longleftrightarrow> reg_ra c = forkret_pc A \<or> reg_ra c = yield_pc A"

definition table_ok :: "code \<Rightarrow> 'a kernel_scheme \<Rightarrow> bool" where
  "table_ok A s \<longleftrightarrow> length (procs s) = NPROC \<and>
     (\<forall>i<NPROC. state (proc_at s i) = PROC_RUNNABLE \<longrightarrow> ra_ok A (saved (proc_at s i)))"

definition none_running :: "'a kernel_scheme \<Rightarrow> bool" where
  "none_running s \<longleftrightarrow> (\<forall>i<NPROC. state (proc_at s i) \<noteq> PROC_RUNNING)"

fun sched_inv :: "code \<Rightarrow> loc \<times> 'a kernel_scheme \<Rightarrow> bool" where
  "sched_inv A (L_scan i found, s) \<longleftrightarrow> table_ok A s \<and> none_running s \<and> current_process s = None \<and>
     i \<le> NPROC \<and> (\<not> found \<longrightarrow> (\<forall>j<i. state (proc_at s j) \<noteq> PROC_RUNNABLE))"
| "sched_inv A (L_run i, s) \<longleftrightarrow> table_ok A s \<and> i < NPROC \<and> current_process s = Some i \<and>
     state (proc_at s i) = PROC_RUNNING \<and>
     (\<forall>j<NPROC. j \<noteq> i \<longrightarrow> state (proc_at s j) \<noteq> PROC_RUNNING) \<and> reg_ra (sched_context s) = sched_pc A"
| "sched_inv A (L_back i, s) \<longleftrightarrow> table_ok A s \<and> none_running s \<and> current_process s = None \<and> i < NPROC"
| "sched_inv A (L_exit, s) \<longleftrightarrow> table_ok A s \<and> none_running s \<and> current_process s = None \<and>
     \<not> active s"
| "sched_inv A (L_wfi, s) \<longleftrightarrow> False"
| "sched_inv A (L_wild, s) \<longleftrightarrow> False"

lemma active_iff: "active s \<longleftrightarrow> (\<exists>i<NPROC. state (proc_at s i) = PROC_RUNNABLE \<or> state (proc_at s i) = PROC_RUNNING)"
proof -
  have e: "(x \<noteq> PROC_UNUSED \<and> x \<noteq> PROC_ZOMBIE) = (x = PROC_RUNNABLE \<or> x = PROC_RUNNING)" for x by (cases x) auto
  show ?thesis unfolding active_def list_ex_iff e by auto
qed

lemma sched_inv_user: "user_step s s' \<Longrightarrow> sched_inv A (L_run i, s) \<Longrightarrow> sched_inv A (L_run i, s')"
  by (simp add: user_step_def table_ok_def proc_at_def)

lemma sched_inv_dispatch:
  assumes "sched_inv A (L_scan i found, s)" "i < NPROC" "state (proc_at s i) = PROC_RUNNABLE"
  shows "sched_inv A (enter_proc A i (sched_dispatch A i s), sched_dispatch A i s)"
  using assms
  by (auto simp: enter_proc_def table_ok_def ra_ok_def none_running_def sched_dispatch_effect)

lemma sched_inv_leave:
  assumes "sched_inv A (L_run i, s)"
    and "s' = yield A s \<or> forkret_exit A s = Some s'"
  shows "sched_inv A (enter_sched A i s', s')"
proof -
  have i: "length (procs s) = NPROC" "current_process s = Some i" "i < NPROC"
    using assms(1) by (auto simp: table_ok_def)
  from assms(2) show ?thesis
  proof
    assume "s' = yield A s"
    then show ?thesis
      using assms(1) yield_effect [OF i] by (auto simp: enter_sched_def table_ok_def ra_ok_def none_running_def)
  next
    assume "forkret_exit A s = Some s'"
    from forkret_exit_effect [OF i this] show ?thesis
      using assms(1) by (auto simp: enter_sched_def table_ok_def ra_ok_def none_running_def)
  qed
qed

lemma sched_inv_step:
  assumes "sched_inv A c" "kstep A c c'"
  shows "sched_inv A c'"
  using assms(2,1)
proof (cases rule: kstep.cases)
  case (pick i s s' found)
  then show ?thesis using assms(1) sched_inv_dispatch by blast
next
  case (skip i s found)
  then show ?thesis using assms(1) by (auto simp: less_Suc_eq)
next
  case (exit i s s')
  from uart_puts_frame [OF exit(5)] obtain k w where "s' = s\<lparr>uart_rd := k, uart_wr := w\<rparr>" by blast
  with exit assms(1) show ?thesis by (auto simp: table_ok_def none_running_def active_def)
next
  case (idle i s)
  then show ?thesis using assms(1) by (auto simp: active_iff none_running_def)
next
  case (user s s' i)
  then show ?thesis using assms(1) sched_inv_user by blast
next
  case (yields s' s i)
  then show ?thesis using assms(1) sched_inv_leave by blast
next
  case (finish s s' i)
  then show ?thesis using assms(1) sched_inv_leave by blast
qed (use assms(1) in \<open>auto simp: table_ok_def none_running_def\<close>)

interpretation sched: invariant_system "kstep A" "sched_inv A" for A
  by unfold_locales (rule sched_inv_step)

section \<open>Saved contexts\<close>

lemma saved_kept:
  assumes "sched_inv A d" "kstep A d d'" "fst d \<noteq> L_run i" "i < NPROC"
  shows "saved (proc_at (snd d') i) = saved (proc_at (snd d) i)"
  using assms(2,1,3)
proof (cases rule: kstep.cases)
  case (pick k s s' found)
  with assms show ?thesis by (auto simp: table_ok_def sched_dispatch_effect)
next
  case (exit k s s')
  from uart_puts_frame [OF exit(5)] exit show ?thesis by auto
next
  case (user s s' k)
  then show ?thesis by (simp add: user_step_def proc_at_def)
next
  case (yields s' s k)
  with assms show ?thesis by (auto simp: table_ok_def yield_effect)
next
  case (finish s s' k)
  with assms have "length (procs s) = NPROC" "current_process s = Some k" "k < NPROC" by (auto simp: table_ok_def)
  from forkret_exit_effect(2) [OF this finish(3)] finish assms(3) show ?thesis by auto
qed auto

lemma dispatch_loads:
  assumes "kstep A (l, s) (L_run i, s')" "sched_inv A (l, s)" "l \<noteq> L_run i"
  shows "cpu s' = saved (proc_at s i) \<and> i < NPROC"
  using assms(1)
proof (cases rule: kstep.cases)
  case (pick k found)
  then have "k = i" by (auto simp: enter_proc_def split: if_splits)
  with pick assms(2) show ?thesis by (auto simp: table_ok_def sched_dispatch_effect)
qed (use assms(3) in \<open>auto simp: enter_sched_def split: if_splits\<close>)

section \<open>Fairness\<close>

text \<open>A run of the scheduler with the processes it dispatches, in order.\<close>

definition picked :: "loc \<times> 'a kernel_scheme \<Rightarrow> loc \<times> 'a kernel_scheme \<Rightarrow> nat list" where
  "picked d d' = (case fst d of L_scan k f \<Rightarrow> (if fst d' = L_run k then [k] else []) | _ \<Rightarrow> [])"

inductive sched_run :: "code \<Rightarrow> loc \<times> 'a kernel_scheme \<Rightarrow> nat list \<Rightarrow> loc \<times> 'a kernel_scheme \<Rightarrow> bool" for A d where
  here: "sched_run A d [] d"
| more: "sched_run A d ks d' \<Longrightarrow> kstep A d' d'' \<Longrightarrow> sched_run A d (ks @ picked d' d'') d''"

lemma sched_run_inv: "sched_run A d ks d' \<Longrightarrow> sched_inv A d \<Longrightarrow> sched_inv A d'"
  by (induction rule: sched_run.induct) (auto intro: sched_inv_step)

text \<open>How far slot \<open>k\<close> is after slot \<open>i\<close> in cyclic order, and how far the scan has come after running process
  \<open>i\<close>, before it is back at \<open>i\<close>.\<close>

definition cyc_dist :: "nat \<Rightarrow> nat \<Rightarrow> nat" where
  "cyc_dist i k = (k + NPROC - i) mod NPROC"

lemma cyc_dist_eq: "i < NPROC \<Longrightarrow> k < NPROC \<Longrightarrow> cyc_dist i k = (if i \<le> k then k - i else k + NPROC - i)"
  unfolding cyc_dist_def by (auto simp: mod_if)

fun scan_at :: "nat \<Rightarrow> loc \<Rightarrow> nat \<Rightarrow> bool" where
  "scan_at i (L_scan p f) m \<longleftrightarrow> i < p \<and> p \<le> NPROC \<and> f \<and> m = p - i \<or> p \<le> i \<and> m = p + NPROC - i"
| "scan_at i (L_run k) m \<longleftrightarrow> k < NPROC \<and> m = Suc (cyc_dist i k)"
| "scan_at i (L_back k) m \<longleftrightarrow> k < NPROC \<and> m = Suc (cyc_dist i k)"
| "scan_at i l m \<longleftrightarrow> False"

text \<open>While process \<open>j\<close> waits for its turn: it is runnable and the scan is not past it.\<close>

definition waiting :: "nat \<Rightarrow> nat \<Rightarrow> nat \<Rightarrow> loc \<times> 'a kernel_scheme \<Rightarrow> bool" where
  "waiting i j m d \<longleftrightarrow> state (proc_at (snd d) j) = PROC_RUNNABLE \<and> scan_at i (fst d) m \<and> m \<le> cyc_dist i j"

lemma waiting_step:
  assumes inv: "sched_inv A d" and step: "kstep A d d'" and w: "waiting i j m d" and ij: "i < NPROC" "j < NPROC"
    and pk: "j \<notin> set (picked d d')"
  shows "\<exists>m'. waiting i j m' d' \<and> m \<le> m' \<and> (\<forall>k\<in>set (picked d d'). cyc_dist i k = m \<and> m' = Suc m)"
  using step
proof (cases rule: kstep.cases)
  case (pick p s s' found)
  then have e: "fst d' = L_run p" "length (procs s) = NPROC"
    using inv by (auto simp: table_ok_def sched_dispatch_effect enter_proc_def ra_ok_def)
  then have "p \<noteq> j" using pk pick by (simp add: picked_def)
  then have "state (proc_at (snd d') j) = PROC_RUNNABLE" using w pick e(2) by (simp add: waiting_def sched_dispatch_effect)
  moreover have "cyc_dist i p = m" using w pick ij by (auto simp: waiting_def cyc_dist_eq split: if_splits)
  moreover from this have "m < cyc_dist i j"
    using w \<open>p \<noteq> j\<close> pick(3) ij by (auto simp: waiting_def cyc_dist_eq le_less split: if_splits)
  ultimately show ?thesis
    using e(1) pick by (intro exI [of _ "Suc m"]) (auto simp: waiting_def picked_def)
next
  case (skip p s found)
  then have "p \<noteq> j" using w by (auto simp: waiting_def)
  then have "Suc m \<le> cyc_dist i j \<and> scan_at i (L_scan (Suc p) found) (Suc m)"
    using w skip ij by (auto simp: waiting_def cyc_dist_eq split: if_splits)
  then show ?thesis using w skip by (intro exI [of _ "Suc m"]) (auto simp: waiting_def picked_def)
next
  case (returned k s)
  then have "scan_at i (L_scan (Suc k) True) m" using w ij by (auto simp: waiting_def cyc_dist_eq)
  then show ?thesis using w returned by (intro exI [of _ m]) (auto simp: waiting_def picked_def)
next
  case (again p s)
  then have "scan_at i (L_scan 0 False) m" using w ij by (auto simp: waiting_def)
  then show ?thesis using w again by (intro exI [of _ m]) (auto simp: waiting_def picked_def)
next
  case (user s s' k)
  then show ?thesis using w by (intro exI [of _ m]) (auto simp: user_step_def proc_at_def waiting_def picked_def)
next
  case (yields s' s k)
  then have "length (procs s) = NPROC" "current_process s = Some k" "k < NPROC" "state (proc_at s k) = PROC_RUNNING" "reg_ra (sched_context s) = sched_pc A"
    using inv by (auto simp: table_ok_def)
  with yields w yield_effect [of s k A] show ?thesis
    by (intro exI [of _ m]) (auto simp: waiting_def picked_def enter_sched_def)
next
  case (finish s s' k)
  then have l: "length (procs s) = NPROC" "current_process s = Some k" "k < NPROC" "state (proc_at s k) = PROC_RUNNING" "reg_ra (sched_context s) = sched_pc A"
    using inv by (auto simp: table_ok_def)
  from forkret_exit_effect [OF l(1-3) finish(3)] l(4,5) finish w show ?thesis
    by (intro exI [of _ m]) (auto simp: waiting_def picked_def enter_sched_def)
qed (use w ij in \<open>auto simp: waiting_def\<close>)

lemma waiting_run:
  assumes run: "sched_run A d ks d'" and inv: "sched_inv A d" and w: "waiting i j (Suc 0) d" and ij: "i < NPROC" "j < NPROC"
    and pk: "j \<notin> set ks"
  shows "\<exists>m. waiting i j m d' \<and> sorted_wrt (<) (map (cyc_dist i) ks) \<and> (\<forall>k\<in>set ks. 0 < cyc_dist i k \<and> cyc_dist i k < m) \<and> 0 < m"
  using run pk
proof (induction rule: sched_run.induct)
  case here
  then show ?case using w by auto
next
  case (more ks d' d'')
  then obtain m where m: "waiting i j m d'" "sorted_wrt (<) (map (cyc_dist i) ks)"
    "\<forall>k\<in>set ks. 0 < cyc_dist i k \<and> cyc_dist i k < m" "0 < m" by auto
  from waiting_step [OF sched_run_inv [OF more.hyps(1) inv] more.hyps(2) m(1) ij] more.prems
  obtain m' where m': "waiting i j m' d''" "m \<le> m'" "\<forall>k\<in>set (picked d' d''). cyc_dist i k = m \<and> m' = Suc m" by auto
  have "picked d' d'' = [] \<or> (\<exists>k. picked d' d'' = [k])" by (simp add: picked_def split: loc.split)
  then consider "picked d' d'' = []" | k where "picked d' d'' = [k]" by blast
  then show ?case
  proof cases
    case 1
    with m m' show ?thesis by (intro exI [of _ m']) auto
  next
    case (2 k)
    with m m' show ?thesis by (intro exI [of _ m']) (auto simp: sorted_wrt_append less_Suc_eq)
  qed
qed

section \<open>Creating processes\<close>

lemma find_unused_char:
  "i \<le> NPROC \<Longrightarrow> find_unused ps i =
    find (\<lambda>j. state (ps ! j) = PROC_UNUSED) [i..<NPROC]"
proof (induction ps i rule: find_unused.induct)
  case (1 ps i)
  show ?case
  proof (cases "i < NPROC")
    case True
    with 1 show ?thesis by (subst find_unused.simps) (simp add: upt_conv_Cons)
  next
    case False
    then show ?thesis by (subst find_unused.simps) simp
  qed
qed

lemma find_unused_Some:
  assumes "find_unused (procs s) 0 = Some i"
  shows "i < NPROC" "state (proc_at s i) = PROC_UNUSED" "\<forall>j<i. state (proc_at s j) \<noteq> PROC_UNUSED"
  using assms by (auto simp: find_unused_char find_Some_iff proc_at_def)

lemma find_unused_None:
  "find_unused (procs s) 0 = None \<longleftrightarrow> (\<forall>i<NPROC. state (proc_at s i) \<noteq> PROC_UNUSED)"
  by (auto simp: find_unused_char find_None_iff proc_at_def)

lemma copy_name_text:
  assumes "length buf = 16" "len \<le> 15" "len \<le> length name" "take len buf = take len name"
    "0 \<notin> set (take len name)"
  shows "takeWhile (\<lambda>c. c \<noteq> 0) (copy_name name len buf) = take 15 (takeWhile (\<lambda>c. c \<noteq> 0) name) \<and>
    length (copy_name name len buf) = 16"
  using assms
proof (induction name len buf rule: copy_name.induct)
  case (1 name len buf)
  show ?case
  proof (cases "len < length name \<and> name ! len \<noteq> 0 \<and> len < 15")
    case True
    have "take (Suc len) (buf[len := name ! len]) = take (Suc len) name"
      using True 1(5) 1(2) by (simp add: take_Suc_conv_app_nth)
    moreover have "0 \<notin> set (take (Suc len) name)" using True 1(6) by (simp add: take_Suc_conv_app_nth)
    ultimately show ?thesis
      using True 1(1) [OF True] 1(2) by (subst (1 2) copy_name.simps) simp
  next
    case False
    have tw: "takeWhile (\<lambda>c. c \<noteq> 0) (buf[len := 0]) = take len name"
    proof -
      have "buf[len := 0] = take len name @ 0 # drop (Suc len) buf"
        using 1(2,3,5) by (simp add: upd_conv_take_nth_drop)
      then show ?thesis using 1(6) by (simp add: takeWhile_append)
    qed
    have nz: "takeWhile (\<lambda>c. c \<noteq> 0) name = take len name @ takeWhile (\<lambda>c. c \<noteq> 0) (drop len name)"
      using 1(6) takeWhile_append2 [of "take len name" "\<lambda>c. c \<noteq> 0" "drop len name"] by auto
    have "len = 15 \<or> takeWhile (\<lambda>c. c \<noteq> 0) (drop len name) = []"
      using False 1(3,4) by (cases "len < length name") (auto simp flip: Cons_nth_drop_Suc)
    then have "take len name = take 15 (takeWhile (\<lambda>c. c \<noteq> 0) name)"
      unfolding nz using 1(3,4) by auto
    moreover have "copy_name name len buf = buf[len := 0]" using False by (subst copy_name.simps) auto
    ultimately show ?thesis using tw 1(2) by simp
  qed
qed

definition stacks_ok :: "'a kernel_scheme \<Rightarrow> bool" where
  "stacks_ok s \<longleftrightarrow> alloc_inv s \<and>
     (\<forall>i<NPROC. state (proc_at s i) \<noteq> PROC_UNUSED \<longrightarrow>
        aligned 12 (stack (proc_at s i)) \<and> stack (proc_at s i) \<noteq> 0 \<and> stack (proc_at s i) \<notin> free_pages s) \<and>
     (\<forall>i<NPROC. \<forall>j<NPROC. i \<noteq> j \<longrightarrow> state (proc_at s i) \<noteq> PROC_UNUSED \<longrightarrow>
        state (proc_at s j) \<noteq> PROC_UNUSED \<longrightarrow> stack (proc_at s i) \<noteq> stack (proc_at s j))"

definition new_process :: "code \<Rightarrow> nat \<Rightarrow> u64 \<Rightarrow> u64 \<Rightarrow> u8 list option \<Rightarrow> process \<Rightarrow> process" where
  "new_process A i stk entry name p = \<lparr>pid = of_nat i + 1, state = PROC_RUNNABLE, stack = stk,
     saved = zero_context\<lparr>reg_sp := stk + 4096, reg_ra := forkret_pc A\<rparr>, entry_fn = entry,
     pname = (case name of Some n \<Rightarrow> copy_name n 0 (pname p) | None \<Rightarrow> (pname p)[0 := 0])\<rparr>"

lemma new_process_eq:
  "p\<lparr>pid := of_nat i + 1, state := PROC_RUNNABLE, stack := stk, entry_fn := entry,
     pname := (case name of Some n \<Rightarrow> copy_name n 0 (pname p) | None \<Rightarrow> (pname p)[0 := 0]),
     saved := zero_context\<lparr>reg_sp := stk + ucast STACK_SIZE, reg_ra := forkret_pc A\<rparr>\<rparr> =
   new_process A i stk entry name p"
  by (cases p) (simp add: new_process_def STACK_SIZE_def split: option.split)

lemma STACK_page: "STACK_SIZE = ucast PAGE_SIZE"
  by (simp add: STACK_SIZE_def PAGE_SIZE_val)

lemma alloc_inv_set_proc [simp]:
  "alloc_inv (set_proc i f s) = alloc_inv s" "free_pages (set_proc i f s) = free_pages s"
  by (simp_all add: alloc_inv_def free_pages_def pages_ok_def heap_ok_def page_ok_def set_proc_def)

lemma alloc_inv_uart [simp]:
  "alloc_inv (s\<lparr>uart_rd := k, uart_wr := w\<rparr>) = alloc_inv s"
  "free_pages (s\<lparr>uart_rd := k, uart_wr := w\<rparr>) = free_pages s"
  by (simp_all add: alloc_inv_def free_pages_def pages_ok_def heap_ok_def page_ok_def)

lemma uart_puts_total:
  "uart_live s \<Longrightarrow> \<exists>k w. uart_puts str s = Some (s\<lparr>uart_rd := k, uart_wr := w\<rparr>)"
  using uart.prints_total [OF prints_uart_puts] uart_puts_frame by blast

lemma says_create_msgs: "uart.says (uart_puts msg_no_slots s) s msg_no_slots" "uart.says (uart_puts msg_no_stack s) s msg_no_stack"
  unfolding msg_no_slots_def msg_no_stack_def by (rule says_puts, simp)+

lemma proc_create_cases:
  assumes len: "length (procs s) = NPROC" and inv: "alloc_inv s" and live: "uart_live s"
  obtains (full) k w where "find_unused (procs s) 0 = None"
      "proc_create A entry name s = Some (None, s\<lparr>uart_rd := k, uart_wr := w\<rparr>)" "uart_emits s msg_no_slots (s\<lparr>uart_rd := k, uart_wr := w\<rparr>)"
  | (nomem) i k w where "find_unused (procs s) 0 = Some i" "free_pages s = {}"
      "proc_create A entry name s = Some (None, s\<lparr>uart_rd := k, uart_wr := w\<rparr>)" "uart_emits s msg_no_stack (s\<lparr>uart_rd := k, uart_wr := w\<rparr>)"
  | (made) i stk t where "find_unused (procs s) 0 = Some i" "stk \<in> free_pages s" "stk \<noteq> 0" "aligned 12 stk"
      "proc_create A entry name s = Some (Some i, set_proc i (\<lambda>p. new_process A i stk entry name p) t)"
      "\<exists>m h c. t = s\<lparr>mem := m, free_list := h, free_page_count := c\<rparr>" "alloc_inv t" "mem t = mem s"
      "free_pages t = free_pages s - {stk}"
proof (cases "find_unused (procs s) 0")
  case None
  moreover obtain k w where "uart_puts msg_no_slots s = Some (s\<lparr>uart_rd := k, uart_wr := w\<rparr>)"
    "uart_emits s msg_no_slots (s\<lparr>uart_rd := k, uart_wr := w\<rparr>)"
    using uart.says_total [OF says_create_msgs(1) live] by (auto simp: uart_emits_def)
  ultimately show ?thesis by (intro full) (simp_all add: proc_create_def)
next
  case (Some i)
  obtain stk t where get: "mem_alloc (ucast PAGE_SIZE) s = Some (stk, t)" using pages.get_returns [OF inv] by blast
  show ?thesis
  proof (cases "stk = 0")
    case True
    then have "free_pages s = {}" "t = s" using pages.get_fails [OF inv, of t] get by auto
    moreover obtain k w where "uart_puts msg_no_stack s = Some (s\<lparr>uart_rd := k, uart_wr := w\<rparr>)"
      "uart_emits s msg_no_stack (s\<lparr>uart_rd := k, uart_wr := w\<rparr>)"
      using uart.says_total [OF says_create_msgs(2) live] by (auto simp: uart_emits_def)
    ultimately show ?thesis using Some get True by (intro nomem [of i]) (simp_all add: proc_create_def STACK_page)
  next
    case False
    note p = pages.get_page [OF inv get False]
    have "proc_create A entry name s = Some (Some i, set_proc i (\<lambda>p. new_process A i stk entry name p) t)"
      using Some get False unfolding new_process_eq [symmetric]
      by (simp add: proc_create_def STACK_page PAGE_SIZE_val)
    moreover have "\<exists>m h c. t = s\<lparr>mem := m, free_list := h, free_page_count := c\<rparr>"
      using mem_alloc_frame [OF inv get] by blast
    ultimately show ?thesis using p by (intro made [OF Some _ False]) blast+
  qed
qed

text \<open>Creating several processes one after the other, as \<^verbatim>\<open>main\<close> does.\<close>

primrec spawn :: "code \<Rightarrow> (u64 \<times> u8 list option) list \<Rightarrow> 'a kernel_scheme \<Rightarrow> 'a kernel_scheme option" where
  "spawn A [] s = Some s"
| "spawn A (e # es) s = do { (p, s) \<leftarrow> proc_create A (fst e) (snd e) s; spawn A es s }"

definition ready :: "code \<Rightarrow> 'a kernel_scheme \<Rightarrow> bool" where
  "ready A s \<longleftrightarrow> table_ok A s \<and> none_running s \<and> current_process s = None \<and> stacks_ok s \<and> uart_live s"

lemma uart_live_cong: "uart_in s = uart_in t \<Longrightarrow> uart_live s = uart_live t"
  by (simp add: uart_live_def)

lemma proc_init_ready:
  assumes "length (procs s) = NPROC" "alloc_inv s" "uart_live s"
  shows "ready A (proc_init s)"
proof -
  have st: "state (proc_at (proc_init s) i) = PROC_UNUSED" if "i < NPROC" for i
    using that assms(1) by (simp add: proc_init_def proc_at_def)
  have "alloc_inv (proc_init s)"
    using assms(2) by (simp add: proc_init_def alloc_inv_def pages_ok_def heap_ok_def page_ok_def)
  moreover have "uart_live (proc_init s)" using assms(3) by (simp add: proc_init_def uart_live_def)
  moreover have "length (procs (proc_init s)) = NPROC" "current_process (proc_init s) = None"
    using assms(1) by (simp_all add: proc_init_def)
  ultimately show ?thesis
    using st by (auto simp: ready_def table_ok_def none_running_def stacks_ok_def)
qed

lemma ready_uart: "ready A s \<Longrightarrow> ready A (s\<lparr>uart_rd := k, uart_wr := w\<rparr>)"
  by (simp add: ready_def table_ok_def none_running_def stacks_ok_def uart_live_def)

lemma proc_create_made:
  fixes entry :: u64 and name :: "u8 list option"
  assumes r: "ready A s" and i: "find_unused (procs s) 0 = Some i" and t: "alloc_inv t"
    "free_pages t = free_pages s - {stk}" "\<exists>m h c. t = s\<lparr>mem := m, free_list := h, free_page_count := c\<rparr>"
    and stk: "stk \<in> free_pages s" "stk \<noteq> 0" "aligned 12 stk"
  defines "s' \<equiv> set_proc i (\<lambda>p. new_process A i stk entry name p) t"
  shows "ready A s'" "proc_at s' j = (if j = i then new_process A i stk entry name (proc_at s i) else proc_at s j)"
    "length (procs s') = NPROC"
proof -
  note u = find_unused_Some [OF i]
  have pt: "procs t = procs s" "current_process t = current_process s" "uart_in t = uart_in s" using t(3) by auto
  have len: "length (procs s) = NPROC" using r by (simp add: ready_def table_ok_def)
  have pa: "proc_at t = proc_at s" by (simp add: proc_at_def fun_eq_iff pt)
  have at: "proc_at s' j = (if j = i then new_process A i stk entry name (proc_at s i) else proc_at s j)" for j
    using u(1) len unfolding s'_def by (subst proc_at_set_proc) (auto simp: pa pt)
  show "proc_at s' j = (if j = i then new_process A i stk entry name (proc_at s i) else proc_at s j)" by (rule at)
  show "length (procs s') = NPROC" using len pt by (simp add: s'_def)
  have "table_ok A s'" "none_running s'"
    using r u len pt at by (auto simp: ready_def table_ok_def none_running_def new_process_def ra_ok_def s'_def)
  moreover have "stacks_ok s'"
    using r u at t(1,2) stk unfolding stacks_ok_def ready_def by (auto simp: s'_def new_process_def)
  moreover have "uart_live s'" "current_process s' = None"
    using r pt by (auto simp: ready_def uart_live_def s'_def)
  ultimately show "ready A s'" by (simp add: ready_def)
qed

lemma proc_create_ready:
  assumes "ready A s" "proc_create A entry name s = Some (r, s')"
  shows "ready A s'"
proof -
  have "length (procs s) = NPROC" "alloc_inv s" "uart_live s"
    using assms(1) by (auto simp: ready_def table_ok_def stacks_ok_def)
  then show ?thesis
  proof (cases rule: proc_create_cases [where A = A and entry = entry and name = name])
    case (full k w)
    with assms ready_uart show ?thesis by auto
  next
    case (nomem i k w)
    with assms ready_uart show ?thesis by auto
  next
    case (made i stk t)
    with assms(2) proc_create_made(1) [OF assms(1) made(1,7,9,6,2-4)] show ?thesis by auto
  qed
qed

lemma spawn_ready: "ready A s \<Longrightarrow> spawn A es s = Some s' \<Longrightarrow> ready A s'"
proof (induction es arbitrary: s)
  case (Cons e es)
  then show ?case by (auto simp: bind_eq_Some_conv dest: proc_create_ready)
qed simp

lemma ready_start: "ready A s \<Longrightarrow> sched_inv A (L_scan 0 False, s)"
  by (simp add: ready_def)

section \<open>Properties\<close>

definition demo_code :: code where
  "demo_code = \<lparr>forkret_pc = 0x100, sched_pc = 0x200, yield_pc = 0x300\<rparr>"

definition idle_proc :: process where
  "idle_proc = \<lparr>pid = 0, state = PROC_UNUSED, stack = 0, saved = zero_context, entry_fn = 0,
     pname = replicate 16 0\<rparr>"

definition demo_kernel :: kernel where
  "demo_kernel = alloc.extend three_pages
     (kernel.fields (replicate 16 idle_proc) None zero_context zero_context)"

lemmas demo_kernel_defs = demo_kernel_def alloc.defs kernel.defs three_pages_def

lemma demo_kernel_facts:
  "length (procs demo_kernel) = NPROC" "alloc_inv demo_kernel" "uart_live demo_kernel"
  "free_pages demo_kernel = {0x80001000, 0x80002000, 0x80003000}" "procs demo_kernel = replicate 16 idle_proc"
proof -
  have "pages_ok demo_kernel xs = pages_ok three_pages xs" for xs
    by (simp add: demo_kernel_defs pages_ok_def heap_ok_def page_ok_def)
  then have ok: "pages_ok demo_kernel [0x80001000, 0x80002000, 0x80003000]" using three_pages_ok by simp
  show "alloc_inv demo_kernel" by (rule alloc_invI [OF ok])
  show "free_pages demo_kernel = {0x80001000, 0x80002000, 0x80003000}" using free_pages_eq [OF ok] by simp
  show "length (procs demo_kernel) = NPROC" "uart_live demo_kernel" "procs demo_kernel = replicate 16 idle_proc"
    by (auto simp: demo_kernel_defs NPROC_def uart_live_def LSR_TX_IDLE_def)
qed

lemma demo_ready: "ready demo_code (proc_init demo_kernel)"
  by (rule proc_init_ready [OF demo_kernel_facts(1-3)])

text \<open>One process in slot 0, created and then picked.\<close>

lemma demo_spawn:
  obtains s stk where "spawn demo_code [(0x400, None)] (proc_init demo_kernel) = Some s" "ready demo_code s"
    "proc_at s 0 = new_process demo_code 0 stk 0x400 None (proc_at (proc_init demo_kernel) 0)"
    "\<forall>j<NPROC. j \<noteq> 0 \<longrightarrow> state (proc_at s j) = PROC_UNUSED"
proof -
  let ?s = "proc_init demo_kernel"
  have r: "length (procs ?s) = NPROC" "alloc_inv ?s" "uart_live ?s"
    using demo_ready by (auto simp: ready_def table_ok_def stacks_ok_def)
  have un: "state (proc_at ?s j) = PROC_UNUSED" if "j < NPROC" for j
    using that by (simp add: proc_init_def proc_at_def demo_kernel_facts(5) NPROC_def)
  then have f: "find_unused (procs ?s) 0 = Some 0"
    by (subst find_unused.simps) (simp add: proc_at_def NPROC_def)
  have fr: "free_pages ?s \<noteq> {}"
    using demo_kernel_facts(4)
    by (simp add: proc_init_def free_pages_def pages_ok_def heap_ok_def page_ok_def)
  from r show ?thesis
  proof (cases rule: proc_create_cases [where A = demo_code and entry = "0x400" and name = None])
    case (made i stk u)
    then have "i = 0" using f by simp
    note m = proc_create_made [OF demo_ready made(1,7,9,6,2-4), of "0x400" None, unfolded this]
    show ?thesis
      using made(5) m un \<open>i = 0\<close> by (intro that [of _ stk]) (auto simp: NPROC_def)
  qed (use f fr in auto)
qed

lemma demo_run:
  obtains s where "spawn demo_code [(0x400, None)] (proc_init demo_kernel) = Some s"
    "kstep demo_code (L_scan 0 False, s) (L_run 0, sched_dispatch demo_code 0 s)"
    "ready demo_code s" "state (proc_at s 0) = PROC_RUNNABLE" "\<forall>j<NPROC. j \<noteq> 0 \<longrightarrow> state (proc_at s j) = PROC_UNUSED"
proof -
  obtain s stk where s: "spawn demo_code [(0x400, None)] (proc_init demo_kernel) = Some s" "ready demo_code s"
    "proc_at s 0 = new_process demo_code 0 stk 0x400 None (proc_at (proc_init demo_kernel) 0)"
    "\<forall>j<NPROC. j \<noteq> 0 \<longrightarrow> state (proc_at s j) = PROC_UNUSED"
    by (rule demo_spawn)
  have st: "state (proc_at s 0) = PROC_RUNNABLE" using s(3) by (simp add: new_process_def)
  have "sched_inv demo_code (enter_proc demo_code 0 (sched_dispatch demo_code 0 s), sched_dispatch demo_code 0 s)"
    using sched_inv_dispatch [OF ready_start [OF s(2)] _ st] by (simp add: NPROC_def)
  then have "enter_proc demo_code 0 (sched_dispatch demo_code 0 s) = L_run 0"
    by (auto simp: enter_proc_def split: if_splits)
  then have "kstep demo_code (L_scan 0 False, s) (L_run 0, sched_dispatch demo_code 0 s)"
    using kstep.pick [OF _ st refl, of demo_code False] by (simp add: NPROC_def)
  with s st that show ?thesis by blast
qed

lemma scan_idle:
  assumes "\<forall>j<NPROC. i \<le> j \<longrightarrow> state (proc_at s j) \<noteq> PROC_RUNNABLE" "i \<le> NPROC"
  shows "(\<lambda>d d'. kstep A d d' \<and> fst d' \<noteq> L_run k \<and> (\<forall>k. fst d \<noteq> L_run k))\<^sup>*\<^sup>* (L_scan i f, s) (L_scan NPROC f, s)"
  using assms
proof (induction "NPROC - i" arbitrary: i)
  case (Suc n)
  then have "kstep A (L_scan i f, s) (L_scan (Suc i) f, s)" by (intro kstep.skip) auto
  moreover have "(\<lambda>d d'. kstep A d d' \<and> fst d' \<noteq> L_run k \<and> (\<forall>k. fst d \<noteq> L_run k))\<^sup>*\<^sup>* (L_scan (Suc i) f, s) (L_scan NPROC f, s)"
    using Suc by (intro Suc.hyps(1)) auto
  ultimately show ?case by - (erule converse_rtranclp_into_rtranclp [rotated], simp)
qed simp

text \<open>
  C3. Safety of the scheduler, from \<open>proc_init\<close> and any sequence of \<open>proc_create\<close> on, for arbitrary
  process code: every switch goes to a return address of the kernel, exactly the process whose
  code executes is RUNNING and it is the current process, the scheduler never reaches its wait
  instruction, and it leaves its loop only when every process is unused or a zombie.
\<close>

theorem scheduler_safety:
  assumes "length (procs s0) = NPROC" "alloc_inv s0" "uart_live s0"
    and "spawn A es (proc_init s0) = Some s" "(kstep A)\<^sup>*\<^sup>* (L_scan 0 False, s) (l, s')"
  shows "l \<noteq> L_wild \<and> l \<noteq> L_wfi \<and>
    (\<forall>i<NPROC. state (proc_at s' i) = PROC_RUNNING \<longleftrightarrow> l = L_run i) \<and>
    current_process s' = (case l of L_run i \<Rightarrow> Some i | _ \<Rightarrow> None) \<and>
    (l = L_exit \<longrightarrow> (\<forall>i<NPROC. state (proc_at s' i) = PROC_UNUSED \<or> state (proc_at s' i) = PROC_ZOMBIE))"
proof -
  have "sched_inv A (l, s')"
    using sched.good_run [OF assms(5)] ready_start [OF spawn_ready [OF proc_init_ready [OF assms(1-3)] assms(4)]]
    by blast
  then show ?thesis
    by (cases l) (auto simp: none_running_def active_iff, metis proc_state.exhaust)
qed

theorem scheduler_safety_witness:
  "\<exists>s s'. spawn demo_code [(0x400, None)] (proc_init demo_kernel) = Some s \<and>
    (kstep demo_code)\<^sup>*\<^sup>* (L_scan 0 False, s) (L_run 0, s') \<and> state (proc_at s' 0) = PROC_RUNNING"
proof -
  obtain s where s: "spawn demo_code [(0x400, None)] (proc_init demo_kernel) = Some s"
    "kstep demo_code (L_scan 0 False, s) (L_run 0, sched_dispatch demo_code 0 s)"
    by (rule demo_run)
  then have r: "(kstep demo_code)\<^sup>*\<^sup>* (L_scan 0 False, s) (L_run 0, sched_dispatch demo_code 0 s)" by simp
  have "state (proc_at (sched_dispatch demo_code 0 s) 0) = PROC_RUNNING"
    using scheduler_safety [OF demo_kernel_facts(1-3) s(1) r] by (simp add: NPROC_def)
  with s(1) r show ?thesis by blast
qed

lemma yield_resumes:
  assumes "sched_inv A (L_run i, s)" "(\<lambda>d d'. kstep A d d' \<and> fst d' \<noteq> L_run i)\<^sup>*\<^sup>* (L_back i, yield A s) (l, s2)"
    and "kstep A (l, s2) (L_run i, s3)"
  shows "cpu s3 = (cpu s)\<lparr>reg_ra := yield_pc A\<rparr>" "sched_inv A (L_run i, s3)" "l \<noteq> L_run i"
proof -
  have i: "length (procs s) = NPROC" "current_process s = Some i" "i < NPROC"
    using assms(1) by (auto simp: table_ok_def)
  have g: "sched_inv A (L_back i, yield A s)"
  proof -
    have "enter_sched A i (yield A s) = L_back i"
      using assms(1) yield_effect(5) [OF i] by (simp add: enter_sched_def)
    then show ?thesis using sched_inv_leave [OF assms(1), of "yield A s"] by simp
  qed
  have r: "saved (proc_at (snd (l, s2)) i) = saved (proc_at (snd (L_back i, yield A s)) i) \<and>
      fst (l, s2) \<noteq> L_run i \<and> sched_inv A (l, s2)"
  proof (rule sched.stable_run [OF _ assms(2) g])
    fix d d'
    assume "sched_inv A d" "kstep A d d'" "fst d \<noteq> L_run i"
    with saved_kept i(3) show "saved (proc_at (snd d') i) = saved (proc_at (snd d) i) \<and>
        (fst d' \<noteq> L_run i \<or> fst d' = L_run i)" by blast
  qed simp
  with dispatch_loads [OF assms(3)] yield_effect(2) [OF i] show "cpu s3 = (cpu s)\<lparr>reg_ra := yield_pc A\<rparr>" by simp
  from r show "l \<noteq> L_run i" "sched_inv A (L_run i, s3)" using sched_inv_step [OF _ assms(3)] by simp_all
qed

text \<open>A process that is alone is picked again after it has yielded, with no other process running meanwhile.\<close>

lemma lone_process_picked:
  assumes inv: "sched_inv A (L_run 0, s)" and alone: "\<forall>j<NPROC. j \<noteq> 0 \<longrightarrow> state (proc_at s j) \<noteq> PROC_RUNNABLE"
  obtains t where "(\<lambda>d d'. kstep A d d' \<and> fst d' \<noteq> L_run 0 \<and> (\<forall>k. fst d \<noteq> L_run k))\<^sup>*\<^sup>* (L_back 0, yield A s) (L_scan 0 False, t)"
    "kstep A (L_scan 0 False, t) (L_run 0, sched_dispatch A 0 t)"
proof -
  let ?R = "\<lambda>d d'. kstep A d d' \<and> fst d' \<noteq> L_run 0 \<and> (\<forall>k. fst d \<noteq> L_run k)"
  have i: "length (procs s) = NPROC" "current_process s = Some 0" "0 < NPROC" and run: "state (proc_at s 0) = PROC_RUNNING"
    using inv by (auto simp: table_ok_def)
  define t where "t = (yield A s)\<lparr>current_process := None\<rparr>"
  have st: "state (proc_at t j) = (if j = 0 then PROC_RUNNABLE else state (proc_at s j))" for j
    using yield_effect(2) [OF i] run by (simp add: t_def)
  have "?R\<^sup>*\<^sup>* (L_back 0, yield A s) (L_scan (Suc 0) True, t)"
    using kstep.returned [of A 0 "yield A s"] by (simp add: t_def r_into_rtranclp)
  also have "?R\<^sup>*\<^sup>* \<dots> (L_scan NPROC True, t)"
    using st alone by (intro scan_idle) (auto simp: NPROC_def)
  also have "?R\<^sup>*\<^sup>* \<dots> (L_scan 0 False, t)"
    using kstep.again [of NPROC A t] by (simp add: r_into_rtranclp)
  finally have r: "?R\<^sup>*\<^sup>* (L_back 0, yield A s) (L_scan 0 False, t)" .
  have "cpu (sched_dispatch A 0 t) = (cpu s)\<lparr>reg_ra := yield_pc A\<rparr>"
    using sched_dispatch_effect(5) [of t 0 A] yield_effect(1,2) [OF i, of A] i(3) by (simp add: t_def)
  then have "kstep A (L_scan 0 False, t) (L_run 0, sched_dispatch A 0 t)"
    using kstep.pick [OF i(3) _ refl, of t A False] st by (simp add: enter_proc_def)
  with r show ?thesis by (rule that)
qed

lemma demo_running:
  obtains s :: kernel where "sched_inv demo_code (L_run 0, s)" "\<forall>j<NPROC. j \<noteq> 0 \<longrightarrow> state (proc_at s j) \<noteq> PROC_RUNNABLE"
    "uart_live s"
proof -
  obtain s0 where "spawn demo_code [(0x400, None)] (proc_init demo_kernel) = Some s0" and
    s0: "kstep demo_code (L_scan 0 False, s0) (L_run 0, sched_dispatch demo_code 0 s0)" "ready demo_code s0"
    and "state (proc_at s0 0) = PROC_RUNNABLE" and u: "\<forall>j<NPROC. j \<noteq> 0 \<longrightarrow> state (proc_at s0 j) = PROC_UNUSED"
    by (rule demo_run)
  have l: "length (procs s0) = NPROC" "0 < NPROC" using s0(2) by (simp_all add: ready_def table_ok_def NPROC_def)
  have "uart_live s0" using s0(2) by (simp add: ready_def)
  then have "uart_live (sched_dispatch demo_code 0 s0)"
    by (simp add: sched_dispatch_def call_swtch_def swtch_def ctx_store_def sched_mark_def set_proc_def uart_live_def Let_def)
  moreover have "sched_inv demo_code (L_run 0, sched_dispatch demo_code 0 s0)" using sched_inv_step [OF ready_start [OF s0(2)] s0(1)] .
  moreover have "\<forall>j<NPROC. j \<noteq> 0 \<longrightarrow> state (proc_at (sched_dispatch demo_code 0 s0) j) \<noteq> PROC_RUNNABLE"
    using u sched_dispatch_effect(2) [OF l] by simp
  ultimately show ?thesis using that by blast
qed

text \<open>
  C19. A process that has yielded resumes with the stack pointer and the callee-saved registers it
  had: whatever other processes and the scheduler do in between, the next switch to it loads the
  registers of the moment it yielded, with the return address inside \<open>yield\<close>.
\<close>

theorem yield_resumes_context:
  assumes "sched_inv A (L_run i, s)" "(\<lambda>d d'. kstep A d d' \<and> fst d' \<noteq> L_run i)\<^sup>*\<^sup>* (L_back i, yield A s) (l, s2)"
    and "kstep A (l, s2) (L_run i, s3)"
  shows "cpu s3 = (cpu s)\<lparr>reg_ra := yield_pc A\<rparr>"
  using assms by (rule yield_resumes(1))

theorem yield_resumes_context_witness:
  "\<exists>(s :: kernel) (s2 :: kernel) s3. sched_inv demo_code (L_run 0, s) \<and>
    kstep demo_code (L_scan 0 False, s2) (L_run 0, s3) \<and>
    cpu s3 = (cpu s)\<lparr>reg_ra := yield_pc demo_code\<rparr>"
proof -
  obtain s where inv: "sched_inv demo_code (L_run 0, s :: kernel)" "\<forall>j<NPROC. j \<noteq> 0 \<longrightarrow> state (proc_at s j) \<noteq> PROC_RUNNABLE"
    by (rule demo_running)
  obtain t where t: "(\<lambda>d d'. kstep demo_code d d' \<and> fst d' \<noteq> L_run 0 \<and> (\<forall>k. fst d \<noteq> L_run k))\<^sup>*\<^sup>*
      (L_back 0, yield demo_code s) (L_scan 0 False, t)"
    "kstep demo_code (L_scan 0 False, t) (L_run 0, sched_dispatch demo_code 0 t)"
    by (rule lone_process_picked [OF inv])
  have "(\<lambda>d d'. kstep demo_code d d' \<and> fst d' \<noteq> L_run 0)\<^sup>*\<^sup>* (L_back 0, yield demo_code s) (L_scan 0 False, t)"
    using t(1) by (rule rtranclp_mono [THEN predicate2D, rotated]) auto
  from yield_resumes_context [OF inv(1) this t(2)] inv t(2) show ?thesis by blast
qed

text \<open>
  C20. Round robin. Process \<open>i\<close> is running and process \<open>j\<close> is RUNNABLE. However the processes behave, the processes that
  the scheduler dispatches from then on, as long as \<open>j\<close> is not among them, come in strictly increasing cyclic
  order of their slots after \<open>i\<close>, and all lie between \<open>i\<close> and \<open>j\<close> in that order. So before \<open>j\<close> gets its turn process \<open>i\<close>
  is not run again and no other process is run twice. Meanwhile \<open>j\<close> stays RUNNABLE and the scheduler neither
  exits nor goes to sleep.
\<close>

theorem scheduler_round_robin:
  assumes "sched_inv A (L_run i, s)" "j < NPROC" "j \<noteq> i" "state (proc_at s j) = PROC_RUNNABLE"
    and "sched_run A (L_run i, s) ks (l, s')" "j \<notin> set ks"
  shows "sorted_wrt (<) (map (cyc_dist i) ks) \<and> (\<forall>k\<in>set ks. 0 < cyc_dist i k \<and> cyc_dist i k < cyc_dist i j) \<and>
    i \<notin> set ks \<and> distinct ks \<and> state (proc_at s' j) = PROC_RUNNABLE \<and> l \<noteq> L_exit \<and> l \<noteq> L_wfi"
proof -
  have i: "i < NPROC" using assms(1) by simp
  then have self: "cyc_dist i i = 0" and pos: "0 < cyc_dist i j" using assms(2,3) by (auto simp: cyc_dist_eq)
  then have "waiting i j (Suc 0) (L_run i, s)" using assms(4) i by (simp add: waiting_def)
  from waiting_run [OF assms(5,1) this i assms(2,6)] obtain m where m: "waiting i j m (l, s')"
    "sorted_wrt (<) (map (cyc_dist i) ks)" "\<forall>k\<in>set ks. 0 < cyc_dist i k \<and> cyc_dist i k < m" by blast
  then have "i \<notin> set ks" using self by auto
  moreover have "distinct ks" using m(2) by (simp add: distinct_map strict_sorted_iff)
  ultimately show ?thesis using m by (auto simp: waiting_def)
qed

text \<open>Three processes: 0 is running, 1 and 2 are runnable.\<close>

definition demo_three :: kernel where
  "demo_three = demo_kernel\<lparr>procs := (replicate 16 idle_proc)[0 := idle_proc\<lparr>state := PROC_RUNNING\<rparr>,
       1 := idle_proc\<lparr>state := PROC_RUNNABLE, saved := zero_context\<lparr>reg_ra := 0x100\<rparr>\<rparr>,
       2 := idle_proc\<lparr>state := PROC_RUNNABLE, saved := zero_context\<lparr>reg_ra := 0x100\<rparr>\<rparr>],
     current_process := Some 0, sched_context := zero_context\<lparr>reg_ra := 0x200\<rparr>\<rparr>"

lemma demo_three_inv: "sched_inv demo_code (L_run 0, demo_three)"
  by (auto simp: demo_three_def table_ok_def ra_ok_def none_running_def proc_at_def NPROC_def nth_list_update
      idle_proc_def demo_code_def)

theorem scheduler_round_robin_witness:
  "\<exists>s'. sched_run demo_code (L_run 0, demo_three) [1] (L_run 1, s') \<and> state (proc_at s' 2) = PROC_RUNNABLE \<and>
     cyc_dist 0 1 < cyc_dist 0 2"
proof -
  let ?A = demo_code and ?s = demo_three
  let ?t = "(yield ?A ?s)\<lparr>current_process := None\<rparr>"
  have y: "kstep ?A (L_run 0, ?s) (L_back 0, yield ?A ?s)"
    using kstep.yields [OF refl, of ?A 0 ?s] sched_inv_step [OF demo_three_inv kstep.yields [OF refl]]
    by (auto simp: enter_sched_def split: if_splits)
  have p: "length (procs ?s) = NPROC" "current_process ?s = Some 0" "0 < NPROC" "state (proc_at ?s 1) = PROC_RUNNABLE"
    "state (proc_at ?s 2) = PROC_RUNNABLE"
    by (simp_all add: demo_three_def NPROC_def proc_at_def)
  have r: "kstep ?A (L_back 0, yield ?A ?s) (L_scan 1 True, ?t)" using kstep.returned [of ?A 0] by simp
  have i: "sched_inv ?A (L_scan 1 True, ?t)" using sched_inv_step [OF sched_inv_step [OF demo_three_inv y] r] .
  have s1: "state (proc_at ?t 1) = PROC_RUNNABLE" using yield_effect(2) [OF p(1-3), of ?A 1] p(4) by simp
  have one: "1 < NPROC" by (simp add: NPROC_def)
  from kstep.pick [OF one s1 refl, of ?A True] sched_inv_step [OF i kstep.pick [OF one s1 refl]]
  have d: "kstep ?A (L_scan 1 True, ?t) (L_run 1, sched_dispatch ?A 1 ?t)" by (auto simp: enter_proc_def split: if_splits)
  have run: "sched_run ?A (L_run 0, ?s) [1] (L_run 1, sched_dispatch ?A 1 ?t)"
    using sched_run.more [OF sched_run.more [OF sched_run.more [OF sched_run.here y] r] d] by (simp add: picked_def)
  from scheduler_round_robin [OF demo_three_inv _ _ p(5) this] run show ?thesis by (auto simp: NPROC_def)
qed

lemma zombie_step:
  assumes "sched_inv A d" "kstep A d d'" "i < NPROC" "state (proc_at (snd d) i) = PROC_ZOMBIE"
  shows "state (proc_at (snd d') i) = PROC_ZOMBIE"
  using assms(2,1,4)
proof (cases rule: kstep.cases)
  case (pick k s s' found)
  with assms show ?thesis by (auto simp: table_ok_def sched_dispatch_effect)
next
  case (exit k s s')
  from uart_puts_frame [OF exit(5)] exit assms show ?thesis by auto
next
  case (user s s' k)
  with assms show ?thesis by (simp add: user_step_def proc_at_def)
next
  case (yields s' s k)
  with assms show ?thesis by (auto simp: table_ok_def yield_effect)
next
  case (finish s s' k)
  with assms have "length (procs s) = NPROC" "current_process s = Some k" "k < NPROC" by (auto simp: table_ok_def)
  from forkret_exit_effect(2) [OF this finish(3)] finish assms show ?thesis by auto
qed auto

text \<open>
  A finished process stays a zombie and its code never executes again.
\<close>

theorem zombie_never_runs:
  assumes "sched_inv A (l, s)" "i < NPROC" "state (proc_at s i) = PROC_ZOMBIE" "(kstep A)\<^sup>*\<^sup>* (l, s) (l', s')"
  shows "state (proc_at s' i) = PROC_ZOMBIE \<and> l' \<noteq> L_run i"
proof -
  have "sched_inv A d \<and> state (proc_at (snd d) i) = PROC_ZOMBIE" if "(kstep A)\<^sup>*\<^sup>* (l, s) d" for d
    using that assms(1-3) by (induction rule: rtranclp_induct) (auto dest: sched_inv_step zombie_step)
  from this [OF assms(4)] show ?thesis by auto
qed

text \<open>A kernel whose only process has finished.\<close>

definition finished_kernel :: kernel where
  "finished_kernel = demo_kernel\<lparr>procs := replicate 16 (idle_proc\<lparr>state := PROC_ZOMBIE\<rparr>)\<rparr>"

theorem zombie_never_runs_witness:
  "state (proc_at finished_kernel 0) = PROC_ZOMBIE \<and> L_scan 1 False \<noteq> L_run 0"
proof -
  have z: "state (proc_at finished_kernel i) = PROC_ZOMBIE" if "i < NPROC" for i
    using that by (simp add: finished_kernel_def proc_at_def NPROC_def)
  have c: "current_process finished_kernel = None" "length (procs finished_kernel) = NPROC"
    by (simp_all add: finished_kernel_def demo_kernel_defs NPROC_def)
  have inv: "sched_inv demo_code (L_scan 0 False, finished_kernel)"
    using z c by (auto simp: table_ok_def none_running_def)
  have n: "0 < NPROC" by (simp add: NPROC_def)
  have "kstep demo_code (L_scan 0 False, finished_kernel) (L_scan (Suc 0) False, finished_kernel)"
    by (rule kstep.skip) (simp_all add: n z)
  then have "(kstep demo_code)\<^sup>*\<^sup>* (L_scan 0 False, finished_kernel) (L_scan 1 False, finished_kernel)" by simp
  from zombie_never_runs [OF inv n z [OF n] this] show ?thesis by simp
qed

text \<open>
  C26. \<open>proc_create\<close> returns and either takes the first unused slot, whose process is then RUNNABLE
  with the pid of its slot, a fresh page as its stack, the stack pointer at the top of that page and
  the entry wrapper as return address, printing nothing, or answers NULL. It does the latter exactly when
  no slot is unused or no page is free, and then all that has changed is the console output, by the message for
  the failure it met. The stacks of all processes are distinct pages that are not free, before and after.
\<close>

theorem proc_create_correct:
  assumes "ready A s"
  shows "\<exists>r s'. proc_create A entry name s = Some (r, s') \<and> ready A s' \<and>
    (case r of
       None \<Rightarrow>
         (if \<forall>i<NPROC. state (proc_at s i) \<noteq> PROC_UNUSED then uart_emits s msg_no_slots s'
          else free_pages s = {} \<and> uart_emits s msg_no_stack s')
     | Some i \<Rightarrow> i < NPROC \<and> state (proc_at s i) = PROC_UNUSED \<and> (\<forall>j<i. state (proc_at s j) \<noteq> PROC_UNUSED) \<and>
         (\<exists>stk\<in>free_pages s. free_pages s' = free_pages s - {stk} \<and>
            proc_at s' i = new_process A i stk entry name (proc_at s i)) \<and>
         (\<forall>j. j \<noteq> i \<longrightarrow> proc_at s' j = proc_at s j) \<and> uart_wr s' = uart_wr s)"
proof -
  have r: "length (procs s) = NPROC" "alloc_inv s" "uart_live s"
    using assms by (auto simp: ready_def table_ok_def stacks_ok_def)
  then show ?thesis
  proof (cases rule: proc_create_cases [where A = A and entry = entry and name = name])
    case (full k w)
    then show ?thesis using assms by (auto simp: find_unused_None intro!: ready_uart)
  next
    case (nomem i k w)
    then have "\<not> (\<forall>i<NPROC. state (proc_at s i) \<noteq> PROC_UNUSED)" using find_unused_Some [OF nomem(1)] by blast
    with nomem show ?thesis using assms by (auto intro!: ready_uart)
  next
    case (made i stk t)
    note m = proc_create_made [OF assms made(1,7,9,6,2-4), of entry name]
    have "free_pages (set_proc i (\<lambda>p. new_process A i stk entry name p) t) = free_pages s - {stk}"
      using made(9) by simp
    moreover have "uart_wr (set_proc i (\<lambda>p. new_process A i stk entry name p) t) = uart_wr s"
      using made(6) by (auto simp: set_proc_def)
    ultimately show ?thesis
      using made(2,5) m find_unused_Some [OF made(1)] by auto
  qed
qed

theorem proc_create_correct_witness:
  "\<exists>r s'. proc_create demo_code 0x400 None (proc_init demo_kernel) = Some (r, s') \<and> ready demo_code s'"
  using proc_create_correct [OF demo_ready, of "0x400" None] by blast

text \<open>
  The name of a process is the given string cut to 15 characters and always terminated inside
  the 16 bytes of the field.
\<close>

theorem proc_name_truncated:
  assumes "length (pname p) = 16"
  shows "takeWhile (\<lambda>c. c \<noteq> 0) (pname (new_process A i stk entry (Some name) p)) =
      take 15 (takeWhile (\<lambda>c. c \<noteq> 0) name) \<and>
    length (pname (new_process A i stk entry (Some name) p)) = 16"
  using copy_name_text [of "pname p" 0 name] assms by (simp add: new_process_def)

theorem proc_name_truncated_witness:
  "takeWhile (\<lambda>c. c \<noteq> 0) (pname (new_process demo_code 0 0x80001000 0x400 (Some (lit ''taskA'')) idle_proc)) =
    lit ''taskA''"
  using proc_name_truncated [of idle_proc demo_code 0 "0x80001000" "0x400" "lit ''taskA''"]
  by (simp add: idle_proc_def)

end
