(* ===== verification/Trap.thy ===== *)
theory Trap
  imports Process
begin

text \<open>
  Traps and the timer: \<^verbatim>\<open>src/src/kernel/trap.c\<close>, \<^verbatim>\<open>src/include/kernel/trap.h\<close>,
  \<^verbatim>\<open>src/include/kernel/timer.h\<close> and the two assembly entry points
  \<^verbatim>\<open>src/src/asm/trap.S\<close> (supervisor mode) and \<^verbatim>\<open>src/src/asm/mtrap.S\<close> (machine mode).

  A trap context is the 36 double words \<^verbatim>\<open>trap.S\<close> stores on the interrupted stack, read by
  the C code through a pointer; \<open>ctx_word m ctx k\<close> is its k-th word. The general registers,
  the program counter and the trap registers of the hart are the record \<open>hart\<close>.

  The C handlers return \<open>None\<close> where they wait for ever for the UART; the two ways they can
  stop otherwise are values: \<open>Halted s\<close> for an empty endless loop entered in state \<open>s\<close>, and
  \<open>Bad_name s\<close> for a read outside the table of exception names, or of one of its NULL entries.

  The lemmas show that entry and exit of \<^verbatim>\<open>trap.S\<close> and \<^verbatim>\<open>mtrap.S\<close> are transparent to the
  interrupted code, what \<open>trap_handler\<close> does on every branch with the text it prints, and
  that the machine-mode timer and the pending supervisor interrupt alternate.
\<close>

declare lit_Cons [simp del]

section \<open>Cause codes and control registers\<close>

definition SCAUSE_INTR_FLAG :: u64 where "SCAUSE_INTR_FLAG = push_bit 63 1"

definition IRQ_S_SOFT :: u64 where "IRQ_S_SOFT = 1"
definition IRQ_S_TIMER :: u64 where "IRQ_S_TIMER = 5"
definition IRQ_S_EXT :: u64 where "IRQ_S_EXT = 9"

definition EXC_INST_MISALIGNED :: u64 where "EXC_INST_MISALIGNED = 0"
definition EXC_INST_FAULT :: u64 where "EXC_INST_FAULT = 1"
definition EXC_ILLEGAL_INST :: u64 where "EXC_ILLEGAL_INST = 2"
definition EXC_BREAKPOINT :: u64 where "EXC_BREAKPOINT = 3"
definition EXC_LOAD_MISALIGNED :: u64 where "EXC_LOAD_MISALIGNED = 4"
definition EXC_LOAD_FAULT :: u64 where "EXC_LOAD_FAULT = 5"
definition EXC_STORE_MISALIGNED :: u64 where "EXC_STORE_MISALIGNED = 6"
definition EXC_STORE_FAULT :: u64 where "EXC_STORE_FAULT = 7"
definition EXC_ENV_CALL_U :: u64 where "EXC_ENV_CALL_U = 8"
definition EXC_ENV_CALL_S :: u64 where "EXC_ENV_CALL_S = 9"
definition EXC_INST_PAGE_FAULT :: u64 where "EXC_INST_PAGE_FAULT = 12"
definition EXC_LOAD_PAGE_FAULT :: u64 where "EXC_LOAD_PAGE_FAULT = 13"
definition EXC_STORE_PAGE_FAULT :: u64 where "EXC_STORE_PAGE_FAULT = 15"

definition intr_on :: "'a machine_scheme \<Rightarrow> 'a machine_scheme" where
  "intr_on s = s\<lparr>sstatus := csr_set (sstatus s) (push_bit 1 1)\<rparr>"

definition intr_off :: "'a machine_scheme \<Rightarrow> 'a machine_scheme" where
  "intr_off s = s\<lparr>sstatus := csr_clear (sstatus s) (push_bit 1 1)\<rparr>"

definition r_sstatus :: "'a machine_scheme \<Rightarrow> u64" where "r_sstatus s = sstatus s"

definition w_sstatus :: "u64 \<Rightarrow> 'a machine_scheme \<Rightarrow> 'a machine_scheme" where
  "w_sstatus v s = s\<lparr>sstatus := v\<rparr>"

definition r_stvec :: "'a machine_scheme \<Rightarrow> u64" where "r_stvec s = stvec s"

definition w_stvec :: "u64 \<Rightarrow> 'a machine_scheme \<Rightarrow> 'a machine_scheme" where
  "w_stvec v s = s\<lparr>stvec := v\<rparr>"

text \<open>The supervisor views \<^verbatim>\<open>sie\<close> and \<^verbatim>\<open>sip\<close> share their bits with \<^verbatim>\<open>mie\<close> and \<^verbatim>\<open>mip\<close>.\<close>

definition sie_enable_software :: "'a machine_scheme \<Rightarrow> 'a machine_scheme" where
  "sie_enable_software s = s\<lparr>mie := csr_set (mie s) (push_bit 1 1)\<rparr>"

definition sie_enable_timer :: "'a machine_scheme \<Rightarrow> 'a machine_scheme" where
  "sie_enable_timer s = s\<lparr>mie := csr_set (mie s) (push_bit 5 1)\<rparr>"

definition sie_enable_external :: "'a machine_scheme \<Rightarrow> 'a machine_scheme" where
  "sie_enable_external s = s\<lparr>mie := csr_set (mie s) (push_bit 9 1)\<rparr>"

definition enable_timer_interrupt :: "'a machine_scheme \<Rightarrow> 'a machine_scheme" where
  "enable_timer_interrupt s = s\<lparr>mie := csr_set (mie s) (push_bit 5 1)\<rparr>"

definition disable_timer_interrupt :: "'a machine_scheme \<Rightarrow> 'a machine_scheme" where
  "disable_timer_interrupt s = s\<lparr>mie := csr_clear (mie s) (push_bit 5 1)\<rparr>"

section \<open>The hart's registers and the supervisor trap vector\<close>

record hart =
  gpr :: "nat \<Rightarrow> u64"
  pc :: u64
  sepc :: u64
  scause :: u64
  stval :: u64

definition r_sepc :: "hart \<Rightarrow> u64" where "r_sepc h = sepc h"
definition w_sepc :: "u64 \<Rightarrow> hart \<Rightarrow> hart" where "w_sepc v h = h\<lparr>sepc := v\<rparr>"
definition r_scause :: "hart \<Rightarrow> u64" where "r_scause h = scause h"
definition r_stval :: "hart \<Rightarrow> u64" where "r_stval h = stval h"

text \<open>Double words at consecutive offsets from a base, as the \<^verbatim>\<open>sd\<close> and \<^verbatim>\<open>ld\<close> instructions of the
  assembly files address them.\<close>

definition ctx_word :: "memory \<Rightarrow> u64 \<Rightarrow> nat \<Rightarrow> u64" where
  "ctx_word m ctx k = ld64 m (ctx + 8 * of_nat k)"

definition st_words :: "u64 \<Rightarrow> (nat \<times> u64) list \<Rightarrow> memory \<Rightarrow> memory" where
  "st_words p kvs m = fold (\<lambda>(k, v) m. st64 m (p + 8 * of_nat k) v) kvs m"

text \<open>What the hardware does when it takes a trap in supervisor mode.\<close>

definition set_bit_to :: "nat \<Rightarrow> bool \<Rightarrow> u64 \<Rightarrow> u64" where
  "set_bit_to n b r = (if b then csr_set r (push_bit n 1) else csr_clear r (push_bit n 1))"

definition take_trap :: "u64 \<Rightarrow> u64 \<Rightarrow> hart \<times> 'a machine_scheme \<Rightarrow> hart \<times> 'a machine_scheme" where
  "take_trap cause tval = (\<lambda>(h, s).
     (h\<lparr>sepc := pc h, scause := cause, stval := tval, pc := stvec s\<rparr>,
      s\<lparr>sstatus := set_bit_to 8 True (set_bit_to 1 False (set_bit_to 5 (bit (sstatus s) 1) (sstatus s)))\<rparr>))"

definition sret :: "hart \<times> 'a machine_scheme \<Rightarrow> hart \<times> 'a machine_scheme" where
  "sret = (\<lambda>(h, s).
     (h\<lparr>pc := sepc h\<rparr>,
      s\<lparr>sstatus := set_bit_to 8 False (set_bit_to 5 True (set_bit_to 1 (bit (sstatus s) 5) (sstatus s)))\<rparr>))"

text \<open>\<^verbatim>\<open>trap_vector\<close> up to the call of the C handler: the frame holds registers 1 to 31, then the four
  supervisor registers, which pass through \<^verbatim>\<open>t0\<close>; the frame's address is the argument.\<close>

definition trap_save :: "hart \<times> 'a machine_scheme \<Rightarrow> hart \<times> 'a machine_scheme" where
  "trap_save = (\<lambda>(h, s).
     let sp = gpr h 2 - 288
     in (h\<lparr>gpr := (gpr h)(2 := sp, 5 := stval h, 10 := sp)\<rparr>,
         s\<lparr>mem := st_words sp
            ([(1, gpr h 1), (5, gpr h 5), (2, sp + 288)] @
             map (\<lambda>i. (i, gpr h i)) ([3, 4] @ [6..<32]) @
             [(32, sstatus s), (33, sepc h), (34, scause h), (35, stval h)]) (mem s)\<rparr>))"

text \<open>And from its return on.\<close>

definition trap_restore :: "hart \<times> 'a machine_scheme \<Rightarrow> hart \<times> 'a machine_scheme" where
  "trap_restore = (\<lambda>(h, s).
     let sp = gpr h 2;
         m = mem s;
         s = s\<lparr>sstatus := ctx_word m sp 32\<rparr>;
         h = h\<lparr>sepc := ctx_word m sp 33\<rparr>;
         h = h\<lparr>gpr := fold (\<lambda>i g. g(i := ctx_word m sp i)) ([1, 3, 4] @ [5..<32]) (gpr h)\<rparr>;
         h = h\<lparr>gpr := (gpr h)(2 := ctx_word m sp 2)\<rparr>
     in sret (h, s))"

section \<open>The machine-mode trap vector\<close>

record mhart = hart +
  mcause :: u64
  mepc :: u64
  mscratch :: u64

text \<open>\<^verbatim>\<open>mscratch\<close> holds the top of the machine-mode stack; its value and \<^verbatim>\<open>t0\<close> (register 5) are swapped
  first. Registers 6, 7, 10 and 17 are \<^verbatim>\<open>t1\<close>, \<^verbatim>\<open>t2\<close>, \<^verbatim>\<open>a0\<close> and \<^verbatim>\<open>a7\<close>.\<close>

definition mtrap_save :: "mhart \<times> 'a machine_scheme \<Rightarrow> mhart \<times> 'a machine_scheme" where
  "mtrap_save = (\<lambda>(h, s).
     let old = gpr h 5;
         t0 = mscratch h - 40
     in (h\<lparr>gpr := (gpr h)(5 := t0, 6 := mcause h), mscratch := old\<rparr>,
         s\<lparr>mem := st_words t0 [(0, gpr h 6), (1, gpr h 7), (2, gpr h 10), (3, gpr h 17), (4, old)] (mem s)\<rparr>))"

definition mtrap_return :: "mhart \<times> 'a machine_scheme \<Rightarrow> mhart \<times> 'a machine_scheme" where
  "mtrap_return = (\<lambda>(h, s).
     let t0 = gpr h 5;
         m = mem s;
         h = h\<lparr>gpr := (gpr h)(7 := ctx_word m t0 1, 10 := ctx_word m t0 2, 17 := ctx_word m t0 3)\<rparr>;
         h = h\<lparr>mscratch := t0 + 40\<rparr>;
         h = h\<lparr>gpr := (gpr h)(6 := ctx_word m t0 0, 5 := ctx_word m t0 4)\<rparr>
     in (h\<lparr>pc := mepc h\<rparr>, s))"

text \<open>The effect of the timer call on the machine: the compare register, the pending supervisor timer
  interrupt (bit 5) and the machine timer enable (bit 7).\<close>

definition m_set_timer :: "u64 \<Rightarrow> 'a machine_scheme \<Rightarrow> 'a machine_scheme" where
  "m_set_timer a0 s =
     s\<lparr>mtimecmp := a0, mip := csr_clear (mip s) 0x20, mie := csr_set (mie s) 0x80\<rparr>"

definition m_timer_interrupt :: "'a machine_scheme \<Rightarrow> 'a machine_scheme" where
  "m_timer_interrupt s = s\<lparr>mie := csr_clear (mie s) 0x80, mip := csr_set (mip s) 0x20\<rparr>"

definition m_panic :: "'a machine_scheme \<Rightarrow> 'a machine_scheme" where
  "m_panic s = fold (uart_write UART_THR) [77, 80, 97, 110, 105, 99, 10] s"

text \<open>A left result is the panic loop, entered in that state.\<close>

definition mtrap_vector ::
  "mhart \<times> 'a machine_scheme \<Rightarrow> 'a machine_scheme + mhart \<times> 'a machine_scheme" where
  "mtrap_vector hs =
     (let (h, s) = mtrap_save hs;
          t1 = gpr h 6
      in if t1 <s 0 then
           if drop_bit 1 (push_bit 1 t1) \<noteq> 7 then Inl (m_panic s)
           else Inr (mtrap_return (h, m_timer_interrupt s))
         else if t1 \<noteq> 9 then Inl (m_panic s)
         else if gpr h 17 \<noteq> 0 then Inl (m_panic s)
         else Inr (mtrap_return (h\<lparr>mepc := mepc h + 4\<rparr>, m_set_timer (gpr h 10) s)))"

section \<open>The timer calls of the kernel\<close>

definition get_time :: "'a machine_scheme \<Rightarrow> u64 \<times> 'a machine_scheme" where
  "get_time s = (time_in s (time_rd s), s\<lparr>time_rd := Suc (time_rd s)\<rparr>)"

text \<open>The \<^verbatim>\<open>ecall\<close> of \<open>set_timer\<close> is served by \<^verbatim>\<open>mtrap_vector\<close>, whose effect on the machine is
  \<open>m_set_timer\<close>.\<close>

definition set_timer :: "u64 \<Rightarrow> 'a machine_scheme \<Rightarrow> 'a machine_scheme" where
  "set_timer interval s =
     (let (current_time, s) = get_time s;
          next_time = current_time + interval
      in m_set_timer next_time s)"

section \<open>The C handlers\<close>

datatype 's stop = Halted 's | Bad_name 's

definition exception_names :: "u8 list option list" where
  "exception_names =
    [Some (lit ''Instruction Address Misaligned''),
     Some (lit ''Instruction Access Fault''),
     Some (lit ''Illegal Instruction''),
     Some (lit ''Breakpoint''),
     Some (lit ''Load Address Misaligned''),
     Some (lit ''Load Access Fault''),
     Some (lit ''Store/AMO Address Misaligned''),
     Some (lit ''Store/AMO Access Fault''),
     Some (lit ''Environment Call from U-mode''),
     Some (lit ''Environment Call from S-mode''),
     None, None,
     Some (lit ''Instruction Page Fault''),
     Some (lit ''Load Page Fault''),
     None,
     Some (lit ''Store/AMO Page Fault'')]"

definition exception_name :: "u64 \<Rightarrow> u8 list option" where
  "exception_name cause =
     (if unat cause < length exception_names then exception_names ! unat cause else None)"

definition reg_names :: "u8 list list" where
  "reg_names = map lit
    [''zero'', ''ra'', ''sp'', ''gp'', ''tp'', ''t0'', ''t1'', ''t2'',
     ''s0'', ''s1'', ''a0'', ''a1'', ''a2'', ''a3'', ''a4'', ''a5'',
     ''a6'', ''a7'', ''s2'', ''s3'', ''s4'', ''s5'', ''s6'', ''s7'',
     ''s8'', ''s9'', ''s10'', ''s11'', ''t3'', ''t4'', ''t5'', ''t6'']"

definition nl :: "u8 list" where "nl = lit [CHR 0x0A]"

text \<open>\<^verbatim>\<open>for (int j = len; j < 5; j++) uart_putc(' ')\<close>\<close>

primrec put_spaces :: "nat \<Rightarrow> 'a machine_scheme \<Rightarrow> 'a machine_scheme option" where
  "put_spaces 0 s = Some s"
| "put_spaces (Suc n) s = Option.bind (uart_putc 32 s) (put_spaces n)"

definition dump_reg :: "u64 \<Rightarrow> nat \<Rightarrow> 'a machine_scheme \<Rightarrow> 'a machine_scheme option" where
  "dump_reg ctx i s = do {
     s \<leftarrow> uart_puts (reg_names ! i) s;
     s \<leftarrow> put_spaces (5 - length (reg_names ! i)) s;
     s \<leftarrow> uart_puts (lit '': '') s;
     s \<leftarrow> print_hex64 (ctx_word (mem s) ctx i) s;
     if i mod 2 = 1 then uart_puts nl s else uart_puts (lit ''  '') s
   }"

function dump_loop :: "u64 \<Rightarrow> nat \<Rightarrow> 'a machine_scheme \<Rightarrow> 'a machine_scheme option" where
  "dump_loop ctx i s = (if i < 32 then Option.bind (dump_reg ctx i s) (dump_loop ctx (Suc i)) else Some s)"
  by pat_completeness auto
termination
  by (relation "measure (\<lambda>(ctx, i, s). 32 - i)") auto

declare dump_loop.simps [simp del]

definition dump_registers :: "u64 \<Rightarrow> 'a machine_scheme \<Rightarrow> 'a machine_scheme option" where
  "dump_registers ctx s = do {
     s \<leftarrow> uart_puts (lit (''--- Register Dump ---'' @ [CHR 0x0A])) s;
     s \<leftarrow> uart_puts (lit ''sepc:   '') s;
     s \<leftarrow> print_hex64 (ctx_word (mem s) ctx 33) s;
     s \<leftarrow> uart_puts (lit ''  sstatus: '') s;
     s \<leftarrow> print_hex64 (ctx_word (mem s) ctx 32) s;
     s \<leftarrow> uart_puts nl s;
     s \<leftarrow> uart_puts (lit ''scause: '') s;
     s \<leftarrow> print_hex64 (ctx_word (mem s) ctx 34) s;
     s \<leftarrow> uart_puts (lit ''  stval:   '') s;
     s \<leftarrow> print_hex64 (ctx_word (mem s) ctx 35) s;
     s \<leftarrow> uart_puts nl s;
     s \<leftarrow> dump_loop ctx 0 s;
     uart_puts (lit ([CHR 0x0A] @ ''---------------------'' @ [CHR 0x0A])) s
   }"

text \<open>The address of \<^verbatim>\<open>trap_vector\<close> is an argument.\<close>

definition trap_init :: "u64 \<Rightarrow> 'a machine_scheme \<Rightarrow> 'a machine_scheme" where
  "trap_init trap_vector s = w_stvec trap_vector s"

definition handle_software_interrupt :: "u64 \<Rightarrow> 'a machine_scheme \<Rightarrow> 'a machine_scheme option" where
  "handle_software_interrupt ctx s = do {
     s \<leftarrow> uart_puts (lit (''Software interrupt received'' @ [CHR 0x0A])) s;
     Some (s\<lparr>mip := csr_clear (mip s) (push_bit 1 1)\<rparr>)
   }"

definition handle_timer_interrupt :: "code \<Rightarrow> u64 \<Rightarrow> 'a kernel_scheme \<Rightarrow> 'a kernel_scheme option" where
  "handle_timer_interrupt A ctx s = do {
     s \<leftarrow> uart_puts (lit ''Current time: '') s;
     let (t, s) = get_time s;
     s \<leftarrow> uart_dec64 t s;
     s \<leftarrow> uart_puts nl s;
     let s = set_timer 10000000 s;
     Some (yield A s)
   }"

definition handle_external_interrupt :: "u64 \<Rightarrow> 'a machine_scheme \<Rightarrow> 'a machine_scheme option" where
  "handle_external_interrupt ctx s = uart_puts (lit (''External interrupt received'' @ [CHR 0x0A])) s"

definition handle_load_page_fault :: "u64 \<Rightarrow> 'a machine_scheme \<Rightarrow> 'a machine_scheme option" where
  "handle_load_page_fault ctx s = Some s"

definition known_exceptions :: "u64 list" where
  "known_exceptions =
    [EXC_INST_MISALIGNED, EXC_INST_FAULT, EXC_ILLEGAL_INST, EXC_BREAKPOINT, EXC_LOAD_MISALIGNED,
     EXC_LOAD_FAULT, EXC_STORE_MISALIGNED, EXC_STORE_FAULT, EXC_ENV_CALL_U, EXC_ENV_CALL_S,
     EXC_INST_PAGE_FAULT, EXC_LOAD_PAGE_FAULT, EXC_STORE_PAGE_FAULT]"

definition handle_exception ::
  "u64 \<Rightarrow> 'a machine_scheme \<Rightarrow> ('a machine_scheme stop + 'a machine_scheme) option" where
  "handle_exception ctx s = do {
     s \<leftarrow> uart_puts (lit ''Kernel exception occurred: scause = '') s;
     s \<leftarrow> print_hex64 (ctx_word (mem s) ctx 34) s;
     s \<leftarrow> uart_puts (lit '', sepc = '') s;
     s \<leftarrow> print_hex64 (ctx_word (mem s) ctx 33) s;
     s \<leftarrow> uart_puts (lit '', stval = '') s;
     s \<leftarrow> print_hex64 (ctx_word (mem s) ctx 35) s;
     s \<leftarrow> uart_puts nl s;
     s \<leftarrow> dump_registers ctx s;
     s \<leftarrow> uart_puts (lit ''Exception: '') s;
     let cause = ctx_word (mem s) ctx 34;
     case exception_name cause of
       None \<Rightarrow> Some (Inl (Bad_name s))
     | Some name \<Rightarrow> do {
         s \<leftarrow> uart_puts name s;
         s \<leftarrow> uart_puts nl s;
         s \<leftarrow> (if cause \<in> set known_exceptions then Some s
              else do {
                s \<leftarrow> uart_puts (lit ''Unknown exception code: '') s;
                s \<leftarrow> print_hex64 cause s;
                uart_puts nl s
              });
         s \<leftarrow> uart_puts (lit (''Kernel panic: S-mode exception unhandled. Halted.'' @ [CHR 0x0A])) s;
         Some (Inl (Halted s))
       }
   }"

definition trap_handler ::
  "code \<Rightarrow> u64 \<Rightarrow> 'a kernel_scheme \<Rightarrow> ('a kernel_scheme stop + 'a kernel_scheme) option" where
  "trap_handler A ctx s =
     (let cause = ctx_word (mem s) ctx 34
      in if cause AND SCAUSE_INTR_FLAG \<noteq> 0 then do {
           let irq_code = cause AND NOT SCAUSE_INTR_FLAG;
           s \<leftarrow> uart_puts (lit ''Interrupt received: scause = '') s;
           s \<leftarrow> print_hex64 cause s;
           s \<leftarrow> uart_puts (lit '', irq_code = '') s;
           s \<leftarrow> print_hex64 irq_code s;
           s \<leftarrow> uart_puts nl s;
           if irq_code = IRQ_S_SOFT then map_option Inr (handle_software_interrupt ctx s)
           else if irq_code = IRQ_S_TIMER then map_option Inr (handle_timer_interrupt A ctx s)
           else if irq_code = IRQ_S_EXT then map_option Inr (handle_external_interrupt ctx s)
           else do {
             s \<leftarrow> uart_puts (lit ''Unhandled S-mode interrupt: '') s;
             s \<leftarrow> print_hex64 irq_code s;
             s \<leftarrow> uart_puts nl s;
             Some (Inl (Halted s))
           }
         }
         else handle_exception ctx s)"

section \<open>Frames of double words\<close>

lemma word_slots_disj:
  assumes "i \<noteq> j" "i < 2 ^ 60" "j < 2 ^ 60"
  shows "rng_disj (p + 8 * of_nat i) 8 (p + 8 * of_nat j) 8"
proof -
  have off: "unat (x - p) = 8 * k + unat (x - (p + 8 * of_nat k))"
    if "in_rng (p + 8 * of_nat k) 8 x" "k < 2 ^ 60" for k x
  proof -
    define r where "r = x - (p + 8 * of_nat k)"
    have r: "unat r < 8" using that(1) by (simp add: in_rng_def r_def)
    have "x - p = 8 * of_nat k + r" by (simp add: r_def)
    also have "\<dots> = of_nat (8 * k + unat r)" by simp
    finally have "x - p = of_nat (8 * k + unat r)" .
    moreover have "8 * k + unat r < 2 ^ LENGTH(64)" using r that(2) by simp
    ultimately show ?thesis unfolding r_def by (simp only: unat_of_nat_lt)
  qed
  show ?thesis
    unfolding rng_disj_def
  proof (intro allI notI, elim conjE)
    fix x
    assume a: "in_rng (p + 8 * of_nat i) 8 x" and b: "in_rng (p + 8 * of_nat j) 8 x"
    have "8 * i + unat (x - (p + 8 * of_nat i)) = 8 * j + unat (x - (p + 8 * of_nat j))"
      using off [OF a assms(2)] off [OF b assms(3)] by simp
    moreover have "unat (x - (p + 8 * of_nat i)) < 8" "unat (x - (p + 8 * of_nat j)) < 8"
      using a b by (simp_all add: in_rng_def)
    ultimately show False using assms(1) by linarith
  qed
qed

lemma ctx_word_st64:
  assumes "i < 2 ^ 60" "j < 2 ^ 60"
  shows "ctx_word (st64 m (p + 8 * of_nat j) v) p i = (if i = j then v else ctx_word m p i)"
  using assms by (simp add: ctx_word_def ld64_st64_disj [OF word_slots_disj])

lemma ctx_word_st_words:
  assumes "distinct (map fst kvs)" "\<forall>k \<in> fst ` set kvs. k < 2 ^ 60" "i < 2 ^ 60"
  shows "ctx_word (st_words p kvs m) p i =
    (case map_of kvs i of Some v \<Rightarrow> v | None \<Rightarrow> ctx_word m p i)"
  using assms
proof (induction kvs arbitrary: m)
  case (Cons kv kvs)
  obtain k v where kv: "kv = (k, v)" by force
  have "ctx_word (st_words p (kv # kvs) m) p i =
      ctx_word (st_words p kvs (st64 m (p + 8 * of_nat k) v)) p i"
    by (simp add: st_words_def kv)
  also have "\<dots> = (case map_of kvs i of Some w \<Rightarrow> w | None \<Rightarrow> ctx_word (st64 m (p + 8 * of_nat k) v) p i)"
    using Cons by simp
  also have "\<dots> = (case map_of (kv # kvs) i of Some w \<Rightarrow> w | None \<Rightarrow> ctx_word m p i)"
  proof (cases "i = k")
    case True
    with Cons.prems have "map_of kvs i = None" by (simp add: kv map_of_eq_None_iff)
    with True Cons.prems show ?thesis by (simp add: kv ctx_word_st64)
  next
    case False
    with Cons.prems show ?thesis by (simp add: kv ctx_word_st64 split: option.split)
  qed
  finally show ?case .
qed (simp add: st_words_def)

lemma st_words_outside:
  assumes "\<forall>k \<in> fst ` set kvs. k < n" "n < 2 ^ 60" "\<not> in_rng p (8 * n) x"
  shows "st_words p kvs m x = m x"
  using assms(1)
proof (induction kvs arbitrary: m)
  case (Cons kv kvs)
  obtain k v where kv: "kv = (k, v)" by force
  have "\<not> in_rng (p + 8 * of_nat k) 8 x"
  proof
    assume "in_rng (p + 8 * of_nat k) 8 x"
    then obtain i where i: "i < 8" "x = p + of_nat (8 * k + i)"
      by (elim in_rngE) (simp add: add.assoc)
    moreover have "8 * k + i < 8 * n" using Cons.prems i(1) by (simp add: kv)
    ultimately have "in_rng p (8 * n) x" using assms(2) by (simp only: i(2)) (rule in_rng_offset, simp_all)
    with assms(3) show False ..
  qed
  with Cons show ?case by (simp add: st_words_def kv st64_outside)
qed (simp add: st_words_def)

lemma ctx_word_cong:
  assumes "\<And>x. in_rng p (8 * n) x \<Longrightarrow> m x = m' x" "k < n" "n < 2 ^ 60"
  shows "ctx_word m p k = ctx_word m' p k"
  unfolding ctx_word_def
proof (rule ld64_cong)
  fix x
  assume "in_rng (p + 8 * of_nat k) 8 x"
  then obtain i where i: "i < 8" "x = p + of_nat (8 * k + i)"
    by (elim in_rngE) (simp add: add.assoc)
  moreover have "8 * k + i < 8 * n" using assms(2) i(1) by simp
  ultimately have "in_rng p (8 * n) x" using assms(3) by (simp only: i(2)) (rule in_rng_offset, simp_all)
  then show "m x = m' x" by (rule assms(1))
qed

section \<open>Status bits\<close>

lemma bit_set_bit_to [simp]: "n < 64 \<Longrightarrow> bit (set_bit_to n b r) k \<longleftrightarrow> (if k = n then b else bit r k)"
  by (auto simp: set_bit_to_def bit_simps dest: bit_imp_le_length)

lemma fold_upd_other: "i \<notin> set ks \<Longrightarrow> fold (\<lambda>k g. g(k := f k)) ks g i = g i"
  by (induction ks arbitrary: g) auto

lemma fold_upd_same: "i \<in> set ks \<Longrightarrow> fold (\<lambda>k g. g(k := f k)) ks g i = f i"
proof (induction ks arbitrary: g)
  case (Cons k ks)
  show ?case
  proof (cases "i \<in> set ks")
    case False
    with Cons.prems have "i = k" by simp
    with False show ?thesis by (simp only: fold_simps fold_upd_other fun_upd_same not_False_eq_True)
  qed (simp only: fold_simps Cons.IH)
qed simp

section \<open>Entry and exit of the supervisor trap vector\<close>

lemma trap_save_frame:
  assumes "trap_save (h, s) = (h', s')"
  shows "gpr h' 2 = gpr h 2 - 288" "gpr h' 10 = gpr h 2 - 288"
    and "\<And>i. 0 < i \<Longrightarrow> i < 32 \<Longrightarrow> ctx_word (mem s') (gpr h' 2) i = gpr h i"
    and "ctx_word (mem s') (gpr h' 2) 32 = sstatus s" "ctx_word (mem s') (gpr h' 2) 33 = sepc h"
      "ctx_word (mem s') (gpr h' 2) 34 = scause h" "ctx_word (mem s') (gpr h' 2) 35 = stval h"
    and "s' = s\<lparr>mem := mem s'\<rparr>"
    and "\<And>x. \<not> in_rng (gpr h' 2) 288 x \<Longrightarrow> mem s' x = mem s x"
proof -
  define sp where "sp = gpr h 2 - 288"
  define kvs where "kvs = [(1, gpr h 1), (5, gpr h 5), (2, sp + 288)] @
    map (\<lambda>i. (i, gpr h i)) ([3, 4] @ [6..<32]) @
    [(32, sstatus s), (33, sepc h), (34, scause h), (35 :: nat, stval h)]"
  have h': "h' = h\<lparr>gpr := (gpr h)(2 := sp, 5 := stval h, 10 := sp)\<rparr>"
    and s': "s' = s\<lparr>mem := st_words sp kvs (mem s)\<rparr>"
    using assms by (auto simp: trap_save_def Let_def sp_def kvs_def)
  show sp: "gpr h' 2 = gpr h 2 - 288" "gpr h' 10 = gpr h 2 - 288" by (simp_all add: h' sp_def)
  have keys: "map fst kvs = [1, 5, 2, 3, 4] @ [6..<36]"
    by (simp add: kvs_def upt_rec numeral_eq_Suc)
  then have d: "distinct (map fst kvs)" and b: "\<forall>k \<in> fst ` set kvs. k < 36"
    by (simp_all only: set_map [symmetric], auto)
  have w: "ctx_word (mem s') (gpr h' 2) i = (case map_of kvs i of Some v \<Rightarrow> v | None \<Rightarrow> ctx_word (mem s) sp i)"
    if "i < 36" for i
  proof -
    have "\<forall>k \<in> fst ` set kvs. k < 2 ^ 60" using b by force
    from ctx_word_st_words [OF d this, of i sp "mem s"] that show ?thesis by (simp add: s' sp flip: sp_def)
  qed
  have "map_of kvs i = Some (gpr h i)" if "0 < i" "i < 32" for i
  proof -
    have "i \<in> {1, 5, 2} \<or> i \<in> set ([3, 4] @ [6..<32])"
      unfolding set_append set_upt list.set Un_iff insert_iff atLeastLessThan_iff using that by arith
    then have "(i, gpr h i) \<in> set kvs"
    proof
      assume "i \<in> {1, 5, 2}"
      then show ?thesis by (auto simp: kvs_def sp_def)
    next
      assume "i \<in> set ([3, 4] @ [6..<32])"
      then have "(i, gpr h i) \<in> set (map (\<lambda>i. (i, gpr h i)) ([3, 4] @ [6..<32]))"
        unfolding set_map by (rule imageI)
      then show ?thesis unfolding kvs_def set_append by blast
    qed
    with d show ?thesis by (simp add: map_of_eq_Some_iff)
  qed
  then show "ctx_word (mem s') (gpr h' 2) i = gpr h i" if "0 < i" "i < 32" for i
    using that w [of i] by simp
  have "map_of kvs 32 = Some (sstatus s)" "map_of kvs 33 = Some (sepc h)"
    "map_of kvs 34 = Some (scause h)" "map_of kvs 35 = Some (stval h)"
    using d by (auto simp: map_of_eq_Some_iff, simp_all add: kvs_def)
  then show "ctx_word (mem s') (gpr h' 2) 32 = sstatus s" "ctx_word (mem s') (gpr h' 2) 33 = sepc h"
      "ctx_word (mem s') (gpr h' 2) 34 = scause h" "ctx_word (mem s') (gpr h' 2) 35 = stval h"
    by (simp_all add: w)
  show "s' = s\<lparr>mem := mem s'\<rparr>" by (simp add: s')
  show "mem s' x = mem s x" if "\<not> in_rng (gpr h' 2) 288 x" for x
    using st_words_outside [OF b, of sp x "mem s"] that by (simp add: s' h')
qed

lemma trap_restore_effect:
  assumes "trap_restore (h, s) = (h', s')"
  shows "\<And>i. 0 < i \<Longrightarrow> i < 32 \<Longrightarrow> gpr h' i = ctx_word (mem s) (gpr h 2) i"
    and "pc h' = ctx_word (mem s) (gpr h 2) 33"
    and "sstatus s' = set_bit_to 8 False (set_bit_to 5 True
      (set_bit_to 1 (bit (ctx_word (mem s) (gpr h 2) 32) 5) (ctx_word (mem s) (gpr h 2) 32)))"
    and "s' = s\<lparr>sstatus := sstatus s'\<rparr>"
proof -
  define f where "f = (\<lambda>i. ctx_word (mem s) (gpr h 2) i)"
  have h': "gpr h' = (fold (\<lambda>i g. g(i := f i)) ([1, 3, 4] @ [5..<32]) (gpr h))(2 := f 2)"
    using assms by (auto simp: trap_restore_def Let_def sret_def f_def simp del: fold_append)
  show "gpr h' i = ctx_word (mem s) (gpr h 2) i" if "0 < i" "i < 32" for i
  proof (cases "i = 2")
    case False
    with that have "i \<in> set ([1, 3, 4] @ [5..<32])"
      unfolding set_append set_upt list.set Un_iff insert_iff atLeastLessThan_iff by arith
    from fold_upd_same [OF this, of f "gpr h"] show ?thesis
      unfolding h' f_def fun_upd_other [OF False] .
  qed (simp add: h' f_def)
  show "pc h' = ctx_word (mem s) (gpr h 2) 33"
    "sstatus s' = set_bit_to 8 False (set_bit_to 5 True
      (set_bit_to 1 (bit (ctx_word (mem s) (gpr h 2) 32) 5) (ctx_word (mem s) (gpr h 2) 32)))"
    "s' = s\<lparr>sstatus := sstatus s'\<rparr>"
    using assms by (auto simp: trap_restore_def Let_def sret_def simp del: fold_append)
qed

lemma trap_resume:
  assumes enter: "trap_save (take_trap cause tval (h, s)) = (h1, s1)"
    and sp: "gpr h2 2 = gpr h1 2"
    and frame: "\<And>x. in_rng (gpr h1 2) 288 x \<Longrightarrow> mem s2 x = mem s1 x"
    and leave: "trap_restore (h2, s2) = (h3, s3)"
  shows "0 < i \<Longrightarrow> i < 32 \<Longrightarrow> gpr h3 i = gpr h i" "pc h3 = pc h"
    "n \<noteq> 5 \<Longrightarrow> n \<noteq> 8 \<Longrightarrow> bit (sstatus s3) n = bit (sstatus s) n"
    "s3 = s2\<lparr>sstatus := sstatus s3\<rparr>" "gpr h1 10 = gpr h 2 - 288" "gpr h1 2 = gpr h 2 - 288"
    "\<not> in_rng (gpr h 2 - 288) 288 x \<Longrightarrow> mem s1 x = mem s x"
    "ctx_word (mem s1) (gpr h1 2) 34 = cause"
proof -
  obtain h0 s0 where t: "take_trap cause tval (h, s) = (h0, s0)" by force
  then have g: "gpr h0 = gpr h" "sepc h0 = pc h" "mem s0 = mem s" "scause h0 = cause"
    and st: "sstatus s0 = set_bit_to 8 True (set_bit_to 1 False (set_bit_to 5 (bit (sstatus s) 1) (sstatus s)))"
    by (auto simp: take_trap_def)
  note save = trap_save_frame [OF enter [unfolded t]]
  note restore = trap_restore_effect [OF leave]
  have sp1: "gpr h1 2 = gpr h 2 - 288" using save(1) g by simp
  have same: "ctx_word (mem s2) (gpr h 2 - 288) k = ctx_word (mem s1) (gpr h 2 - 288) k" if "k < 36" for k
    by (rule ctx_word_cong [of _ 36]) (simp_all add: frame that flip: sp1)
  show "0 < i \<Longrightarrow> i < 32 \<Longrightarrow> gpr h3 i = gpr h i" "pc h3 = pc h"
    "n \<noteq> 5 \<Longrightarrow> n \<noteq> 8 \<Longrightarrow> bit (sstatus s3) n = bit (sstatus s) n"
    "s3 = s2\<lparr>sstatus := sstatus s3\<rparr>" "gpr h1 10 = gpr h 2 - 288" "gpr h1 2 = gpr h 2 - 288"
    "\<not> in_rng (gpr h 2 - 288) 288 x \<Longrightarrow> mem s1 x = mem s x"
    "ctx_word (mem s1) (gpr h1 2) 34 = cause"
    using save restore st by (simp_all add: same g sp sp1)
qed

text \<open>
  C10. Registers across a trap: when the C handler, or whatever runs before it returns, gives back
  the stack pointer and leaves the 288 bytes of the frame alone, then the code after it resumes the
  interrupted code with all 31 general registers and the program counter as they were, the
  interrupt enable bit restored, and no other status bit changed but the two the hardware uses to
  record the trap. The entry writes only the frame below the interrupted stack pointer.
\<close>

theorem trap_frame_roundtrip:
  assumes enter: "trap_save (take_trap cause tval (h, s)) = (h1, s1)"
    and sp: "gpr h2 2 = gpr h1 2"
    and frame: "\<And>x. in_rng (gpr h1 2) 288 x \<Longrightarrow> mem s2 x = mem s1 x"
    and leave: "trap_restore (h2, s2) = (h3, s3)"
  shows "(\<forall>i. 0 < i \<and> i < 32 \<longrightarrow> gpr h3 i = gpr h i) \<and> pc h3 = pc h \<and>
    (\<forall>n. n \<noteq> 5 \<and> n \<noteq> 8 \<longrightarrow> bit (sstatus s3) n = bit (sstatus s) n) \<and>
    s3 = s2\<lparr>sstatus := sstatus s3\<rparr> \<and> gpr h1 10 = gpr h 2 - 288 \<and>
    (\<forall>x. \<not> in_rng (gpr h 2 - 288) 288 x \<longrightarrow> mem s1 x = mem s x)"
  using trap_resume [OF enter sp frame leave] by simp

theorem trap_frame_roundtrip_witness:
  "let (h1, s1) = trap_save (take_trap 13 0 (\<lparr>gpr = (\<lambda>i. of_nat i + 0x80003000), pc = 0x80000100,
         sepc = 0, scause = 0, stval = 0\<rparr>, demo_kernel));
       (h3, s3) = trap_restore (h1, s1\<lparr>mip := 1\<rparr>)
   in gpr h3 31 = 0x8000301F \<and> pc h3 = 0x80000100 \<and> bit (sstatus s3) 1 = bit (sstatus demo_kernel) 1"
proof -
  let ?h = "\<lparr>gpr = (\<lambda>i. of_nat i + 0x80003000), pc = 0x80000100, sepc = 0, scause = 0, stval = 0\<rparr> :: hart"
  obtain h1 s1 where e: "trap_save (take_trap 13 0 (?h, demo_kernel)) = (h1, s1)" by force
  obtain h3 s3 where l: "trap_restore (h1, s1\<lparr>mip := 1\<rparr>) = (h3, s3)" by force
  have "(\<forall>i. 0 < i \<and> i < 32 \<longrightarrow> gpr h3 i = gpr ?h i) \<and> pc h3 = pc ?h \<and>
      (\<forall>n. n \<noteq> 5 \<and> n \<noteq> 8 \<longrightarrow> bit (sstatus s3) n = bit (sstatus demo_kernel) n)"
    using trap_frame_roundtrip [OF e refl _ l] by simp
  then show ?thesis by (simp add: e l)
qed

section \<open>What the handlers print\<close>

definition hex64 :: "u64 \<Rightarrow> u8 list" where
  "hex64 v = lit ''0x'' @ hex_text 16 (unat v)"

definition reg_line :: "u64 \<Rightarrow> nat \<Rightarrow> u8 list" where
  "reg_line v i = reg_names ! i @ replicate (5 - length (reg_names ! i)) 32 @ lit '': '' @ hex64 v @
     (if i mod 2 = 1 then nl else lit ''  '')"

definition dump_text :: "memory \<Rightarrow> u64 \<Rightarrow> u8 list" where
  "dump_text m ctx =
     lit (''--- Register Dump ---'' @ [CHR 0x0A]) @
     lit ''sepc:   '' @ hex64 (ctx_word m ctx 33) @ lit ''  sstatus: '' @ hex64 (ctx_word m ctx 32) @ nl @
     lit ''scause: '' @ hex64 (ctx_word m ctx 34) @ lit ''  stval:   '' @ hex64 (ctx_word m ctx 35) @ nl @
     concat (map (\<lambda>i. reg_line (ctx_word m ctx i) i) [0..<32]) @
     lit ([CHR 0x0A] @ ''---------------------'' @ [CHR 0x0A])"

lemma says_print_hex64: "uart.says (print_hex64 v s) s (hex64 v)"
  unfolding hex64_def by (rule says_hex64)

lemma says_nl: "uart.says (uart_puts nl s) s nl"
  unfolding nl_def by (rule says_puts) simp

lemma says_put_spaces: "uart.says (put_spaces n s) s (replicate n 32)"
proof (induction n arbitrary: s)
  case 0
  show ?case using uart.says_nothing [of s] by simp
next
  case (Suc n)
  have e: "replicate (Suc n) 32 = [32] @ replicate n (32 :: u8)" by simp
  show ?case unfolding e put_spaces.simps by (rule uart.says_bind [OF says_putc Suc.IH])
qed

lemma says_reg_name: "i < 32 \<Longrightarrow> uart.says (uart_puts (reg_names ! i) s) s (reg_names ! i)"
proof -
  assume "i < 32"
  then obtain str where str: "reg_names ! i = lit str" "CHR 0x00 \<notin> set str"
  proof -
    let ?names = "[''zero'', ''ra'', ''sp'', ''gp'', ''tp'', ''t0'', ''t1'', ''t2'',
     ''s0'', ''s1'', ''a0'', ''a1'', ''a2'', ''a3'', ''a4'', ''a5'',
     ''a6'', ''a7'', ''s2'', ''s3'', ''s4'', ''s5'', ''s6'', ''s7'',
     ''s8'', ''s9'', ''s10'', ''s11'', ''t3'', ''t4'', ''t5'', ''t6'']"
    have len: "i < length ?names" using \<open>i < 32\<close> by simp
    have "\<forall>str \<in> set ?names. CHR 0x00 \<notin> set str" by simp
    moreover have "?names ! i \<in> set ?names" using len by (rule nth_mem)
    ultimately have "CHR 0x00 \<notin> set (?names ! i)" by blast
    moreover have "reg_names ! i = lit (?names ! i)" unfolding reg_names_def using len by (rule nth_map)
    ultimately show thesis using that by blast
  qed
  show ?thesis unfolding str(1) by (rule says_puts) (rule str(2))
qed

lemma says_ctx_word:
  "mem s = m \<Longrightarrow> uart.says (print_hex64 (ctx_word (mem s) ctx k) s) s (hex64 (ctx_word m ctx k))"
  by (simp add: says_print_hex64)

lemma says_dump_reg:
  assumes "i < 32"
  shows "uart.says (dump_reg ctx i s) s (reg_line (ctx_word (mem s) ctx i) i)"
proof -
  have last: "uart.says (if i mod 2 = 1 then uart_puts nl t else uart_puts (lit ''  '') t) t
      (if i mod 2 = 1 then nl else lit ''  '')" for t :: "'a machine_scheme"
    by (simp split: if_split add: says_nl says_puts)
  show ?thesis
    unfolding dump_reg_def reg_line_def
    by (rule uart.says_bind says_reg_name says_put_spaces says_ctx_word last assms says_puts
        | (drule uart_emits_mem)+, simp)+
qed

lemma says_dump_loop:
  "uart.says (dump_loop ctx i s) s (concat (map (\<lambda>j. reg_line (ctx_word (mem s) ctx j) j) [i..<32]))"
proof (induction "32 - i" arbitrary: i s)
  case 0
  then show ?case using uart.says_nothing [of s] by (subst dump_loop.simps) simp
next
  case (Suc d)
  then have i: "i < 32" and d: "d = 32 - Suc i" by simp_all
  have e: "concat (map (\<lambda>j. reg_line (ctx_word (mem s) ctx j) j) [i..<32]) =
      reg_line (ctx_word (mem s) ctx i) i @ concat (map (\<lambda>j. reg_line (ctx_word (mem s) ctx j) j) [Suc i..<32])"
    using i by (simp add: upt_conv_Cons)
  show ?case
    unfolding e
  proof (subst dump_loop.simps, simp only: i if_True, rule uart.says_bind [OF says_dump_reg [OF i]])
    fix t :: "'a machine_scheme"
    assume "uart_emits s (reg_line (ctx_word (mem s) ctx i) i) t"
    then have "mem t = mem s" by (rule uart_emits_mem)
    with Suc.hyps(1) [OF d, of t]
    show "uart.says (dump_loop ctx (Suc i) t) t (concat (map (\<lambda>j. reg_line (ctx_word (mem s) ctx j) j) [Suc i..<32]))"
      by simp
  qed
qed

lemma says_dump_registers: "uart.says (dump_registers ctx s) s (dump_text (mem s) ctx)"
proof -
  have loop: "mem t = m \<Longrightarrow> uart.says (dump_loop ctx 0 t) t
      (concat (map (\<lambda>j. reg_line (ctx_word m ctx j) j) [0..<32]))" for t :: "'a machine_scheme" and m
    using says_dump_loop [of ctx 0 t] by simp
  show ?thesis
    unfolding dump_registers_def dump_text_def
    by (rule uart.says_bind says_nl says_ctx_word loop says_puts | (drule uart_emits_mem)+, simp | simp)+
qed

section \<open>Exceptions\<close>

definition named_causes :: "nat list" where
  "named_causes = [0, 1, 2, 3, 4, 5, 6, 7, 8, 9, 12, 13, 15]"

lemma known_exceptions_eq: "known_exceptions = map of_nat named_causes"
  by (simp add: known_exceptions_def named_causes_def
      EXC_INST_MISALIGNED_def EXC_INST_FAULT_def EXC_ILLEGAL_INST_def EXC_BREAKPOINT_def
      EXC_LOAD_MISALIGNED_def EXC_LOAD_FAULT_def EXC_STORE_MISALIGNED_def EXC_STORE_FAULT_def
      EXC_ENV_CALL_U_def EXC_ENV_CALL_S_def EXC_INST_PAGE_FAULT_def EXC_LOAD_PAGE_FAULT_def
      EXC_STORE_PAGE_FAULT_def)

lemma exception_names_named:
  assumes "n < 16"
  shows "exception_names ! n \<noteq> None \<longleftrightarrow> n \<in> set named_causes"
proof -
  have n: "map (\<lambda>e. e \<noteq> None) exception_names = map (\<lambda>n. n \<in> set named_causes) [0..<16]"
    by (simp add: exception_names_def named_causes_def upt_conv_Cons)
  have "length exception_names = 16" by (simp add: exception_names_def)
  then have "(exception_names ! n \<noteq> None) = map (\<lambda>e. e \<noteq> None) exception_names ! n"
    using assms by simp
  also have "\<dots> = (n \<in> set named_causes)" unfolding n using assms by (simp only: nth_map_upt) simp
  finally show ?thesis .
qed

lemma exception_name_known: "exception_name cause \<noteq> None \<longleftrightarrow> cause \<in> set known_exceptions"
proof -
  have len: "length exception_names = 16" by (simp add: exception_names_def)
  have lt: "\<forall>n \<in> set named_causes. n < 16" by (simp add: named_causes_def)
  have "cause \<in> set known_exceptions \<longleftrightarrow> unat cause \<in> set named_causes"
  proof
    assume "cause \<in> set known_exceptions"
    then obtain n where "n \<in> set named_causes" "cause = of_nat n" by (auto simp: known_exceptions_eq)
    moreover from this lt have "unat cause = n" by (simp add: unat_of_nat_lt less_trans [of n 16])
    ultimately show "unat cause \<in> set named_causes" by simp
  next
    assume "unat cause \<in> set named_causes"
    then have "of_nat (unat cause) \<in> set known_exceptions" unfolding known_exceptions_eq set_map by (rule imageI)
    then show "cause \<in> set known_exceptions" by simp
  qed
  moreover have "exception_name cause \<noteq> None \<longleftrightarrow> unat cause < 16 \<and> unat cause \<in> set named_causes"
    using exception_names_named [of "unat cause"] by (simp add: exception_name_def len)
  ultimately show ?thesis using lt by blast
qed

lemma says_exception_name:
  assumes "exception_name cause = Some name"
  shows "uart.says (uart_puts name s) s name"
proof -
  have all: "\<forall>n \<in> set exception_names. \<forall>str. n = Some str \<longrightarrow> 0 \<notin> set str"
    by (simp add: exception_names_def zero_in_lit)
  have "Some name \<in> set exception_names"
    using assms by (auto simp: exception_name_def split: if_splits intro: nth_mem dest: sym)
  with all have "0 \<notin> set name" by blast
  then have "takeWhile (\<lambda>c. c \<noteq> 0) name = name" by (auto simp: takeWhile_eq_all_conv)
  with uart.says_prints [OF prints_uart_puts, of name s] show ?thesis by simp
qed

definition exception_text :: "memory \<Rightarrow> u64 \<Rightarrow> u8 list" where
  "exception_text m ctx =
     lit ''Kernel exception occurred: scause = '' @ hex64 (ctx_word m ctx 34) @
     lit '', sepc = '' @ hex64 (ctx_word m ctx 33) @ lit '', stval = '' @ hex64 (ctx_word m ctx 35) @ nl @
     dump_text m ctx @ lit ''Exception: ''"

definition panic_text :: "u8 list" where
  "panic_text = lit (''Kernel panic: S-mode exception unhandled. Halted.'' @ [CHR 0x0A])"

lemma says_panic: "uart.says (uart_puts panic_text s) s panic_text"
  unfolding panic_text_def by (rule says_puts) simp

lemma says_dump: "mem s = m \<Longrightarrow> uart.says (dump_registers ctx s) s (dump_text m ctx)"
  using says_dump_registers [of ctx s] by simp

text \<open>The part common to all exceptions, up to the name.\<close>

lemma handle_exception_unfold:
  assumes "uart_live s"
  shows "\<exists>t. uart_emits s (exception_text (mem s) ctx) t \<and> uart_live t \<and>
    handle_exception ctx s =
      (case exception_name (ctx_word (mem t) ctx 34) of
         None \<Rightarrow> Some (Inl (Bad_name t))
       | Some name \<Rightarrow> do {
           t \<leftarrow> uart_puts name t;
           t \<leftarrow> uart_puts nl t;
           t \<leftarrow> uart_puts panic_text t;
           Some (Inl (Halted t))
         })"
proof -
  have skip: "(if cause \<in> set known_exceptions then Some u else v) = Some u"
    if "exception_name cause = Some name" for cause name v and u :: "'a machine_scheme"
    using that exception_name_known [of cause] by simp
  let ?k = "\<lambda>t. case exception_name (ctx_word (mem t) ctx 34) of
         None \<Rightarrow> Some (Inl (Bad_name t))
       | Some name \<Rightarrow> do {
           t' \<leftarrow> uart_puts name t;
           t' \<leftarrow> uart_puts nl t';
           t' \<leftarrow> uart_puts panic_text t';
           Some (Inl (Halted t'))
         }"
  have k: "(let cause = ctx_word (mem t) ctx 34 in
     case exception_name cause of
       None \<Rightarrow> Some (Inl (Bad_name t))
     | Some name \<Rightarrow> do {
         s \<leftarrow> uart_puts name t;
         s \<leftarrow> uart_puts nl s;
         s \<leftarrow> (if cause \<in> set known_exceptions then Some s
              else do {
                s \<leftarrow> uart_puts (lit ''Unknown exception code: '') s;
                s \<leftarrow> print_hex64 cause s;
                uart_puts nl s
              });
         s \<leftarrow> uart_puts panic_text s;
         Some (Inl (Halted s))
       }) = ?k t" for t :: "'a machine_scheme"
    by (auto simp: Let_def skip split: option.split)
  show ?thesis
    unfolding handle_exception_def exception_text_def panic_text_def [symmetric] k
    by (rule uart.says_step uart.says_last says_nl says_ctx_word says_dump says_puts assms
        | assumption | (drule uart_emits_mem)+, simp | simp)+
qed

section \<open>Every branch of the handler\<close>

definition irq_text :: "u64 \<Rightarrow> u8 list" where
  "irq_text cause = lit ''Interrupt received: scause = '' @ hex64 cause @
     lit '', irq_code = '' @ hex64 (cause AND NOT SCAUSE_INTR_FLAG) @ nl"

definition irq_of :: "u64 \<Rightarrow> u64" where "irq_of cause = cause AND NOT SCAUSE_INTR_FLAG"

lemma intr_flag_iff: "cause AND SCAUSE_INTR_FLAG \<noteq> 0 \<longleftrightarrow> bit cause 63"
  unfolding SCAUSE_INTR_FLAG_def
  by (metis (no_types, lifting) and_exp_eq_0_iff_not_bit push_bit_of_1)

lemma trap_handler_irq:
  fixes s :: "'a kernel_scheme"
  assumes "uart_live s" "bit (ctx_word (mem s) ctx 34) 63"
  defines "cause \<equiv> ctx_word (mem s) ctx 34"
  shows "\<exists>t. uart_emits s (irq_text cause) t \<and> uart_live t \<and>
    trap_handler A ctx s =
      (if irq_of cause = IRQ_S_SOFT then map_option Inr (handle_software_interrupt ctx t)
       else if irq_of cause = IRQ_S_TIMER then map_option Inr (handle_timer_interrupt A ctx t)
       else if irq_of cause = IRQ_S_EXT then map_option Inr (handle_external_interrupt ctx t)
       else do {
         t \<leftarrow> uart_puts (lit ''Unhandled S-mode interrupt: '') t;
         t \<leftarrow> print_hex64 (irq_of cause) t;
         t \<leftarrow> uart_puts nl t;
         Some (Inl (Halted t))
       })"
proof -
  have flag: "cause AND SCAUSE_INTR_FLAG \<noteq> 0" using assms(2) by (simp add: intr_flag_iff cause_def)
  have u: "trap_handler A ctx s = do {
       s \<leftarrow> uart_puts (lit ''Interrupt received: scause = '') s;
       s \<leftarrow> print_hex64 cause s;
       s \<leftarrow> uart_puts (lit '', irq_code = '') s;
       s \<leftarrow> print_hex64 (irq_of cause) s;
       s \<leftarrow> uart_puts nl s;
       if irq_of cause = IRQ_S_SOFT then map_option Inr (handle_software_interrupt ctx s)
       else if irq_of cause = IRQ_S_TIMER then map_option Inr (handle_timer_interrupt A ctx s)
       else if irq_of cause = IRQ_S_EXT then map_option Inr (handle_external_interrupt ctx s)
       else do {
         s \<leftarrow> uart_puts (lit ''Unhandled S-mode interrupt: '') s;
         s \<leftarrow> print_hex64 (irq_of cause) s;
         s \<leftarrow> uart_puts nl s;
         Some (Inl (Halted s))
       }
     }"
    using flag by (simp only: trap_handler_def Let_def irq_of_def cause_def [symmetric] if_True not_False_eq_True)
  show ?thesis
    unfolding u irq_text_def irq_of_def [symmetric]
    by (rule uart.says_step uart.says_last says_nl says_print_hex64 says_puts assms(1)
        | assumption | simp)+
qed

definition soft_text :: "u8 list" where
  "soft_text = lit (''Software interrupt received'' @ [CHR 0x0A])"

definition ext_text :: "u8 list" where
  "ext_text = lit (''External interrupt received'' @ [CHR 0x0A])"

definition unhandled_text :: "u64 \<Rightarrow> u8 list" where
  "unhandled_text irq = lit ''Unhandled S-mode interrupt: '' @ hex64 irq @ nl"

definition time_text :: "u64 \<Rightarrow> u8 list" where
  "time_text t = dec_text (unat t) @ nl"

lemma says_soft: "uart.says (uart_puts soft_text s) s soft_text"
  unfolding soft_text_def by (rule says_puts) simp

lemma says_ext: "uart.says (uart_puts ext_text s) s ext_text"
  unfolding ext_text_def by (rule says_puts) simp

text \<open>What the machine looks like after the UART has been used: the same but for the UART.\<close>

lemma uart_emits_frame:
  "uart_emits s cs t \<Longrightarrow> t = s\<lparr>uart_rd := uart_rd t, uart_wr := uart_wr s @ map (Pair UART_THR) cs\<rparr>"
  by (auto simp: uart_emits_def)

lemma uart_emits_time_rd: "uart_emits s cs t \<Longrightarrow> uart_emits (s\<lparr>time_rd := k\<rparr>) cs (t\<lparr>time_rd := k\<rparr>)"
proof -
  assume "uart_emits s cs t"
  then obtain j where "t = s\<lparr>uart_rd := j, uart_wr := uart_wr s @ map (Pair UART_THR) cs\<rparr>"
    by (auto simp: uart_emits_def)
  then have "t\<lparr>time_rd := k\<rparr> = s\<lparr>time_rd := k, uart_rd := j, uart_wr := uart_wr s @ map (Pair UART_THR) cs\<rparr>"
    by (cases s) simp
  then show ?thesis by (auto simp: uart_emits_def)
qed

lemma handle_software_interrupt_effect:
  "uart_live s \<Longrightarrow> \<exists>t. uart_emits s soft_text t \<and> uart_live t \<and>
     handle_software_interrupt ctx s = Some (t\<lparr>mip := csr_clear (mip t) (push_bit 1 1)\<rparr>)"
  unfolding handle_software_interrupt_def soft_text_def [symmetric]
  by (rule uart.says_last [OF says_soft])

lemma handle_external_interrupt_effect:
  "uart_live s \<Longrightarrow> \<exists>t. uart_emits s ext_text t \<and> handle_external_interrupt ctx s = Some t"
  using uart.says_total [OF says_ext] by (fastforce simp: handle_external_interrupt_def ext_text_def)

lemma handle_timer_interrupt_effect:
  assumes "uart_live s"
  shows "\<exists>t. uart_emits (s\<lparr>time_rd := Suc (time_rd s)\<rparr>)
      (lit ''Current time: '' @ time_text (time_in s (time_rd s))) t \<and>
    handle_timer_interrupt A ctx s = Some (yield A (set_timer 10000000 t))"
proof -
  obtain u where u: "uart_puts (lit ''Current time: '') s = Some u" "uart_emits s (lit ''Current time: '') u"
    "uart_live u"
    using uart.says_total [OF says_puts assms, of "''Current time: ''"] by auto
  then have tm: "time_in u = time_in s" "time_rd u = time_rd s" by (auto simp: uart_emits_def)
  define v where "v = u\<lparr>time_rd := Suc (time_rd u)\<rparr>"
  have v: "uart_emits (s\<lparr>time_rd := Suc (time_rd s)\<rparr>) (lit ''Current time: '') v" "uart_live v"
    using u uart_emits_time_rd [OF u(2)] by (simp_all add: uart_live_def v_def tm)
  let ?now = "time_in s (time_rd s)"
  have "\<exists>t. uart_emits v (dec_text (unat ?now) @ nl) t \<and> uart_live t \<and>
      do { s \<leftarrow> uart_dec64 ?now v; s \<leftarrow> uart_puts nl s; Some (yield A (set_timer 10000000 s)) } =
        Some (yield A (set_timer 10000000 t))"
    by (rule uart.says_step uart.says_last says_nl says_dec64 v(2) | assumption)+
  moreover have "handle_timer_interrupt A ctx s =
      do { s \<leftarrow> uart_dec64 ?now v; s \<leftarrow> uart_puts nl s; Some (yield A (set_timer 10000000 s)) }"
    using u(1) by (simp add: handle_timer_interrupt_def get_time_def tm v_def)
  ultimately obtain t where "uart_emits v (time_text ?now) t"
      "handle_timer_interrupt A ctx s = Some (yield A (set_timer 10000000 t))"
    unfolding time_text_def by auto
  with uart.emits_trans [OF v(1)] show ?thesis by blast
qed

text \<open>The handler's branches one by one.\<close>

lemmas irq_codes = IRQ_S_SOFT_def IRQ_S_TIMER_def IRQ_S_EXT_def

lemma trap_handler_soft:
  fixes s :: "'a kernel_scheme"
  assumes live: "uart_live s" and cause: "cause = ctx_word (mem s) ctx 34" and intr: "bit cause 63"
    and irq: "irq_of cause = IRQ_S_SOFT"
  shows "\<exists>t. uart_emits s (irq_text cause @ soft_text) t \<and>
    trap_handler A ctx s = Some (Inr (t\<lparr>mip := csr_clear (mip s) (push_bit 1 1)\<rparr>))"
proof -
  obtain u where u: "uart_emits s (irq_text cause) u" "uart_live u"
    and h: "trap_handler A ctx s = map_option Inr (handle_software_interrupt ctx u)"
    using trap_handler_irq [of s ctx A] live intr irq unfolding cause by auto
  obtain t where t: "uart_emits u soft_text t"
    "handle_software_interrupt ctx u = Some (t\<lparr>mip := csr_clear (mip t) (push_bit 1 1)\<rparr>)"
    using handle_software_interrupt_effect [OF u(2)] by blast
  have "mip t = mip s" using u(1) t(1) by (auto simp: uart_emits_def)
  with uart.emits_trans [OF u(1) t(1)] h t(2) show ?thesis by auto
qed

lemma trap_handler_timer:
  fixes s :: "'a kernel_scheme"
  assumes live: "uart_live s" and cause: "cause = ctx_word (mem s) ctx 34" and intr: "bit cause 63"
    and irq: "irq_of cause = IRQ_S_TIMER"
  shows "\<exists>t. uart_emits (s\<lparr>time_rd := Suc (time_rd s)\<rparr>)
      (irq_text cause @ lit ''Current time: '' @ time_text (time_in s (time_rd s))) t \<and>
    trap_handler A ctx s = Some (Inr (yield A (set_timer 10000000 t)))"
proof -
  obtain u where u: "uart_emits s (irq_text cause) u" "uart_live u"
    and h: "trap_handler A ctx s = map_option Inr (handle_timer_interrupt A ctx u)"
    using trap_handler_irq [of s ctx A] live intr irq unfolding cause by (auto simp: irq_codes)
  have same: "time_in u = time_in s" "time_rd u = time_rd s" using u(1) by (auto simp: uart_emits_def)
  obtain t where t: "uart_emits (u\<lparr>time_rd := Suc (time_rd u)\<rparr>)
      (lit ''Current time: '' @ time_text (time_in u (time_rd u))) t"
    "handle_timer_interrupt A ctx u = Some (yield A (set_timer 10000000 t))"
    using handle_timer_interrupt_effect [OF u(2)] by blast
  have "uart_emits (s\<lparr>time_rd := Suc (time_rd s)\<rparr>) (irq_text cause) (u\<lparr>time_rd := Suc (time_rd u)\<rparr>)"
    using uart_emits_time_rd [OF u(1)] same by simp
  from uart.emits_trans [OF this t(1)] have "uart_emits (s\<lparr>time_rd := Suc (time_rd s)\<rparr>)
      (irq_text cause @ lit ''Current time: '' @ time_text (time_in s (time_rd s))) t"
    unfolding same .
  with h t(2) show ?thesis by auto
qed

lemma trap_handler_ext:
  fixes s :: "'a kernel_scheme"
  assumes live: "uart_live s" and cause: "cause = ctx_word (mem s) ctx 34" and intr: "bit cause 63"
    and irq: "irq_of cause = IRQ_S_EXT"
  shows "\<exists>t. uart_emits s (irq_text cause @ ext_text) t \<and> trap_handler A ctx s = Some (Inr t)"
proof -
  obtain u where u: "uart_emits s (irq_text cause) u" "uart_live u"
    and h: "trap_handler A ctx s = map_option Inr (handle_external_interrupt ctx u)"
    using trap_handler_irq [of s ctx A] live intr irq unfolding cause by (auto simp: irq_codes)
  obtain t where "uart_emits u ext_text t" "handle_external_interrupt ctx u = Some t"
    using handle_external_interrupt_effect [OF u(2)] by blast
  with uart.emits_trans [OF u(1)] h show ?thesis by auto
qed

lemma trap_handler_unhandled:
  fixes s :: "'a kernel_scheme"
  assumes live: "uart_live s" and cause: "cause = ctx_word (mem s) ctx 34" and intr: "bit cause 63"
    and irq: "irq_of cause \<notin> {IRQ_S_SOFT, IRQ_S_TIMER, IRQ_S_EXT}"
  shows "\<exists>t. uart_emits s (irq_text cause @ unhandled_text (irq_of cause)) t \<and>
    trap_handler A ctx s = Some (Inl (Halted t))"
proof -
  obtain u where u: "uart_emits s (irq_text cause) u" "uart_live u"
    and h: "trap_handler A ctx s = do {
         t \<leftarrow> uart_puts (lit ''Unhandled S-mode interrupt: '') u;
         t \<leftarrow> print_hex64 (irq_of cause) t;
         t \<leftarrow> uart_puts nl t;
         Some (Inl (Halted t))
       }"
    using trap_handler_irq [of s ctx A] live intr irq unfolding cause by auto
  have "\<exists>t. uart_emits u (unhandled_text (irq_of cause)) t \<and> uart_live t \<and>
      do {
       t \<leftarrow> uart_puts (lit ''Unhandled S-mode interrupt: '') u;
       t \<leftarrow> print_hex64 (irq_of cause) t;
       t \<leftarrow> uart_puts nl t;
       Some (Inl (Halted t) :: 'a kernel_scheme stop + 'a kernel_scheme)
     } = Some (Inl (Halted t))"
    unfolding unhandled_text_def
    by (rule uart.says_step uart.says_last says_nl says_print_hex64 says_puts u(2) | assumption | simp)+
  then show ?thesis using uart.emits_trans [OF u(1)] h by auto
qed

text \<open>
  C21. Interrupt dispatch: for a supervisor interrupt \<open>trap_handler\<close> prints the cause and then, by
  the code: software clears the pending bit; timer reads the clock, prints it in decimal, programs
  the next interrupt ten million ticks later and yields; external only reports; any other code is
  reported and the kernel stops.
\<close>

theorem trap_handler_interrupts:
  fixes s :: "'a kernel_scheme"
  assumes live: "uart_live s" and cause: "cause = ctx_word (mem s) ctx 34" and intr: "bit cause 63"
  shows "(irq_of cause = IRQ_S_SOFT \<longrightarrow> (\<exists>t. uart_emits s (irq_text cause @ soft_text) t \<and>
        trap_handler A ctx s = Some (Inr (t\<lparr>mip := csr_clear (mip s) (push_bit 1 1)\<rparr>)))) \<and>
    (irq_of cause = IRQ_S_TIMER \<longrightarrow> (\<exists>t. uart_emits (s\<lparr>time_rd := Suc (time_rd s)\<rparr>)
          (irq_text cause @ lit ''Current time: '' @ time_text (time_in s (time_rd s))) t \<and>
        trap_handler A ctx s = Some (Inr (yield A (set_timer 10000000 t))))) \<and>
    (irq_of cause = IRQ_S_EXT \<longrightarrow> (\<exists>t. uart_emits s (irq_text cause @ ext_text) t \<and>
        trap_handler A ctx s = Some (Inr t))) \<and>
    (irq_of cause \<notin> {IRQ_S_SOFT, IRQ_S_TIMER, IRQ_S_EXT} \<longrightarrow>
      (\<exists>t. uart_emits s (irq_text cause @ unhandled_text (irq_of cause)) t \<and>
        trap_handler A ctx s = Some (Inl (Halted t))))"
  using trap_handler_soft [OF assms] trap_handler_timer [OF assms] trap_handler_ext [OF assms]
    trap_handler_unhandled [OF assms] by blast

text \<open>A kernel whose trap context at address 0x90000000 records a given cause.\<close>

definition trap_demo :: "u64 \<Rightarrow> kernel" where
  "trap_demo cause = demo_kernel\<lparr>mem := st64 (mem demo_kernel) (0x90000000 + 8 * of_nat 34) cause\<rparr>"

lemma trap_demo_facts:
  "uart_live (trap_demo cause)" "ctx_word (mem (trap_demo cause)) 0x90000000 34 = cause"
  "current_process (trap_demo cause) = None"
  using demo_kernel_facts(3)
  by (simp_all add: trap_demo_def uart_live_def ctx_word_def demo_kernel_defs)

theorem trap_handler_interrupts_witness:
  "\<exists>t. uart_emits (trap_demo 0x8000000000000009) (irq_text 0x8000000000000009 @ ext_text) t \<and>
     trap_handler demo_code 0x90000000 (trap_demo 0x8000000000000009) = Some (Inr t)"
proof -
  have b: "bit (0x8000000000000009 :: u64) 63" "irq_of 0x8000000000000009 = IRQ_S_EXT"
    by (simp_all add: irq_of_def SCAUSE_INTR_FLAG_def IRQ_S_EXT_def)
  from trap_handler_interrupts [OF trap_demo_facts(1) trap_demo_facts(2) [symmetric] b(1), of demo_code] b(2)
  show ?thesis by blast
qed

text \<open>
  C37. Exceptions never return: for each of the thirteen causes the kernel knows, the handler prints
  the cause, the whole register dump and the name, and halts. For every other cause (10, 11, 14, or
  16 and above) it has already read outside the valid entries of its table of names when it gets to
  the test that was meant to report an unknown code, so that report is never printed.
\<close>

theorem trap_handler_exceptions:
  fixes s :: "'a kernel_scheme"
  assumes live: "uart_live s" and cause: "cause = ctx_word (mem s) ctx 34" and exc: "\<not> bit cause 63"
  shows "(cause \<in> set known_exceptions \<longrightarrow> (\<exists>name t. exception_name cause = Some name \<and>
        uart_emits s (exception_text (mem s) ctx @ name @ nl @ panic_text) t \<and>
        trap_handler A ctx s = Some (Inl (Halted t)))) \<and>
    (cause \<notin> set known_exceptions \<longrightarrow> (\<exists>t. uart_emits s (exception_text (mem s) ctx) t \<and>
        trap_handler A ctx s = Some (Inl (Bad_name t))))"
proof -
  have h: "trap_handler A ctx s = handle_exception ctx s"
    using exc by (simp add: trap_handler_def cause [symmetric] intr_flag_iff Let_def)
  obtain t where t: "uart_emits s (exception_text (mem s) ctx) t" "uart_live t"
    and e: "handle_exception ctx s =
      (case exception_name (ctx_word (mem t) ctx 34) of
         None \<Rightarrow> Some (Inl (Bad_name t))
       | Some name \<Rightarrow> do {
           t \<leftarrow> uart_puts name t;
           t \<leftarrow> uart_puts nl t;
           t \<leftarrow> uart_puts panic_text t;
           Some (Inl (Halted t))
         })"
    using handle_exception_unfold [OF live, of ctx] by blast
  have c: "ctx_word (mem t) ctx 34 = cause" using uart_emits_mem [OF t(1)] cause by simp
  show ?thesis
  proof (cases "exception_name cause")
    case None
    then show ?thesis using exception_name_known [of cause] t(1) by (auto simp: h e c)
  next
    case (Some name)
    have "\<exists>u. uart_emits t (name @ nl @ panic_text) u \<and> uart_live u \<and>
        do {
           t \<leftarrow> uart_puts name t;
           t \<leftarrow> uart_puts nl t;
           t \<leftarrow> uart_puts panic_text t;
           Some (Inl (Halted t) :: 'a kernel_scheme stop + 'a kernel_scheme)
         } = Some (Inl (Halted u))"
      by (rule uart.says_step uart.says_last says_nl says_panic says_exception_name [OF Some] t(2) | assumption)+
    then obtain u where "uart_emits t (name @ nl @ panic_text) u" "trap_handler A ctx s = Some (Inl (Halted u))"
      by (auto simp: h e c Some)
    then show ?thesis
      using Some exception_name_known [of cause] uart.emits_trans [OF t(1)] by fastforce
  qed
qed

theorem trap_handler_exceptions_witness:
  "(\<exists>name t. exception_name 13 = Some name \<and>
      trap_handler demo_code 0x90000000 (trap_demo 13) = Some (Inl (Halted t))) \<and>
    (\<exists>t. trap_handler demo_code 0x90000000 (trap_demo 14) = Some (Inl (Bad_name t)))"
proof
  have k: "13 \<in> set known_exceptions" "14 \<notin> set known_exceptions"
    by (simp_all add: known_exceptions_eq named_causes_def)
  show "\<exists>name t. exception_name 13 = Some name \<and>
      trap_handler demo_code 0x90000000 (trap_demo 13) = Some (Inl (Halted t))"
    using trap_handler_exceptions [OF trap_demo_facts(1) trap_demo_facts(2) [symmetric], of 13 demo_code] k(1)
    by fastforce
  show "\<exists>t. trap_handler demo_code 0x90000000 (trap_demo 14) = Some (Inl (Bad_name t))"
    using trap_handler_exceptions [OF trap_demo_facts(1) trap_demo_facts(2) [symmetric], of 14 demo_code] k(2)
    by fastforce
qed

section \<open>Interrupts with no process running\<close>

text \<open>The handlers change no memory, so the trap frame survives them.\<close>

lemma yield_mem [simp]: "mem (yield A s) = mem s"
  by (simp add: yield_def call_swtch_def swtch_def ctx_store_def set_proc_def Let_def split: option.split)

lemma set_timer_mem [simp]: "mem (set_timer i s) = mem s"
  by (simp add: set_timer_def get_time_def m_set_timer_def)

lemma yield_idle: "current_process s = None \<Longrightarrow> yield A s = s"
  by (simp add: yield_def)

text \<open>\<^verbatim>\<open>trap_vector\<close> as a whole, for traps during which the handler itself returns (with a current
  process, the \<open>yield\<close> of the timer handler goes on in the scheduler, and the rest runs when the
  process is resumed). \<open>clobber\<close> is what the compiled handler leaves in the registers.\<close>

definition trap_vector ::
  "code \<Rightarrow> (hart \<Rightarrow> hart) \<Rightarrow> hart \<times> 'a kernel_scheme \<Rightarrow>
   ('a kernel_scheme stop + hart \<times> 'a kernel_scheme) option" where
  "trap_vector A clobber hs =
     (let (h, s) = trap_save hs
      in rbind (trap_handler A (gpr h 10) s) (\<lambda>s. Some (Inr (trap_restore (clobber h, s)))))"

lemma trap_handler_returns:
  fixes s :: "'a kernel_scheme"
  assumes "uart_live s" "current_process s = None" "bit (ctx_word (mem s) ctx 34) 63"
    "irq_of (ctx_word (mem s) ctx 34) \<in> {IRQ_S_SOFT, IRQ_S_TIMER, IRQ_S_EXT}"
  shows "\<exists>t. trap_handler A ctx s = Some (Inr t) \<and> mem t = mem s \<and> sstatus t = sstatus s \<and>
    procs t = procs s \<and> current_process t = None"
proof -
  note a = assms(1) refl assms(3)
  have emits: "mem t = mem s \<and> sstatus t = sstatus s \<and> procs t = procs s \<and> current_process t = None"
    if "uart_emits (s\<lparr>time_rd := k\<rparr>) cs t" for k cs t
    using that assms(2) by (auto simp: uart_emits_def)
  have emits0: "mem t = mem s \<and> sstatus t = sstatus s \<and> procs t = procs s \<and> current_process t = None"
    if "uart_emits s cs t" for cs t
    using that assms(2) by (auto simp: uart_emits_def)
  from assms(4) consider "irq_of (ctx_word (mem s) ctx 34) = IRQ_S_SOFT" | "irq_of (ctx_word (mem s) ctx 34) = IRQ_S_TIMER"
    | "irq_of (ctx_word (mem s) ctx 34) = IRQ_S_EXT" by blast
  then show ?thesis
  proof cases
    case 1
    from trap_handler_soft [OF a 1, of A] emits0 show ?thesis by fastforce
  next
    case 2
    from trap_handler_timer [OF a 2, of A] emits show ?thesis
      by (fastforce simp: yield_idle set_timer_def get_time_def m_set_timer_def)
  next
    case 3
    from trap_handler_ext [OF a 3, of A] emits0 show ?thesis by fastforce
  qed
qed

text \<open>
  C25. An interrupt while no process is current (during boot, in the scheduler) is invisible to the
  code it interrupts: if the compiled handler respects the calling convention and gives the stack
  pointer back, \<open>trap_vector\<close> returns, with every general register, the program counter, the
  interrupt enable bit and the process table as they were, and no memory changed outside the 288
  bytes below the interrupted stack pointer.
\<close>

theorem interrupt_transparent:
  fixes s :: "'a kernel_scheme"
  assumes live: "uart_live s" and idle: "current_process s = None" and intr: "bit cause 63"
    and irq: "irq_of cause \<in> {IRQ_S_SOFT, IRQ_S_TIMER, IRQ_S_EXT}"
    and convention: "\<And>g. gpr (clobber g) 2 = gpr g 2"
  shows "\<exists>h' s'. trap_vector A clobber (take_trap cause tval (h, s)) = Some (Inr (h', s')) \<and>
    (\<forall>i. 0 < i \<and> i < 32 \<longrightarrow> gpr h' i = gpr h i) \<and> pc h' = pc h \<and> sie_on s' = sie_on s \<and>
    procs s' = procs s \<and> current_process s' = None \<and>
    (\<forall>x. \<not> in_rng (gpr h 2 - 288) 288 x \<longrightarrow> mem s' x = mem s x)"
proof -
  obtain h1 s1 where enter: "trap_save (take_trap cause tval (h, s)) = (h1, s1)" by force
  then have keep: "uart_live s1" "current_process s1 = None" "procs s1 = procs s" "gpr h1 2 = gpr h1 10"
    using live idle by (auto simp: trap_save_def take_trap_def Let_def uart_live_def)
  obtain h3 s3 where dummy: "trap_restore (clobber h1, s1) = (h3, s3)" by force
  have c: "ctx_word (mem s1) (gpr h1 10) 34 = cause"
    using trap_resume(8) [OF enter convention _ dummy] keep(4) by simp
  obtain s2 where s2: "trap_handler A (gpr h1 10) s1 = Some (Inr s2)" "mem s2 = mem s1"
    "procs s2 = procs s1" "current_process s2 = None"
    using trap_handler_returns [OF keep(1,2), of "gpr h1 10" A] intr irq c by auto
  obtain h3 s3 where leave: "trap_restore (clobber h1, s2) = (h3, s3)" by force
  note r = trap_resume [OF enter convention _ leave]
  obtain v where "s3 = s2\<lparr>sstatus := v\<rparr>" using trap_restore_effect(4) [OF leave] by blast
  then have same: "mem s3 = mem s2" "procs s3 = procs s2" "current_process s3 = current_process s2" by simp_all
  have "trap_vector A clobber (take_trap cause tval (h, s)) = Some (Inr (h3, s3))"
    by (simp add: trap_vector_def enter s2(1) leave)
  moreover have "mem s3 x = mem s x" if "\<not> in_rng (gpr h 2 - 288) 288 x" for x
    using r(7) [OF _ that] s2(2) same(1) by simp
  moreover have "procs s3 = procs s" "current_process s3 = None"
    using s2 keep same by simp_all
  moreover have "sie_on s3 = sie_on s" using r(3) [of 1] s2(2) by (simp add: sie_on_def)
  moreover have "\<forall>i. 0 < i \<and> i < 32 \<longrightarrow> gpr h3 i = gpr h i" "pc h3 = pc h" using r(1,2) s2(2) by auto
  ultimately show ?thesis by blast
qed

theorem interrupt_transparent_witness:
  "\<exists>h' s'. trap_vector demo_code id (take_trap 0x8000000000000005 0
      (\<lparr>gpr = (\<lambda>i. of_nat i + 0x80003000), pc = 0x80000100, sepc = 0, scause = 0, stval = 0\<rparr>, demo_kernel)) =
      Some (Inr (h', s')) \<and> gpr h' 7 = 0x80003007 \<and> pc h' = 0x80000100 \<and> sie_on s' = sie_on demo_kernel"
proof -
  have b: "bit (0x8000000000000005 :: u64) 63"
    "irq_of 0x8000000000000005 \<in> {IRQ_S_SOFT, IRQ_S_TIMER, IRQ_S_EXT}"
    by (simp_all add: irq_of_def SCAUSE_INTR_FLAG_def IRQ_S_TIMER_def)
  have idle: "current_process demo_kernel = None" by (simp add: demo_kernel_defs)
  let ?h = "\<lparr>gpr = (\<lambda>i. of_nat i + 0x80003000), pc = 0x80000100, sepc = 0, scause = 0, stval = 0\<rparr> :: hart"
  obtain h' s' where "trap_vector demo_code id (take_trap 0x8000000000000005 0 (?h, demo_kernel)) = Some (Inr (h', s'))"
    "\<forall>i. 0 < i \<and> i < 32 \<longrightarrow> gpr h' i = gpr ?h i" "pc h' = pc ?h" "sie_on s' = sie_on demo_kernel"
    using interrupt_transparent [OF demo_kernel_facts(3) idle b, of id demo_code 0 ?h] by auto
  then show ?thesis by (intro exI [of _ h'] exI [of _ s']) simp
qed

section \<open>The machine-mode vector\<close>

lemma mtrap_save_return:
  assumes save: "mtrap_save (h, s) = (h1, s1)" and same: "mem s2 = mem s1"
    and gprs: "\<And>i. i \<notin> {6, 7, 10, 17} \<Longrightarrow> gpr h2 i = gpr h1 i"
    and ret: "mtrap_return (h2, s2) = (h3, s3)"
  shows "gpr h3 = gpr h" "mscratch h3 = mscratch h" "pc h3 = mepc h2" "s3 = s2"
    "\<And>x. \<not> in_rng (mscratch h - 40) 40 x \<Longrightarrow> mem s1 x = mem s x"
proof -
  let ?kvs = "[(0 :: nat, gpr h 6), (1, gpr h 7), (2, gpr h 10), (3, gpr h 17), (4, gpr h 5)]"
  have h1: "h1 = h\<lparr>gpr := (gpr h)(5 := mscratch h - 40, 6 := mcause h), mscratch := gpr h 5\<rparr>"
    and s1: "s1 = s\<lparr>mem := st_words (mscratch h - 40) ?kvs (mem s)\<rparr>"
    using save by (auto simp: mtrap_save_def Let_def)
  have t0: "gpr h2 5 = mscratch h - 40" using gprs [of 5] by (simp add: h1)
  have w: "ctx_word (mem s2) (mscratch h - 40) k = (case map_of ?kvs k of Some v \<Rightarrow> v | None \<Rightarrow> 0)" if "k < 5" for k
  proof -
    have "k = 0 \<or> k = 1 \<or> k = 2 \<or> k = 3 \<or> k = 4" using that by arith
    moreover have "ctx_word (st_words (mscratch h - 40) ?kvs (mem s)) (mscratch h - 40) k =
        (case map_of ?kvs k of Some v \<Rightarrow> v | None \<Rightarrow> ctx_word (mem s) (mscratch h - 40) k)"
      using that by (intro ctx_word_st_words) auto
    ultimately show ?thesis by (auto simp: same s1)
  qed
  have g3: "gpr h3 = (gpr h2)(7 := gpr h 7, 10 := gpr h 10, 17 := gpr h 17, 6 := gpr h 6, 5 := gpr h 5)"
    using ret by (auto simp: mtrap_return_def Let_def t0 w)
  show "gpr h3 = gpr h"
  proof
    fix i
    show "gpr h3 i = gpr h i"
      using gprs [of i] by (cases "i \<in> {5, 6, 7, 10, 17}") (auto simp: g3 h1)
  qed
  show "mscratch h3 = mscratch h" "pc h3 = mepc h2" "s3 = s2"
    using ret by (auto simp: mtrap_return_def Let_def t0)
  show "mem s1 x = mem s x" if "\<not> in_rng (mscratch h - 40) 40 x" for x
    using st_words_outside [of ?kvs 5 "mscratch h - 40" x "mem s"] that by (simp add: s1)
qed

lemma sless_0_iff: "(w :: u64) <s 0 \<longleftrightarrow> bit w 63"
  using bit_last_iff [of w] by (simp add: word_sless_alt)

definition stacked :: "mhart \<Rightarrow> 'a machine_scheme \<Rightarrow> 'a machine_scheme \<Rightarrow> bool" where
  "stacked h s s' \<longleftrightarrow> (\<exists>m. s' = s\<lparr>mem := m\<rparr> \<and> (\<forall>x. \<not> in_rng (mscratch h - 40) 40 x \<longrightarrow> m x = mem s x))"

text \<open>
  C22. The machine-mode vector serves exactly two traps, the timer call of the supervisor (cause 9
  with \<^verbatim>\<open>a7\<close> zero) and the machine timer interrupt, and is transparent for both: all general
  registers and \<^verbatim>\<open>mscratch\<close> are as before, only the 40 bytes below the top of the machine stack are
  written, and execution goes on after the call or at the interrupted instruction. The call sets
  the compare register, withdraws the pending supervisor interrupt and arms the machine timer; the
  interrupt disarms it and makes the supervisor interrupt pending. Any other trap ends in the panic
  message and its endless loop.
\<close>

theorem mtrap_vector_effect:
  fixes h :: mhart and s :: "'a machine_scheme"
  shows "(mcause h = 9 \<and> gpr h 17 = 0 \<longrightarrow> (\<exists>h' s'. stacked h s s' \<and>
        mtrap_vector (h, s) = Inr (h', m_set_timer (gpr h 10) s') \<and>
        gpr h' = gpr h \<and> mscratch h' = mscratch h \<and> pc h' = mepc h + 4)) \<and>
    (mcause h = 0x8000000000000007 \<longrightarrow> (\<exists>h' s'. stacked h s s' \<and>
        mtrap_vector (h, s) = Inr (h', m_timer_interrupt s') \<and>
        gpr h' = gpr h \<and> mscratch h' = mscratch h \<and> pc h' = mepc h)) \<and>
    (\<not> (mcause h = 9 \<and> gpr h 17 = 0) \<and> mcause h \<noteq> 0x8000000000000007 \<longrightarrow>
      (\<exists>s'. stacked h s s' \<and> mtrap_vector (h, s) = Inl (m_panic s')))"
proof -
  obtain h1 s1 where save: "mtrap_save (h, s) = (h1, s1)" by force
  have g1: "gpr h1 6 = mcause h" "gpr h1 17 = gpr h 17" "gpr h1 10 = gpr h 10" "mepc h1 = mepc h"
    and s1: "s1 = s\<lparr>mem := mem s1\<rparr>"
    using save by (auto simp: mtrap_save_def Let_def)
  obtain ha sa where ecall: "mtrap_return (h1\<lparr>mepc := mepc h1 + 4\<rparr>, m_set_timer (gpr h1 10) s1) = (ha, sa)" by force
  obtain hb sb where timer: "mtrap_return (h1, m_timer_interrupt s1) = (hb, sb)" by force
  have ma: "mem (m_set_timer a s1) = mem s1" "mem (m_timer_interrupt s1) = mem s1" for a
    by (simp_all add: m_set_timer_def m_timer_interrupt_def)
  note ra = mtrap_save_return [OF save ma(1) _ ecall, simplified]
  note rb = mtrap_save_return [OF save ma(2) _ timer, simplified]
  have sv: "stacked h s s1" using s1 ra(5) unfolding stacked_def by blast
  have cause: "drop_bit 1 (push_bit 1 w) \<noteq> 7 \<longleftrightarrow> w \<noteq> 0x8000000000000007" if "w <s 0" for w :: u64
  proof -
    have b: "bit w 63" using that by (simp add: sless_0_iff)
    have "drop_bit 1 (push_bit 1 w) = take_bit 63 w"
      by (rule bit_word_eqI)
        (simp only: bit_drop_bit_eq o_apply bit_push_bit_iff bit_take_bit_iff possible_bit_word, auto)
    moreover have "take_bit 63 w = 7 \<longleftrightarrow> w = 0x8000000000000007"
    proof
      assume "take_bit 63 w = 7"
      moreover have "w = take_bit 63 w OR push_bit 63 1"
      proof (rule bit_word_eqI)
        fix n
        assume "n < LENGTH(64)"
        then consider "n < 63" | "n = 63" by (force simp: less_Suc_eq)
        then show "bit w n = bit (take_bit 63 w OR push_bit 63 1) n"
          by cases (simp_all only: bit_or_iff bit_take_bit_iff bit_push_bit_iff possible_bit_word b, simp_all)
      qed
      ultimately show "w = 0x8000000000000007" by simp
    qed simp
    ultimately show ?thesis by simp
  qed
  have neg: "\<not> (9 :: u64) <s 0" "(0x8000000000000007 :: u64) <s 0" unfolding sless_0_iff by simp_all
  have v: "mtrap_vector (h, s) =
      (if mcause h <s 0 then
         if mcause h \<noteq> 0x8000000000000007 then Inl (m_panic s1) else Inr (hb, sb)
       else if mcause h \<noteq> 9 then Inl (m_panic s1)
       else if gpr h 17 \<noteq> 0 then Inl (m_panic s1)
       else Inr (ha, sa))"
    unfolding mtrap_vector_def save Let_def prod.case g1 timer ecall [unfolded g1]
    by (cases "mcause h <s 0") (simp_all only: cause if_True if_False)
  have "mtrap_vector (h, s) = Inr (ha, m_set_timer (gpr h 10) s1) \<and> gpr ha = gpr h \<and>
      mscratch ha = mscratch h \<and> pc ha = mepc h + 4" if "mcause h = 9 \<and> gpr h 17 = 0"
    using that ra g1 neg(1) v by simp
  moreover have "mtrap_vector (h, s) = Inr (hb, m_timer_interrupt s1) \<and> gpr hb = gpr h \<and>
      mscratch hb = mscratch h \<and> pc hb = mepc h" if "mcause h = 0x8000000000000007"
    using that rb g1 neg(2) v by simp
  moreover have "mtrap_vector (h, s) = Inl (m_panic s1)"
    if "\<not> (mcause h = 9 \<and> gpr h 17 = 0)" "mcause h \<noteq> 0x8000000000000007"
    using that by (auto simp: v)
  ultimately show ?thesis using sv by blast
qed

theorem mtrap_vector_effect_witness:
  "\<exists>h' s'. mtrap_vector (\<lparr>gpr = (\<lambda>i. if i = 17 then 0 else of_nat i), pc = 0, sepc = 0, scause = 0, stval = 0,
      mcause = 9, mepc = 0x80000200, mscratch = 0x80002000\<rparr>, demo_kernel) = Inr (h', s') \<and>
    gpr h' 6 = 6 \<and> pc h' = 0x80000204 \<and> mtimecmp s' = 10"
proof -
  let ?h = "\<lparr>gpr = (\<lambda>i. if i = 17 then 0 else of_nat i), pc = 0, sepc = 0, scause = 0, stval = 0,
      mcause = 9, mepc = 0x80000200, mscratch = 0x80002000\<rparr> :: mhart"
  have "mcause ?h = 9 \<and> gpr ?h 17 = 0" by simp
  then obtain h' s' where "mtrap_vector (?h, demo_kernel) = Inr (h', m_set_timer (gpr ?h 10) s')"
      "gpr h' = gpr ?h" "pc h' = mepc ?h + 4"
    using mtrap_vector_effect [of ?h demo_kernel] by blast
  then show ?thesis by (intro exI [of _ h'] exI [of _ "m_set_timer (gpr ?h 10) s'"]) (simp add: m_set_timer_def)
qed

section \<open>The timer protocol\<close>

text \<open>The steps that touch the timer: the machine timer fires while armed; the supervisor takes a
  pending timer or software interrupt; any other code leaves both bits alone.\<close>

inductive tstep :: "code \<Rightarrow> 'a kernel_scheme \<Rightarrow> 'a kernel_scheme \<Rightarrow> bool" for A where
  fires: "bit (mie s) 7 \<Longrightarrow> tstep A s (m_timer_interrupt s)"
| timer: "bit (mip s) 5 \<Longrightarrow> handle_timer_interrupt A ctx s = Some s' \<Longrightarrow> tstep A s s'"
| software: "handle_software_interrupt ctx s = Some s' \<Longrightarrow> tstep A s s'"
| other: "bit (mie s') 7 = bit (mie s) 7 \<Longrightarrow> bit (mip s') 5 = bit (mip s) 5 \<Longrightarrow> tstep A s s'"

definition one_shot :: "'a machine_scheme \<Rightarrow> bool" where
  "one_shot s \<longleftrightarrow> (bit (mie s) 7 \<longleftrightarrow> \<not> bit (mip s) 5)"

lemma bit_0x20 [simp]: "bit (0x20 :: u64) n \<longleftrightarrow> n = 5"
proof -
  have "(0x20 :: u64) = push_bit 5 1" by simp
  then show ?thesis by (auto simp only: bit_push_bit_iff bit_1_iff possible_bit_word) auto
qed

lemma bit_0x80 [simp]: "bit (0x80 :: u64) n \<longleftrightarrow> n = 7"
proof -
  have "(0x80 :: u64) = push_bit 7 1" by simp
  then show ?thesis by (auto simp only: bit_push_bit_iff bit_1_iff possible_bit_word) auto
qed

lemma set_timer_armed:
  "bit (mie (set_timer i s)) 7" "\<not> bit (mip (set_timer i s)) 5"
  "mtimecmp (set_timer i s) = time_in s (time_rd s) + i"
  by (simp_all add: set_timer_def get_time_def m_set_timer_def)

lemma yield_csrs [simp]:
  "mie (yield A s) = mie s" "mip (yield A s) = mip s" "mtimecmp (yield A s) = mtimecmp s"
  by (simp_all add: yield_def call_swtch_def swtch_def ctx_store_def set_proc_def Let_def split: option.split)

lemma handle_timer_armed:
  assumes "handle_timer_interrupt A ctx s = Some s'"
  shows "bit (mie s') 7" "\<not> bit (mip s') 5"
proof -
  obtain u where "s' = yield A (set_timer 10000000 u)"
    using assms by (auto simp: handle_timer_interrupt_def get_time_def bind_eq_Some_conv Let_def)
  then show "bit (mie s') 7" "\<not> bit (mip s') 5" by (simp_all add: set_timer_armed)
qed

lemma handle_software_keeps:
  assumes "handle_software_interrupt ctx s = Some s'"
  shows "mie s' = mie s" "bit (mip s') 5 = bit (mip s) 5"
proof -
  obtain u where u: "uart_puts soft_text s = Some u" "s' = u\<lparr>mip := csr_clear (mip u) (push_bit 1 1)\<rparr>"
    using assms by (auto simp: handle_software_interrupt_def soft_text_def bind_eq_Some_conv)
  from uart.says_emits [OF says_soft u(1)] have "mie u = mie s" "mip u = mip s" by (auto simp: uart_emits_def)
  with u(2) show "mie s' = mie s" "bit (mip s') 5 = bit (mip s) 5" by (simp_all add: bit_simps)
qed

interpretation timer: invariant_system "tstep A" one_shot for A
proof
  fix s s' :: "'a kernel_scheme"
  assume s: "one_shot s" and "tstep A s s'"
  from this(2) show "one_shot s'"
  proof cases
    case fires
    then show ?thesis by (simp add: one_shot_def m_timer_interrupt_def)
  next
    case (timer ctx)
    then show ?thesis using handle_timer_armed [OF timer(2)] by (simp add: one_shot_def)
  next
    case (software ctx)
    then show ?thesis using s handle_software_keeps [OF software] by (simp add: one_shot_def)
  qed (use s in \<open>simp add: one_shot_def\<close>)
qed

text \<open>
  C24. The timer is one-shot and never lost: from the first \<open>set_timer\<close> on, through any sequence of
  machine timer interrupts, supervisor timer and software interrupts and other code, exactly one of
  two things holds, the machine timer is armed or the supervisor interrupt is pending. Taking the
  pending interrupt arms the timer again.
\<close>

theorem timer_never_lost:
  assumes "(tstep A)\<^sup>*\<^sup>* (set_timer i s) s'"
  shows "(bit (mie s') 7 \<longleftrightarrow> \<not> bit (mip s') 5) \<and>
    (\<forall>ctx s''. handle_timer_interrupt A ctx s' = Some s'' \<longrightarrow> bit (mie s'') 7 \<and> \<not> bit (mip s'') 5)"
proof -
  have "one_shot (set_timer i s)" by (simp add: one_shot_def set_timer_armed)
  from timer.good_run [OF assms this] show ?thesis
    by (simp add: one_shot_def) (blast dest: handle_timer_armed)
qed

theorem timer_never_lost_witness:
  "bit (mip (m_timer_interrupt (set_timer 5 demo_kernel))) 5 \<and>
    \<not> bit (mie (m_timer_interrupt (set_timer 5 demo_kernel))) 7"
proof -
  have "tstep demo_code (set_timer 5 demo_kernel) (m_timer_interrupt (set_timer 5 demo_kernel))"
    by (rule tstep.fires) (rule set_timer_armed)
  from timer_never_lost [OF r_into_rtranclp [of "tstep demo_code", OF this]]
  have "bit (mie (m_timer_interrupt (set_timer 5 demo_kernel))) 7 \<longleftrightarrow>
      \<not> bit (mip (m_timer_interrupt (set_timer 5 demo_kernel))) 5" by simp
  moreover have "\<not> bit (mie (m_timer_interrupt (set_timer 5 demo_kernel))) 7"
    by (simp add: m_timer_interrupt_def)
  ultimately show ?thesis by blast
qed

end
