(* ===== verification/Net_Packet.thy ===== *)
theory Net_Packet
  imports Uart Mem_Ops
begin

text \<open>
  The packet layer of \<^verbatim>\<open>src/src/driver/virt_mmio.c\<close> (lines 24 to 153): byte order, the text
  form of MAC and IPv4 addresses, the ARP report, and the functions that build a VirtIO network
  header, an Ethernet frame and an ARP reply in a buffer.

  A packet is a block of the byte memory; the fields of the packed C structures are accesses at
  the offsets below. \<open>mac_text\<close> and \<open>ip_text\<close> are the usual notations; the lemmas show that the
  printing functions produce them, that a built frame has its bytes in network order, and that a
  built ARP reply is reported with the addresses that were put in.
\<close>

declare lit_Cons [simp del]

section \<open>Definitions\<close>

definition ETH_P_IP :: u16 where "ETH_P_IP = 0x0800"
definition ETH_P_ARP :: u16 where "ETH_P_ARP = 0x0806"
definition ETH_P_IPV6 :: u16 where "ETH_P_IPV6 = 0x86DD"

text \<open>\<^verbatim>\<open>struct eth_hdr\<close>, 14 bytes.\<close>

definition eth_dst :: u64 where "eth_dst = 0"
definition eth_src :: u64 where "eth_src = 6"
definition eth_type :: u64 where "eth_type = 12"
definition sizeof_eth_hdr :: u64 where "sizeof_eth_hdr = 14"

text \<open>\<^verbatim>\<open>struct ipv4_hdr\<close>, the fields that are used.\<close>

definition ip_proto :: u64 where "ip_proto = 9"
definition ip_src :: u64 where "ip_src = 12"
definition ip_dst :: u64 where "ip_dst = 16"

text \<open>\<^verbatim>\<open>struct arp_hdr\<close>, 28 bytes.\<close>

definition arp_htype :: u64 where "arp_htype = 0"
definition arp_ptype :: u64 where "arp_ptype = 2"
definition arp_hlen :: u64 where "arp_hlen = 4"
definition arp_plen :: u64 where "arp_plen = 5"
definition arp_oper :: u64 where "arp_oper = 6"
definition arp_sha :: u64 where "arp_sha = 8"
definition arp_spa :: u64 where "arp_spa = 14"
definition arp_tha :: u64 where "arp_tha = 18"
definition arp_tpa :: u64 where "arp_tpa = 24"
definition sizeof_arp_hdr :: u64 where "sizeof_arp_hdr = 28"

text \<open>\<^verbatim>\<open>struct virtio_net_hdr\<close>, 12 bytes.\<close>

definition vnet_flags :: u64 where "vnet_flags = 0"
definition vnet_gso_type :: u64 where "vnet_gso_type = 1"
definition vnet_hdr_len :: u64 where "vnet_hdr_len = 2"
definition vnet_gso_size :: u64 where "vnet_gso_size = 4"
definition vnet_csum_start :: u64 where "vnet_csum_start = 6"
definition vnet_csum_offset :: u64 where "vnet_csum_offset = 8"
definition sizeof_virtio_net_hdr :: u64 where "sizeof_virtio_net_hdr = 12"

definition ntohs :: "u16 \<Rightarrow> u16" where
  "ntohs n = push_bit 8 n OR drop_bit 8 n"

definition ntohl :: "u32 \<Rightarrow> u32" where
  "ntohl n = BE2LE n"

definition hex_digit :: "u8 \<Rightarrow> u8" where
  "hex_digit h = (if h > 9 then h + 65 - 10 else h + 48)"

function print_mac_loop :: "u64 \<Rightarrow> nat \<Rightarrow> 'a machine_scheme \<Rightarrow> 'a machine_scheme option" where
  "print_mac_loop mac i s =
     (if i < 6 then do {
        let b = mem s (mac + of_nat i);
        let h = drop_bit 4 b AND 0xF;
        let l = b AND 0xF;
        s \<leftarrow> uart_putc (hex_digit h) s;
        s \<leftarrow> uart_putc (hex_digit l) s;
        s \<leftarrow> (if i < 5 then uart_putc 58 s else Some s);
        print_mac_loop mac (Suc i) s
      }
      else Some s)"
  by pat_completeness auto
termination
  by (relation "measure (\<lambda>(mac, i, s). 6 - i)") auto

declare print_mac_loop.simps [simp del]

definition print_mac :: "u64 \<Rightarrow> 'a machine_scheme \<Rightarrow> 'a machine_scheme option" where
  "print_mac mac s = print_mac_loop mac 0 s"

definition print_octet :: "u8 \<Rightarrow> 'a machine_scheme \<Rightarrow> 'a machine_scheme option" where
  "print_octet val s =
     (if val \<ge> 100 then do {
        s \<leftarrow> uart_putc (val div 100 + 48) s;
        s \<leftarrow> uart_putc ((val div 10) mod 10 + 48) s;
        uart_putc (val mod 10 + 48) s
      }
      else if val \<ge> 10 then do {
        s \<leftarrow> uart_putc (val div 10 + 48) s;
        uart_putc (val mod 10 + 48) s
      }
      else uart_putc (val + 48) s)"

text \<open>The bytes of \<^verbatim>\<open>ip\<close> in memory order, lowest first.\<close>

function print_ip_loop :: "u32 \<Rightarrow> nat \<Rightarrow> 'a machine_scheme \<Rightarrow> 'a machine_scheme option" where
  "print_ip_loop ip i s =
     (if i < 4 then do {
        let val = ucast (drop_bit (8 * i) ip);
        s \<leftarrow> print_octet val s;
        s \<leftarrow> (if i < 3 then uart_putc 46 s else Some s);
        print_ip_loop ip (Suc i) s
      }
      else Some s)"
  by pat_completeness auto
termination
  by (relation "measure (\<lambda>(ip, i, s). 4 - i)") auto

declare print_ip_loop.simps [simp del]

definition print_ip :: "u32 \<Rightarrow> 'a machine_scheme \<Rightarrow> 'a machine_scheme option" where
  "print_ip ip s = print_ip_loop ip 0 s"

definition parse_arp :: "u64 \<Rightarrow> 'a machine_scheme \<Rightarrow> 'a machine_scheme option" where
  "parse_arp arp s = do {
     s \<leftarrow> uart_puts (lit ''  ARP: '') s;
     if ntohs (ld16 (mem s) (arp + arp_oper)) = 1 then do {
       s \<leftarrow> uart_puts (lit ''Request for '') s;
       s \<leftarrow> print_ip (ld32 (mem s) (arp + arp_tpa)) s;
       s \<leftarrow> uart_puts (lit '' from '') s;
       s \<leftarrow> print_ip (ld32 (mem s) (arp + arp_spa)) s;
       uart_putc 10 s
     }
     else if ntohs (ld16 (mem s) (arp + arp_oper)) = 2 then do {
       s \<leftarrow> uart_puts (lit ''Reply from '') s;
       s \<leftarrow> print_ip (ld32 (mem s) (arp + arp_spa)) s;
       s \<leftarrow> uart_puts (lit '' to '') s;
       s \<leftarrow> print_ip (ld32 (mem s) (arp + arp_tpa)) s;
       uart_putc 10 s
     }
     else do {
       s \<leftarrow> uart_puts (lit ''Unknown ARP operation: '') s;
       s \<leftarrow> uart_b2x (ucast (ntohs (ld16 (mem s) (arp + arp_oper)))) s;
       uart_putc 10 s
     }
   }"

text \<open>The first two fields are bytes, so the 16-bit arguments lose their upper halves;
  \<^verbatim>\<open>num_buffers\<close> is not written.\<close>

definition build_virtio_net_hdr ::
  "u64 \<Rightarrow> u16 \<Rightarrow> u16 \<Rightarrow> u16 \<Rightarrow> u16 \<Rightarrow> u16 \<Rightarrow> u16 \<Rightarrow> memory \<Rightarrow> memory" where
  "build_virtio_net_hdr hdr flags gso_type hdr_len gso_size csum_start csum_offset m =
     (let m = m(hdr + vnet_flags := ucast flags);
          m = m(hdr + vnet_gso_type := ucast gso_type);
          m = st16 m (hdr + vnet_hdr_len) hdr_len;
          m = st16 m (hdr + vnet_gso_size) gso_size;
          m = st16 m (hdr + vnet_csum_start) csum_start
      in st16 m (hdr + vnet_csum_offset) csum_offset)"

text \<open>The MAC arguments are arrays of six bytes of their own, given by their contents. The loop
  writes \<open>xs\<close> at \<open>a\<close> and \<open>ys\<close> at \<open>b\<close> alternately.\<close>

function copy_macs :: "u64 \<Rightarrow> u8 list \<Rightarrow> u64 \<Rightarrow> u8 list \<Rightarrow> nat \<Rightarrow> memory \<Rightarrow> memory" where
  "copy_macs a xs b ys i m =
     (if i < 6 then
        copy_macs a xs b ys (Suc i) ((m(a + of_nat i := xs ! i))(b + of_nat i := ys ! i))
      else m)"
  by pat_completeness auto
termination
  by (relation "measure (\<lambda>(a, xs, b, ys, i, m). 6 - i)") auto

declare copy_macs.simps [simp del]

definition build_eth_frame ::
  "u64 \<Rightarrow> u8 list \<Rightarrow> u8 list \<Rightarrow> u16 \<Rightarrow> u64 \<Rightarrow> u16 \<Rightarrow> memory \<Rightarrow> memory" where
  "build_eth_frame buffer dst_mac src_mac ethtype payload payload_len m =
     (let m = copy_macs (buffer + eth_dst) dst_mac (buffer + eth_src) src_mac 0 m;
          m = st16 m (buffer + eth_type) (ntohs ethtype)
      in mem_copy (buffer + sizeof_eth_hdr) payload (ucast payload_len) m)"

definition build_arp_response ::
  "u64 \<Rightarrow> u8 list \<Rightarrow> u32 \<Rightarrow> u8 list \<Rightarrow> u32 \<Rightarrow> memory \<Rightarrow> memory" where
  "build_arp_response buffer src_mac src_ip dst_mac dst_ip m =
     (let m = st16 m (buffer + arp_htype) (ntohs 1);
          m = st16 m (buffer + arp_ptype) (ntohs ETH_P_IP);
          m = m(buffer + arp_hlen := 6);
          m = m(buffer + arp_plen := 4);
          m = st16 m (buffer + arp_oper) (ntohs 2);
          m = copy_macs (buffer + arp_sha) src_mac (buffer + arp_tha) dst_mac 0 m;
          m = st32 m (buffer + arp_spa) src_ip
      in st32 m (buffer + arp_tpa) dst_ip)"

section \<open>Bytes of the multi-byte accesses\<close>

lemma st16_bytes: "st16 m a v = (m(a + 1 := ucast (drop_bit 8 v)))(a := ucast v)"
proof -
  have "(ucast (drop_bit 8 (ucast v :: u64)) :: u8) = ucast (drop_bit 8 v)" "(ucast (ucast v :: u64) :: u8) = ucast v"
    by (rule bit_word_eqI; simp add: bit_simps)+
  then show ?thesis by (simp add: st16_def numeral_2_eq_2)
qed

lemma st32_bytes:
  "st32 m a v = (((m(a + 3 := ucast (drop_bit 24 v)))(a + 2 := ucast (drop_bit 16 v)))
     (a + 1 := ucast (drop_bit 8 v)))(a := ucast v)"
proof -
  have n: "st_le 4 = st_le (Suc (Suc (Suc (Suc 0))))" by (simp add: numeral_eq_Suc)
  have e: "(ucast (drop_bit k (ucast v :: u64)) :: u8) = ucast (drop_bit k v)" for k
    by (rule bit_word_eqI) (auto simp: bit_simps dest: bit_imp_le_length)
  show ?thesis
    by (simp add: st32_def n drop_bit_drop_bit e e [of 0, simplified] add.assoc)
qed

lemma ld16_bytes: "ld16 m a = ucast (m a) OR push_bit 8 (ucast (m (a + 1)))"
  by (rule bit_word_eqI) (auto simp: ld16_def numeral_2_eq_2 bit_simps)

lemma ld32_eqI:
  assumes "m a = ucast v" "m (a + 1) = ucast (drop_bit 8 v)" "m (a + 2) = ucast (drop_bit 16 v)"
    "m (a + 3) = ucast (drop_bit 24 v)"
  shows "ld32 m a = v"
proof (rule bit_word_eqI)
  fix k
  assume "k < LENGTH(32)"
  then consider "k < 8" | "8 \<le> k" "k < 16" | "16 \<le> k" "k < 24" | "24 \<le> k" "k < 32" by fastforce
  then show "bit (ld32 m a) k = bit v k"
  proof cases
    case 1
    then show ?thesis by (simp add: bit_ld32 assms bit_simps)
  next
    case 2
    then have "k div 8 = 1" "k mod 8 = k - 8" by presburger+
    with 2 show ?thesis by (auto simp: bit_ld32 assms bit_simps)
  next
    case 3
    then have "k div 8 = 2" "k mod 8 = k - 16" by presburger+
    with 3 show ?thesis by (auto simp: bit_ld32 assms bit_simps)
  next
    case 4
    then have "k div 8 = 3" "k mod 8 = k - 24" by presburger+
    with 4 show ?thesis by (auto simp: bit_ld32 assms bit_simps)
  qed
qed

section \<open>Byte order\<close>

lemma ntohs_bytes: "(ucast (ntohs n) :: u8) = ucast (drop_bit 8 n)"
    "(ucast (drop_bit 8 (ntohs n)) :: u8) = ucast n"
  by (rule bit_word_eqI; auto simp: ntohs_def bit_simps dest: bit_imp_le_length)+

lemma ntohs_involution: "ntohs (ntohs n) = n"
  by (rule bit_word_eqI) (auto simp: ntohs_def bit_simps dest: bit_imp_le_length)

lemma ntohl_involution: "ntohl (ntohl n) = n"
  by (simp add: ntohl_def BE2LE_involution)

section \<open>Address notations\<close>

definition join :: "u8 \<Rightarrow> u8 list list \<Rightarrow> u8 list" where
  "join sep xss = concat (map (\<lambda>xs. xs @ [sep]) (butlast xss)) @ last xss"

definition mac_text :: "u8 list \<Rightarrow> u8 list" where
  "mac_text mac = join 58 (map (\<lambda>b. hex_text 2 (unat b)) mac)"

definition octets :: "u32 \<Rightarrow> u8 list" where
  "octets ip = map (\<lambda>i. ucast (drop_bit (8 * i) ip)) [0..<4]"

definition ip_text :: "u32 \<Rightarrow> u8 list" where
  "ip_text ip = join 46 (map (\<lambda>b. dec_text (unat b)) (octets ip))"

lemma join_single [simp]: "join sep [xs] = xs"
  by (simp add: join_def)

lemma join_Cons [simp]: "yss \<noteq> [] \<Longrightarrow> join sep (xs # yss) = xs @ [sep] @ join sep yss"
  by (simp add: join_def)

lemma hex_digits_byte:
  "hex_digit (drop_bit 4 b AND 0xF) = hex_char (unat b div 16)" "hex_digit (b AND 0xF) = hex_char (unat b mod 16)"
proof -
  have e: "hex_digit t = t + (if t > 9 then 0x37 else 0x30)" for t by (simp add: hex_digit_def)
  have "unat b div 16 mod 16 = unat b div 16" using unat_lt_8 [of b] by simp
  with nibble_char [of 1 b] nibble_char [of 0 b]
  show "hex_digit (drop_bit 4 b AND 0xF) = hex_char (unat b div 16)" "hex_digit (b AND 0xF) = hex_char (unat b mod 16)"
    by (simp_all add: e)
qed

lemma hex_text_byte: "hex_text 2 (unat (b :: u8)) = [hex_digit (drop_bit 4 b AND 0xF)] @ [hex_digit (b AND 0xF)]"
proof -
  have "unat b div 16 mod 16 = unat b div 16" using unat_lt_8 [of b] by simp
  then have "hex_text 2 (unat b) = [hex_char (unat b div 16), hex_char (unat b mod 16)]"
    by (simp add: numeral_2_eq_2)
  then show ?thesis unfolding hex_digits_byte(1) [of b] hex_digits_byte(2) [of b] by simp
qed

lemma dec_text_octet:
  "dec_text (unat (v :: u8)) =
     (if v \<ge> 100 then [v div 100 + 48] @ [(v div 10) mod 10 + 48] @ [v mod 10 + 48]
      else if v \<ge> 10 then [v div 10 + 48] @ [v mod 10 + 48] else [v + 48])"
proof -
  define n where "n = unat v"
  have n: "n < 256" using unat_lt_8 [of v] by (simp add: n_def)
  have d: "v div 100 = of_nat (n div 100)" "v div 10 = of_nat (n div 10)" "v mod 10 = of_nat (n mod 10)"
    "v = of_nat n"
    by (simp_all add: word_arith_nat_div word_arith_nat_mod n_def)
  have u: "unat (v div 10) = n div 10" by (simp add: unat_div n_def)
  have m: "(v div 10) mod 10 = of_nat (n div 10 mod 10)" by (simp add: word_arith_nat_mod [of "v div 10"] u)
  have le: "v \<ge> 100 \<longleftrightarrow> n \<ge> 100" "v \<ge> 10 \<longleftrightarrow> n \<ge> 10" by (simp_all add: word_le_nat_alt n_def)
  consider "n \<ge> 100" | "10 \<le> n" "n < 100" | "n < 10" by linarith
  then show ?thesis
  proof cases
    case 1
    then have "n div 10 \<noteq> 0" "n div 100 \<noteq> 0" "n div 1000 = 0" "n div 100 mod 10 = n div 100" using n by auto
    then have "nat_digits n = [48 + of_nat (n mod 10), 48 + of_nat (n div 10 mod 10), 48 + of_nat (n div 100)]"
      using 1 by (subst nat_digits.simps, subst nat_digits.simps, subst nat_digits.simps, subst nat_digits.simps)
        (simp add: div_mult2_eq [symmetric])
    with 1 show ?thesis by (simp only: le if_True dec_text_def d(1,3) m flip: n_def) (simp add: add.commute)
  next
    case 2
    then have "n div 10 \<noteq> 0" "n div 100 = 0" "n div 10 mod 10 = n div 10" by auto
    then have "nat_digits n = [48 + of_nat (n mod 10), 48 + of_nat (n div 10)]"
      using 2 by (subst nat_digits.simps, subst nat_digits.simps, subst nat_digits.simps)
        (simp add: div_mult2_eq [symmetric])
    with 2 show ?thesis by (simp only: le dec_text_def d(2,3) flip: n_def) (simp add: add.commute)
  next
    case 3
    then have "nat_digits n = (if n = 0 then [] else [48 + of_nat n])"
      by (subst nat_digits.simps, subst nat_digits.simps) simp
    with 3 show ?thesis by (simp only: le dec_text_def flip: n_def) (simp add: d(4) [symmetric] add.commute, simp add: d(4))
  qed
qed

lemma says_print_octet: "uart.says (print_octet v s) s (dec_text (unat v))"
proof -
  consider "v \<ge> 100" | "\<not> v \<ge> 100" "v \<ge> 10" | "\<not> v \<ge> 100" "\<not> v \<ge> 10" by blast
  then show ?thesis
    unfolding print_octet_def dec_text_octet
    by cases (simp_all only: if_True if_False, (rule uart.says_bind says_putc)+)
qed

lemma join_upt:
  "Suc i < n \<Longrightarrow> join sep (map f [i..<n]) = f i @ [sep] @ join sep (map f [Suc i..<n])"
  by (simp add: upt_conv_Cons)

lemma join_upt_last: "join sep (map f [i..<Suc i]) = f i"
  by simp

lemma says_print_ip_loop:
  "i < 4 \<Longrightarrow> uart.says (print_ip_loop ip i s) s
     (join 46 (map (\<lambda>i. dec_text (unat (ucast (drop_bit (8 * i) ip) :: u8))) [i..<4]))"
proof (induction "3 - i" arbitrary: i s)
  case 0
  then have i: "i = 3" by simp
  have e: "[3..<4] = [3..<Suc 3]" by simp
  have nil: "uart.says (print_ip_loop ip 4 t) t []" for t :: "'a machine_scheme"
    using uart.says_nothing [of t] by (subst print_ip_loop.simps) simp
  have "uart.says (Option.bind (print_octet (ucast (drop_bit (8 * 3) ip)) s) (print_ip_loop ip 4)) s
      (dec_text (unat (ucast (drop_bit (8 * 3) ip) :: u8)) @ [])"
    by (rule uart.says_bind [OF says_print_octet nil])
  then show ?case
    unfolding i e join_upt_last by (subst print_ip_loop.simps) (simp add: Let_def)
next
  case (Suc d)
  then have i: "Suc i < 4" and d: "d = 3 - Suc i" by simp_all
  have step: "print_ip_loop ip i s = Option.bind (print_octet (ucast (drop_bit (8 * i) ip)) s)
      (\<lambda>s. Option.bind (uart_putc 46 s) (print_ip_loop ip (Suc i)))"
    using i by (subst print_ip_loop.simps) (simp add: Let_def)
  show ?case
    unfolding step join_upt [OF i]
    by (rule uart.says_bind [OF says_print_octet uart.says_bind [OF says_putc Suc.hyps(1) [OF d i]]])
qed

lemma says_print_ip: "uart.says (print_ip ip s) s (ip_text ip)"
  using says_print_ip_loop [of 0 ip s] by (simp add: print_ip_def ip_text_def octets_def comp_def)

lemma says_print_mac_loop:
  "i < 6 \<Longrightarrow> uart.says (print_mac_loop mac i s) s
     (join 58 (map (\<lambda>i. hex_text 2 (unat (mem s (mac + of_nat i)))) [i..<6]))"
proof (induction "5 - i" arbitrary: i s)
  case 0
  then have i: "i = 5" by simp
  have e: "[5..<6] = [5..<Suc 5]" by simp
  have nil: "uart.says (print_mac_loop mac 6 t) t []" for t :: "'a machine_scheme"
    using uart.says_nothing [of t] by (subst print_mac_loop.simps) simp
  let ?b = "mem s (mac + of_nat 5)"
  have step: "print_mac_loop mac 5 s = Option.bind (uart_putc (hex_digit (drop_bit 4 ?b AND 0xF)) s)
      (\<lambda>s. Option.bind (uart_putc (hex_digit (?b AND 0xF)) s) (print_mac_loop mac 6))"
    by (subst print_mac_loop.simps) (simp add: Let_def)
  have "uart.says (print_mac_loop mac 5 s) s ([hex_digit (drop_bit 4 ?b AND 0xF)] @ [hex_digit (?b AND 0xF)] @ [])"
    unfolding step by (rule uart.says_bind [OF says_putc uart.says_bind [OF says_putc nil]])
  then show ?case unfolding i e join_upt_last hex_text_byte by (simp only: append_Nil2)
next
  case (Suc d)
  then have i: "Suc i < 6" and d: "d = 5 - Suc i" by simp_all
  let ?b = "mem s (mac + of_nat i)"
  have step: "print_mac_loop mac i s = Option.bind (uart_putc (hex_digit (drop_bit 4 ?b AND 0xF)) s)
      (\<lambda>s. Option.bind (uart_putc (hex_digit (?b AND 0xF)) s)
        (\<lambda>s. Option.bind (uart_putc 58 s) (print_mac_loop mac (Suc i))))"
    using i by (subst print_mac_loop.simps) (simp add: Let_def)
  have rest: "uart.says (print_mac_loop mac (Suc i) t) t
      (join 58 (map (\<lambda>i. hex_text 2 (unat (mem s (mac + of_nat i)))) [Suc i..<6]))" if "mem t = mem s"
    for t :: "'a machine_scheme"
    using Suc.hyps(1) [OF d i, of t] that by simp
  show ?case
    unfolding step join_upt [OF i] hex_text_byte [of ?b] append_assoc
    by (rule uart.says_bind says_putc rest | (drule uart_emits_mem)+, simp)+
qed

lemma says_print_mac: "uart.says (print_mac mac s) s (mac_text (bytes (mem s) mac 6))"
  using says_print_mac_loop [of 0 mac s] by (simp add: print_mac_def mac_text_def bytes_def comp_def)

section \<open>What the builders write\<close>

lemma length6E:
  assumes "length xs = 6"
  obtains a b c d e f where "xs = [a, b, c, d, e, f]"
  using assms by (auto simp: length_Suc_conv numeral_eq_Suc)

lemma copy_macs_bytes:
  "copy_macs a xs b ys 0 m =
     (m(a := xs ! 0, b := ys ! 0, a + 1 := xs ! 1, b + 1 := ys ! 1, a + 2 := xs ! 2, b + 2 := ys ! 2,
        a + 3 := xs ! 3, b + 3 := ys ! 3, a + 4 := xs ! 4, b + 4 := ys ! 4, a + 5 := xs ! 5, b + 5 := ys ! 5))"
  by (simp add: copy_macs.simps [of a xs b ys] numeral_eq_Suc)

text \<open>The fields of the structures as constants.\<close>

lemmas packet_offsets = eth_dst_def eth_src_def eth_type_def sizeof_eth_hdr_def ip_proto_def ip_src_def
  ip_dst_def arp_htype_def arp_ptype_def arp_hlen_def arp_plen_def arp_oper_def arp_sha_def arp_spa_def
  arp_tha_def arp_tpa_def sizeof_arp_hdr_def

lemma upt28: "[0..<28] = [0, 1, 2, 3, 4, 5, 6, 7, 8, 9, 10, 11, 12, 13, 14, 15, 16, 17, 18, 19, 20, 21,
    22, 23, 24, 25, 26, 27]"
  by (simp add: upt_conv_Cons)

lemma octets_eq: "octets v = [ucast v, ucast (drop_bit 8 v), ucast (drop_bit 16 v), ucast (drop_bit 24 v)]"
  by (simp add: octets_def upt_conv_Cons)

lemma ntohs_consts:
  "(ucast (ntohs 1) :: u8) = 0" "(ucast (drop_bit 8 (ntohs 1)) :: u8) = 1"
  "(ucast (ntohs 2) :: u8) = 0" "(ucast (drop_bit 8 (ntohs 2)) :: u8) = 2"
  "(ucast (ntohs ETH_P_IP) :: u8) = 8" "(ucast (drop_bit 8 (ntohs ETH_P_IP)) :: u8) = 0"
  by (simp_all add: ntohs_bytes ETH_P_IP_def)

lemma build_arp_response_bytes:
  assumes "length smac = 6" "length dmac = 6"
  shows "bytes (build_arp_response buf smac sip dmac dip m) buf 28 =
    [0, 1, 8, 0, 6, 4, 0, 2] @ smac @ octets sip @ dmac @ octets dip"
proof -
  obtain s0 s1 s2 s3 s4 s5 where s: "smac = [s0, s1, s2, s3, s4, s5]" using assms(1) by (rule length6E)
  obtain d0 d1 d2 d3 d4 d5 where d: "dmac = [d0, d1, d2, d3, d4, d5]" using assms(2) by (rule length6E)
  show ?thesis
    unfolding build_arp_response_def Let_def packet_offsets copy_macs_bytes st16_bytes st32_bytes ntohs_consts
    by (simp add: s d bytes_def upt28 octets_eq add.assoc)
qed

definition eth_header :: "u64 \<Rightarrow> u8 list \<Rightarrow> u8 list \<Rightarrow> u16 \<Rightarrow> memory \<Rightarrow> memory" where
  "eth_header buf dmac smac ty m =
     st16 (copy_macs (buf + eth_dst) dmac (buf + eth_src) smac 0 m) (buf + eth_type) (ntohs ty)"

lemma upt14: "[0..<14] = [0, 1, 2, 3, 4, 5, 6, 7, 8, 9, 10, 11, 12, 13]"
  by (simp add: upt_conv_Cons)

lemma eth_header_bytes:
  assumes "length dmac = 6" "length smac = 6"
  shows "bytes (eth_header buf dmac smac ty m) buf 14 = dmac @ smac @ [ucast (drop_bit 8 ty), ucast ty]"
proof -
  obtain s0 s1 s2 s3 s4 s5 where s: "smac = [s0, s1, s2, s3, s4, s5]" using assms(2) by (rule length6E)
  obtain d0 d1 d2 d3 d4 d5 where d: "dmac = [d0, d1, d2, d3, d4, d5]" using assms(1) by (rule length6E)
  show ?thesis
    unfolding eth_header_def packet_offsets copy_macs_bytes st16_bytes ntohs_bytes
    by (simp add: s d bytes_def upt14 add.assoc)
qed

lemma eth_header_outside: "\<not> in_rng buf 14 x \<Longrightarrow> eth_header buf dmac smac ty m x = m x"
proof -
  assume "\<not> in_rng buf 14 x"
  then have "x \<noteq> buf + of_nat i" if "i < 14" for i using that by (auto intro!: in_rng_offset)
  from this [of 0] this [of 1] this [of 2] this [of 3] this [of 4] this [of 5] this [of 6] this [of 7]
    this [of 8] this [of 9] this [of 10] this [of 11] this [of 12] this [of 13]
  show ?thesis
    unfolding eth_header_def packet_offsets copy_macs_bytes st16_bytes by (simp add: add.assoc)
qed

text \<open>
  \<open>build_eth_frame\<close> writes the frame in wire order: destination, source, the type with its high
  byte first, then the payload, for a payload that lies outside the frame. Only the frame's bytes
  change.
\<close>

theorem build_eth_frame_bytes:
  assumes macs: "length dmac = 6" "length smac = 6"
    and disj: "rng_disj buf (14 + unat plen) payload (unat plen)"
  shows "bytes (build_eth_frame buf dmac smac ty payload plen m) buf (14 + unat plen) =
      dmac @ smac @ [ucast (drop_bit 8 ty), ucast ty] @ bytes m payload (unat plen) \<and>
    (\<forall>x. \<not> in_rng buf (14 + unat plen) x \<longrightarrow> build_eth_frame buf dmac smac ty payload plen m x = m x)"
proof -
  define n where "n = unat plen"
  have n: "unat (ucast plen :: u32) = n" "n < 2 ^ 16"
    using unat_lt_16 [of plen] by (simp_all add: n_def unat_ucast_up)
  have f: "build_eth_frame buf dmac smac ty payload plen m =
      mem_copy (buf + 14) payload (ucast plen) (eth_header buf dmac smac ty m)"
    by (simp add: build_eth_frame_def eth_header_def Let_def sizeof_eth_hdr_def)
  have shift: "in_rng buf (14 + n) x" if r: "in_rng (buf + 14) n x" for x
  proof -
    obtain i where i: "i < n" "x = buf + of_nat (14 + i)" using r by (elim in_rngE) (simp add: add.assoc)
    then show ?thesis using n(2) by (simp only: i(2)) (rule in_rng_offset, simp_all)
  qed
  have hd: "in_rng buf (14 + n) x" if "in_rng buf 14 x" for x using that by (rule in_rng_mono) simp
  have d: "rng_disj (buf + 14) n payload n"
    using disj shift unfolding rng_disj_def n_def [symmetric] by blast
  note c = mem_copy_bytes [of "buf + 14" "ucast plen" payload, unfolded n(1), OF d]
  have hdr: "bytes (mem_copy (buf + 14) payload (ucast plen) (eth_header buf dmac smac ty m)) buf 14 =
      bytes (eth_header buf dmac smac ty m) buf 14"
  proof (rule bytes_cong)
    fix x
    assume "in_rng buf 14 x"
    then obtain i where i: "i < 14" "x = buf + of_nat i" by (rule in_rngE)
    have "\<not> in_rng (buf + 14) n x"
    proof
      assume "in_rng (buf + 14) n x"
      then obtain j where j: "j < n" "x = buf + of_nat (14 + j)" by (elim in_rngE) (simp add: add.assoc)
      with i have "(of_nat i :: u64) = of_nat (14 + j)" by simp
      then show False using i(1) j(1) n(2) by (subst (asm) of_nat_word_inj) auto
    qed
    then show "mem_copy (buf + 14) payload (ucast plen) (eth_header buf dmac smac ty m) x =
        eth_header buf dmac smac ty m x" by (rule c(2))
  qed simp
  have "bytes (eth_header buf dmac smac ty m) payload n = bytes m payload n"
  proof (rule bytes_cong)
    show "n \<le> 2 ^ 64" using n(2) by simp
    fix x
    assume "in_rng payload n x"
    then have "\<not> in_rng buf 14 x" using disj hd rng_disjD unfolding n_def by blast
    then show "eth_header buf dmac smac ty m x = m x" by (rule eth_header_outside)
  qed
  then have "bytes (build_eth_frame buf dmac smac ty payload plen m) buf (14 + n) =
      dmac @ smac @ [ucast (drop_bit 8 ty), ucast ty] @ bytes m payload n"
    unfolding f bytes_append hdr eth_header_bytes [OF macs] using c(1) by simp
  moreover have "build_eth_frame buf dmac smac ty payload plen m x = m x" if "\<not> in_rng buf (14 + n) x" for x
    using that shift hd c(2) eth_header_outside unfolding f by metis
  ultimately show ?thesis unfolding n_def by blast
qed

theorem build_eth_frame_bytes_witness:
  "bytes (build_eth_frame 0x1000 [1, 2, 3, 4, 5, 6] [7, 8, 9, 10, 11, 12] ETH_P_ARP 0x2000 2
     ((\<lambda>_. 0)(0x2001 := 0xAB))) 0x1000 16 =
    [1, 2, 3, 4, 5, 6, 7, 8, 9, 10, 11, 12, 8, 6, 0, 0xAB]"
proof -
  have d: "rng_disj 0x1000 (14 + unat (2 :: u16)) 0x2000 (unat (2 :: u16))" by (rule rng_disjI) simp_all
  have two: "[0..<2] = [0, Suc 0]" by (simp add: upt_rec)
  show ?thesis
    using build_eth_frame_bytes [OF _ _ d, of "[1, 2, 3, 4, 5, 6]" "[7, 8, 9, 10, 11, 12]" ETH_P_ARP
        "(\<lambda>_. 0)(0x2001 := 0xAB)"]
    by (simp add: ETH_P_ARP_def bytes_def two)
qed

section \<open>The ARP report\<close>

definition arp_text :: "memory \<Rightarrow> u64 \<Rightarrow> u8 list" where
  "arp_text m arp = lit ''  ARP: '' @
     (let oper = ntohs (ld16 m (arp + arp_oper));
          spa = ip_text (ld32 m (arp + arp_spa));
          tpa = ip_text (ld32 m (arp + arp_tpa))
      in if oper = 1 then lit ''Request for '' @ tpa @ lit '' from '' @ spa @ [10]
         else if oper = 2 then lit ''Reply from '' @ spa @ lit '' to '' @ tpa @ [10]
         else lit ''Unknown ARP operation: '' @ (lit ''0x'' @ hex_text 8 (unat oper)) @ [10])"

lemma says_ip_field: "mem s = m \<Longrightarrow> uart.says (print_ip (ld32 (mem s) a) s) s (ip_text (ld32 m a))"
  by (simp add: says_print_ip)

lemma says_parse_arp: "uart.says (parse_arp arp s) s (arp_text (mem s) arp)"
proof -
  have b2x: "uart.says (uart_b2x (ucast (ntohs (ld16 (mem t) a))) t) t
      (lit ''0x'' @ hex_text 8 (unat (ntohs (ld16 m a))))" if "mem t = m" for t :: "'a machine_scheme" and m a
    using says_b2x [of "ucast (ntohs (ld16 (mem t) a))" t] that by (simp add: unat_ucast_up)
  show ?thesis
    unfolding parse_arp_def arp_text_def Let_def
  proof (rule uart.says_bind [OF says_puts])
    fix t
    assume "uart_emits s (lit ''  ARP: '') t"
    then have m: "mem t = mem s" by (rule uart_emits_mem)
    consider "ntohs (ld16 (mem s) (arp + arp_oper)) = 1"
      | "ntohs (ld16 (mem s) (arp + arp_oper)) = 2"
      | "ntohs (ld16 (mem s) (arp + arp_oper)) \<noteq> 1" "ntohs (ld16 (mem s) (arp + arp_oper)) \<noteq> 2" by blast
    then show "uart.says
        (if ntohs (ld16 (mem t) (arp + arp_oper)) = 1 then do {
           s \<leftarrow> uart_puts (lit ''Request for '') t;
           s \<leftarrow> print_ip (ld32 (mem s) (arp + arp_tpa)) s;
           s \<leftarrow> uart_puts (lit '' from '') s;
           s \<leftarrow> print_ip (ld32 (mem s) (arp + arp_spa)) s;
           uart_putc 10 s
         }
         else if ntohs (ld16 (mem t) (arp + arp_oper)) = 2 then do {
           s \<leftarrow> uart_puts (lit ''Reply from '') t;
           s \<leftarrow> print_ip (ld32 (mem s) (arp + arp_spa)) s;
           s \<leftarrow> uart_puts (lit '' to '') s;
           s \<leftarrow> print_ip (ld32 (mem s) (arp + arp_tpa)) s;
           uart_putc 10 s
         }
         else do {
           s \<leftarrow> uart_puts (lit ''Unknown ARP operation: '') t;
           s \<leftarrow> uart_b2x (ucast (ntohs (ld16 (mem s) (arp + arp_oper)))) s;
           uart_putc 10 s
         }) t
        (if ntohs (ld16 (mem s) (arp + arp_oper)) = 1
         then lit ''Request for '' @ ip_text (ld32 (mem s) (arp + arp_tpa)) @ lit '' from '' @
           ip_text (ld32 (mem s) (arp + arp_spa)) @ [10]
         else if ntohs (ld16 (mem s) (arp + arp_oper)) = 2
         then lit ''Reply from '' @ ip_text (ld32 (mem s) (arp + arp_spa)) @ lit '' to '' @
           ip_text (ld32 (mem s) (arp + arp_tpa)) @ [10]
         else lit ''Unknown ARP operation: '' @
           (lit ''0x'' @ hex_text 8 (unat (ntohs (ld16 (mem s) (arp + arp_oper))))) @ [10])"
      by cases (simp_all add: m del: append_assoc,
        (rule uart.says_bind says_putc says_ip_field b2x says_puts | (drule uart_emits_mem)+, simp add: m | simp)+)
  qed simp
qed

lemma build_arp_response_fields:
  fixes m buf smac sip dmac dip
  assumes "length smac = 6" "length dmac = 6"
  defines "m' \<equiv> build_arp_response buf smac sip dmac dip m"
  shows "ntohs (ld16 m' (buf + arp_oper)) = 2" "ld32 m' (buf + arp_spa) = sip" "ld32 m' (buf + arp_tpa) = dip"
proof -
  obtain s0 s1 s2 s3 s4 s5 where s: "smac = [s0, s1, s2, s3, s4, s5]" using assms(1) by (rule length6E)
  obtain d0 d1 d2 d3 d4 d5 where d: "dmac = [d0, d1, d2, d3, d4, d5]" using assms(2) by (rule length6E)
  have b: "m' (buf + of_nat i) = ([0, 1, 8, 0, 6, 4, 0, 2] @ smac @ octets sip @ dmac @ octets dip) ! i" if "i < 28" for i
    using build_arp_response_bytes [OF assms(1,2), of buf sip dip m] that
    by (metis nth_bytes m'_def)
  show "ntohs (ld16 m' (buf + arp_oper)) = 2"
    using b [of 6] b [of 7] by (simp add: ld16_bytes arp_oper_def ntohs_def add.assoc)
  show "ld32 m' (buf + arp_spa) = sip"
    using b [of 14] b [of 15] b [of 16] b [of 17]
    by (intro ld32_eqI) (simp_all add: arp_spa_def s octets_eq add.assoc)
  show "ld32 m' (buf + arp_tpa) = dip"
    using b [of 24] b [of 25] b [of 26] b [of 27]
    by (intro ld32_eqI) (simp_all add: arp_tpa_def s d octets_eq add.assoc)
qed

text \<open>
  C35. An ARP reply built by \<open>build_arp_response\<close> is 28 bytes in wire order, and \<open>parse_arp\<close> reports it
  as a reply from the sender's to the target's address, each in dotted decimal.
\<close>

theorem arp_reply_roundtrip:
  fixes s :: "'a machine_scheme"
  assumes macs: "length smac = 6" "length dmac = 6" and live: "uart_live s"
    and built: "mem s = build_arp_response buf smac sip dmac dip m"
  shows "bytes (mem s) buf 28 = [0, 1, 8, 0, 6, 4, 0, 2] @ smac @ octets sip @ dmac @ octets dip \<and>
    (\<exists>t. parse_arp buf s = Some t \<and> uart_emits s
      (lit ''  ARP: '' @ lit ''Reply from '' @ ip_text sip @ lit '' to '' @ ip_text dip @ [10]) t)"
proof -
  have "arp_text (mem s) buf =
      lit ''  ARP: '' @ lit ''Reply from '' @ ip_text sip @ lit '' to '' @ ip_text dip @ [10]"
    by (simp add: arp_text_def Let_def built build_arp_response_fields [OF macs])
  then show ?thesis
    using uart.says_total [OF says_parse_arp live, of buf] build_arp_response_bytes [OF macs] built by auto
qed

text \<open>A machine whose transmitter is always idle.\<close>

definition idle_machine :: "memory \<Rightarrow> machine" where
  "idle_machine m = \<lparr>mem = m, sstatus = 2, mie = 0, mip = 0, stvec = 0, satp = 0, time_in = (\<lambda>_. 0), time_rd = 0,
     mtimecmp = 0, uart_in = (\<lambda>_ _. 0x60), uart_rd = 0, uart_wr = []\<rparr>"

lemma idle_machine_live: "uart_live (idle_machine m)"
  by (auto simp: uart_live_def idle_machine_def LSR_TX_IDLE_def)

theorem arp_reply_roundtrip_witness:
  "\<exists>t. parse_arp 0x1000 (idle_machine (build_arp_response 0x1000 [1, 2, 3, 4, 5, 6] 0x0F02000A
        [7, 8, 9, 10, 11, 12] 0x0202000A (\<lambda>_. 0))) = Some t \<and>
     map snd (uart_wr t) = lit (''  ARP: Reply from 10.0.2.15 to 10.0.2.2'' @ [CHR 0x0A])"
proof -
  let ?s = "idle_machine (build_arp_response 0x1000 [1, 2, 3, 4, 5, 6] 0x0F02000A
        [7, 8, 9, 10, 11, 12] 0x0202000A (\<lambda>_. 0))"
  obtain t where t: "parse_arp 0x1000 ?s = Some t"
    "uart_emits ?s (lit ''  ARP: '' @ lit ''Reply from '' @ ip_text 0x0F02000A @ lit '' to '' @
        ip_text 0x0202000A @ [10]) t"
    using arp_reply_roundtrip [of "[1, 2, 3, 4, 5, 6]" "[7, 8, 9, 10, 11, 12]" ?s "0x1000" "0x0F02000A" "0x0202000A" "\<lambda>_. 0"]
      idle_machine_live by (auto simp: idle_machine_def)
  have "ip_text 0x0F02000A = lit ''10.0.2.15''" "ip_text 0x0202000A = lit ''10.0.2.2''"
    by (simp_all add: ip_text_def octets_eq dec_text_octet lit_Cons)
  with t show ?thesis
    by (intro exI [of _ t]) (auto simp: uart_emits_def idle_machine_def lit_Cons comp_def)
qed

text \<open>
  \<open>print_mac\<close> prints six two-digit hexadecimal numbers joined by colons and \<open>print_ip\<close> the four
  bytes in decimal without leading zeros joined by dots, whenever the transmitter answers, and
  neither writes anything else.
\<close>

theorem addresses_printed:
  assumes "uart_live s"
  shows "(\<exists>t. print_mac mac s = Some t \<and> uart_emits s (mac_text (bytes (mem s) mac 6)) t) \<and>
    (\<exists>t. print_ip ip s = Some t \<and> uart_emits s (ip_text ip) t)"
  using uart.says_total [OF says_print_mac assms] uart.says_total [OF says_print_ip assms] by blast

theorem addresses_printed_witness:
  "\<exists>t. print_mac 0x1000 (idle_machine (mem_of 0x1000 [0xDE, 0xAD, 0xBE, 0xEF, 0, 1])) = Some t \<and>
     map snd (uart_wr t) = lit ''DE:AD:BE:EF:00:01''"
proof -
  let ?s = "idle_machine (mem_of 0x1000 [0xDE, 0xAD, 0xBE, 0xEF, 0, 1])"
  have b: "bytes (mem ?s) 0x1000 6 = [0xDE, 0xAD, 0xBE, 0xEF, 0, 1]"
  proof -
    have six: "6 = length [0xDE, 0xAD, 0xBE, 0xEF, 0, 1 :: u8]" by simp
    show ?thesis unfolding six by (simp only: idle_machine_def machine.simps, rule bytes_mem_of) simp
  qed
  obtain t where t: "print_mac 0x1000 ?s = Some t" "uart_emits ?s (mac_text [0xDE, 0xAD, 0xBE, 0xEF, 0, 1]) t"
    using addresses_printed [OF idle_machine_live, of "0x1000" "mem_of 0x1000 [0xDE, 0xAD, 0xBE, 0xEF, 0, 1]"]
    unfolding b by blast
  have "mac_text [0xDE, 0xAD, 0xBE, 0xEF, 0, 1] = lit ''DE:AD:BE:EF:00:01''"
    by (simp only: mac_text_def list.map hex_text_byte) (simp add: hex_digit_def lit_Cons)
  with t show ?thesis
    by (intro exI [of _ t]) (auto simp: uart_emits_def idle_machine_def comp_def)
qed

end
