(* ===== verification/Virtq.thy ===== *)
theory Virtq
  imports Process Paging Net_Packet
begin

text \<open>
  The virtqueues of \<^verbatim>\<open>src/src/driver/virt_mmio.c\<close> and \<^verbatim>\<open>src/include/driver/virt_mmio.h\<close>: the driver's
  view of a queue (\<open>virtio_net_queue\<close>), the rings in memory that it shares with the device, device
  register accesses, and \<open>virt_mmio_net_virtq_init\<close>.

  The device is a parameter of the model, part of the state record \<open>net\<close>:

  \<^item> \<open>mmio_in w n a\<close> is what the n-th register read returns when it is made at address \<open>a\<close> after the
    register writes \<open>w\<close>; \<open>mmio_rd\<close> counts the reads and \<open>mmio_wr\<close> logs the writes in order.
  \<^item> The device writes memory on its own (used rings, receive buffers). \<open>dma_in w n\<close> is what it has
    done to memory when the driver passes its n-th memory barrier after the register writes \<open>w\<close>;
    the driver sees the device's writes at its barriers. The configuration space is plain bytes of
    memory at the device's address.

  A ring is the packed layout of \<^verbatim>\<open>struct virtq\<close>: 256 descriptors of 16 bytes, the available ring at
  4096, the used ring at 4612, 6664 bytes in all.
\<close>

declare lit_Cons [simp del]

section \<open>Constants\<close>

definition VIRTIO_NET_RX_QUEUE :: nat where "VIRTIO_NET_RX_QUEUE = 0"
definition VIRTIO_NET_TX_QUEUE :: nat where "VIRTIO_NET_TX_QUEUE = 1"
definition VIRTIO_NET_QUEUE_COUNT :: nat where "VIRTIO_NET_QUEUE_COUNT = 2"

definition DESC_QUEUE_SIZE :: nat where "DESC_QUEUE_SIZE = 256"
definition QUEUE_BUF_SIZE :: u32 where "QUEUE_BUF_SIZE = 2048"

definition VIRTQ_DESC_F_WRITE :: u32 where "VIRTQ_DESC_F_WRITE = BIT_MASK 1"

definition VIRTIO_MMIO_QUEUE_NOTIFY :: u32 where "VIRTIO_MMIO_QUEUE_NOTIFY = 0x050"

section \<open>State\<close>

record virtio_net_queue =
  ring :: u64
  buffers :: u64
  qsize :: u16
  last_used_idx :: u16
  next_desc :: u16
  in_use :: "u8 list"

record net = kernel +
  net_queues :: "virtio_net_queue list"
  mmio_in :: "(u64 \<times> u32) list \<Rightarrow> nat \<Rightarrow> u64 \<Rightarrow> u32"
  mmio_rd :: nat
  mmio_wr :: "(u64 \<times> u32) list"
  dma_in :: "(u64 \<times> u32) list \<Rightarrow> nat \<Rightarrow> memory \<Rightarrow> memory"
  dma_rd :: nat

definition queue :: "'a net_scheme \<Rightarrow> nat \<Rightarrow> virtio_net_queue" where
  "queue s i = net_queues s ! i"

definition set_queue ::
  "nat \<Rightarrow> (virtio_net_queue \<Rightarrow> virtio_net_queue) \<Rightarrow> 'a net_scheme \<Rightarrow> 'a net_scheme" where
  "set_queue i f s = s\<lparr>net_queues := (net_queues s)[i := f (net_queues s ! i)]\<rparr>"

section \<open>Layout of a ring\<close>

definition desc_addr :: "u64 \<Rightarrow> u64 \<Rightarrow> u64" where "desc_addr r i = r + 16 * i"
definition desc_len :: "u64 \<Rightarrow> u64 \<Rightarrow> u64" where "desc_len r i = r + 16 * i + 8"
definition desc_id :: "u64 \<Rightarrow> u64 \<Rightarrow> u64" where "desc_id r i = r + 16 * i + 12"
definition desc_flags :: "u64 \<Rightarrow> u64 \<Rightarrow> u64" where "desc_flags r i = r + 16 * i + 14"
definition avail :: "u64 \<Rightarrow> u64" where "avail r = r + 4096"
definition avail_idx :: "u64 \<Rightarrow> u64" where "avail_idx r = r + 4098"
definition avail_ring :: "u64 \<Rightarrow> u64 \<Rightarrow> u64" where "avail_ring r k = r + 4100 + 2 * k"
definition used :: "u64 \<Rightarrow> u64" where "used r = r + 4612"
definition used_idx :: "u64 \<Rightarrow> u64" where "used_idx r = r + 4614"
definition used_id :: "u64 \<Rightarrow> u64 \<Rightarrow> u64" where "used_id r k = r + 4616 + 8 * k"
definition used_len :: "u64 \<Rightarrow> u64 \<Rightarrow> u64" where "used_len r k = r + 4616 + 8 * k + 4"
definition sizeof_virtq :: u32 where "sizeof_virtq = 6664"

section \<open>Device accesses\<close>

definition virt_mmio_read :: "u64 \<Rightarrow> u32 \<Rightarrow> 'a net_scheme \<Rightarrow> u32 \<times> 'a net_scheme" where
  "virt_mmio_read device offset s =
     (mmio_in s (mmio_wr s) (mmio_rd s) (device + 4 * ucast (offset div 4)), s\<lparr>mmio_rd := Suc (mmio_rd s)\<rparr>)"

definition virt_mmio_write :: "u64 \<Rightarrow> u32 \<Rightarrow> u32 \<Rightarrow> 'a net_scheme \<Rightarrow> 'a net_scheme" where
  "virt_mmio_write device offset val s =
     s\<lparr>mmio_wr := mmio_wr s @ [(device + 4 * ucast (offset div 4), val)]\<rparr>"

definition mem_barrier :: "'a net_scheme \<Rightarrow> 'a net_scheme" where
  "mem_barrier s = s\<lparr>mem := dma_in s (mmio_wr s) (dma_rd s) (mem s), dma_rd := Suc (dma_rd s)\<rparr>"

section \<open>Initialisation of the queues\<close>

function init_desc_loop :: "u64 \<Rightarrow> u64 \<Rightarrow> u16 \<Rightarrow> u16 \<Rightarrow> nat \<Rightarrow> memory \<Rightarrow> memory" where
  "init_desc_loop r bufs flags sz i m =
     (if i < unat sz then
        let m = st64 m (desc_addr r (of_nat i)) (bufs + of_nat i * ucast QUEUE_BUF_SIZE);
            m = st32 m (desc_len r (of_nat i)) QUEUE_BUF_SIZE;
            m = st16 m (desc_flags r (of_nat i)) flags
        in init_desc_loop r bufs flags sz (Suc i) m
      else m)"
  by pat_completeness auto
termination
  by (relation "measure (\<lambda>(r, bufs, flags, sz, i, m). unat sz - i)") auto

declare init_desc_loop.simps [simp del]

definition msg_queue_fail :: "u8 list" where
  "msg_queue_fail = lit (''Failed to allocate Virtio queue memory.'' @ [CHR 0x0A])"

text \<open>One round of the outer loop; the result is false when it returned early.\<close>

definition init_queue :: "nat \<Rightarrow> 'a net_scheme \<Rightarrow> (bool \<times> 'a net_scheme) option" where
  "init_queue qi s = do {
     (r, s) \<leftarrow> mem_alloc sizeof_virtq s;
     let s = set_queue qi (ring_update (\<lambda>_. r)) s;
     (b, s) \<leftarrow> mem_alloc (QUEUE_BUF_SIZE * of_nat DESC_QUEUE_SIZE) s;
     let s = set_queue qi (buffers_update (\<lambda>_. b)) s;
     if r = 0 \<or> b = 0 then do {
       s \<leftarrow> uart_puts msg_queue_fail s;
       Some (False, s)
     }
     else do {
       let s = s\<lparr>mem := mem_zero r sizeof_virtq (mem s)\<rparr>;
       let s = s\<lparr>mem := mem_zero b (QUEUE_BUF_SIZE * of_nat DESC_QUEUE_SIZE) (mem s)\<rparr>;
       let s = set_queue qi (\<lambda>q. q\<lparr>qsize := of_nat DESC_QUEUE_SIZE, last_used_idx := 0, next_desc := 0\<rparr>) s;
       let flags = (if qi = VIRTIO_NET_RX_QUEUE then ucast VIRTQ_DESC_F_WRITE else 0);
       let s = s\<lparr>mem := init_desc_loop r b flags (qsize (queue s qi)) 0 (mem s)\<rparr>;
       Some (True, s)
     }
   }"

function init_queues_loop :: "nat \<Rightarrow> 'a net_scheme \<Rightarrow> (bool \<times> 'a net_scheme) option" where
  "init_queues_loop qi s =
     (if qi < VIRTIO_NET_QUEUE_COUNT then do {
        (ok, s) \<leftarrow> init_queue qi s;
        if ok then init_queues_loop (Suc qi) s else Some (False, s)
      }
      else Some (True, s))"
  by pat_completeness auto
termination
  by (relation "measure (\<lambda>(qi, s). VIRTIO_NET_QUEUE_COUNT - qi)") auto

declare init_queues_loop.simps [simp del]

function avail_loop :: "u64 \<Rightarrow> u16 \<Rightarrow> nat \<Rightarrow> memory \<Rightarrow> memory" where
  "avail_loop r sz i m =
     (if i < unat sz then avail_loop r sz (Suc i) (st16 m (avail_ring r (of_nat i)) (of_nat i)) else m)"
  by pat_completeness auto
termination
  by (relation "measure (\<lambda>(r, sz, i, m). unat sz - i)") auto

declare avail_loop.simps [simp del]

definition msg_init_start :: "u8 list" where
  "msg_init_start = lit (''Initializing Virtio Network Device Queue...'' @ [CHR 0x0A])"

definition msg_init_done :: "u8 list" where
  "msg_init_done = lit (''Virtio Network Device Queue initialized.'' @ [CHR 0x0A])"

definition virt_mmio_net_virtq_init :: "u64 \<Rightarrow> 'a net_scheme \<Rightarrow> (int \<times> 'a net_scheme) option" where
  "virt_mmio_net_virtq_init device s = do {
     s \<leftarrow> uart_puts msg_init_start s;
     (ok, s) \<leftarrow> init_queues_loop 0 s;
     if \<not> ok then Some (- 1, s)
     else do {
       let rx = queue s VIRTIO_NET_RX_QUEUE;
       let s = s\<lparr>mem := avail_loop (ring rx) (qsize rx) 0 (mem s)\<rparr>;
       let s = s\<lparr>mem := st16 (mem s) (avail_idx (ring rx)) (qsize rx)\<rparr>;
       let s = mem_barrier s;
       s \<leftarrow> uart_puts msg_init_done s;
       Some (0, s)
     }
   }"

section \<open>Accesses inside one ring\<close>

lemma in_rng_off:
  assumes "a + n \<le> 2 ^ 64" "in_rng (r + of_nat a) n x"
  shows "a \<le> unat (x - r) \<and> unat (x - r) < a + n"
proof -
  obtain i where i: "i < n" "x = r + of_nat (a + i)" using assms(2) by (elim in_rngE) (simp add: add.assoc)
  then have "unat (x - r) = a + i" using assms(1) by (simp only: add_diff_cancel_left') (rule unat_of_nat_lt, simp)
  with i show ?thesis by simp
qed

lemma rng_disj_off:
  assumes "a + n \<le> b \<or> b + k \<le> a" "a + n \<le> 2 ^ 64" "b + k \<le> 2 ^ 64"
  shows "rng_disj (r + of_nat a) n (r + of_nat b) k"
  unfolding rng_disj_def
proof (intro allI notI, elim conjE)
  fix x
  assume "in_rng (r + of_nat a) n x" "in_rng (r + of_nat b) k x"
  with in_rng_off [OF assms(2)] in_rng_off [OF assms(3)]
  have "a \<le> unat (x - r) \<and> unat (x - r) < a + n" "b \<le> unat (x - r) \<and> unat (x - r) < b + k" by blast+
  with assms(1) show False by linarith
qed

lemma ld_st_disj:
  "rng_disj a 8 b 8 \<Longrightarrow> ld64 (st64 m b v) a = ld64 m a"
  "rng_disj a 8 b 4 \<Longrightarrow> ld64 (st32 m b v32) a = ld64 m a"
  "rng_disj a 8 b 2 \<Longrightarrow> ld64 (st16 m b v16) a = ld64 m a"
  "rng_disj a 4 b 8 \<Longrightarrow> ld32 (st64 m b v) a = ld32 m a"
  "rng_disj a 4 b 4 \<Longrightarrow> ld32 (st32 m b v32) a = ld32 m a"
  "rng_disj a 4 b 2 \<Longrightarrow> ld32 (st16 m b v16) a = ld32 m a"
  "rng_disj a 2 b 8 \<Longrightarrow> ld16 (st64 m b v) a = ld16 m a"
  "rng_disj a 2 b 4 \<Longrightarrow> ld16 (st32 m b v32) a = ld16 m a"
  "rng_disj a 2 b 2 \<Longrightarrow> ld16 (st16 m b v16) a = ld16 m a"
  by (rule ld64_cong ld32_cong ld16_cong, auto simp: st64_outside st32_outside st16_outside dest: rng_disjD)+

text \<open>Every field as an offset from the base of its ring.\<close>

lemma ring_offsets:
  "desc_addr r (of_nat i) = r + of_nat (16 * i)" "desc_len r (of_nat i) = r + of_nat (16 * i + 8)"
  "desc_id r (of_nat i) = r + of_nat (16 * i + 12)" "desc_flags r (of_nat i) = r + of_nat (16 * i + 14)"
  "avail_idx r = r + of_nat 4098"
  "avail_ring r (of_nat i) = r + of_nat (4100 + 2 * i)" "used_idx r = r + of_nat 4614"
  "used_id r (of_nat i) = r + of_nat (4616 + 8 * i)" "used_len r (of_nat i) = r + of_nat (4620 + 8 * i)"
  by (simp_all add: desc_addr_def desc_len_def desc_id_def desc_flags_def avail_idx_def avail_ring_def used_idx_def
      used_id_def used_len_def add.assoc)

lemma ucast_of_unat: "(ucast (d :: u16) :: u64) = of_nat (unat d)" "(ucast (e :: u32) :: u64) = of_nat (unat e)"
  by simp_all

lemma buffer_inside:
  assumes "i < 256" "n \<le> 2048" "in_rng (b + of_nat (2048 * i)) n x"
  shows "in_rng b 524288 x"
proof -
  have "2048 * i + n \<le> 524288" using assms(1,2) by auto
  with in_rng_off [OF _ assms(3)] show ?thesis by (simp add: in_rng_def)
qed

lemma ring_inside: "a + n \<le> k \<Longrightarrow> k \<le> 6664 \<Longrightarrow> in_rng (r + of_nat a) n x \<Longrightarrow> in_rng r k x"
proof -
  assume "a + n \<le> k" "k \<le> 6664" "in_rng (r + of_nat a) n x"
  with in_rng_off [of a n r x] show ?thesis by (simp add: in_rng_def)
qed

section \<open>What the steps leave of the rest of the state\<close>

lemma queue_set_queue:
  "i < length (net_queues s) \<Longrightarrow> queue (set_queue i f s) j = (if i = j then f (queue s i) else queue s j)"
  by (auto simp: queue_def set_queue_def nth_list_update)

lemma set_queue_simps [simp]:
  "mem (set_queue i f s) = mem s" "length (net_queues (set_queue i f s)) = length (net_queues s)"
  "dma_in (set_queue i f s) = dma_in s" "mmio_wr (set_queue i f s) = mmio_wr s"
  "dma_rd (set_queue i f s) = dma_rd s" "queue (mem_update g s) = queue s"
  "queue (mem_barrier s) = queue s" "net_queues (mem_barrier s) = net_queues s"
  "dma_in (mem_barrier s) = dma_in s" "mmio_wr (mem_barrier s) = mmio_wr s"
  "mem (mem_barrier s) = dma_in s (mmio_wr s) (dma_rd s) (mem s)"
  "queue (virt_mmio_write dev off v s) = queue s" "net_queues (virt_mmio_write dev off v s) = net_queues s"
  "mem (virt_mmio_write dev off v s) = mem s" "dma_in (virt_mmio_write dev off v s) = dma_in s"
  by (auto simp: set_queue_def mem_barrier_def queue_def virt_mmio_write_def fun_eq_iff)

lemma uart_emits_net:
  "uart_emits s cs t \<Longrightarrow> mem t = mem s \<and> net_queues t = net_queues s \<and> dma_in t = dma_in s \<and>
     dma_rd t = dma_rd s \<and> mmio_wr t = mmio_wr s \<and> mmio_rd t = mmio_rd s \<and> mmio_in t = mmio_in s \<and>
     queue t = queue s"
  for s t :: "'a net_scheme"
  by (auto simp: uart_emits_def queue_def fun_eq_iff)

end
