(* ===== verification/Virtio_Net.thy ===== *)
theory Virtio_Net
  imports Virtq
begin

text \<open>
  The operations of the VirtIO network driver of \<^verbatim>\<open>src/src/driver/virt_mmio.c\<close> over the queues of
  \<open>Virtq\<close>: sending, the receive poll, and transmission with completion. The loops that wait for the
  device are a partial function with result \<open>None\<close> when it never answers.
\<close>

section \<open>Constants\<close>

definition my_ip :: "u8 list" where "my_ip = [10, 0, 2, 15]"

section \<open>Publishing a descriptor\<close>

text \<open>The store into the available ring and, after a barrier, the increment of its index, as both
  \<open>virt_mmio_net_send\<close> and \<open>virt_mmio_net_poll_rx\<close> do it.\<close>

definition avail_put :: "u64 \<Rightarrow> u16 \<Rightarrow> u16 \<Rightarrow> memory \<Rightarrow> memory" where
  "avail_put r sz d m = st16 m (avail_ring r (ucast (ld16 m (avail_idx r) mod sz))) d"

definition avail_bump :: "u64 \<Rightarrow> memory \<Rightarrow> memory" where
  "avail_bump r m = st16 m (avail_idx r) (ld16 m (avail_idx r) + 1)"

section \<open>Sending\<close>

definition next_index :: "u16 \<Rightarrow> u16 \<Rightarrow> u16" where
  "next_index d sz = ucast ((ucast d + 1 :: u32) mod ucast sz)"

function find_free :: "u8 list \<Rightarrow> u16 \<Rightarrow> nat \<Rightarrow> u16 \<Rightarrow> u16" where
  "find_free uses sz searched d =
     (if searched < unat sz then
        if uses ! unat d = 0 then d else find_free uses sz (Suc searched) (next_index d sz)
      else d)"
  by pat_completeness auto
termination
  by (relation "measure (\<lambda>(uses, sz, searched, d). unat sz - searched)") auto

declare find_free.simps [simp del]

definition msg_sending :: "u8 list" where
  "msg_sending = lit (''Sending data via Virtio Network Device...'' @ [CHR 0x0A])"

definition msg_too_long :: "u8 list" where
  "msg_too_long = lit (''TX packet exceeds queue buffer size.'' @ [CHR 0x0A])"

definition msg_no_desc :: "u8 list" where
  "msg_no_desc = lit (''No free TX descriptors.'' @ [CHR 0x0A])"

definition virt_mmio_net_send :: "u64 \<Rightarrow> u64 \<Rightarrow> u32 \<Rightarrow> 'a net_scheme \<Rightarrow> 'a net_scheme option" where
  "virt_mmio_net_send device data len s = do {
     s \<leftarrow> uart_puts msg_sending s;
     if len > QUEUE_BUF_SIZE then uart_puts msg_too_long s
     else do {
       let tx = queue s VIRTIO_NET_TX_QUEUE;
       let r = ring tx;
       let d = find_free (in_use tx) (qsize tx) 0 (next_desc tx);
       if in_use tx ! unat d \<noteq> 0 then uart_puts msg_no_desc s
       else do {
         let m = mem_copy (ld64 (mem s) (desc_addr r (ucast d))) data len (mem s);
         let m = st32 m (desc_len r (ucast d)) len;
         let m = st16 m (desc_flags r (ucast d)) 0;
         let m = avail_put r (qsize tx) d m;
         let s = s\<lparr>mem := m\<rparr>;
         let s = set_queue VIRTIO_NET_TX_QUEUE (\<lambda>q. q\<lparr>in_use := (in_use q)[unat d := 1],
                   next_desc := next_index d (qsize q)\<rparr>) s;
         let s = mem_barrier s;
         let s = s\<lparr>mem := avail_bump r (mem s)\<rparr>;
         let s = mem_barrier s;
         Some (virt_mmio_write device VIRTIO_MMIO_QUEUE_NOTIFY (of_nat VIRTIO_NET_TX_QUEUE) s)
       }
     }
   }"

section \<open>Receiving\<close>

text \<open>The report on a received frame at address \<open>frame\<close>.\<close>

definition report_frame :: "u64 \<Rightarrow> 'a machine_scheme \<Rightarrow> 'a machine_scheme option" where
  "report_frame frame s = do {
     let ethtype = ntohs (ld16 (mem s) (frame + eth_type));
     s \<leftarrow> uart_puts (lit ''Received Frame ['') s;
     s \<leftarrow> print_mac (frame + eth_src) s;
     s \<leftarrow> uart_puts (lit '' -> '') s;
     s \<leftarrow> print_mac (frame + eth_dst) s;
     s \<leftarrow> uart_puts (lit ''] type=0x'') s;
     s \<leftarrow> uart_b2x (ucast ethtype) s;
     s \<leftarrow> uart_putc 10 s;
     if ethtype = ETH_P_IP then do {
       let ip = frame + sizeof_eth_hdr;
       s \<leftarrow> uart_puts (lit ''  IPv4: '') s;
       s \<leftarrow> print_ip (ld32 (mem s) (ip + ip_src)) s;
       s \<leftarrow> uart_puts (lit '' -> '') s;
       s \<leftarrow> print_ip (ld32 (mem s) (ip + ip_dst)) s;
       s \<leftarrow> uart_puts (lit '' proto='') s;
       s \<leftarrow> uart_b2x (ucast (mem s (ip + ip_proto))) s;
       uart_putc 10 s
     }
     else if ethtype = ETH_P_ARP then do {
       s \<leftarrow> uart_puts (lit (''  ARP Packet detected'' @ [CHR 0x0A])) s;
       parse_arp (frame + sizeof_eth_hdr) s
     }
     else Some s
   }"

definition msg_bad_desc :: "u8 list" where
  "msg_bad_desc = lit (''Device returned an invalid RX descriptor.'' @ [CHR 0x0A])"

definition msg_poll_done :: "u8 list" where
  "msg_poll_done = lit (''Finished polling for received data.'' @ [CHR 0x0A])"

text \<open>Descriptor \<open>d\<close> goes back to the available ring and the device is notified.\<close>

definition rx_recycle :: "u64 \<Rightarrow> u16 \<Rightarrow> 'a net_scheme \<Rightarrow> 'a net_scheme" where
  "rx_recycle device d s =
     (let q = queue s VIRTIO_NET_RX_QUEUE;
          s = mem_barrier (s\<lparr>mem := avail_put (ring q) (qsize q) d (mem s)\<rparr>);
          s = s\<lparr>mem := avail_bump (ring q) (mem s)\<rparr>;
          s = set_queue VIRTIO_NET_RX_QUEUE (\<lambda>q. q\<lparr>last_used_idx := last_used_idx q + 1\<rparr>) s;
          s = mem_barrier s
      in virt_mmio_write device VIRTIO_MMIO_QUEUE_NOTIFY (of_nat VIRTIO_NET_RX_QUEUE) s)"

text \<open>The body of the poll loop once the device has moved its index.\<close>

definition rx_handle :: "u64 \<Rightarrow> u32 \<Rightarrow> 'a net_scheme \<Rightarrow> 'a net_scheme option" where
  "rx_handle device len_max s = do {
     let rx = queue s VIRTIO_NET_RX_QUEUE;
     let r = ring rx;
     s \<leftarrow> uart_puts (lit ''Device updated used index to: '') s;
     s \<leftarrow> uart_b2x (ucast (ld16 (mem s) (used_idx r))) s;
     s \<leftarrow> uart_putc 10 s;
     let k = ucast (last_used_idx rx mod qsize rx);
     let desc_index = ld32 (mem s) (used_id r k);
     let len = ld32 (mem s) (used_len r k);
     if desc_index \<ge> ucast (qsize rx) then uart_puts msg_bad_desc s
     else do {
       let buf_addr = ld64 (mem s) (desc_addr r (ucast desc_index));
       let len = (if len > len_max then len_max else len);
       let frame = buf_addr + sizeof_virtio_net_hdr;
       let frame_len = len - ucast sizeof_virtio_net_hdr;
       s \<leftarrow> report_frame frame s;
       let s = rx_recycle device (ucast desc_index) s;
       s \<leftarrow> uart_puts (lit ''Received data length: '') s;
       s \<leftarrow> uart_b2x frame_len s;
       s \<leftarrow> uart_putc 10 s;
       uart_puts msg_poll_done s
     }
   }"

text \<open>Waiting until the used index of a queue differs from the last one seen.\<close>

partial_function (option) wait_used :: "nat \<Rightarrow> 'a net_scheme \<Rightarrow> 'a net_scheme option" where
  "wait_used qi s =
     (let s = mem_barrier s;
          q = queue s qi
      in if last_used_idx q \<noteq> ld16 (mem s) (used_idx (ring q)) then Some s else wait_used qi s)"

definition msg_polling :: "u8 list" where
  "msg_polling = lit (''Polling for received data via Virtio Network Device...'' @ [CHR 0x0A])"

definition virt_mmio_net_poll_rx :: "u64 \<Rightarrow> u64 \<Rightarrow> u32 \<Rightarrow> 'a net_scheme \<Rightarrow> 'a net_scheme option" where
  "virt_mmio_net_poll_rx device buffer len_max s = do {
     s \<leftarrow> uart_puts msg_polling s;
     s \<leftarrow> wait_used VIRTIO_NET_RX_QUEUE s;
     rx_handle device len_max s
   }"

section \<open>Transmission with completion\<close>

definition msg_tx_alloc :: "u8 list" where
  "msg_tx_alloc = lit (''Failed to allocate memory for TX packet.'' @ [CHR 0x0A])"

definition msg_tx_wait :: "u8 list" where
  "msg_tx_wait = lit (''Data sent, waiting for completion...'' @ [CHR 0x0A])"

definition msg_tx_done :: "u8 list" where
  "msg_tx_done = lit (''Device processed TX descriptor.'' @ [CHR 0x0A])"

definition tx_complete :: "'a net_scheme \<Rightarrow> 'a net_scheme" where
  "tx_complete s =
     (let tx = queue s VIRTIO_NET_TX_QUEUE;
          uid = ld32 (mem s) (used_id (ring tx) (ucast (last_used_idx tx mod qsize tx)));
          s = (if uid < ucast (qsize tx)
               then set_queue VIRTIO_NET_TX_QUEUE (\<lambda>q. q\<lparr>in_use := (in_use q)[unat uid := 0]\<rparr>) s else s)
      in set_queue VIRTIO_NET_TX_QUEUE (\<lambda>q. q\<lparr>last_used_idx := last_used_idx q + 1\<rparr>) s)"

definition BROADCAST :: "u8 list" where "BROADCAST = [0xFF, 0xFF, 0xFF, 0xFF, 0xFF, 0xFF]"
definition SRC_MAC :: "u8 list" where "SRC_MAC = [0xDE, 0xAD, 0xBE, 0xEF, 0x00, 0x01]"

text \<open>The packet that is built (and then not sent).\<close>

definition build_packet :: "u64 \<Rightarrow> u64 \<Rightarrow> u32 \<Rightarrow> memory \<Rightarrow> memory" where
  "build_packet packet data len m =
     (let p = packet;
          m = build_virtio_net_hdr p 0 0 0 0 0 0 m;
          p = p + sizeof_virtio_net_hdr;
          m = build_eth_frame p BROADCAST SRC_MAC ETH_P_IP data (ucast len) m;
          p = p + sizeof_eth_hdr;
          m = build_arp_response p SRC_MAC (ntohl (ld32 (mem_of 0 my_ip) 0)) BROADCAST 0 m
      in mem_copy (p + sizeof_arp_hdr) data len m)"

text \<open>The size of the packet, computed in 64 bits and passed on in 32.\<close>

definition packet_size :: "u32 \<Rightarrow> u32" where
  "packet_size len = ucast (ucast len + sizeof_arp_hdr + sizeof_eth_hdr + sizeof_virtio_net_hdr)"

definition virt_mmio_net_tx :: "u64 \<Rightarrow> u64 \<Rightarrow> u32 \<Rightarrow> 'a net_scheme \<Rightarrow> (int \<times> 'a net_scheme) option" where
  "virt_mmio_net_tx device data len s = do {
     (packet, s) \<leftarrow> mem_alloc (packet_size len) s;
     if packet = 0 then do {
       s \<leftarrow> uart_puts msg_tx_alloc s;
       Some (- 1, s)
     }
     else do {
       let s = s\<lparr>mem := build_packet packet data len (mem s)\<rparr>;
       s \<leftarrow> virt_mmio_net_send device data len s;
       s \<leftarrow> uart_puts msg_tx_wait s;
       s \<leftarrow> wait_used VIRTIO_NET_TX_QUEUE s;
       s \<leftarrow> uart_puts msg_tx_done s;
       Some (0, tx_complete s)
     }
   }"

section \<open>The available ring as a queue\<close>

text \<open>What the device is promised: \<open>rep m h\<close> says that memory shows the list \<open>h\<close> of everything
  published so far, and publishing appends to it.\<close>

locale published_log =
  fixes rep :: "'m \<Rightarrow> 'd list \<Rightarrow> bool" and publish :: "'d \<Rightarrow> 'm \<Rightarrow> 'm"
  assumes publish_rep: "rep m h \<Longrightarrow> rep (publish d m) (h @ [d])"
begin

lemma publish_all: "rep m h \<Longrightarrow> rep (fold publish ds m) (h @ ds)"
proof (induction ds arbitrary: m h)
  case (Cons d ds)
  from Cons.IH [OF publish_rep [OF Cons.prems, of d]] show ?case by simp
qed simp

end

text \<open>The index counts publications modulo \<open>2 ^ 16\<close>, and the last \<open>sz\<close> of them are in the ring.\<close>

definition avail_rep :: "u64 \<Rightarrow> memory \<Rightarrow> u16 list \<Rightarrow> bool" where
  "avail_rep r m h \<longleftrightarrow> ld16 m (avail_idx r) = of_nat (length h) \<and>
     (\<forall>k < length h. length h \<le> k + DESC_QUEUE_SIZE \<longrightarrow>
        ld16 m (avail_ring r (of_nat (k mod DESC_QUEUE_SIZE))) = h ! k)"

definition avail_publish :: "u64 \<Rightarrow> u16 \<Rightarrow> memory \<Rightarrow> memory" where
  "avail_publish r d m = avail_bump r (avail_put r (of_nat DESC_QUEUE_SIZE) d m)"

lemma idx_slot: "ucast ((of_nat n :: u16) mod of_nat DESC_QUEUE_SIZE) = (of_nat (n mod DESC_QUEUE_SIZE) :: u64)"
proof -
  have "unat ((of_nat n :: u16) mod 256) = n mod 65536 mod 256"
    by (simp add: unat_mod unat_of_nat)
  also have "\<dots> = n mod 256" by (rule mod_mod_cancel) simp
  finally show ?thesis by (simp add: DESC_QUEUE_SIZE_def ucast_of_unat)
qed

lemma avail_put_at:
  assumes "ld16 m (avail_idx r) = of_nat n"
  shows "avail_put r (of_nat DESC_QUEUE_SIZE) d m =
    st16 m (avail_ring r (of_nat (n mod DESC_QUEUE_SIZE))) d"
  unfolding avail_put_def assms idx_slot ..

lemma slot_idx_disj: "j < 256 \<Longrightarrow> rng_disj (avail_ring r (of_nat j)) 2 (avail_idx r) 2"
  unfolding ring_offsets by (rule rng_disj_off) simp_all

lemma slots_disj: "i < 256 \<Longrightarrow> j < 256 \<Longrightarrow> i \<noteq> j \<Longrightarrow>
    rng_disj (avail_ring r (of_nat i)) 2 (avail_ring r (of_nat j)) 2"
  unfolding ring_offsets by (rule rng_disj_off) auto

lemma avail_publish_rep:
  assumes "avail_rep r m h"
  shows "avail_rep r (avail_publish r d m) (h @ [d])"
proof -
  let ?n = "length h"
  let ?m = "st16 m (avail_ring r (of_nat (?n mod DESC_QUEUE_SIZE))) d"
  have idx: "ld16 m (avail_idx r) = of_nat ?n" using assms by (simp add: avail_rep_def)
  have lt: "k mod DESC_QUEUE_SIZE < 256" for k by (simp add: DESC_QUEUE_SIZE_def)
  have idx': "ld16 ?m (avail_idx r) = of_nat ?n"
    using idx by (simp add: ld_st_disj(9) [OF rng_disj_sym [OF slot_idx_disj [OF lt]]])
  have p: "avail_publish r d m = st16 ?m (avail_idx r) (of_nat (Suc ?n))"
    unfolding avail_publish_def avail_put_at [OF idx] avail_bump_def idx' by (simp add: add.commute)
  have "ld16 (avail_publish r d m) (avail_ring r (of_nat (k mod DESC_QUEUE_SIZE))) = (h @ [d]) ! k"
    if k: "k < Suc ?n" "Suc ?n \<le> k + DESC_QUEUE_SIZE" for k
  proof (cases "k = ?n")
    case True
    then show ?thesis by (simp add: p ld_st_disj(9) [OF slot_idx_disj [OF lt]])
  next
    case False
    with k have "k mod DESC_QUEUE_SIZE \<noteq> ?n mod DESC_QUEUE_SIZE"
    proof -
      have "?n - k < DESC_QUEUE_SIZE" "0 < ?n - k" using k False by auto
      then show ?thesis using k(1) by (metis less_Suc_eq_le mod_eq_dvd_iff_nat nat_dvd_not_less)
    qed
    with k False assms show ?thesis
      by (simp add: p ld_st_disj(9) [OF slot_idx_disj [OF lt]] ld_st_disj(9) [OF slots_disj [OF lt lt]]
          avail_rep_def nth_append)
  qed
  then show ?thesis by (simp add: avail_rep_def p)
qed

interpretation availq: published_log "avail_rep r" "avail_publish r" for r
  by unfold_locales (rule avail_publish_rep)

section \<open>Well-formed queues\<close>

text \<open>The part of a ring the driver writes (descriptors and available ring) and \<open>n\<close> bytes of buffers
  that only it writes; two memories agree on them.\<close>

definition owned :: "u64 \<Rightarrow> u64 \<Rightarrow> nat \<Rightarrow> u64 \<Rightarrow> bool" where
  "owned r b n x \<longleftrightarrow> in_rng r 4612 x \<or> in_rng b n x"

definition agree :: "u64 \<Rightarrow> u64 \<Rightarrow> nat \<Rightarrow> memory \<Rightarrow> memory \<Rightarrow> bool" where
  "agree r b n m m' \<longleftrightarrow> (\<forall>x. owned r b n x \<longrightarrow> m x = m' x)"

definition descs_ok :: "u64 \<Rightarrow> u64 \<Rightarrow> memory \<Rightarrow> bool" where
  "descs_ok r b m \<longleftrightarrow> (\<forall>i<256. ld64 m (desc_addr r (of_nat i)) = b + of_nat (2048 * i))"

definition queue_ok :: "virtio_net_queue \<Rightarrow> memory \<Rightarrow> u16 list \<Rightarrow> bool" where
  "queue_ok q m h \<longleftrightarrow> qsize q = 256 \<and> length (in_use q) = 256 \<and> next_desc q < 256 \<and>
     rng_disj (ring q) 6664 (buffers q) 524288 \<and> descs_ok (ring q) (buffers q) m \<and> avail_rep (ring q) m h"

lemma agree_sym: "agree r b n m m' \<Longrightarrow> agree r b n m' m"
  by (auto simp: agree_def)

lemma agree_trans: "agree r b n m m' \<Longrightarrow> agree r b n m' m'' \<Longrightarrow> agree r b n m m''"
  by (auto simp: agree_def)

lemma owned_ring: "a + k \<le> 4612 \<Longrightarrow> in_rng (r + of_nat a) k x \<Longrightarrow> owned r b n x"
proof -
  assume "a + k \<le> 4612" "in_rng (r + of_nat a) k x"
  with in_rng_off [of a k r x] have "unat (x - r) < 4612" by simp
  then show ?thesis by (simp add: owned_def in_rng_def)
qed

lemma agree_ld:
  assumes "agree r b n m m'"
  shows "a + 8 \<le> 4612 \<Longrightarrow> ld64 m (r + of_nat a) = ld64 m' (r + of_nat a)"
    "a + 4 \<le> 4612 \<Longrightarrow> ld32 m (r + of_nat a) = ld32 m' (r + of_nat a)"
    "a + 2 \<le> 4612 \<Longrightarrow> ld16 m (r + of_nat a) = ld16 m' (r + of_nat a)"
proof -
  have same: "m x = m' x" if "a + k \<le> 4612" "in_rng (r + of_nat a) k x" for k x
    using owned_ring [OF that] assms unfolding agree_def by blast
  show "a + 8 \<le> 4612 \<Longrightarrow> ld64 m (r + of_nat a) = ld64 m' (r + of_nat a)"
    by (rule ld64_cong) (rule same)
  show "a + 4 \<le> 4612 \<Longrightarrow> ld32 m (r + of_nat a) = ld32 m' (r + of_nat a)"
    by (rule ld32_cong) (rule same)
  show "a + 2 \<le> 4612 \<Longrightarrow> ld16 m (r + of_nat a) = ld16 m' (r + of_nat a)"
    by (rule ld16_cong) (rule same)
qed

lemma avail_rep_cong:
  assumes same: "\<And>a. 4096 \<le> a \<Longrightarrow> a + 2 \<le> 4612 \<Longrightarrow> ld16 m (r + of_nat a) = ld16 m' (r + of_nat a)"
  shows "avail_rep r m h \<longleftrightarrow> avail_rep r m' h"
proof -
  have "ld16 m (r + of_nat (4100 + 2 * (k mod 256))) = ld16 m' (r + of_nat (4100 + 2 * (k mod 256)))" for k
    by (rule same) simp_all
  moreover have "ld16 m (r + of_nat 4098) = ld16 m' (r + of_nat 4098)" by (rule same) simp_all
  ultimately show ?thesis unfolding avail_rep_def ring_offsets DESC_QUEUE_SIZE_def by simp
qed

lemma avail_rep_agree: "agree r b n m m' \<Longrightarrow> avail_rep r m h \<longleftrightarrow> avail_rep r m' h"
  by (rule avail_rep_cong) (rule agree_ld(3))

lemma descs_ok_agree: "agree r b n m m' \<Longrightarrow> descs_ok r b m \<longleftrightarrow> descs_ok r b m'"
proof -
  assume a: "agree r b n m m'"
  have "ld64 m (r + of_nat (16 * i)) = ld64 m' (r + of_nat (16 * i))" if "i < 256" for i
    by (rule agree_ld(1) [OF a]) (use that in simp)
  then show ?thesis unfolding descs_ok_def ring_offsets by simp
qed

lemma queue_ok_agree: "agree (ring q) (buffers q) n m m' \<Longrightarrow> queue_ok q m h \<longleftrightarrow> queue_ok q m' h"
  unfolding queue_ok_def using avail_rep_agree descs_ok_agree by blast

text \<open>The index is moved after a barrier; that the device leaves the driver's part alone makes the
  two halves one publication.\<close>

lemma avail_bump_agree: "agree r b n m m' \<Longrightarrow> agree r b n (avail_bump r m) (avail_bump r m')"
proof -
  assume a: "agree r b n m m'"
  have "ld16 m (avail_idx r) = ld16 m' (avail_idx r)" unfolding ring_offsets by (rule agree_ld(3) [OF a]) simp
  then have "avail_bump r m x = avail_bump r m' x" if "owned r b n x" for x
    using a that unfolding avail_bump_def st16_bytes agree_def by simp
  then show ?thesis unfolding agree_def by blast
qed

lemma publish_through_barrier:
  assumes "agree r b n m5 (avail_put r 256 d m3)" "agree r b n m7 (avail_bump r m5)"
  shows "agree r b n m7 (avail_publish r d m3)"
  using agree_trans [OF assms(2) avail_bump_agree [OF assms(1)]]
  by (simp add: avail_publish_def DESC_QUEUE_SIZE_def)

lemma avail_publish_outside:
  assumes "avail_rep r m h" "\<not> in_rng (r + of_nat 4096) 516 x"
  shows "avail_publish r d m x = m x"
proof -
  have idx: "ld16 m (avail_idx r) = of_nat (length h)" using assms(1) by (simp add: avail_rep_def)
  have sub: "a + 2 \<le> 4612 \<Longrightarrow> 4096 \<le> a \<Longrightarrow> \<not> in_rng (r + of_nat a) 2 x" for a
  proof
    assume a: "a + 2 \<le> 4612" "4096 \<le> a" "in_rng (r + of_nat a) 2 x"
    then obtain i where i: "i < 2" "x = r + of_nat 4096 + of_nat (a - 4096 + i)"
      by (elim in_rngE) (simp add: add.assoc flip: of_nat_add)
    then have "in_rng (r + of_nat 4096) 516 x" using a by (simp only: i(2)) (rule in_rng_offset, simp_all)
    with assms(2) show False ..
  qed
  have "\<not> in_rng (avail_idx r) 2 x" "\<not> in_rng (avail_ring r (of_nat (length h mod DESC_QUEUE_SIZE))) 2 x"
    unfolding ring_offsets by (rule sub; simp add: DESC_QUEUE_SIZE_def)+
  then show ?thesis
    unfolding avail_publish_def avail_put_at [OF idx] avail_bump_def by (simp add: st16_outside)
qed

lemma avail_publish_descs:
  assumes "avail_rep r m h" "descs_ok r b m"
  shows "descs_ok r b (avail_publish r d m)"
  unfolding descs_ok_def
proof (intro allI impI)
  fix i :: nat
  assume i: "i < 256"
  have "ld64 (avail_publish r d m) (r + of_nat (16 * i)) = ld64 m (r + of_nat (16 * i))"
  proof (rule ld64_cong, rule avail_publish_outside [OF assms(1)], rule notI)
    fix x
    assume "in_rng (r + of_nat (16 * i)) 8 x" "in_rng (r + of_nat 4096) 516 x"
    with in_rng_off [of "16 * i" 8 r x] in_rng_off [of 4096 516 r x] i show False by simp
  qed
  with assms(2) i show "ld64 (avail_publish r d m) (desc_addr r (of_nat i)) = b + of_nat (2048 * i)"
    unfolding descs_ok_def ring_offsets by metis
qed

section \<open>The search for a free descriptor\<close>

lemma next_index_256: "n < 256 \<Longrightarrow> next_index (of_nat n) 256 = of_nat (Suc n mod 256)"
proof -
  assume n: "n < 256"
  have "unat ((ucast (of_nat n :: u16) + 1 :: u32) mod 256) = Suc n mod 256"
    using n by (simp add: unat_mod unat_word_ariths unat_of_nat unat_ucast_up)
  moreover have "next_index (of_nat n) 256 = of_nat (unat ((ucast (of_nat n :: u16) + 1 :: u32) mod 256))"
    by (simp add: next_index_def)
  ultimately show ?thesis by simp
qed

lemma find_free_eq:
  assumes "n < 256" "j \<le> 256"
  shows "find_free uses 256 j (of_nat ((n + j) mod 256)) =
    (case find (\<lambda>k. uses ! ((n + k) mod 256) = 0) [j..<256] of
       Some k \<Rightarrow> of_nat ((n + k) mod 256) | None \<Rightarrow> of_nat n)"
  using assms(2)
proof (induction "256 - j" arbitrary: j)
  case 0
  then have "j = 256" by simp
  with assms(1) show ?case by (subst find_free.simps) simp
next
  case (Suc i)
  then have j: "j < 256" by simp
  have u: "unat (of_nat ((n + j) mod 256) :: u16) = (n + j) mod 256"
    by (intro unat_of_nat_lt) (simp add: less_trans [of _ 256])
  have nx: "next_index (of_nat ((n + j) mod 256)) 256 = of_nat ((n + Suc j) mod 256)"
    by (subst next_index_256) (simp_all add: mod_Suc_eq)
  have IH: "find_free uses 256 (Suc j) (of_nat ((n + Suc j) mod 256)) =
    (case find (\<lambda>k. uses ! ((n + k) mod 256) = 0) [Suc j..<256] of
       Some k \<Rightarrow> of_nat ((n + k) mod 256) | None \<Rightarrow> of_nat n)"
    using Suc by (intro Suc.hyps(1)) auto
  have up: "[j..<256] = j # [Suc j..<256]" using j by (rule upt_conv_Cons)
  show ?case
    using j by (subst find_free.simps) (simp add: u nx IH [simplified] up del: upt_Suc)
qed

lemma find_free_spec:
  assumes "length uses = 256" "d < 256"
  defines "e \<equiv> find_free uses 256 0 d"
  shows "e < 256" "(\<exists>i<256. uses ! i = 0) \<longleftrightarrow> uses ! unat e = 0"
proof -
  define n where "n = unat d"
  have n: "n < 256" "d = of_nat n" using assms(2) by (simp_all add: n_def word_less_nat_alt)
  let ?P = "\<lambda>k. uses ! ((n + k) mod 256) = 0"
  have e: "e = (case find ?P [0..<256] of Some k \<Rightarrow> of_nat ((n + k) mod 256) | None \<Rightarrow> of_nat n)"
    using find_free_eq [OF n(1), of 0 uses] n(1) by (simp add: e_def n(2))
  have small: "unat (of_nat (k mod 256) :: u16) = k mod 256" for k
    by (intro unat_of_nat_lt) (simp add: less_trans [of _ 256])
  show "e < 256"
    using n(1) small by (auto simp: e word_less_nat_alt unat_of_nat split: option.split)
  show "(\<exists>i<256. uses ! i = 0) \<longleftrightarrow> uses ! unat e = 0"
  proof (cases "find ?P [0..<256]")
    case None
    have "uses ! i \<noteq> 0" if "i < 256" for i
    proof -
      have "(n + (i + 256 - n) mod 256) mod 256 = i" using that n(1) by (simp add: mod_add_right_eq)
      moreover have "(i + 256 - n) mod 256 \<in> set [0..<256]" by simp
      ultimately show ?thesis using None unfolding find_None_iff by metis
    qed
    moreover have "e = of_nat n" by (simp only: e None option.case)
    ultimately show ?thesis using n(1) small [of n] by auto
  next
    case (Some k)
    then have "?P k" by (auto dest!: find_Some_iff [THEN iffD1])
    then have "uses ! unat e = 0" by (simp only: e Some option.case small)
    then show ?thesis using \<open>e < 256\<close> by (auto simp: word_less_nat_alt)
  qed
qed

section \<open>The search for a free descriptor\<close>

text \<open>
  The wrap-around search of \<open>virt_mmio_net_send\<close> is the reference search: started at entry \<open>n\<close>
  of the 256 entries, it gives the first free one in the order \<open>n\<close>, \<open>n + 1\<close>, ..., 255, 0, ..., \<open>n - 1\<close>,
  and comes back to \<open>n\<close> itself after looking at every entry once when all are in use.
\<close>

theorem find_free_reference:
  assumes "n < 256"
  shows "find_free uses 256 0 (of_nat n) =
    (case find (\<lambda>i. uses ! i = 0) ([n..<256] @ [0..<n]) of Some i \<Rightarrow> of_nat i | None \<Rightarrow> of_nat n)"
proof -
  have cyc: "map (\<lambda>k. (n + k) mod 256) [0..<256] = [n..<256] @ [0..<n]"
    using assms by (intro nth_equalityI) (auto simp: nth_append mod_if)
  have fm: "find P (map f xs) = map_option f (find (P \<circ> f) xs)" for P :: "nat \<Rightarrow> bool" and f :: "nat \<Rightarrow> nat" and xs
    by (induction xs) auto
  have "find_free uses 256 0 (of_nat n) =
      (case find (\<lambda>k. uses ! ((n + k) mod 256) = 0) [0..<256] of Some k \<Rightarrow> of_nat ((n + k) mod 256) | None \<Rightarrow> of_nat n)"
    using find_free_eq [OF assms, of 0 uses] assms by simp
  then show ?thesis
    unfolding cyc [symmetric] fm comp_def by (simp split: option.split)
qed

theorem find_free_reference_witness:
  "find_free ((replicate 256 1)[3 := 0]) 256 0 250 = 3 \<and> find_free (replicate 256 1) 256 0 250 = 250"
proof -
  have a: "find (\<lambda>i. (replicate 256 (1 :: u8))[3 := 0] ! i = 0) ([250..<256] @ [0..<250]) = Some 3"
    unfolding find_Some_iff by (intro exI [of _ 9]) (auto simp: nth_append nth_list_update simp del: upt_rec_numeral)
  have b: "find (\<lambda>i. replicate 256 (1 :: u8) ! i = 0) ([250..<256] @ [0..<250]) = None"
    unfolding find_None_iff by auto
  have c: "of_nat 250 = (250 :: u16)" by simp
  show ?thesis
    using find_free_reference [of 250 "(replicate 256 1)[3 := 0]", unfolded a c]
      find_free_reference [of 250 "replicate 256 1", unfolded b c] by simp
qed

end
