(* ===== verification/Virtq_Init.thy ===== *)
theory Virtq_Init
  imports Virtio_Net
begin

text \<open>
  Correctness of \<open>virt_mmio_net_virtq_init\<close>: what its loops leave in the rings, how the four blocks
  it takes from the page allocator lie in memory, and that the queues it builds satisfy the
  invariant \<open>queue_ok\<close> that sending and receiving keep.
\<close>

section \<open>The loops over the descriptors and the available ring\<close>

lemma desc_fields_disj:
  assumes "k < 256" "i < 256" "k \<noteq> i \<or> c + n \<le> c' \<or> c' + n' \<le> c" "c + n \<le> 16" "c' + n' \<le> 16"
  shows "rng_disj (r + of_nat (16 * k + c)) n (r + of_nat (16 * i + c')) n'"
proof (rule rng_disj_off)
  have "k = i \<or> 16 * k + 16 \<le> 16 * i \<or> 16 * i + 16 \<le> 16 * k" by (cases k i rule: linorder_cases) auto
  then show "16 * k + c + n \<le> 16 * i + c' \<or> 16 * i + c' + n' \<le> 16 * k + c" using assms by linarith
qed (use assms in simp_all)

definition st_desc :: "u64 \<Rightarrow> nat \<Rightarrow> u64 \<Rightarrow> u32 \<Rightarrow> u16 \<Rightarrow> memory \<Rightarrow> memory" where
  "st_desc r i a l f m =
     st16 (st32 (st64 m (desc_addr r (of_nat i)) a) (desc_len r (of_nat i)) l) (desc_flags r (of_nat i)) f"

definition ld_desc :: "memory \<Rightarrow> u64 \<Rightarrow> nat \<Rightarrow> u64 \<times> u32 \<times> u16 \<times> u16" where
  "ld_desc m r i = (ld64 m (desc_addr r (of_nat i)), ld32 m (desc_len r (of_nat i)),
     ld16 m (desc_id r (of_nat i)), ld16 m (desc_flags r (of_nat i)))"

lemma desc_offsets:
  "desc_addr r (of_nat i) = r + of_nat (16 * i + 0)" "desc_len r (of_nat i) = r + of_nat (16 * i + 8)"
  "desc_id r (of_nat i) = r + of_nat (16 * i + 12)" "desc_flags r (of_nat i) = r + of_nat (16 * i + 14)"
  by (simp_all only: ring_offsets add_0_right)

lemma ld_st_desc:
  assumes "k < 256" "i < 256"
  shows "ld_desc (st_desc r i a l f m) r k = (if k = i then (a, l, ld16 m (desc_id r (of_nat k)), f) else ld_desc m r k)"
proof (cases "k = i")
  case True
  note off = desc_fields_disj [OF assms(2,2)]
  show ?thesis
    unfolding True ld_desc_def st_desc_def desc_offsets
    by (simp add: ld_st_disj off off [where c = 0, unfolded add_0_right] off [where c' = 0, unfolded add_0_right]
        del: of_nat_add of_nat_mult)
next
  case False
  note off = desc_fields_disj [OF assms disjI1 [OF False]]
  show ?thesis
    unfolding ld_desc_def st_desc_def desc_offsets
    by (simp add: ld_st_disj off off [where c = 0, unfolded add_0_right] off [where c' = 0, unfolded add_0_right]
        off [where c = 0 and c' = 0, unfolded add_0_right] False del: of_nat_add of_nat_mult)
qed

lemma id_st_desc:
  "k < 256 \<Longrightarrow> i < 256 \<Longrightarrow> ld16 (st_desc r i a l f m) (desc_id r (of_nat k)) = ld16 m (desc_id r (of_nat k))"
  using ld_st_desc [of k i r a l f m] by (auto simp: ld_desc_def split: if_splits)

lemma st_desc_outside: "i < 256 \<Longrightarrow> \<not> in_rng r 4096 x \<Longrightarrow> st_desc r i a l f m x = m x"
proof -
  assume i: "i < 256" and x: "\<not> in_rng r 4096 x"
  have "\<not> in_rng (r + of_nat (16 * i + c)) n x" if "c + n \<le> 16" for c n
  proof
    assume "in_rng (r + of_nat (16 * i + c)) n x"
    from in_rng_off [OF _ this] that i x show False by (simp add: in_rng_def)
  qed
  from this [of 0 8] this [of 8 4] this [of 14 2] show ?thesis
    unfolding st_desc_def desc_offsets by (simp add: st16_outside st32_outside st64_outside)
qed

lemma init_desc_loop_step:
  "i < 256 \<Longrightarrow> init_desc_loop r b f 256 i m =
     init_desc_loop r b f 256 (Suc i) (st_desc r i (b + of_nat (2048 * i)) 2048 f m)"
  by (subst init_desc_loop.simps) (simp add: Let_def QUEUE_BUF_SIZE_def st_desc_def mult.commute)

lemma init_desc_loop_effect:
  assumes "i \<le> 256"
  shows "(\<forall>x. \<not> in_rng r 4096 x \<longrightarrow> init_desc_loop r b f 256 i m x = m x) \<and>
    (\<forall>k<256. ld_desc (init_desc_loop r b f 256 i m) r k =
       (if k < i then ld_desc m r k else (b + of_nat (2048 * k), 2048, ld16 m (desc_id r (of_nat k)), f)))"
  using assms
proof (induction "256 - i" arbitrary: i m)
  case 0
  then have "i = 256" by simp
  then show ?case by (subst (1 2) init_desc_loop.simps) simp
next
  case (Suc n)
  then have i: "i < 256" by simp
  let ?m = "st_desc r i (b + of_nat (2048 * i)) 2048 f m"
  have IH: "(\<forall>x. \<not> in_rng r 4096 x \<longrightarrow> init_desc_loop r b f 256 (Suc i) ?m x = ?m x) \<and>
    (\<forall>k<256. ld_desc (init_desc_loop r b f 256 (Suc i) ?m) r k =
       (if k < Suc i then ld_desc ?m r k else (b + of_nat (2048 * k), 2048, ld16 ?m (desc_id r (of_nat k)), f)))"
    using Suc by (intro Suc.hyps(1)) auto
  show ?case
    unfolding init_desc_loop_step [OF i]
  proof (intro conjI allI impI)
    fix x
    assume "\<not> in_rng r 4096 x"
    with IH st_desc_outside [OF i this] show "init_desc_loop r b f 256 (Suc i) ?m x = m x" by simp
  next
    fix k :: nat
    assume k: "k < 256"
    with IH show "ld_desc (init_desc_loop r b f 256 (Suc i) ?m) r k =
       (if k < i then ld_desc m r k else (b + of_nat (2048 * k), 2048, ld16 m (desc_id r (of_nat k)), f))"
      by (simp add: ld_st_desc id_st_desc i less_Suc_eq)
  qed
qed

lemma avail_loop_effect:
  assumes "i \<le> 256"
  shows "(\<forall>x. \<not> in_rng (r + of_nat 4100) 512 x \<longrightarrow> avail_loop r 256 i m x = m x) \<and>
    (\<forall>k<256. ld16 (avail_loop r 256 i m) (avail_ring r (of_nat k)) =
       (if k < i then ld16 m (avail_ring r (of_nat k)) else of_nat k))"
  using assms
proof (induction "256 - i" arbitrary: i m)
  case 0
  then have "i = 256" by simp
  then show ?case by (subst (1 2) avail_loop.simps) simp
next
  case (Suc n)
  then have i: "i < 256" by simp
  let ?m = "st16 m (avail_ring r (of_nat i)) (of_nat i)"
  have step: "avail_loop r 256 i m = avail_loop r 256 (Suc i) ?m" using i by (subst avail_loop.simps) simp
  have IH: "(\<forall>x. \<not> in_rng (r + of_nat 4100) 512 x \<longrightarrow> avail_loop r 256 (Suc i) ?m x = ?m x) \<and>
    (\<forall>k<256. ld16 (avail_loop r 256 (Suc i) ?m) (avail_ring r (of_nat k)) =
       (if k < Suc i then ld16 ?m (avail_ring r (of_nat k)) else of_nat k))"
    using Suc by (intro Suc.hyps(1)) auto
  show ?case
    unfolding step
  proof (intro conjI allI impI)
    fix x
    assume x: "\<not> in_rng (r + of_nat 4100) 512 x"
    have "\<not> in_rng (r + of_nat 4100 + of_nat (2 * i)) 2 x"
    proof
      assume "in_rng (r + of_nat 4100 + of_nat (2 * i)) 2 x"
      from in_rng_off [OF _ this] i x show False by (simp add: in_rng_def)
    qed
    then have "?m x = m x" unfolding ring_offsets by (intro st16_outside) (simp add: add.assoc)
    with IH x show "avail_loop r 256 (Suc i) ?m x = m x" by simp
  next
    fix k :: nat
    assume k: "k < 256"
    then have "ld16 ?m (avail_ring r (of_nat k)) = (if k = i then of_nat i else ld16 m (avail_ring r (of_nat k)))"
      using ld_st_disj(9) [OF slots_disj [OF k i]] by simp
    with IH k show "ld16 (avail_loop r 256 (Suc i) ?m) (avail_ring r (of_nat k)) =
       (if k < i then ld16 m (avail_ring r (of_nat k)) else of_nat k)"
      by (simp add: less_Suc_eq)
  qed
qed

lemma offered_all:
  "avail_rep r (st16 (avail_loop r 256 0 m) (avail_idx r) 256) (map of_nat [0..<256])"
proof -
  have "ld16 (st16 (avail_loop r 256 0 m) (avail_idx r) 256) (avail_ring r (of_nat k)) = of_nat k" if "k < 256" for k
    using avail_loop_effect [of 0 r m] ld_st_disj(9) [OF slot_idx_disj [OF that]] that by simp
  then show ?thesis by (simp add: avail_rep_def DESC_QUEUE_SIZE_def)
qed

section \<open>Blocks of pages\<close>

lemma covered_mono: "P \<subseteq> Q \<Longrightarrow> covered P y \<Longrightarrow> covered Q y"
  by (auto simp: covered_def)

lemma covered_disj:
  assumes "pages_ok s xs" "P \<subseteq> set xs" "Q \<subseteq> set xs" "P \<inter> Q = {}" "covered P y"
  shows "\<not> covered Q y"
proof
  assume "covered Q y"
  then obtain p q where pq: "p \<in> P" "q \<in> Q" "in_rng p 4096 y" "in_rng q 4096 y"
    using assms(5) by (auto simp: covered_def)
  then have "aligned 12 p" "aligned 12 q" "p \<noteq> q"
    using assms by (auto simp: pages_ok_def page_ok_def subset_iff)
  then have "rng_disj p 4096 q 4096" using aligned_disj [of 12 p q] by simp
  with pq show False by (auto simp: rng_disj_def)
qed

lemma run_covered:
  assumes "in_rng r (4096 * n) y"
  shows "covered (page_at r ` {..<n}) y"
proof -
  obtain j where j: "j < 4096 * n" "y = r + of_nat j" using assms by (rule in_rngE)
  have "y = r + of_nat (4096 * (j div 4096) + j mod 4096)" by (simp only: j(2) mult_div_mod_eq)
  then have "y = page_at r (j div 4096) + of_nat (j mod 4096)"
    by (simp only: page_at_def of_nat_add add.assoc)
  then have "in_rng (page_at r (j div 4096)) 4096 y" using in_rng_offset [of "j mod 4096" 4096] by simp
  moreover have "j div 4096 < n" using j(1) by (simp add: less_mult_imp_div_less mult.commute)
  ultimately show ?thesis by (auto simp: covered_def)
qed

lemma mem_alloc_block:
  assumes "pages_ok s xs" "sz \<noteq> 0"
  obtains (null) "mem_alloc sz s = Some (0, s)" "\<forall>x. \<exists>i<npages sz. page_at x i \<notin> set xs"
  | (block) r m h c ys where "mem_alloc sz s = Some (r, s\<lparr>mem := m, free_list := h, free_page_count := c\<rparr>)"
      "r \<noteq> 0" "pages_ok (s\<lparr>mem := m, free_list := h, free_page_count := c\<rparr>) ys"
      "set ys \<subseteq> set xs" "\<And>y. in_rng r (4096 * npages sz) y \<Longrightarrow> covered (set xs - set ys) y"
      "\<And>y. m y \<noteq> mem s y \<Longrightarrow> covered (set ys) y" "\<forall>i<npages sz. page_at r i \<in> set xs"
  using assms(1)
proof (cases rule: mem_alloc_cases [where sz = sz])
  case null
  with assms(2) that(1) show ?thesis by blast
next
  case (page x s' ys)
  obtain m h c where s': "s' = s\<lparr>mem := m, free_list := h, free_page_count := c\<rparr>" using page(8) by blast
  have sub: "page_at x ` {..<npages sz} \<subseteq> set xs - set ys"
    using page(5,7) by (auto simp: is_run_def)
  show ?thesis
  proof (rule that(2))
    show "covered (set xs - set ys) y" if "in_rng x (4096 * npages sz) y" for y
      using covered_mono [OF sub run_covered [OF that]] .
    show "covered (set ys) y" if "m y \<noteq> mem s y" for y
      using page(9) that in_rng_mono [of _ 8 y 4096] unfolding covered_def s' by fastforce
  qed (use page s' in \<open>auto simp: is_run_def\<close>)
qed

lemma pages_ok_set_queue [simp]: "pages_ok (set_queue i f s) xs = pages_ok s xs"
  by (simp add: set_queue_def pages_ok_def heap_ok_def page_ok_def)

lemma pages_ok_reorder:
  "pages_ok (s\<lparr>free_list := h, free_page_count := c, mem := m\<rparr>) xs =
   pages_ok (s\<lparr>mem := m, free_list := h, free_page_count := c\<rparr>) xs"
  by (simp add: pages_ok_def heap_ok_def page_ok_def)

lemma npages_queue:
  "npages sizeof_virtq = 2" "npages (QUEUE_BUF_SIZE * of_nat DESC_QUEUE_SIZE) = 128" "sizeof_virtq \<noteq> 0"
  "QUEUE_BUF_SIZE * of_nat DESC_QUEUE_SIZE \<noteq> 0" "unat sizeof_virtq = 6664"
  "unat (QUEUE_BUF_SIZE * of_nat DESC_QUEUE_SIZE) = 524288"
  by (simp_all add: npages_def sizeof_virtq_def QUEUE_BUF_SIZE_def DESC_QUEUE_SIZE_def)

lemma uart_emits_pages: "uart_emits s cs t \<Longrightarrow> pages_ok t xs = pages_ok s xs"
  by (auto simp: uart_emits_def pages_ok_def heap_ok_def page_ok_def)


section \<open>One queue\<close>

definition fresh_queue :: "u64 \<Rightarrow> u64 \<Rightarrow> u16 \<Rightarrow> memory \<Rightarrow> bool" where
  "fresh_queue r b f m \<longleftrightarrow> rng_disj r 6664 b 524288 \<and>
     (\<forall>k<256. ld_desc m r k = (b + of_nat (2048 * k), 2048, 0, f)) \<and>
     (\<forall>y. in_rng (r + of_nat 4096) 2568 y \<longrightarrow> m y = 0) \<and> (\<forall>y. in_rng b 524288 y \<longrightarrow> m y = 0)"

lemma fresh_queueI:
  fixes r b f m
  defines "m' \<equiv> init_desc_loop r b f 256 0 (mem_zero b (QUEUE_BUF_SIZE * of_nat DESC_QUEUE_SIZE)
     (mem_zero r sizeof_virtq m))"
  assumes "rng_disj r 6664 b 524288"
  shows "fresh_queue r b f m'" "\<not> in_rng r 6664 x \<Longrightarrow> \<not> in_rng b 524288 x \<Longrightarrow> m' x = m x"
proof -
  note ef = init_desc_loop_effect [of 0, simplified, of r b f]
  have out: "m' x = (if in_rng b 524288 x then 0 else if in_rng r 6664 x then 0 else m x)"
    if "\<not> in_rng r 4096 x" for x
    using that ef unfolding m'_def by (simp add: mem_zero_apply npages_queue)
  show "m' x = m x" if "\<not> in_rng r 6664 x" "\<not> in_rng b 524288 x"
    using out [of x] that in_rng_mono [of r 4096 x 6664] by auto
  have "m' y = 0" if "in_rng (r + of_nat 4096) 2568 y" for y
  proof -
    have "in_rng r 6664 y" "\<not> in_rng r 4096 y" using in_rng_off [OF _ that] by (simp_all add: in_rng_def)
    then show ?thesis using out [of y] by simp
  qed
  moreover have "m' y = 0" if "in_rng b 524288 y" for y
    using that rng_disjD [OF rng_disj_sym [OF assms(2)] that] in_rng_mono [of r 4096 y 6664] out [of y] by auto
  moreover have "\<forall>k<256. ld_desc m' r k = (b + of_nat (2048 * k), 2048, 0, f)"
  proof (intro allI impI)
    fix k :: nat
    assume k: "k < 256"
    let ?z = "mem_zero b (QUEUE_BUF_SIZE * of_nat DESC_QUEUE_SIZE) (mem_zero r sizeof_virtq m)"
    have "ld16 ?z (r + of_nat (16 * k + 12)) = ld16 (\<lambda>_. 0) (r + of_nat (16 * k + 12))"
    proof (rule ld16_cong)
      fix y
      assume "in_rng (r + of_nat (16 * k + 12)) 2 y"
      from in_rng_off [OF _ this] k have "in_rng r 6664 y" by (simp add: in_rng_def)
      then show "?z y = 0" by (simp add: mem_zero_apply npages_queue)
    qed
    with ef k show "ld_desc m' r k = (b + of_nat (2048 * k), 2048, 0, f)"
      unfolding m'_def by (simp add: desc_offsets ld16_bytes)
  qed
  ultimately show "fresh_queue r b f m'" using assms(2) by (simp add: fresh_queue_def)
qed

lemma ld_desc_cong:
  assumes "k < 256" "\<And>y. in_rng r 4096 y \<Longrightarrow> m' y = m y"
  shows "ld_desc m' r k = ld_desc m r k"
proof -
  have "in_rng r 4096 y" if "in_rng (r + of_nat (16 * k + c)) n y" "c + n \<le> 16" for c n y
    using in_rng_off [OF _ that(1)] that(2) assms(1) by (simp add: in_rng_def)
  then have same: "m' y = m y" if "in_rng (r + of_nat (16 * k + c)) n y" "c + n \<le> 16" for c n y
    using that assms(2) by blast
  have "ld64 m' (r + of_nat (16 * k + 0)) = ld64 m (r + of_nat (16 * k + 0))"
    by (rule ld64_cong, rule same, assumption, simp)
  moreover have "ld32 m' (r + of_nat (16 * k + 8)) = ld32 m (r + of_nat (16 * k + 8))"
    by (rule ld32_cong, rule same, assumption, simp)
  moreover have "ld16 m' (r + of_nat (16 * k + 12)) = ld16 m (r + of_nat (16 * k + 12))"
    by (rule ld16_cong, rule same, assumption, simp)
  moreover have "ld16 m' (r + of_nat (16 * k + 14)) = ld16 m (r + of_nat (16 * k + 14))"
    by (rule ld16_cong, rule same, assumption, simp)
  ultimately show ?thesis unfolding ld_desc_def desc_offsets by (simp only: )
qed

lemma fresh_queue_cong:
  assumes "fresh_queue r b f m" "\<And>y. in_rng r 6664 y \<or> in_rng b 524288 y \<Longrightarrow> m' y = m y"
  shows "fresh_queue r b f m'"
proof -
  have "ld_desc m' r k = ld_desc m r k" if "k < 256" for k
    by (rule ld_desc_cong [OF that]) (use assms(2) in_rng_mono [of r 4096 _ 6664] in auto)
  moreover have "in_rng r 6664 y" if "in_rng (r + of_nat 4096) 2568 y" for y
    using in_rng_off [OF _ that] by (simp add: in_rng_def)
  ultimately show ?thesis using assms unfolding fresh_queue_def by simp
qed

lemma fresh_queue_ok:
  assumes "fresh_queue r b f m" "qsize q = 256" "length (in_use q) = 256" "next_desc q = 0" "ring q = r" "buffers q = b"
  shows "queue_ok q m []"
proof -
  have "m (r + of_nat 4096 + of_nat 2) = 0" "m (r + of_nat 4096 + of_nat 3) = 0"
    using assms(1) in_rng_offset [of 2 2568 "r + of_nat 4096"] in_rng_offset [of 3 2568 "r + of_nat 4096"]
    unfolding fresh_queue_def by simp_all
  then have "ld16 m (avail_idx r) = 0" by (simp add: avail_idx_def ld16_bytes add.commute [of r])
  moreover have "descs_ok r b m" using assms(1) by (simp add: fresh_queue_def descs_ok_def ld_desc_def)
  ultimately show ?thesis using assms by (simp add: queue_ok_def avail_rep_def fresh_queue_def)
qed


lemma fresh_used_idx:
  assumes "fresh_queue r b f m" "\<And>y. m' y \<noteq> m y \<Longrightarrow> in_rng (r + of_nat 4096) 516 y"
  shows "ld16 m' (used_idx r) = 0"
proof -
  have z: "m' (r + of_nat 4096 + of_nat k) = 0" if "516 \<le> k" "k < 2568" for k
  proof -
    have "unat (of_nat k :: u64) = k" using that by (intro unat_of_nat_lt) simp
    then have "\<not> in_rng (r + of_nat 4096) 516 (r + of_nat 4096 + of_nat k)" using that by (simp add: in_rng_def)
    moreover have "in_rng (r + of_nat 4096) 2568 (r + of_nat 4096 + of_nat k)" using that by (intro in_rng_offset) auto
    ultimately show ?thesis using assms unfolding fresh_queue_def by metis
  qed
  from z [of 518] z [of 519] show ?thesis by (simp add: used_idx_def ld16_bytes add.commute [of r])
qed

lemma says_queue_fail: "uart.says (uart_puts msg_queue_fail s) s msg_queue_fail"
  unfolding msg_queue_fail_def by (rule says_puts) simp

definition queue_flags :: "nat \<Rightarrow> u16" where
  "queue_flags qi = (if qi = VIRTIO_NET_RX_QUEUE then ucast VIRTQ_DESC_F_WRITE else 0)"

definition place_queue :: "nat \<Rightarrow> u64 \<Rightarrow> u64 \<Rightarrow> 'a net_scheme \<Rightarrow> 'a net_scheme" where
  "place_queue qi r b = set_queue qi (\<lambda>q. q\<lparr>ring := r, buffers := b, qsize := 256, last_used_idx := 0, next_desc := 0\<rparr>)"

lemma init_queue_placed:
  assumes "qi < length (net_queues s)" "r \<noteq> 0" "b \<noteq> 0" 
    "mem_alloc sizeof_virtq s = Some (r, s\<lparr>mem := m1, free_list := h1, free_page_count := c1\<rparr>)"
    "mem_alloc (QUEUE_BUF_SIZE * of_nat DESC_QUEUE_SIZE)
       (set_queue qi (ring_update (\<lambda>_. r)) (s\<lparr>mem := m1, free_list := h1, free_page_count := c1\<rparr>)) = 
     Some (b, set_queue qi (ring_update (\<lambda>_. r)) (s\<lparr>mem := m2, free_list := h, free_page_count := c\<rparr>))"
  shows "init_queue qi s = Some (True, (place_queue qi r b s)\<lparr>
     mem := init_desc_loop r b (queue_flags qi) 256 0 (mem_zero b (QUEUE_BUF_SIZE * of_nat DESC_QUEUE_SIZE) (mem_zero r sizeof_virtq m2)),
     free_list := h, free_page_count := c\<rparr>)"
  unfolding init_queue_def assms(4) bind.bind_lunit Let_def prod.case assms(5)
  using assms(1-3) by (simp add: DESC_QUEUE_SIZE_def place_queue_def set_queue_def queue_def queue_flags_def)


lemma init_queue_failed:
  assumes "r = 0 \<or> b = 0" "uart_live s" "mem_alloc sizeof_virtq s = Some (r, s1)"
    "mem_alloc (QUEUE_BUF_SIZE * of_nat DESC_QUEUE_SIZE) (set_queue qi (ring_update (\<lambda>_. r)) s1) = Some (b, s2)"
    "uart_live s2"
  obtains t where "init_queue qi s = Some (False, t)"
    "uart_emits (set_queue qi (buffers_update (\<lambda>_. b)) s2) msg_queue_fail t"
proof -
  have "uart_live (set_queue qi (buffers_update (\<lambda>_. b)) s2)" using assms(5) by (simp add: set_queue_def uart_live_def)
  from uart.says_total [OF says_queue_fail this] obtain t where
    "uart_puts msg_queue_fail (set_queue qi (buffers_update (\<lambda>_. b)) s2) = Some t"
    "uart_emits (set_queue qi (buffers_update (\<lambda>_. b)) s2) msg_queue_fail t" by blast
  moreover from this(1) have "init_queue qi s = Some (False, t)"
    unfolding init_queue_def using assms(1,3,4) by (simp add: Let_def)
  ultimately show ?thesis using that by blast
qed

text \<open>What the driver never changes: control registers, process table and the device's registers.\<close>

definition sys_view :: "'a net_scheme \<Rightarrow> (u64 \<times> u64 \<times> u64 \<times> u64 \<times> u64) \<times> process list \<times> ((u64 \<times> u32) list \<Rightarrow> nat \<Rightarrow> u64 \<Rightarrow> u32)" where
  "sys_view s = (csrs s, procs s, mmio_in s)"

lemma sys_view_simps [simp]:
  "sys_view (s\<lparr>mem := m, free_list := h, free_page_count := c\<rparr>) = sys_view s" "sys_view (set_queue i f s) = sys_view s"
  "sys_view (s\<lparr>mem := m\<rparr>) = sys_view s" "sys_view (s\<lparr>uart_rd := k, uart_wr := w\<rparr>) = sys_view s"
  "sys_view (s\<lparr>mmio_rd := n\<rparr>) = sys_view s" "sys_view (virt_mmio_write dev off v s) = sys_view s"
  "sys_view (mem_barrier s) = sys_view s"
  by (simp_all add: sys_view_def csrs_def set_queue_def virt_mmio_write_def mem_barrier_def)

lemma uart_emits_sys_view: "uart_emits s cs t \<Longrightarrow> sys_view t = sys_view s"
  by (auto simp: uart_emits_def)

text \<open>The state after a failed allocation, up to the message.\<close>

lemma init_queue_failed_frame:
  assumes pages: "pages_ok u zs" and live: "uart_live u" and view: "sys_view u = sys_view s"
    and t: "uart_emits (set_queue qi f u) msg_queue_fail t"
  shows "pages_ok t zs" "uart_live t" "sys_view t = sys_view s"
proof -
  show "pages_ok t zs" using pages by (simp add: uart_emits_pages [OF t])
  have "uart_live (set_queue qi f u)" using live by (simp add: set_queue_def uart_live_def)
  then show "uart_live t" by (rule uart.emits_live [OF t])
  show "sys_view t = sys_view s" using view by (simp add: uart_emits_sys_view [OF t])
qed

lemma no_buffers:
  assumes "pages_ok s xs" "\<forall>x. \<exists>i<128. page_at x i \<notin> set xs"
  shows "mem_alloc (QUEUE_BUF_SIZE * of_nat DESC_QUEUE_SIZE) s = Some (0, s)"
  using assms(1) npages_queue(4)
proof (cases rule: mem_alloc_block)
  case (block r m h c ys)
  with assms(2) show ?thesis unfolding npages_queue by blast
qed

text \<open>Ring and buffers in two blocks taken one after the other, once they have been written.\<close>

lemma queue_in_blocks:
  fixes s :: "'a net_scheme" and f :: u16
  assumes pages: "pages_ok s xs" and sub: "set zs \<subseteq> set xs" "set ys \<subseteq> set zs"
    and r: "\<And>y. in_rng r 8192 y \<Longrightarrow> covered (set xs - set zs) y" and b: "\<And>y. in_rng b 524288 y \<Longrightarrow> covered (set zs - set ys) y"
    and m1: "\<And>y. m1 y \<noteq> mem s y \<Longrightarrow> covered (set zs) y" and m2: "\<And>y. m2 y \<noteq> m1 y \<Longrightarrow> covered (set ys) y"
    and ok: "pages_ok (s\<lparr>mem := m2, free_list := h, free_page_count := c\<rparr>) ys"
  defines "m \<equiv> init_desc_loop r b f 256 0 (mem_zero b (QUEUE_BUF_SIZE * of_nat DESC_QUEUE_SIZE) (mem_zero r sizeof_virtq m2))"
  shows "fresh_queue r b f m" "\<And>y. in_rng r 6664 y \<or> in_rng b 524288 y \<Longrightarrow> covered (set xs - set ys) y"
    "\<And>y. m y \<noteq> mem s y \<Longrightarrow> covered (set xs) y" "pages_ok (s\<lparr>mem := m, free_list := h, free_page_count := c\<rparr>) ys"
proof -
  have r': "covered (set xs - set zs) y" if "in_rng r 6664 y" for y using r [of y] that in_rng_mono [of r 6664 y 8192] by simp
  have "rng_disj r 6664 b 524288"
    unfolding rng_disj_def using r' b covered_disj [OF pages, of "set xs - set zs" "set zs - set ys"] sub by blast
  note fresh = fresh_queueI [OF this, where f = f and m = m2, folded m_def]
  show "fresh_queue r b f m" by (rule fresh(1))
  show both: "covered (set xs - set ys) y" if "in_rng r 6664 y \<or> in_rng b 524288 y" for y
    using that r' [of y] b [of y] covered_mono [of "set xs - set zs" "set xs - set ys" y]
      covered_mono [of "set zs - set ys" "set xs - set ys" y] sub by blast
  show "covered (set xs) y" if ch: "m y \<noteq> mem s y" for y
  proof (cases "in_rng r 6664 y \<or> in_rng b 524288 y")
    case True
    then show ?thesis using both covered_mono [of "set xs - set ys" "set xs" y] by blast
  next
    case False
    with ch fresh(2) have "m2 y \<noteq> m1 y \<or> m1 y \<noteq> mem s y" by metis
    then show ?thesis
      using sub m1 [of y] m2 [of y] covered_mono [of "set ys" "set xs" y] covered_mono [of "set zs" "set xs" y] by auto
  qed
  have "covered (set ys) y" if "p \<in> set ys" "in_rng p 8 y" for p y
    using that in_rng_mono [of p 8 y 4096] by (auto simp: covered_def)
  then have "m y = m2 y" if "p \<in> set ys" "in_rng p 8 y" for p y
    using that fresh(2) [of y] both [of y] covered_disj [OF pages, of "set ys" "set xs - set ys" y] sub by blast
  with ok show "pages_ok (s\<lparr>mem := m, free_list := h, free_page_count := c\<rparr>) ys"
    using pages_ok_write [of "s\<lparr>mem := m2, free_list := h, free_page_count := c\<rparr>" ys m] by (simp add: pages_ok_reorder)
qed

lemma init_queue_cases:
  assumes pages: "pages_ok s xs" and live: "uart_live s" and qi: "qi < length (net_queues s)"
  obtains (failed) t ys where "init_queue qi s = Some (False, t)" "pages_ok t ys" "uart_live t"
      "\<forall>x. \<exists>i<128. page_at x i \<notin> set ys" "sys_view t = sys_view s"
  | (placed) r b m h c ys where
      "init_queue qi s = Some (True, (place_queue qi r b s)\<lparr>mem := m, free_list := h, free_page_count := c\<rparr>)"
      "pages_ok (s\<lparr>mem := m, free_list := h, free_page_count := c\<rparr>) ys" "set ys \<subseteq> set xs"
      "fresh_queue r b (queue_flags qi) m"
      "\<And>y. in_rng r 6664 y \<or> in_rng b 524288 y \<Longrightarrow> covered (set xs - set ys) y"
      "\<And>y. m y \<noteq> mem s y \<Longrightarrow> covered (set xs) y"
  using pages npages_queue(3)
proof (cases rule: mem_alloc_block)
  case null
  let ?s = "set_queue qi (ring_update (\<lambda>_. 0)) s"
  have none: "\<forall>x. \<exists>i<128. page_at x i \<notin> set xs"
    using null(2) unfolding npages_queue by (meson less_trans numeral_less_iff semiring_norm)
  have u: "pages_ok ?s xs" "uart_live ?s" "sys_view ?s = sys_view s"
    using pages live by (simp_all, simp add: set_queue_def uart_live_def)
  obtain t where t: "init_queue qi s = Some (False, t)"
    "uart_emits (set_queue qi (buffers_update (\<lambda>_. 0)) ?s) msg_queue_fail t"
    using init_queue_failed [OF _ live null(1) no_buffers [OF u(1) none] u(2)] by blast
  with failed none init_queue_failed_frame [OF u t(2)] show ?thesis by blast
next
  case (block r m1 h1 c1 zs)
  let ?s1 = "s\<lparr>mem := m1, free_list := h1, free_page_count := c1\<rparr>"
  let ?s = "set_queue qi (ring_update (\<lambda>_. r)) ?s1"
  have u: "pages_ok ?s zs" "uart_live ?s" "sys_view ?s = sys_view s"
    using block(3) live by (simp_all, simp add: set_queue_def uart_live_def)
  from u(1) npages_queue(4) show ?thesis
  proof (cases rule: mem_alloc_block)
    case null2: null
    obtain t where t: "init_queue qi s = Some (False, t)"
      "uart_emits (set_queue qi (buffers_update (\<lambda>_. 0)) ?s) msg_queue_fail t"
      using init_queue_failed [OF _ live block(1) null2(1) u(2)] by blast
    with failed null2(2) init_queue_failed_frame [OF u t(2)] show ?thesis unfolding npages_queue by blast
  next
    case second: (block b m2 h c ys)
    have run2: "mem_alloc (QUEUE_BUF_SIZE * of_nat DESC_QUEUE_SIZE) ?s =
      Some (b, set_queue qi (ring_update (\<lambda>_. r)) (s\<lparr>mem := m2, free_list := h, free_page_count := c\<rparr>))"
      using second(1) by (simp add: set_queue_def)
    have ok: "pages_ok (s\<lparr>mem := m2, free_list := h, free_page_count := c\<rparr>) ys"
      using second(3) by (simp add: set_queue_def pages_ok_def heap_ok_def page_ok_def)
    have ch: "covered (set zs) y" if "m1 y \<noteq> mem s y" for y using block(6) that .
    have ch2: "covered (set ys) y" if "m2 y \<noteq> m1 y" for y using second(6) that by simp
    note q = queue_in_blocks [OF pages block(4) second(4) block(5) [unfolded npages_queue] second(5) [unfolded npages_queue] ch ch2 ok]
    show ?thesis
      by (rule placed [OF init_queue_placed [OF qi block(2) second(2) block(1) run2] q(4) _ q(1) q(2) q(3)])
        (use block(4) second(4) in auto)
  qed
qed


section \<open>Both queues\<close>

text \<open>The device has been given no queue yet: it writes no memory.\<close>

definition dma_idle :: "'a net_scheme \<Rightarrow> bool" where
  "dma_idle s \<longleftrightarrow> (\<forall>n m. dma_in s (mmio_wr s) n m = m)"

definition pair_ok :: "'a net_scheme \<Rightarrow> bool" where
  "pair_ok s \<longleftrightarrow> length (net_queues s) = VIRTIO_NET_QUEUE_COUNT \<and> (\<forall>q\<in>set (net_queues s). length (in_use q) = 256)"

text \<open>No byte is in the rings or the buffers of both queues.\<close>

definition apart :: "virtio_net_queue \<Rightarrow> virtio_net_queue \<Rightarrow> bool" where
  "apart p q \<longleftrightarrow> (\<forall>y. in_rng (ring p) 6664 y \<or> in_rng (buffers p) 524288 y \<longrightarrow>
     \<not> in_rng (ring q) 6664 y \<and> \<not> in_rng (buffers q) 524288 y)"

lemma init_queues_unfold:
  "init_queues_loop 0 s = Option.bind (init_queue 0 s) (\<lambda>(ok, s). if ok then init_queue 1 s else Some (False, s))"
proof -
  have id: "(\<lambda>(ok, s). if ok then Some (True, s) else Some (False, s)) = Some" by auto
  have "init_queues_loop 2 s = Some (True, s)" for s :: "'a net_scheme"
    by (subst init_queues_loop.simps) (simp add: VIRTIO_NET_QUEUE_COUNT_def)
  then have "init_queues_loop 1 s = init_queue 1 s" for s :: "'a net_scheme"
    by (subst init_queues_loop.simps) (simp add: VIRTIO_NET_QUEUE_COUNT_def numeral_2_eq_2 id cong: if_cong)
  then show ?thesis by (subst init_queues_loop.simps) (simp add: VIRTIO_NET_QUEUE_COUNT_def cong: if_cong)
qed

lemma offered_fresh:
  assumes "fresh_queue r b f m"
  defines "m' \<equiv> st16 (avail_loop r 256 0 m) (avail_idx r) 256"
  shows "\<And>x. \<not> in_rng (r + of_nat 4096) 516 x \<Longrightarrow> m' x = m x"
    "\<forall>k<256. ld_desc m' r k = (b + of_nat (2048 * k), 2048, 0, f)"
proof -
  show out: "m' x = m x" if x: "\<not> in_rng (r + of_nat 4096) 516 x" for x
  proof -
    have "\<not> in_rng (r + of_nat 4096 + of_nat a) n x" if "a + n \<le> 516" for a n
    proof
      assume "in_rng (r + of_nat 4096 + of_nat a) n x"
      from in_rng_off [OF _ this] that have "unat (x - (r + of_nat 4096)) < 516" by simp
      with x show False by (simp add: in_rng_def)
    qed
    from this [of 4 512] this [of 2 2] show ?thesis
      unfolding m'_def using avail_loop_effect [of 0 r m] by (simp add: st16_outside avail_idx_def add.assoc)
  qed
  have "ld_desc m' r k = ld_desc m r k" if "k < 256" for k
  proof (rule ld_desc_cong [OF that], rule out, rule notI)
    fix y
    assume "in_rng r 4096 y" "in_rng (r + of_nat 4096) 516 y"
    with in_rng_off [of 4096 516 r y] show False by (simp add: in_rng_def)
  qed
  with assms(1) show "\<forall>k<256. ld_desc m' r k = (b + of_nat (2048 * k), 2048, 0, f)"
    by (simp add: fresh_queue_def)
qed


lemma uart_live_frame [simp]:
  "uart_live (s\<lparr>mem := m\<rparr>) = uart_live s" "uart_live (set_queue i f s) = uart_live s"
  "uart_live (s\<lparr>free_list := h, free_page_count := c, mem := m\<rparr>) = uart_live s"
  "uart_live (s\<lparr>mem := m, free_list := h, free_page_count := c\<rparr>) = uart_live s"
  by (simp_all add: uart_live_def set_queue_def)

lemma init_queues_cases:
  assumes pages: "pages_ok s xs" and live: "uart_live s" and two: "length (net_queues s) = 2"
  obtains (failed) t ys where "init_queues_loop 0 s = Some (False, t)" "pages_ok t ys" "uart_live t"
      "\<forall>x. \<exists>i<128. page_at x i \<notin> set ys" "sys_view t = sys_view s"
  | (placed) r b r' b' m h c ys where
      "init_queues_loop 0 s = Some (True, (place_queue 1 r' b' (place_queue 0 r b s))\<lparr>mem := m,
         free_list := h, free_page_count := c\<rparr>)"
      "pages_ok (s\<lparr>mem := m, free_list := h, free_page_count := c\<rparr>) ys" "set ys \<subseteq> set xs"
      "fresh_queue r b (queue_flags 0) m" "fresh_queue r' b' (queue_flags 1) m"
      "\<And>y. in_rng r 6664 y \<or> in_rng b 524288 y \<Longrightarrow> covered (set xs - set ys) y"
      "\<And>y. in_rng r' 6664 y \<or> in_rng b' 524288 y \<Longrightarrow> covered (set xs - set ys) y"
      "\<And>y. in_rng r 6664 y \<or> in_rng b 524288 y \<Longrightarrow> \<not> in_rng r' 6664 y \<and> \<not> in_rng b' 524288 y"
proof -
  have q0: "0 < length (net_queues s)" using two by simp
  show thesis
    using pages live q0
  proof (cases rule: init_queue_cases)
    case (failed t ys)
    then show ?thesis by (intro that(1) [of t ys]) (simp_all add: init_queues_unfold)
  next
    case (placed r b m1 h1 c1 zs)
    let ?s = "(place_queue 0 r b s)\<lparr>mem := m1, free_list := h1, free_page_count := c1\<rparr>"
    have s: "pages_ok ?s zs" "uart_live ?s" "1 < length (net_queues ?s)"
      using placed(2) live two by (simp_all add: place_queue_def set_queue_def pages_ok_def heap_ok_def page_ok_def uart_live_def)
    from s show ?thesis
    proof (cases rule: init_queue_cases)
      case (failed t ys)
      with placed(1) show ?thesis by (intro that(1) [of t ys]) (simp_all add: init_queues_unfold place_queue_def)
    next
      case second: (placed r' b' m h c ys)
      have apart: "\<not> covered (set zs) y" if "in_rng r 6664 y \<or> in_rng b 524288 y" for y
        using placed(5) [OF that] covered_disj [OF pages, of "set xs - set zs" "set zs" y] placed(3) by blast
      then have keep: "m y = m1 y" if "in_rng r 6664 y \<or> in_rng b 524288 y" for y
        using that second(6) [of y] by fastforce
      show ?thesis
      proof (rule that(2))
        show "init_queues_loop 0 s = Some (True, (place_queue 1 r' b' (place_queue 0 r b s))\<lparr>mem := m,
            free_list := h, free_page_count := c\<rparr>)"
          using placed(1) second(1) by (simp add: init_queues_unfold place_queue_def set_queue_def)
        show "pages_ok (s\<lparr>mem := m, free_list := h, free_page_count := c\<rparr>) ys"
          using second(2) by (simp add: place_queue_def set_queue_def pages_ok_def heap_ok_def page_ok_def)
        show "fresh_queue r b (queue_flags 0) m" by (rule fresh_queue_cong [OF placed(4)]) (rule keep)
        show "covered (set xs - set ys) y" if "in_rng r 6664 y \<or> in_rng b 524288 y" for y
          using covered_mono [OF _ placed(5) [OF that]] second(3) by blast
        show "covered (set xs - set ys) y" if "in_rng r' 6664 y \<or> in_rng b' 524288 y" for y
          using covered_mono [OF _ second(5) [OF that]] placed(3) by blast
        show "\<not> in_rng r' 6664 y \<and> \<not> in_rng b' 524288 y" if "in_rng r 6664 y \<or> in_rng b 524288 y" for y
          using apart [OF that] second(5) [of y] covered_mono [of "set zs - set ys" "set zs" y] by blast
      qed (use placed(3) second(3,4) in auto)
    qed
  qed
qed


text \<open>After the receive buffers are offered, the receive queue shows them and the transmit queue is as it was.\<close>

lemma offered_queues:
  assumes rx: "fresh_queue r b f m" and tx: "fresh_queue r' b' f' m"
    and apart: "\<And>y. in_rng r 6664 y \<or> in_rng b 524288 y \<Longrightarrow> \<not> in_rng r' 6664 y \<and> \<not> in_rng b' 524288 y"
    and q: "qsize q = 256" "length (in_use q) = 256" "next_desc q = 0" "ring q = r" "buffers q = b"
  defines "m' \<equiv> st16 (avail_loop r 256 0 m) (avail_idx r) 256"
  shows "queue_ok q m' (map of_nat [0..<256])" "fresh_queue r' b' f' m'"
    "\<And>y. m' y \<noteq> m y \<Longrightarrow> in_rng r 6664 y"
proof -
  show ch: "in_rng r 6664 y" if "m' y \<noteq> m y" for y
    using offered_fresh(1) [OF rx, of y] that ring_inside [of 4096 516 6664 r y] unfolding m'_def by fastforce
  show "fresh_queue r' b' f' m'"
    by (rule fresh_queue_cong [OF tx]) (use ch apart in blast)
  have "descs_ok r b m'" using offered_fresh(2) [OF rx] by (simp add: m'_def descs_ok_def ld_desc_def)
  moreover have "avail_rep r m' (map of_nat [0..<256])" unfolding m'_def by (rule offered_all)
  ultimately show "queue_ok q m' (map of_nat [0..<256])" using q rx by (simp add: queue_ok_def fresh_queue_def)
qed

lemma says_init: "uart.says (uart_puts msg_init_start s) s msg_init_start" "uart.says (uart_puts msg_init_done s) s msg_init_done"
  unfolding msg_init_start_def msg_init_done_def by (rule says_puts, simp)+

text \<open>The state once both queues are placed and all receive buffers are offered.\<close>

definition offered_state :: "u64 \<Rightarrow> u64 \<Rightarrow> u64 \<Rightarrow> u64 \<Rightarrow> memory \<Rightarrow> u64 \<Rightarrow> u32 \<Rightarrow> 'a net_scheme \<Rightarrow> 'a net_scheme" where
  "offered_state r b r' b' m h c s = (place_queue 1 r' b' (place_queue 0 r b s))\<lparr>
     mem := st16 (avail_loop r 256 0 m) (avail_idx r) 256, free_list := h, free_page_count := c,
     dma_rd := Suc (dma_rd s)\<rparr>"

lemma offered_state_simps:
  assumes "length (net_queues s) = 2"
  shows "queue (offered_state r b r' b' m h c s) 0 =
      (queue s 0)\<lparr>ring := r, buffers := b, qsize := 256, last_used_idx := 0, next_desc := 0\<rparr>"
    "queue (offered_state r b r' b' m h c s) (Suc 0) =
      (queue s 1)\<lparr>ring := r', buffers := b', qsize := 256, last_used_idx := 0, next_desc := 0\<rparr>"
    "mem (offered_state r b r' b' m h c s) = st16 (avail_loop r 256 0 m) (avail_idx r) 256"
    "uart_live (offered_state r b r' b' m h c s) = uart_live s"
    "pages_ok (offered_state r b r' b' m h c s) xs =
       pages_ok (s\<lparr>mem := st16 (avail_loop r 256 0 m) (avail_idx r) 256, free_list := h, free_page_count := c\<rparr>) xs"
  using assms by (simp_all add: offered_state_def place_queue_def set_queue_def queue_def uart_live_def
    pages_ok_def heap_ok_def page_ok_def)

lemma virtq_init_offers:
  assumes s1: "uart_puts msg_init_start s = Some s1" "length (net_queues s1) = 2" "dma_idle s1" "uart_live s1"
    and placed: "init_queues_loop 0 s1 = Some (True, (place_queue 1 r' b' (place_queue 0 r b s1))\<lparr>mem := m,
         free_list := h, free_page_count := c\<rparr>)"
  obtains s' where "virt_mmio_net_virtq_init device s = Some (0, s')"
    "uart_emits (offered_state r b r' b' m h c s1) msg_init_done s'"
proof -
  let ?s2 = "(place_queue 1 r' b' (place_queue 0 r b s1))\<lparr>mem := m, free_list := h, free_page_count := c\<rparr>"
  have q: "ring (queue ?s2 0) = r" "qsize (queue ?s2 0) = 256"
    using s1(2) by (simp_all add: place_queue_def set_queue_def queue_def)
  have bar: "mem_barrier (mem_update (\<lambda>_. st16 (avail_loop r 256 0 m) (avail_idx r) 256) ?s2) =
      offered_state r b r' b' m h c s1"
    using s1(3) by (simp add: mem_barrier_def dma_idle_def place_queue_def set_queue_def offered_state_def)
  have "uart_live (offered_state r b r' b' m h c s1)" using s1(2,4) by (simp add: offered_state_simps)
  from uart.says_total [OF says_init(2) this] obtain s' where s':
    "uart_puts msg_init_done (offered_state r b r' b' m h c s1) = Some s'"
    "uart_emits (offered_state r b r' b' m h c s1) msg_init_done s'" by blast
  moreover have "virt_mmio_net_virtq_init device s = Some (0, s')"
    using s1(1) placed s'(1) bar q
    unfolding virt_mmio_net_virtq_init_def by (simp add: VIRTIO_NET_RX_QUEUE_def Let_def)
  ultimately show thesis using that by blast
qed

text \<open>A queue as the device gets it: descriptors that split the buffers, all of one kind.\<close>

definition descs_all :: "virtio_net_queue \<Rightarrow> u16 \<Rightarrow> memory \<Rightarrow> bool" where
  "descs_all q f m \<longleftrightarrow> (\<forall>k<256. ld_desc m (ring q) k = (buffers q + of_nat (2048 * k), 2048, 0, f))"

definition in_pages :: "virtio_net_queue \<Rightarrow> u64 set \<Rightarrow> bool" where
  "in_pages q P \<longleftrightarrow> (\<forall>y. in_rng (ring q) 6664 y \<or> in_rng (buffers q) 524288 y \<longrightarrow> covered P y)"

lemma offered_pages:
  assumes pages: "pages_ok s xs" "pages_ok (s\<lparr>mem := m, free_list := h, free_page_count := c\<rparr>) ys" "set ys \<subseteq> set xs"
    and mine: "\<And>y. in_rng r 6664 y \<Longrightarrow> covered (set xs - set ys) y" and ch: "\<And>y. m' y \<noteq> m y \<Longrightarrow> in_rng r 6664 y"
  shows "pages_ok (s\<lparr>mem := m', free_list := h, free_page_count := c\<rparr>) ys"
proof -
  have "m' y = m y" if "p \<in> set ys" "in_rng p 8 y" for p y
  proof (rule ccontr)
    assume "m' y \<noteq> m y"
    then have "covered (set xs - set ys) y" by (intro mine ch)
    moreover have "covered (set ys) y" using that in_rng_mono [of p 8 y 4096] by (auto simp: covered_def)
    ultimately show False using covered_disj [OF pages(1), of "set xs - set ys" "set ys" y] pages(3) by blast
  qed
  then show ?thesis
    using pages_ok_write [OF pages(2), of m'] by (simp add: pages_ok_reorder)
qed

lemma virtq_init_effect:
  assumes inv: "alloc_inv s" and live: "uart_live s" and pair: "pair_ok s" and idle: "dma_idle s"
  shows "\<exists>res s'. virt_mmio_net_virtq_init device s = Some (res, s') \<and> alloc_inv s' \<and> uart_live s' \<and>
    sys_view s' = sys_view s \<and>
    (res = 0 \<longrightarrow> (let rx = queue s' VIRTIO_NET_RX_QUEUE; tx = queue s' VIRTIO_NET_TX_QUEUE in
       queue_ok rx (mem s') (map of_nat [0..<256]) \<and> queue_ok tx (mem s') [] \<and>
       descs_all rx (ucast VIRTQ_DESC_F_WRITE) (mem s') \<and> descs_all tx 0 (mem s') \<and>
       last_used_idx rx = 0 \<and> last_used_idx tx = 0 \<and> apart rx tx \<and>
       in_pages rx (free_pages s - free_pages s') \<and> in_pages tx (free_pages s - free_pages s') \<and>
       length (net_queues s') = 2 \<and> mmio_wr s' = mmio_wr s \<and> dma_in s' = dma_in s \<and> free_pages s' \<subseteq> free_pages s \<and>
       ld16 (mem s') (used_idx (ring rx)) = 0 \<and> ld16 (mem s') (used_idx (ring tx)) = 0 \<and>
       in_use tx = in_use (queue s VIRTIO_NET_TX_QUEUE))) \<and>
    (res \<noteq> 0 \<longrightarrow> res = - 1 \<and> (\<forall>x. \<not> page_at x ` {..<128} \<subseteq> free_pages s'))"
proof -
  obtain xs where xs: "pages_ok s xs" using inv by (auto simp: alloc_inv_def)
  obtain s1 where s1: "uart_puts msg_init_start s = Some s1" "uart_emits s msg_init_start s1" "uart_live s1"
    using uart.says_total [OF says_init(1) live] by blast
  note n = uart_emits_net [OF s1(2)] and p1 = uart_emits_pages [OF s1(2)]
  have two: "length (net_queues s1) = 2" using pair n by (simp add: pair_ok_def VIRTIO_NET_QUEUE_COUNT_def)
  have u: "length (in_use (queue s1 0)) = 256" "length (in_use (queue s1 1)) = 256"
    using pair two n by (auto simp: pair_ok_def queue_def)
  have pages: "pages_ok s1 xs" using xs p1 by simp
  from pages s1(3) two show ?thesis
  proof (cases rule: init_queues_cases)
    case (failed t ys)
    then show ?thesis
      using s1(1) free_pages_eq [OF failed(2)] alloc_invI [OF failed(2)] uart_emits_sys_view [OF s1(2)]
      unfolding virt_mmio_net_virtq_init_def by (auto simp: image_subset_iff)
  next
    case (placed r b r' b' m h c ys)
    let ?t = "offered_state r b r' b' m h c s1"
    have "dma_idle s1" using idle n by (simp add: dma_idle_def)
    with s1 two placed(1) obtain s' where s': "virt_mmio_net_virtq_init device s = Some (0, s')"
      "uart_emits ?t msg_init_done s'" by (elim virtq_init_offers)
    note n' = uart_emits_net [OF s'(2)] and t = offered_state_simps [OF two]
    note off = offered_queues [OF placed(4,5,8), of "queue s' 0"]
    have fl: "queue_flags 0 = ucast VIRTQ_DESC_F_WRITE" "queue_flags 1 = 0"
      by (simp_all add: queue_flags_def VIRTIO_NET_RX_QUEUE_def)
    have tx: "fresh_queue r' b' 0 (mem s')"
      using off(2) n' u unfolding fl by (simp add: t)
    have rx: "queue_ok (queue s' 0) (mem s') (map of_nat [0..<256])"
      using off(1) n' u by (simp add: t)
    have tx0: "queue_ok (queue s' 1) (mem s') []"
      by (rule fresh_queue_ok [OF tx]) (use n' u in \<open>simp_all add: t\<close>)
    have dall: "descs_all (queue s' 0) (ucast VIRTQ_DESC_F_WRITE) (mem s')" "descs_all (queue s' 1) 0 (mem s')"
      using offered_fresh(2) [OF placed(4)] tx n' by (simp_all add: descs_all_def t fl fresh_queue_def)
    have ys: "pages_ok s' ys"
      using offered_pages [OF pages placed(2,3), of r] placed(6) off(3) n' u
      by (simp add: uart_emits_pages [OF s'(2)] t)
    have "free_pages s - free_pages s' = set xs - set ys" by (simp add: free_pages_eq [OF xs] free_pages_eq [OF ys])
    moreover have "free_pages s' \<subseteq> free_pages s" using placed(3) by (simp add: free_pages_eq [OF xs] free_pages_eq [OF ys])
    moreover from calculation(1) placed(6,7) have "in_pages (queue s' 0) (free_pages s - free_pages s')" "in_pages (queue s' 1) (free_pages s - free_pages s')"
      using n' by (simp_all add: in_pages_def t)
    moreover have "apart (queue s' 0) (queue s' 1)" using placed(8) n' by (simp add: apart_def t)
    moreover have "last_used_idx (queue s' 0) = 0" "last_used_idx (queue s' 1) = 0" using n' by (simp_all add: t)
    moreover have "uart_live s'" using uart.emits_live [OF s'(2)] s1(3) by (simp add: t)
    moreover have "length (net_queues s') = 2" "mmio_wr s' = mmio_wr s" "dma_in s' = dma_in s"
      using n n' two by (simp_all add: offered_state_def place_queue_def set_queue_def)
    moreover have "ld16 (mem s') (used_idx (ring (queue s' 1))) = 0"
      using fresh_used_idx [OF tx, of "mem s'"] n' by (simp add: t)
    moreover have "ld16 (mem s') (used_idx (ring (queue s' 0))) = 0"
    proof -
      have "in_rng (r + of_nat 4096) 516 y" if "mem s' y \<noteq> m y" for y
        using offered_fresh(1) [OF placed(4), of y] that n' by (auto simp: t)
      from fresh_used_idx [OF placed(4) this] show ?thesis using n' by (simp add: t)
    qed
    moreover have "in_use (queue s' 1) = in_use (queue s 1)" using n n' by (simp add: t)
    moreover have "sys_view s' = sys_view s"
      using uart_emits_sys_view [OF s'(2)] uart_emits_sys_view [OF s1(2)]
      by (simp add: offered_state_def place_queue_def sys_view_def csrs_def set_queue_def)
    ultimately show ?thesis
      using s'(1) rx tx0 dall alloc_invI [OF ys]
      by (intro exI [of _ 0] exI [of _ s']) (simp add: VIRTIO_NET_RX_QUEUE_def VIRTIO_NET_TX_QUEUE_def)
  qed
qed

text \<open>
  C9. \<open>virt_mmio_net_virtq_init\<close> always returns. Either it returns 0 and both queues are well-formed:
  rings and buffers lie in pages taken from the allocator, no byte belongs to two of them, every
  descriptor of the receive queue names a 2048-byte buffer of its own with the write flag set in
  the field \<^verbatim>\<open>flags\<close> of the driver's structure and all 256 of them are offered, in order, every descriptor
  of the transmit queue has no flag and none is offered; or it returns -1, which happens only when
  no 128 consecutive pages are free at the end. The field \<^verbatim>\<open>id\<close> of every descriptor, two bytes before
  \<^verbatim>\<open>flags\<close>, is 0: it is where the standard's split virtqueue has the flags, so that by that layout the
  receive buffers are not offered for writing.
\<close>

theorem virtq_init_establishes:
  assumes inv: "alloc_inv s" and live: "uart_live s" and pair: "pair_ok s" and idle: "dma_idle s"
  shows "\<exists>res s'. virt_mmio_net_virtq_init device s = Some (res, s') \<and> alloc_inv s' \<and>
    (res = 0 \<longrightarrow> (let rx = queue s' VIRTIO_NET_RX_QUEUE; tx = queue s' VIRTIO_NET_TX_QUEUE in
       queue_ok rx (mem s') (map of_nat [0..<256]) \<and> queue_ok tx (mem s') [] \<and>
       descs_all rx (ucast VIRTQ_DESC_F_WRITE) (mem s') \<and> descs_all tx 0 (mem s') \<and>
       last_used_idx rx = 0 \<and> last_used_idx tx = 0 \<and> apart rx tx \<and>
       in_pages rx (free_pages s - free_pages s') \<and> in_pages tx (free_pages s - free_pages s'))) \<and>
    (res \<noteq> 0 \<longrightarrow> res = - 1 \<and> (\<forall>x. \<not> page_at x ` {..<128} \<subseteq> free_pages s'))"
  using virtq_init_effect [OF assms, of device] unfolding Let_def by blast

text \<open>A kernel with a three-page heap, two empty queues and a device that does nothing.\<close>

definition empty_queue :: virtio_net_queue where
  "empty_queue = \<lparr>ring = 0, buffers = 0, qsize = 0, last_used_idx = 0, next_desc = 0, in_use = replicate 256 0\<rparr>"

definition demo_net :: net where
  "demo_net = kernel.extend demo_kernel
     (net.fields [empty_queue, empty_queue] (\<lambda>w n a. 0) 0 [] (\<lambda>w n m. m) 0)"

lemmas demo_net_defs = demo_net_def kernel.defs net.defs demo_kernel_def alloc.defs three_pages_def

lemma demo_net_facts:
  "pages_ok demo_net [0x80001000, 0x80002000, 0x80003000]" "uart_live demo_net" "pair_ok demo_net" "dma_idle demo_net"
proof -
  have "pages_ok demo_net xs = pages_ok three_pages xs" for xs
    by (simp add: demo_net_defs pages_ok_def heap_ok_def page_ok_def)
  then show "pages_ok demo_net [0x80001000, 0x80002000, 0x80003000]" using three_pages_ok by simp
  show "uart_live demo_net" by (auto simp: demo_net_defs uart_live_def LSR_TX_IDLE_def)
  show "pair_ok demo_net" "dma_idle demo_net"
    by (simp_all add: demo_net_defs pair_ok_def VIRTIO_NET_QUEUE_COUNT_def empty_queue_def dma_idle_def)
qed

theorem virtq_init_establishes_witness:
  "\<exists>res s'. virt_mmio_net_virtq_init 0x10001000 demo_net = Some (res, s') \<and> alloc_inv s' \<and>
    (res = 0 \<longrightarrow> queue_ok (queue s' VIRTIO_NET_TX_QUEUE) (mem s') []) \<and>
    (res \<noteq> 0 \<longrightarrow> res = - 1 \<and> (\<forall>x. \<not> page_at x ` {..<128} \<subseteq> free_pages s'))"
  using virtq_init_establishes [OF alloc_invI [OF demo_net_facts(1)] demo_net_facts(2-4), of "0x10001000"]
  unfolding Let_def by blast

end
