(* ===== verification/Virtio_Send.thy ===== *)
theory Virtio_Send
  imports Virtq_Init
begin

text \<open>
  Correctness of \<open>virt_mmio_net_send\<close>: on a well-formed transmit queue it publishes one descriptor that
  holds the data, or refuses and changes nothing.
\<close>

section \<open>Sending\<close>

text \<open>The rule of the VirtIO standard the driver relies on: the device never writes the driver's part
  of a ring, nor a buffer that is not offered for writing.\<close>

definition tx_respected :: "'a net_scheme \<Rightarrow> bool" where
  "tx_respected s \<longleftrightarrow> (\<forall>w n m. agree (ring (queue s VIRTIO_NET_TX_QUEUE)) (buffers (queue s VIRTIO_NET_TX_QUEUE))
     524288 (dma_in s w n m) m)"

definition tx_ok :: "'a net_scheme \<Rightarrow> u16 list \<Rightarrow> bool" where
  "tx_ok s h \<longleftrightarrow> length (net_queues s) = VIRTIO_NET_QUEUE_COUNT \<and> queue_ok (queue s VIRTIO_NET_TX_QUEUE) (mem s) h"

text \<open>The memory the driver leaves for descriptor \<open>d\<close>, before it is published.\<close>

definition fill_desc :: "u64 \<Rightarrow> u64 \<Rightarrow> u64 \<Rightarrow> u32 \<Rightarrow> u16 \<Rightarrow> memory \<Rightarrow> memory" where
  "fill_desc r addr data len d m =
     st16 (st32 (mem_copy addr data len m) (desc_len r (ucast d)) len) (desc_flags r (ucast d)) 0"

lemma fill_desc_outside:
  fixes r b data len d m
  assumes d: "unat d < 256" and len: "unat len \<le> 2048"
    and x: "\<not> in_rng (b + of_nat (2048 * unat d)) (unat len) x" "\<not> in_rng r 4096 x"
  shows "fill_desc r (b + of_nat (2048 * unat d)) data len d m x = m x"
proof -
  have out: "\<not> in_rng (r + of_nat (16 * unat d + 8)) 4 x" "\<not> in_rng (r + of_nat (16 * unat d + 14)) 2 x"
    using x(2) ring_inside [of "16 * unat d + 8" 4 4096 r x] ring_inside [of "16 * unat d + 14" 2 4096 r x] d by auto
  show ?thesis
    unfolding fill_desc_def ucast_of_unat ring_offsets st16_outside [OF out(2)] st32_outside [OF out(1)] by (rule mem_copy_outside [OF x(1)])
qed

lemma fill_desc_descs:
  fixes r b data len d m
  assumes disj: "rng_disj r 6664 b 524288" and d: "unat d < 256" and len: "unat len \<le> 2048" and ok: "descs_ok r b m"
  shows "descs_ok r b (fill_desc r (b + of_nat (2048 * unat d)) data len d m)"
  unfolding descs_ok_def
proof (intro allI impI)
  let ?a = "b + of_nat (2048 * unat d)"
  fix i :: nat
  assume i: "i < 256"
  have apart: "16 * i + 8 \<le> 16 * unat d + 8 \<or> 16 * unat d + 16 \<le> 16 * i" by (cases "i \<le> unat d") auto
  have "rng_disj (r + of_nat (16 * i)) 8 (r + of_nat (16 * unat d + 8)) 4"
    "rng_disj (r + of_nat (16 * i)) 8 (r + of_nat (16 * unat d + 14)) 2"
    by (rule rng_disj_off; use apart i d in auto)+
  then have "ld64 (fill_desc r ?a data len d m) (desc_addr r (of_nat i)) = ld64 (mem_copy ?a data len m) (desc_addr r (of_nat i))"
    unfolding fill_desc_def ucast_of_unat ring_offsets by (simp only: ld_st_disj)
  also have "\<dots> = ld64 m (desc_addr r (of_nat i))"
  proof (rule ld64_cong, rule mem_copy_outside, rule notI)
    fix x
    assume "in_rng (desc_addr r (of_nat i)) 8 x" "in_rng ?a (unat len) x"
    then have "in_rng r 6664 x" "in_rng b 524288 x"
      using ring_inside [of "16 * i" 8 6664 r x] i buffer_inside [OF d len] unfolding ring_offsets by simp_all
    with disj show False by (auto simp: rng_disj_def)
  qed
  also have "\<dots> = b + of_nat (2048 * i)" by (rule ok [unfolded descs_ok_def, rule_format, OF i])
  finally show "ld64 (fill_desc r ?a data len d m) (desc_addr r (of_nat i)) = b + of_nat (2048 * i)" .
qed

lemma fill_desc_avail:
  fixes r b data len d m
  assumes disj: "rng_disj r 6664 b 524288" and d: "unat d < 256" and len: "unat len \<le> 2048" and rep: "avail_rep r m h"
  shows "avail_rep r (fill_desc r (b + of_nat (2048 * unat d)) data len d m) h"
proof -
  let ?m = "fill_desc r (b + of_nat (2048 * unat d)) data len d m"
  have "ld16 ?m (r + of_nat a) = ld16 m (r + of_nat a)" if a: "4096 \<le> a" "a + 2 \<le> 4612" for a
  proof (rule ld16_cong, rule fill_desc_outside [OF d len])
    fix x
    assume x: "in_rng (r + of_nat a) 2 x"
    then have "in_rng r 6664 x" using a ring_inside [of a 2 6664 r x] by simp
    then show "\<not> in_rng (b + of_nat (2048 * unat d)) (unat len) x"
      using disj buffer_inside [OF d len] by (auto simp: rng_disj_def)
    show "\<not> in_rng r 4096 x" using in_rng_off [OF _ x] a by (simp add: in_rng_def)
  qed
  from avail_rep_cong [OF this] show ?thesis using rep by simp
qed

lemma fill_desc_effect:
  fixes r b data len d m
  assumes disj: "rng_disj r 6664 b 524288" and d: "d < 256" and len: "len \<le> 2048"
    and src: "rng_disj b 524288 data (unat len)"
  defines "m' \<equiv> fill_desc r (b + of_nat (2048 * unat d)) data len d m"
  shows "bytes m' (b + of_nat (2048 * unat d)) (unat len) = bytes m data (unat len)"
    "ld32 m' (desc_len r (ucast d)) = len" "ld16 m' (desc_flags r (ucast d)) = 0"
    "descs_ok r b m \<Longrightarrow> descs_ok r b m'" "avail_rep r m h \<Longrightarrow> avail_rep r m' h"
    "\<And>x. \<not> in_rng (b + of_nat (2048 * unat d)) (unat len) x \<Longrightarrow> \<not> in_rng r 4096 x \<Longrightarrow> m' x = m x"
proof -
  let ?a = "b + of_nat (2048 * unat d)"
  have u: "unat d < 256" "unat len \<le> 2048" using d len by (simp_all add: word_less_nat_alt word_le_nat_alt)
  show "descs_ok r b m \<Longrightarrow> descs_ok r b m'" "avail_rep r m h \<Longrightarrow> avail_rep r m' h"
    "\<And>x. \<not> in_rng ?a (unat len) x \<Longrightarrow> \<not> in_rng r 4096 x \<Longrightarrow> m' x = m x"
    unfolding m'_def using fill_desc_descs [OF disj u] fill_desc_avail [OF disj u] fill_desc_outside [OF u] by blast+
  have st: "m' = st16 (st32 (mem_copy ?a data len m) (r + of_nat (16 * unat d + 8)) len) (r + of_nat (16 * unat d + 14)) 0"
    unfolding m'_def fill_desc_def ucast_of_unat ring_offsets ..
  have "bytes m' ?a (unat len) = bytes (mem_copy ?a data len m) ?a (unat len)"
  proof (rule bytes_cong)
    show "unat len \<le> 2 ^ 64" using u by simp
    fix x
    assume "in_rng ?a (unat len) x"
    then have "\<not> in_rng r 6664 x" using disj buffer_inside [OF u] by (auto simp: rng_disj_def)
    then have "\<not> in_rng (r + of_nat (16 * unat d + 8)) 4 x" "\<not> in_rng (r + of_nat (16 * unat d + 14)) 2 x"
      using ring_inside [of "16 * unat d + 8" 4 6664 r x] ring_inside [of "16 * unat d + 14" 2 6664 r x] u(1) by auto
    then show "m' x = mem_copy ?a data len m x" unfolding st by (simp add: st16_outside st32_outside)
  qed
  moreover have "rng_disj ?a (unat len) data (unat len)" using src buffer_inside [OF u] unfolding rng_disj_def by blast
  ultimately show "bytes m' ?a (unat len) = bytes m data (unat len)" using mem_copy_bytes(1) by simp
  show "ld32 m' (desc_len r (ucast d)) = len"
    unfolding st ucast_of_unat ring_offsets by (subst ld_st_disj(6) [OF rng_disj_off]) (use u in simp_all)
  show "ld16 m' (desc_flags r (ucast d)) = 0" unfolding st ucast_of_unat ring_offsets by simp
qed

lemma says_msgs:
  "uart.says (uart_puts msg_sending s) s msg_sending" "uart.says (uart_puts msg_too_long s) s msg_too_long"
  "uart.says (uart_puts msg_no_desc s) s msg_no_desc"
  unfolding msg_sending_def msg_too_long_def msg_no_desc_def by (rule says_puts, simp)+

text \<open>What the stores, the two barriers and the publication leave in the driver's part of the queue.\<close>

lemma publish_filled:
  fixes r b data len d m h
  assumes disj: "rng_disj r 6664 b 524288" and d: "d < 256" and len: "len \<le> 2048"
    and src: "rng_disj b 524288 data (unat len)" and ok: "descs_ok r b m" "avail_rep r m h"
    and m': "agree r b 524288 m' (avail_publish r d (fill_desc r (b + of_nat (2048 * unat d)) data len d m))"
  shows "descs_ok r b m'" "avail_rep r m' (h @ [d])"
    "bytes m' (b + of_nat (2048 * unat d)) (unat len) = bytes m data (unat len)"
    "ld32 m' (desc_len r (ucast d)) = len" "ld16 m' (desc_flags r (ucast d)) = 0"
proof -
  let ?m = "fill_desc r (b + of_nat (2048 * unat d)) data len d m"
  note fill = fill_desc_effect [OF disj d len src]
  have d': "unat d < 256" using d by (simp add: word_less_nat_alt)
  have len': "unat len \<le> 2048" using len by (simp add: word_le_nat_alt)
  note rep = fill(5) [OF ok(2)] and ds = fill(4) [OF ok(1)]
  have low: "avail_publish r d ?m x = ?m x" if "in_rng r 4096 x" for x
  proof (rule avail_publish_outside [OF rep], rule notI)
    assume "in_rng (r + of_nat 4096) 516 x"
    from in_rng_off [OF _ this] that show False by (simp add: in_rng_def)
  qed
  have ld_low: "a + 4 \<le> 4096 \<Longrightarrow> ld32 (avail_publish r d ?m) (r + of_nat a) = ld32 ?m (r + of_nat a)"
    "a + 2 \<le> 4096 \<Longrightarrow> ld16 (avail_publish r d ?m) (r + of_nat a) = ld16 ?m (r + of_nat a)" for a
    by (rule ld32_cong ld16_cong, rule low, erule (1) ring_inside [rotated 2], simp)+
  have "descs_ok r b (avail_publish r d ?m)" by (rule avail_publish_descs [OF rep ds])
  with descs_ok_agree [OF m'] show "descs_ok r b m'" by simp
  from availq.publish_rep [OF rep] avail_rep_agree [OF m'] show "avail_rep r m' (h @ [d])" by simp
  have buf: "m' x = ?m x" if x: "in_rng (b + of_nat (2048 * unat d)) (unat len) x" for x
  proof -
    have b: "in_rng b 524288 x" by (rule buffer_inside [OF d' len' x])
    then have "\<not> in_rng (r + of_nat 4096) 516 x"
      using disj ring_inside [of 4096 516 6664 r x] unfolding rng_disj_def by auto
    with avail_publish_outside [OF rep this] m' b show ?thesis by (simp add: agree_def owned_def)
  qed
  have "bytes m' (b + of_nat (2048 * unat d)) (unat len) = bytes ?m (b + of_nat (2048 * unat d)) (unat len)"
    by (rule bytes_cong) (use len' buf in auto)
  then show "bytes m' (b + of_nat (2048 * unat d)) (unat len) = bytes m data (unat len)" using fill(1) by simp
  have "ld32 m' (r + of_nat (16 * unat d + 8)) = ld32 ?m (r + of_nat (16 * unat d + 8))"
    using d' by (subst agree_ld(2) [OF m'], simp, intro ld_low, simp)
  then show "ld32 m' (desc_len r (ucast d)) = len" using fill(2) unfolding ucast_of_unat ring_offsets by simp
  have "ld16 m' (r + of_nat (16 * unat d + 14)) = ld16 ?m (r + of_nat (16 * unat d + 14))"
    using d' by (subst agree_ld(3) [OF m'], simp, intro ld_low, simp)
  then show "ld16 m' (desc_flags r (ucast d)) = 0" using fill(3) unfolding ucast_of_unat ring_offsets by simp
qed


lemma next_index_word:
  assumes "d < 256"
  shows "next_index d 256 = (d + 1) mod 256"
proof -
  have n: "unat d < 256" using assms by (simp add: word_less_nat_alt)
  have "unat ((d + 1) mod 256) = Suc (unat d) mod 256"
    using n by (simp add: unat_mod unat_word_ariths)
  moreover have "unat (of_nat (Suc (unat d) mod 256) :: u16) = Suc (unat d) mod 256"
    by (intro unat_of_nat_lt) (simp add: less_trans [of _ 256])
  ultimately have "(d + 1) mod 256 = of_nat (Suc (unat d) mod 256)"
    by (intro unsigned_word_eqI [where ?'a = nat]) simp
  then show ?thesis using next_index_256 [OF n] by simp
qed

lemma send_unfold:
  assumes ok: "tx_ok s h" and puts: "uart_puts msg_sending s = Some s1"
  shows "virt_mmio_net_send device data len s =
    (let q = queue s VIRTIO_NET_TX_QUEUE; d = find_free (in_use q) 256 0 (next_desc q) in
     if len > QUEUE_BUF_SIZE then uart_puts msg_too_long s1
     else if in_use q ! unat d \<noteq> 0 then uart_puts msg_no_desc s1
     else let m = fill_desc (ring q) (buffers q + of_nat (2048 * unat d)) data len d (mem s1);
       s = set_queue VIRTIO_NET_TX_QUEUE (\<lambda>q. q\<lparr>in_use := (in_use q)[unat d := 1], next_desc := next_index d (qsize q)\<rparr>)
         (s1\<lparr>mem := avail_put (ring q) 256 d m\<rparr>);
       s = mem_barrier s;
       s = mem_barrier (s\<lparr>mem := avail_bump (ring q) (mem s)\<rparr>)
     in Some (virt_mmio_write device VIRTIO_MMIO_QUEUE_NOTIFY (of_nat VIRTIO_NET_TX_QUEUE) s))"
proof -
  let ?q = "queue s VIRTIO_NET_TX_QUEUE"
  let ?d = "find_free (in_use ?q) 256 0 (next_desc ?q)"
  have q: "qsize ?q = 256" "length (in_use ?q) = 256" "next_desc ?q < 256" "descs_ok (ring ?q) (buffers ?q) (mem s)"
    using ok by (simp_all add: tx_ok_def queue_ok_def)
  have f: "queue s1 = queue s" "mem s1 = mem s" using uart_puts_frame [OF puts] by (auto simp: queue_def)
  have d: "?d < 256" using find_free_spec(1) [OF q(2,3)] .
  then have a: "ld64 (mem s) (desc_addr (ring ?q) (ucast ?d)) = buffers ?q + of_nat (2048 * unat ?d)"
    using spec [OF q(4) [unfolded descs_ok_def], of "unat ?d"] unfolding ucast_of_unat
    by (simp only: word_less_nat_alt) simp
  show ?thesis
    unfolding virt_mmio_net_send_def puts bind.bind_lunit fill_desc_def
    by (simp add: f q(1) a Let_def)
qed

lemma send_free:
  assumes ok: "tx_ok s h" and resp: "tx_respected s" and len: "len \<le> QUEUE_BUF_SIZE"
    and src: "rng_disj (buffers (queue s VIRTIO_NET_TX_QUEUE)) 524288 data (unat len)"
    and puts: "uart_puts msg_sending s = Some s1" "uart_emits s msg_sending s1"
    and d: "d = find_free (in_use (queue s VIRTIO_NET_TX_QUEUE)) 256 0 (next_desc (queue s VIRTIO_NET_TX_QUEUE))"
    and free: "in_use (queue s VIRTIO_NET_TX_QUEUE) ! unat d = 0"
  shows "\<exists>s'. virt_mmio_net_send device data len s = Some s' \<and> tx_ok s' (h @ [d]) \<and> tx_respected s' \<and>
     queue s' VIRTIO_NET_TX_QUEUE = (queue s VIRTIO_NET_TX_QUEUE)\<lparr>
       in_use := (in_use (queue s VIRTIO_NET_TX_QUEUE))[unat d := 1], next_desc := (d + 1) mod 256\<rparr> \<and>
     bytes (mem s') (buffers (queue s VIRTIO_NET_TX_QUEUE) + of_nat (2048 * unat d)) (unat len) =
       bytes (mem s) data (unat len) \<and>
     ld32 (mem s') (desc_len (ring (queue s VIRTIO_NET_TX_QUEUE)) (ucast d)) = len \<and>
     ld16 (mem s') (desc_flags (ring (queue s VIRTIO_NET_TX_QUEUE)) (ucast d)) = 0 \<and>
     mmio_wr s' = mmio_wr s @ [(device + 0x50, 1)]"
proof -
  let ?t = VIRTIO_NET_TX_QUEUE
  define q where "q = queue s ?t"
  let ?q' = "q\<lparr>in_use := (in_use q)[unat d := 1], next_desc := (d + 1) mod 256\<rparr>"
  note n = uart_emits_net [OF puts(2)]
  have q: "qsize q = 256" "length (in_use q) = 256" "next_desc q < 256" "rng_disj (ring q) 6664 (buffers q) 524288"
    "descs_ok (ring q) (buffers q) (mem s)" "avail_rep (ring q) (mem s) h"
    using ok by (simp_all add: tx_ok_def queue_ok_def q_def)
  have two: "length (net_queues s1) = 2" "?t < 2" using ok n by (simp_all add: tx_ok_def VIRTIO_NET_QUEUE_COUNT_def VIRTIO_NET_TX_QUEUE_def)
  have d256: "d < 256" using find_free_spec(1) [OF q(2,3)] by (simp add: d q_def)
  have len': "len \<le> 2048" using len by (simp add: QUEUE_BUF_SIZE_def)
  note nx = next_index_word [OF d256]
  have n1: "queue s1 = queue s" "queue s ?t = q" "mem s1 = mem s" using n by (simp_all add: q_def)
  have dq: "find_free (in_use q) 256 0 (next_desc q) = d" "in_use q ! unat d = 0"
    using d free by (simp_all add: q_def)
  define m3 where "m3 = fill_desc (ring q) (buffers q + of_nat (2048 * unat d)) data len d (mem s)"
  define s4 where "s4 = set_queue ?t (\<lambda>q. q\<lparr>in_use := (in_use q)[unat d := 1], next_desc := next_index d (qsize q)\<rparr>)
     (s1\<lparr>mem := avail_put (ring q) 256 d m3\<rparr>)"
  define s6 where "s6 = mem_barrier (mem_update (\<lambda>_. avail_bump (ring q) (mem (mem_barrier s4))) (mem_barrier s4))"
  define s' where "s' = virt_mmio_write device VIRTIO_MMIO_QUEUE_NOTIFY (of_nat ?t) s6"
  have run: "virt_mmio_net_send device data len s = Some s'"
    unfolding send_unfold [OF ok puts(1)] s'_def s6_def s4_def m3_def
    by (simp add: n1 dq Let_def linorder_not_less [THEN iffD2, OF len])
  have q4: "queue s4 ?t = ?q'"
    using two n q(1) by (simp add: s4_def queue_set_queue nx q_def [symmetric])

  have keep: "agree (ring q) (buffers q) 524288 (dma_in s w n m) m" for w n m
    using resp by (simp add: tx_respected_def q_def)
  have d4: "dma_in s4 = dma_in s" "mem s4 = avail_put (ring q) 256 d m3" using n by (simp_all add: s4_def)
  have "agree (ring q) (buffers q) 524288 (mem s6) (avail_publish (ring q) d m3)"
  proof (rule publish_through_barrier)
    show "agree (ring q) (buffers q) 524288 (mem (mem_barrier s4)) (avail_put (ring q) 256 d m3)"
      using keep by (simp add: d4)
    show "agree (ring q) (buffers q) 524288 (mem s6) (avail_bump (ring q) (mem (mem_barrier s4)))"
      using keep by (simp add: s6_def d4)
  qed
  note pub = publish_filled [OF q(4) d256 len' src [folded q_def] q(5,6) this [unfolded m3_def]]
  have q6: "queue s' ?t = ?q'" "mem s' = mem s6" "net_queues s' = net_queues s4" "dma_in s' = dma_in s"
    by (simp_all add: s'_def s6_def q4 d4)
  have wr: "mmio_wr s' = mmio_wr s @ [(device + 0x50, 1)]"
    using n by (simp add: s'_def s6_def s4_def virt_mmio_write_def VIRTIO_MMIO_QUEUE_NOTIFY_def VIRTIO_NET_TX_QUEUE_def)
  have "(d + 1) mod 256 < 256" by (simp add: word_less_nat_alt unat_mod)
  then have "tx_ok s' (h @ [d])" unfolding tx_ok_def queue_ok_def q6
    using q pub two by (simp add: s4_def VIRTIO_NET_QUEUE_COUNT_def)
  moreover have "tx_respected s'" unfolding tx_respected_def q6 using keep by simp
  ultimately show ?thesis unfolding q_def [symmetric] using run wr pub q6 by (intro exI [of _ s']) simp
qed


text \<open>
  C6. Sending, when the data fit a buffer and a descriptor is free: \<open>virt_mmio_net_send\<close> returns, takes
  a free descriptor, leaves the data in its buffer with the length in the descriptor, appends the
  descriptor to what the device has been offered, marks it in use, moves the search start behind
  it, and notifies the device exactly once. The queue stays well-formed, so that sends can follow
  one another; the device may do anything at the two barriers but write the driver's part.
\<close>

theorem send_publishes:
  assumes "tx_ok s h" "tx_respected s" "uart_live s" "len \<le> QUEUE_BUF_SIZE"
    and "rng_disj (buffers (queue s VIRTIO_NET_TX_QUEUE)) 524288 data (unat len)"
    and "\<exists>i<256. in_use (queue s VIRTIO_NET_TX_QUEUE) ! i = 0"
  shows "\<exists>s' d. virt_mmio_net_send device data len s = Some s' \<and> d < 256 \<and>
     in_use (queue s VIRTIO_NET_TX_QUEUE) ! unat d = 0 \<and> tx_ok s' (h @ [d]) \<and> tx_respected s' \<and>
     queue s' VIRTIO_NET_TX_QUEUE = (queue s VIRTIO_NET_TX_QUEUE)\<lparr>
       in_use := (in_use (queue s VIRTIO_NET_TX_QUEUE))[unat d := 1], next_desc := (d + 1) mod 256\<rparr> \<and>
     bytes (mem s') (buffers (queue s VIRTIO_NET_TX_QUEUE) + of_nat (2048 * unat d)) (unat len) =
       bytes (mem s) data (unat len) \<and>
     ld32 (mem s') (desc_len (ring (queue s VIRTIO_NET_TX_QUEUE)) (ucast d)) = len \<and>
     ld16 (mem s') (desc_flags (ring (queue s VIRTIO_NET_TX_QUEUE)) (ucast d)) = 0 \<and>
     mmio_wr s' = mmio_wr s @ [(device + 0x50, 1)]"
proof -
  obtain s1 where s1: "uart_puts msg_sending s = Some s1" "uart_emits s msg_sending s1"
    using uart.says_total [OF says_msgs(1) assms(3)] by blast
  let ?q = "queue s VIRTIO_NET_TX_QUEUE"
  have "length (in_use ?q) = 256" "next_desc ?q < 256" using assms(1) by (simp_all add: tx_ok_def queue_ok_def)
  define d where "d = find_free (in_use ?q) 256 0 (next_desc ?q)"
  note ff = find_free_spec [OF \<open>length (in_use ?q) = 256\<close> \<open>next_desc ?q < 256\<close>, folded d_def]
  have free: "in_use ?q ! unat d = 0" using ff(2) assms(6) by blast
  from send_free [OF assms(1,2,4,5) s1 d_def free, of device] ff(1) free show ?thesis by blast
qed

text \<open>
  The two refusals of \<open>virt_mmio_net_send\<close>: data longer than a buffer, or every descriptor in use.
  It returns after printing the reason, and nothing else has changed: no memory, no queue, no
  device register. Its caller is not told.
\<close>

theorem send_refuses:
  assumes "tx_ok s h" "uart_live s"
    and "QUEUE_BUF_SIZE < len \<or> (\<forall>i<256. in_use (queue s VIRTIO_NET_TX_QUEUE) ! i \<noteq> 0)"
  shows "\<exists>s'. virt_mmio_net_send device data len s = Some s' \<and>
     uart_emits s (msg_sending @ (if QUEUE_BUF_SIZE < len then msg_too_long else msg_no_desc)) s'"
proof -
  let ?q = "queue s VIRTIO_NET_TX_QUEUE"
  have q: "length (in_use ?q) = 256" "next_desc ?q < 256" "qsize ?q = 256"
    using assms(1) by (simp_all add: tx_ok_def queue_ok_def)
  let ?d = "find_free (in_use ?q) 256 0 (next_desc ?q)"
  note ff = find_free_spec [OF q(1,2)]
  have busy: "in_use ?q ! unat ?d \<noteq> 0" if "\<not> QUEUE_BUF_SIZE < len" using ff assms(3) that by auto
  obtain s1 where s1: "uart_puts msg_sending s = Some s1" "uart_emits s msg_sending s1" "uart_live s1"
    using uart.says_total [OF says_msgs(1) assms(2)] by blast
  have "queue s1 = queue s" using s1(2) by (simp add: uart_emits_net)
  then have run: "virt_mmio_net_send device data len s =
      uart_puts (if QUEUE_BUF_SIZE < len then msg_too_long else msg_no_desc) s1"
    unfolding virt_mmio_net_send_def using busy q(3) by (simp add: s1(1) Let_def)
  have "uart.says (uart_puts (if QUEUE_BUF_SIZE < len then msg_too_long else msg_no_desc) s1) s1
      (if QUEUE_BUF_SIZE < len then msg_too_long else msg_no_desc)" by (simp add: says_msgs)
  from uart.says_total [OF this s1(3)] show ?thesis
    unfolding run using uart.emits_trans [OF s1(2)] by blast
qed


text \<open>A network whose transmit queue has just been initialised.\<close>

definition tx_demo :: net where
  "tx_demo = demo_net\<lparr>net_queues := [empty_queue, empty_queue\<lparr>ring := 0x80100000, buffers := 0x80200000, qsize := 256\<rparr>],
     mem := init_desc_loop 0x80100000 0x80200000 0 256 0 (mem_zero 0x80200000 (QUEUE_BUF_SIZE * of_nat DESC_QUEUE_SIZE)
       (mem_zero 0x80100000 sizeof_virtq (mem demo_net)))\<rparr>"

lemma tx_demo_facts:
  "queue tx_demo VIRTIO_NET_TX_QUEUE = empty_queue\<lparr>ring := 0x80100000, buffers := 0x80200000, qsize := 256\<rparr>"
  "tx_ok tx_demo []" "tx_respected tx_demo" "uart_live tx_demo" "mmio_wr tx_demo = []"
proof -
  show q: "queue tx_demo VIRTIO_NET_TX_QUEUE = empty_queue\<lparr>ring := 0x80100000, buffers := 0x80200000, qsize := 256\<rparr>"
    by (simp add: tx_demo_def queue_def VIRTIO_NET_TX_QUEUE_def)
  have "rng_disj 0x80100000 6664 0x80200000 524288" by (rule rng_disjI) simp_all
  note f = fresh_queueI(1) [OF this, where f = 0 and m = "mem demo_net"]
  have "length (net_queues tx_demo) = VIRTIO_NET_QUEUE_COUNT" by (simp add: tx_demo_def VIRTIO_NET_QUEUE_COUNT_def)
  moreover have "queue_ok (queue tx_demo VIRTIO_NET_TX_QUEUE) (mem tx_demo) []"
    unfolding q by (rule fresh_queue_ok) (use f in \<open>simp_all add: tx_demo_def empty_queue_def\<close>)
  ultimately show "tx_ok tx_demo []" by (simp add: tx_ok_def)
  show "tx_respected tx_demo" by (simp add: tx_respected_def tx_demo_def demo_net_defs agree_def)
  show "uart_live tx_demo" by (auto simp: tx_demo_def demo_net_defs uart_live_def LSR_TX_IDLE_def)
  show "mmio_wr tx_demo = []" by (simp add: tx_demo_def demo_net_defs)
qed

theorem send_publishes_witness:
  "\<exists>s' d. virt_mmio_net_send 0x10001000 0x80000000 60 tx_demo = Some s' \<and> tx_ok s' [d] \<and>
     mmio_wr s' = [(0x10001050, 1)] \<and> bytes (mem s') (0x80200000 + of_nat (2048 * unat d)) 60 = bytes (mem tx_demo) 0x80000000 60"
proof -
  have "rng_disj (buffers (queue tx_demo VIRTIO_NET_TX_QUEUE)) 524288 0x80000000 (unat (60 :: u32))"
    unfolding tx_demo_facts by (rule rng_disjI) (simp_all add: empty_queue_def)
  moreover have "\<exists>i<256. in_use (queue tx_demo VIRTIO_NET_TX_QUEUE) ! i = 0"
    unfolding tx_demo_facts by (intro exI [of _ 0]) (simp add: empty_queue_def)
  moreover have "(60 :: u32) \<le> QUEUE_BUF_SIZE" by (simp add: QUEUE_BUF_SIZE_def)
  ultimately obtain s' d where "virt_mmio_net_send 0x10001000 0x80000000 60 tx_demo = Some s'" "tx_ok s' ([] @ [d])"
    "bytes (mem s') (buffers (queue tx_demo VIRTIO_NET_TX_QUEUE) + of_nat (2048 * unat d)) (unat (60 :: u32)) =
       bytes (mem tx_demo) 0x80000000 (unat (60 :: u32))"
    "mmio_wr s' = mmio_wr tx_demo @ [(0x10001000 + 0x50, 1)]"
    using send_publishes [OF tx_demo_facts(2-4), of 60 "0x80000000" "0x10001000"] by blast
  then show ?thesis by (intro exI [of _ s'] exI [of _ d]) (simp add: tx_demo_facts)
qed

theorem send_refuses_witness:
  "\<exists>s'. virt_mmio_net_send 0x10001000 0x80000000 2049 tx_demo = Some s' \<and> mem s' = mem tx_demo \<and>
     uart_emits tx_demo (msg_sending @ msg_too_long) s'"
proof -
  have long: "QUEUE_BUF_SIZE < 2049" by (simp add: QUEUE_BUF_SIZE_def)
  obtain s' where "virt_mmio_net_send 0x10001000 0x80000000 2049 tx_demo = Some s'"
    "uart_emits tx_demo (msg_sending @ (if QUEUE_BUF_SIZE < 2049 then msg_too_long else msg_no_desc)) s'"
    using send_refuses [OF tx_demo_facts(2,4) disjI1 [OF long], of "0x10001000" "0x80000000"] by blast
  then show ?thesis using long uart_emits_mem by (intro exI [of _ s']) simp
qed

end
