(* ===== verification/Virtio_Recv.thy ===== *)
theory Virtio_Recv
  imports Virtq_Init
begin

text \<open>
  Correctness of \<open>virt_mmio_net_poll_rx\<close>: when the wait for the device ends, what is reported about the
  frame, and that its descriptor goes back to the device.
\<close>

section \<open>Waiting for the device\<close>

definition moved :: "nat \<Rightarrow> 'a net_scheme \<Rightarrow> bool" where
  "moved qi s \<longleftrightarrow> last_used_idx (queue s qi) \<noteq> ld16 (mem s) (used_idx (ring (queue s qi)))"

lemma wait_used_step:
  "wait_used qi s = (if moved qi (mem_barrier s) then Some (mem_barrier s) else wait_used qi (mem_barrier s))"
  by (subst wait_used.simps) (simp add: Let_def moved_def)

lemma wait_used_finds:
  assumes "\<And>j. j < k \<Longrightarrow> \<not> moved qi ((mem_barrier ^^ Suc j) s)" "moved qi ((mem_barrier ^^ Suc k) s)"
  shows "wait_used qi s = Some ((mem_barrier ^^ Suc k) s)"
  using assms
proof (induction k arbitrary: s)
  case 0
  then show ?case by (subst wait_used_step) simp
next
  case (Suc k)
  have sh: "(mem_barrier ^^ Suc (Suc j)) s = (mem_barrier ^^ Suc j) (mem_barrier s)" for j
    by (simp only: funpow_Suc_right comp_apply)
  have "wait_used qi (mem_barrier s) = Some ((mem_barrier ^^ Suc k) (mem_barrier s))"
    by (rule Suc.IH) (use Suc.prems sh in \<open>metis Suc_less_eq\<close>)+
  moreover have "\<not> moved qi (mem_barrier s)" using Suc.prems(1) [of 0] by simp
  ultimately show ?case by (subst wait_used_step) (simp only: sh if_False)
qed

lemma wait_used_Some:
  assumes "wait_used qi s = Some t"
  shows "\<exists>k. t = (mem_barrier ^^ Suc k) s \<and> moved qi t"
  using assms
proof (rule wait_used.raw_induct [rotated])
  fix loop qi and s t :: "'a net_scheme"
  assume IH: "\<And>qi s t. loop qi s = Some t \<Longrightarrow> \<exists>k. t = (mem_barrier ^^ Suc k) s \<and> moved qi t"
    and eq: "(let s = mem_barrier s; q = queue s qi in
      if last_used_idx q \<noteq> ld16 (mem s) (used_idx (ring q)) then Some s else loop qi s) = Some t"
  show "\<exists>k. t = (mem_barrier ^^ Suc k) s \<and> moved qi t"
  proof (cases "moved qi (mem_barrier s)")
    case True
    with eq have "t = (mem_barrier ^^ Suc 0) s" "moved qi t" by (auto simp: Let_def moved_def)
    then show ?thesis by blast
  next
    case False
    with eq have "loop qi (mem_barrier s) = Some t" by (simp add: Let_def moved_def)
    from IH [OF this] obtain k where "t = (mem_barrier ^^ Suc k) (mem_barrier s)" "moved qi t" by blast
    then have "t = (mem_barrier ^^ Suc (Suc k)) s" by (simp only: funpow_Suc_right comp_apply)
    with \<open>moved qi t\<close> show ?thesis by blast
  qed
qed

lemma wait_used_returns_iff:
  "(\<exists>t. wait_used qi s = Some t) \<longleftrightarrow> (\<exists>k. moved qi ((mem_barrier ^^ Suc k) s))"
proof
  assume ex: "\<exists>k. moved qi ((mem_barrier ^^ Suc k) s)"
  then obtain k where "moved qi ((mem_barrier ^^ Suc k) s)" "\<And>j. j < k \<Longrightarrow> \<not> moved qi ((mem_barrier ^^ Suc j) s)"
    using exists_least_iff [of "\<lambda>k. moved qi ((mem_barrier ^^ Suc k) s)"] by blast
  from wait_used_finds [OF this(2,1)] show "\<exists>t. wait_used qi s = Some t" by blast
qed (blast dest: wait_used_Some)

lemma barriers_frame:
  "queue ((mem_barrier ^^ k) s) = queue s" "net_queues ((mem_barrier ^^ k) s) = net_queues s"
  "dma_in ((mem_barrier ^^ k) s) = dma_in s" "mmio_wr ((mem_barrier ^^ k) s) = mmio_wr s"
  "uart_live ((mem_barrier ^^ k) s) = uart_live s" "uart_wr ((mem_barrier ^^ k) s) = uart_wr s"
  by (induction k) (simp_all add: mem_barrier_def uart_live_def queue_def fun_eq_iff)

section \<open>The report\<close>

definition frame_text :: "memory \<Rightarrow> u64 \<Rightarrow> u8 list" where
  "frame_text m frame = lit ''Received Frame ['' @ mac_text (bytes m (frame + eth_src) 6) @ lit '' -> '' @
     mac_text (bytes m (frame + eth_dst) 6) @ lit ''] type=0x'' @
     (let ty = ntohs (ld16 m (frame + eth_type)); body = frame + sizeof_eth_hdr in
       (lit ''0x'' @ hex_text 8 (unat ty)) @ [10] @
       (if ty = ETH_P_IP then lit ''  IPv4: '' @ ip_text (ld32 m (body + ip_src)) @ lit '' -> '' @
          ip_text (ld32 m (body + ip_dst)) @ lit '' proto='' @ (lit ''0x'' @ hex_text 8 (unat (m (body + ip_proto)))) @ [10]
        else if ty = ETH_P_ARP then lit (''  ARP Packet detected'' @ [CHR 0x0A]) @ arp_text m body
        else []))"

lemma says_mac_field: "mem s = m \<Longrightarrow> uart.says (print_mac a s) s (mac_text (bytes m a 6))"
  using says_print_mac by blast

lemma says_arp_field: "mem s = m \<Longrightarrow> uart.says (parse_arp a s) s (arp_text m a)"
  using says_parse_arp by blast

lemma says_b2x_16: "uart.says (uart_b2x (ucast (v :: u16)) s) s (lit ''0x'' @ hex_text 8 (unat v))"
  using says_b2x [of "ucast v" s] by (simp add: unat_ucast_up)

lemma says_b2x_8: "v = w \<Longrightarrow> uart.says (uart_b2x (ucast (v :: u8)) s) s (lit ''0x'' @ hex_text 8 (unat w))"
  using says_b2x [of "ucast v" s] by (simp add: unat_ucast_up)

lemma says_report_frame: "uart.says (report_frame frame s) s (frame_text (mem s) frame)"
proof -
  define m ty where "m = mem s" and "ty = ntohs (ld16 (mem s) (frame + eth_type))"
  have m: "mem s = m" by (simp add: m_def)
  note ty = ty_def [symmetric, unfolded m]
  have ne: "ETH_P_ARP \<noteq> ETH_P_IP" by (simp add: ETH_P_ARP_def ETH_P_IP_def)
  consider "ty = ETH_P_IP" | "ty = ETH_P_ARP" | "ty \<noteq> ETH_P_IP" "ty \<noteq> ETH_P_ARP" by blast
  then show ?thesis
  proof cases
    case 1
    show ?thesis
      unfolding report_frame_def frame_text_def Let_def m ty 1 if_P [OF refl]
      by (rule uart.says_bind says_puts says_putc says_b2x_16 says_mac_field says_ip_field says_b2x_8
        | (drule uart_emits_mem)+, simp add: m | simp)+
  next
    case 2
    show ?thesis
      unfolding report_frame_def frame_text_def Let_def m ty 2 if_not_P [OF ne] if_P [OF refl]
      by (rule uart.says_bind says_puts says_putc says_b2x_16 says_mac_field says_arp_field
        | (drule uart_emits_mem)+, simp add: m | simp)+
  next
    case 3
    show ?thesis
      unfolding report_frame_def frame_text_def Let_def m ty if_not_P [OF 3(1)] if_not_P [OF 3(2)]
      by (rule uart.says_bind says_puts says_putc says_b2x_16 says_mac_field uart.says_nothing
        | (drule uart_emits_mem)+, simp add: m | simp)+
  qed
qed


section \<open>Recycling a descriptor\<close>

text \<open>The device never writes the driver's part of the receive ring; it may write the buffers.\<close>

definition rx_respected :: "'a net_scheme \<Rightarrow> bool" where
  "rx_respected s \<longleftrightarrow> (\<forall>w n m. agree (ring (queue s VIRTIO_NET_RX_QUEUE)) (buffers (queue s VIRTIO_NET_RX_QUEUE))
     0 (dma_in s w n m) m)"

definition rx_ok :: "'a net_scheme \<Rightarrow> u16 list \<Rightarrow> bool" where
  "rx_ok s h \<longleftrightarrow> length (net_queues s) = VIRTIO_NET_QUEUE_COUNT \<and> queue_ok (queue s VIRTIO_NET_RX_QUEUE) (mem s) h"

lemma rx_barrier:
  assumes "rx_respected s"
  shows "rx_respected (mem_barrier s)" "rx_ok (mem_barrier s) h = rx_ok s h"
proof -
  show "rx_respected (mem_barrier s)" using assms by (simp add: rx_respected_def)
  have "agree (ring (queue s VIRTIO_NET_RX_QUEUE)) (buffers (queue s VIRTIO_NET_RX_QUEUE)) 0 (mem (mem_barrier s)) (mem s)"
    using assms by (simp add: rx_respected_def)
  from queue_ok_agree [OF this] show "rx_ok (mem_barrier s) h = rx_ok s h" by (simp add: rx_ok_def)
qed

lemma rx_barriers:
  "rx_respected s \<Longrightarrow> rx_respected ((mem_barrier ^^ k) s) \<and> (rx_ok ((mem_barrier ^^ k) s) h \<longleftrightarrow> rx_ok s h)"
  by (induction k) (simp_all add: rx_barrier)

lemma rx_recycle_ok:
  fixes device d and s :: "'a net_scheme"
  assumes ok: "rx_ok s h" and resp: "rx_respected s"
  defines "s' \<equiv> rx_recycle device d s"
  shows "rx_ok s' (h @ [d])" "rx_respected s'"
    "queue s' VIRTIO_NET_RX_QUEUE = (queue s VIRTIO_NET_RX_QUEUE)\<lparr>last_used_idx := last_used_idx (queue s VIRTIO_NET_RX_QUEUE) + 1\<rparr>"
    "mmio_wr s' = mmio_wr s @ [(device + 0x50, 0)]" "uart_wr s' = uart_wr s" "uart_live s' = uart_live s"
proof -
  let ?i = VIRTIO_NET_RX_QUEUE
  define q where "q = queue s ?i"
  let ?q = "q\<lparr>last_used_idx := last_used_idx q + 1\<rparr>"
  have q: "qsize q = 256" "descs_ok (ring q) (buffers q) (mem s)" "avail_rep (ring q) (mem s) h" 
    using ok by (simp_all add: rx_ok_def queue_ok_def q_def)
  have two: "length (net_queues s) = 2" "?i < 2" using ok by (simp_all add: rx_ok_def VIRTIO_NET_QUEUE_COUNT_def VIRTIO_NET_RX_QUEUE_def)
  have keep: "agree (ring q) (buffers q) 0 (dma_in s w n m) m" for w n m
    using resp by (simp add: rx_respected_def q_def)
  note d = s'_def rx_recycle_def Let_def q_def [symmetric] q(1)
  have mem': "agree (ring q) (buffers q) 0 (mem s') (avail_publish (ring q) d (mem s))"
    unfolding d by (rule publish_through_barrier [OF keep [of "mmio_wr s" "dma_rd s"]]) (simp add: keep)
  have q': "queue s' ?i = ?q" unfolding d using two by (simp add: queue_set_queue q_def)
  show "queue s' ?i = (queue s ?i)\<lparr>last_used_idx := last_used_idx (queue s ?i) + 1\<rparr>" using q' by (simp add: q_def)
  have "length (net_queues s') = 2" unfolding d using two by simp
  moreover have "queue_ok ?q (mem s') (h @ [d])"
    using ok availq.publish_rep [OF q(3), of d] avail_publish_descs [OF q(3,2), of d] avail_rep_agree [OF mem']
      descs_ok_agree [OF mem'] by (simp add: queue_ok_def rx_ok_def q_def)
  ultimately show "rx_ok s' (h @ [d])" by (simp add: rx_ok_def q' VIRTIO_NET_QUEUE_COUNT_def)
  have "dma_in s' = dma_in s" unfolding d by simp
  then show "rx_respected s'" unfolding rx_respected_def q' using keep by simp
  show "mmio_wr s' = mmio_wr s @ [(device + 0x50, 0)]" "uart_wr s' = uart_wr s" "uart_live s' = uart_live s"
    unfolding d by (simp_all add: virt_mmio_write_def mem_barrier_def set_queue_def uart_live_def
      VIRTIO_MMIO_QUEUE_NOTIFY_def VIRTIO_NET_RX_QUEUE_def)
qed


section \<open>One received frame\<close>

text \<open>What is printed when descriptor \<open>d\<close> comes back with \<open>n\<close> bytes while the index is \<open>u\<close>.\<close>

definition rx_head :: "u16 \<Rightarrow> u8 list" where
  "rx_head u = lit ''Device updated used index to: '' @ (lit ''0x'' @ hex_text 8 (unat u)) @ [10]"

definition rx_tail :: "u32 \<Rightarrow> u8 list" where
  "rx_tail n = lit ''Received data length: '' @ (lit ''0x'' @ hex_text 8 (unat n)) @ [10] @ msg_poll_done"

definition used_elem :: "'a net_scheme \<Rightarrow> u32 \<times> u32" where
  "used_elem s =
     (let q = queue s VIRTIO_NET_RX_QUEUE; k = ucast (last_used_idx q mod 256)
      in (ld32 (mem s) (used_id (ring q) k), ld32 (mem s) (used_len (ring q) k)))"

lemma says_rx_msgs: "uart.says (uart_puts msg_bad_desc s) s msg_bad_desc" "uart.says (uart_puts msg_poll_done s) s msg_poll_done"
  "uart.says (uart_puts msg_polling s) s msg_polling"
  unfolding msg_bad_desc_def msg_poll_done_def msg_polling_def by (rule says_puts, simp)+

lemma says_used_idx: "mem s = m \<Longrightarrow> uart.says (uart_b2x (ucast (ld16 (mem s) a)) s) s (lit ''0x'' @ hex_text 8 (unat (ld16 m a)))"
  using says_b2x_16 by blast

definition rx_rest :: "u64 \<Rightarrow> u32 \<Rightarrow> 'a net_scheme \<Rightarrow> 'a net_scheme option" where
  "rx_rest device L s = do {
     let (e, n) = used_elem s;
     if e \<ge> 256 then uart_puts msg_bad_desc s
     else do {
       s \<leftarrow> report_frame (ld64 (mem s) (desc_addr (ring (queue s VIRTIO_NET_RX_QUEUE)) (ucast e)) + sizeof_virtio_net_hdr) s;
       let s = rx_recycle device (ucast e) s;
       s \<leftarrow> uart_puts (lit ''Received data length: '') s;
       s \<leftarrow> uart_b2x ((if n > L then L else n) - ucast sizeof_virtio_net_hdr) s;
       s \<leftarrow> uart_putc 10 s;
       uart_puts msg_poll_done s
     }
   }"

lemma rx_handle_head:
  assumes "uart_live s" "qsize (queue s VIRTIO_NET_RX_QUEUE) = 256"
  shows "\<exists>t. uart_emits s (rx_head (ld16 (mem s) (used_idx (ring (queue s VIRTIO_NET_RX_QUEUE))))) t \<and> uart_live t \<and>
    rx_handle device L s = rx_rest device L t"
proof -
  let ?r = "ring (queue s VIRTIO_NET_RX_QUEUE)"
  obtain s1 where s1: "uart_puts (lit ''Device updated used index to: '') s = Some s1"
    "uart_emits s (lit ''Device updated used index to: '') s1" "uart_live s1"
    using uart.says_total [OF says_puts [of "''Device updated used index to: ''"] assms(1)] by auto
  obtain s2 where s2: "uart_b2x (ucast (ld16 (mem s) (used_idx ?r))) s1 = Some s2"
    "uart_emits s1 (lit ''0x'' @ hex_text 8 (unat (ld16 (mem s) (used_idx ?r)))) s2" "uart_live s2"
    using uart.says_total [OF says_b2x_16 s1(3)] by blast
  obtain t where t: "uart_putc 10 s2 = Some t" "uart_emits s2 [10] t" "uart_live t"
    using uart.says_total [OF says_putc s2(3)] by blast
  note m1 = uart_emits_net [OF s1(2)]
  note e = uart.emits_trans [OF s1(2) uart.emits_trans [OF s2(2) t(2)]]
  have nt: "queue t = queue s" "mem t = mem s" using uart_emits_net [OF e] by simp_all
  have "rx_handle device L s = rx_rest device L t"
    unfolding rx_handle_def rx_rest_def used_elem_def Let_def
    using m1 by (simp add: s1(1) s2(1) t(1) nt assms(2))
  moreover have "uart_emits s (rx_head (ld16 (mem s) (used_idx ?r))) t"
    using e m1 by (simp add: rx_head_def)
  ultimately show ?thesis using t(3) by blast
qed

lemma rx_rest_valid:
  assumes ok: "rx_ok s h" and resp: "rx_respected s" and live: "uart_live s"
    and e: "used_elem s = (e, n)" "e < 256"
  defines "frame \<equiv> buffers (queue s VIRTIO_NET_RX_QUEUE) + of_nat (2048 * unat e) + sizeof_virtio_net_hdr"
  shows "\<exists>s'. rx_rest device L s = Some s' \<and> rx_ok s' (h @ [ucast e]) \<and> rx_respected s' \<and> uart_live s' \<and>
    queue s' VIRTIO_NET_RX_QUEUE = (queue s VIRTIO_NET_RX_QUEUE)\<lparr>last_used_idx := last_used_idx (queue s VIRTIO_NET_RX_QUEUE) + 1\<rparr> \<and>
    mmio_wr s' = mmio_wr s @ [(device + 0x50, 0)] \<and>
    uart_wr s' = uart_wr s @ map (Pair UART_THR) (frame_text (mem s) frame @ rx_tail ((if n > L then L else n) - 12))"
proof -
  let ?q = "queue s VIRTIO_NET_RX_QUEUE"
  have a: "ld64 (mem s) (desc_addr (ring ?q) (ucast e)) + sizeof_virtio_net_hdr = frame"
  proof -
    have "unat e < 256" using e(2) by (simp add: word_less_nat_alt)
    with ok show ?thesis unfolding frame_def rx_ok_def queue_ok_def descs_ok_def ucast_of_unat by auto
  qed
  obtain t where t: "report_frame frame s = Some t" "uart_emits s (frame_text (mem s) frame) t" "uart_live t"
    using uart.says_total [OF says_report_frame live] by blast
  note nt = uart_emits_net [OF t(2)]
  have t': "rx_ok t h" "rx_respected t" using ok resp nt by (simp_all add: rx_ok_def rx_respected_def)
  note rc = rx_recycle_ok [OF t', of device "ucast e"]
  let ?u = "rx_recycle device (ucast e) t"
  let ?n = "(if n > L then L else n) - 12"
  have "uart.says (do { s \<leftarrow> uart_puts (lit ''Received data length: '') ?u; s \<leftarrow> uart_b2x ?n s; s \<leftarrow> uart_putc 10 s;
      uart_puts msg_poll_done s }) ?u (rx_tail ?n)"
    unfolding rx_tail_def by (rule uart.says_bind says_puts says_b2x says_putc says_rx_msgs | simp)+
  from uart.says_total [OF this] rc(6) t(3) obtain s' where s': "do { s \<leftarrow> uart_puts (lit ''Received data length: '') ?u;
      s \<leftarrow> uart_b2x ?n s; s \<leftarrow> uart_putc 10 s; uart_puts msg_poll_done s } = Some s'" "uart_emits ?u (rx_tail ?n) s'" "uart_live s'"
    by blast
  note ns = uart_emits_net [OF s'(2)]
  have "rx_rest device L s = Some s'"
    unfolding rx_rest_def e(1) Let_def prod.case a t(1) using s'(1) by (simp add: sizeof_virtio_net_hdr_def linorder_not_le [THEN iffD2, OF e(2)])
  moreover have "rx_ok s' (h @ [ucast e])" "rx_respected s'" using rc(1,2) ns by (simp_all add: rx_ok_def rx_respected_def)
  moreover have "uart_wr s' = uart_wr s @ map (Pair UART_THR) (frame_text (mem s) frame @ rx_tail ?n)"
    using s'(2) t(2) rc(5) by (auto simp: uart_emits_def)
  ultimately show ?thesis using s'(3) rc(3,4) ns nt by (intro exI [of _ s']) simp
qed


lemma rx_handle_effect:
  assumes ok: "rx_ok s h" and resp: "rx_respected s" and live: "uart_live s" and e: "used_elem s = (e, n)"
  defines "q \<equiv> queue s VIRTIO_NET_RX_QUEUE"
  shows "\<exists>s'. rx_handle device L s = Some s' \<and>
    (e < 256 \<longrightarrow> rx_ok s' (h @ [ucast e]) \<and> rx_respected s' \<and>
       queue s' VIRTIO_NET_RX_QUEUE = q\<lparr>last_used_idx := last_used_idx q + 1\<rparr> \<and>
       mmio_wr s' = mmio_wr s @ [(device + 0x50, 0)] \<and>
       uart_wr s' = uart_wr s @ map (Pair UART_THR) (rx_head (ld16 (mem s) (used_idx (ring q))) @
         frame_text (mem s) (buffers q + of_nat (2048 * unat e) + sizeof_virtio_net_hdr) @
         rx_tail ((if n > L then L else n) - 12))) \<and>
    (\<not> e < 256 \<longrightarrow> uart_emits s (rx_head (ld16 (mem s) (used_idx (ring q))) @ msg_bad_desc) s')"
proof -
  have sz: "qsize q = 256" using ok by (simp add: rx_ok_def queue_ok_def q_def)
  obtain t where t: "uart_emits s (rx_head (ld16 (mem s) (used_idx (ring q)))) t" "uart_live t"
    "rx_handle device L s = rx_rest device L t"
    using rx_handle_head [OF live sz [unfolded q_def]] unfolding q_def by blast
  note nt = uart_emits_net [OF t(1)]
  have t': "rx_ok t h" "rx_respected t" "used_elem t = (e, n)" "queue t VIRTIO_NET_RX_QUEUE = q"
    using ok resp e nt by (simp_all add: rx_ok_def rx_respected_def used_elem_def q_def)
  show ?thesis
  proof (cases "e < 256")
    case True
    have wr: "uart_wr t = uart_wr s @ map (Pair UART_THR) (rx_head (ld16 (mem s) (used_idx (ring q))))"
      using t(1) by (auto simp: uart_emits_def)
    show ?thesis
      using rx_rest_valid [OF t'(1,2) t(2) t'(3) True, of device L] True nt wr unfolding t(3) t'(4) by auto
  next
    case False
    obtain s' where "uart_puts msg_bad_desc t = Some s'" "uart_emits t msg_bad_desc s'"
      using uart.says_total [OF says_rx_msgs(1) t(2)] by blast
    with False uart.emits_trans [OF t(1)] show ?thesis
      unfolding t(3) rx_rest_def t'(3) by auto
  qed
qed

section \<open>The receive poll\<close>

lemma poll_rx_unfold:
  assumes "uart_live s"
  obtains s1 where "uart_emits s msg_polling s1" "uart_live s1"
    "virt_mmio_net_poll_rx device buffer L s = Option.bind (wait_used VIRTIO_NET_RX_QUEUE s1) (rx_handle device L)"
  using uart.says_total [OF says_rx_msgs(3) assms] by (auto simp: virt_mmio_net_poll_rx_def)

lemma barriers_emits:
  assumes "uart_emits s cs t"
  shows "uart_emits ((mem_barrier ^^ k) s) cs ((mem_barrier ^^ k) t)"
  using assms
proof (induction k arbitrary: s t)
  case (Suc k)
  obtain j where t: "t = s\<lparr>uart_rd := j, uart_wr := uart_wr s @ map (Pair UART_THR) cs\<rparr>"
    using Suc.prems by (auto simp: uart_emits_def)
  have "mem_barrier t = (mem_barrier s)\<lparr>uart_rd := j, uart_wr := uart_wr s @ map (Pair UART_THR) cs\<rparr>"
    unfolding t mem_barrier_def by (cases s) simp
  then have "uart_emits (mem_barrier s) cs (mem_barrier t)"
    unfolding uart_emits_def by (intro exI [of _ j]) (simp add: mem_barrier_def)
  from Suc.IH [OF this] show ?case by (simp add: funpow_swap1)
qed simp

lemma poll_rx_start:
  assumes ok: "rx_ok s h" and resp: "rx_respected s" and live: "uart_live s"
  obtains s1 where
    "virt_mmio_net_poll_rx device buffer L s = Option.bind (wait_used VIRTIO_NET_RX_QUEUE s1) (rx_handle device L)"
    "\<And>k. uart_emits ((mem_barrier ^^ k) s) msg_polling ((mem_barrier ^^ k) s1)"
    "\<And>k. moved VIRTIO_NET_RX_QUEUE ((mem_barrier ^^ k) s1) = moved VIRTIO_NET_RX_QUEUE ((mem_barrier ^^ k) s)"
    "\<And>k. rx_ok ((mem_barrier ^^ k) s1) h" "\<And>k. rx_respected ((mem_barrier ^^ k) s1)"
    "\<And>k. uart_live ((mem_barrier ^^ k) s1)"
proof -
  obtain s1 where s1: "uart_emits s msg_polling s1" "uart_live s1"
    "virt_mmio_net_poll_rx device buffer L s = Option.bind (wait_used VIRTIO_NET_RX_QUEUE s1) (rx_handle device L)"
    using poll_rx_unfold [OF live] by blast
  have e: "uart_emits ((mem_barrier ^^ k) s) msg_polling ((mem_barrier ^^ k) s1)" for k by (rule barriers_emits [OF s1(1)])
  have s1': "rx_ok s1 h" "rx_respected s1"
    using ok resp uart_emits_net [OF s1(1)] by (simp_all add: rx_ok_def rx_respected_def)
  show thesis
  proof (rule that [OF s1(3) e])
    show "moved VIRTIO_NET_RX_QUEUE ((mem_barrier ^^ k) s1) = moved VIRTIO_NET_RX_QUEUE ((mem_barrier ^^ k) s)" for k
      using uart_emits_net [OF e [of k]] by (simp add: moved_def)
  qed (use rx_barriers [OF s1'(2)] s1'(1) s1(2) barriers_frame(5) in blast)+
qed

lemma poll_rx_at:
  assumes ok: "rx_ok s h" and resp: "rx_respected s" and live: "uart_live s"
    and t: "t = (mem_barrier ^^ Suc k) s" "moved VIRTIO_NET_RX_QUEUE t"
      "\<forall>j<k. \<not> moved VIRTIO_NET_RX_QUEUE ((mem_barrier ^^ Suc j) s)"
    and el: "used_elem t = (e, n)"
  defines "q \<equiv> queue s VIRTIO_NET_RX_QUEUE"
  defines "head \<equiv> rx_head (ld16 (mem t) (used_idx (ring q)))"
  shows "\<exists>s'. virt_mmio_net_poll_rx device buffer L s = Some s' \<and>
    (e < 256 \<longrightarrow> rx_ok s' (h @ [ucast e]) \<and> rx_respected s' \<and>
       queue s' VIRTIO_NET_RX_QUEUE = q\<lparr>last_used_idx := last_used_idx q + 1\<rparr> \<and>
       mmio_wr s' = mmio_wr s @ [(device + 0x50, 0)] \<and>
       uart_wr s' = uart_wr s @ map (Pair UART_THR) (msg_polling @ head @
         frame_text (mem t) (buffers q + of_nat (2048 * unat e) + sizeof_virtio_net_hdr) @
         rx_tail ((if n > L then L else n) - 12))) \<and>
    (\<not> e < 256 \<longrightarrow> uart_emits t (msg_polling @ head @ msg_bad_desc) s')"
proof -
  obtain s1 where s1:
    "virt_mmio_net_poll_rx device buffer L s = Option.bind (wait_used VIRTIO_NET_RX_QUEUE s1) (rx_handle device L)"
    "\<And>k. uart_emits ((mem_barrier ^^ k) s) msg_polling ((mem_barrier ^^ k) s1)"
    "\<And>k. moved VIRTIO_NET_RX_QUEUE ((mem_barrier ^^ k) s1) = moved VIRTIO_NET_RX_QUEUE ((mem_barrier ^^ k) s)"
    "\<And>k. rx_ok ((mem_barrier ^^ k) s1) h" "\<And>k. rx_respected ((mem_barrier ^^ k) s1)"
    "\<And>k. uart_live ((mem_barrier ^^ k) s1)"
    using poll_rx_start [OF ok resp live, of device buffer L] by blast
  define t1 where "t1 = (mem_barrier ^^ Suc k) s1"
  have run: "virt_mmio_net_poll_rx device buffer L s = rx_handle device L t1"
    unfolding s1(1) t1_def using wait_used_finds [of k VIRTIO_NET_RX_QUEUE s1] t(2,3)
    by (simp add: s1(3) t(1) del: funpow.simps)
  have e: "uart_emits t msg_polling t1" unfolding t(1) t1_def by (rule s1(2))
  note ne = uart_emits_net [OF e]
  have f: "queue t1 = queue s" "mem t1 = mem t" "mmio_wr t1 = mmio_wr s" "uart_wr t = uart_wr s"
    using ne by (simp_all only: t(1) barriers_frame)
  then have wr: "uart_wr t1 = uart_wr s @ map (Pair UART_THR) msg_polling" using e by (auto simp: uart_emits_def)
  have "used_elem t1 = (e, n)" using el ne unfolding used_elem_def by (simp only: )
  note eff = rx_handle_effect [OF s1(4) s1(5) s1(6), of "Suc k", folded t1_def, OF this, of device L, unfolded f wr]
  from eff obtain s' where "rx_handle device L t1 = Some s'" by blast
  with eff e show ?thesis
    unfolding run head_def q_def by (auto intro: uart.emits_trans)
qed

lemma poll_rx_returns:
  assumes ok: "rx_ok s h" and resp: "rx_respected s" and live: "uart_live s"
  shows "(\<exists>s'. virt_mmio_net_poll_rx device buffer L s = Some s') \<longleftrightarrow>
    (\<exists>k. moved VIRTIO_NET_RX_QUEUE ((mem_barrier ^^ Suc k) s))"
proof -
  let ?i = VIRTIO_NET_RX_QUEUE
  obtain s1 where s1:
    "virt_mmio_net_poll_rx device buffer L s = Option.bind (wait_used ?i s1) (rx_handle device L)"
    "\<And>k. uart_emits ((mem_barrier ^^ k) s) msg_polling ((mem_barrier ^^ k) s1)"
    "\<And>k. moved ?i ((mem_barrier ^^ k) s1) = moved ?i ((mem_barrier ^^ k) s)"
    "\<And>k. rx_ok ((mem_barrier ^^ k) s1) h" "\<And>k. rx_respected ((mem_barrier ^^ k) s1)"
    "\<And>k. uart_live ((mem_barrier ^^ k) s1)"
    using poll_rx_start [OF ok resp live, of device buffer L] by blast
  have go: "\<exists>s'. rx_handle device L ((mem_barrier ^^ k) s1) = Some s'" for k
    using rx_handle_effect [OF s1(4-6)] by (metis surj_pair)
  have "(\<exists>s'. virt_mmio_net_poll_rx device buffer L s = Some s') \<longleftrightarrow> (\<exists>t. wait_used ?i s1 = Some t)"
    unfolding s1(1) using go wait_used_Some by (auto simp: bind_eq_Some_conv simp del: funpow.simps) blast
  then show ?thesis
    unfolding wait_used_returns_iff s1(3) .
qed

text \<open>
  C7. The receive poll. \<open>virt_mmio_net_poll_rx\<close> returns exactly when the device at some time shows a used
  index other than the last one seen; until then it waits, printing nothing. \<open>t\<close> being the state in
  which it first does: when the used element names one of the 256 descriptors, the poll prints the
  report on the frame in that descriptor's buffer, appends the descriptor to what is offered to the
  device, moves the last index seen by one and notifies the device once, and the queue stays
  well-formed; when it names none, the poll prints so and returns with the queue as it was, so that
  the next poll meets the same element.
\<close>

theorem poll_rx_correct:
  assumes ok: "rx_ok s h" and resp: "rx_respected s" and live: "uart_live s"
  shows "((\<exists>s'. virt_mmio_net_poll_rx device buffer L s = Some s') \<longleftrightarrow>
      (\<exists>k. moved VIRTIO_NET_RX_QUEUE ((mem_barrier ^^ Suc k) s))) \<and>
    (\<forall>k e n. moved VIRTIO_NET_RX_QUEUE ((mem_barrier ^^ Suc k) s) \<longrightarrow>
      (\<forall>j<k. \<not> moved VIRTIO_NET_RX_QUEUE ((mem_barrier ^^ Suc j) s)) \<longrightarrow>
      used_elem ((mem_barrier ^^ Suc k) s) = (e, n) \<longrightarrow>
      (let t = (mem_barrier ^^ Suc k) s; q = queue s VIRTIO_NET_RX_QUEUE;
           head = msg_polling @ rx_head (ld16 (mem t) (used_idx (ring q)));
           frame = buffers q + of_nat (2048 * unat e) + sizeof_virtio_net_hdr in
       \<exists>s'. virt_mmio_net_poll_rx device buffer L s = Some s' \<and>
         (e < 256 \<longrightarrow> rx_ok s' (h @ [ucast e]) \<and> rx_respected s' \<and>
            queue s' VIRTIO_NET_RX_QUEUE = q\<lparr>last_used_idx := last_used_idx q + 1\<rparr> \<and>
            mmio_wr s' = mmio_wr s @ [(device + 0x50, 0)] \<and>
            uart_wr s' = uart_wr s @ map (Pair UART_THR)
              (head @ frame_text (mem t) frame @ rx_tail ((if n > L then L else n) - 12))) \<and>
         (\<not> e < 256 \<longrightarrow> uart_emits t (head @ msg_bad_desc) s')))"
proof (intro conjI allI impI)
  show "(\<exists>s'. virt_mmio_net_poll_rx device buffer L s = Some s') \<longleftrightarrow> (\<exists>k. moved VIRTIO_NET_RX_QUEUE ((mem_barrier ^^ Suc k) s))"
    by (rule poll_rx_returns [OF ok resp live])
qed (unfold Let_def append_assoc, rule poll_rx_at [OF ok resp live refl], assumption+)

text \<open>A receive queue whose device reports descriptor 0 at once.\<close>

definition rx_demo :: net where
  "rx_demo = demo_net\<lparr>net_queues := [empty_queue\<lparr>ring := 0x80100000, buffers := 0x80200000, qsize := 256\<rparr>, empty_queue],
     dma_in := \<lambda>w n m. st16 m (used_idx 0x80100000) 1,
     mem := init_desc_loop 0x80100000 0x80200000 2 256 0 (mem_zero 0x80200000 (QUEUE_BUF_SIZE * of_nat DESC_QUEUE_SIZE)
       (mem_zero 0x80100000 sizeof_virtq (mem demo_net)))\<rparr>"

lemma rx_demo_facts:
  "queue rx_demo VIRTIO_NET_RX_QUEUE = empty_queue\<lparr>ring := 0x80100000, buffers := 0x80200000, qsize := 256\<rparr>"
  "rx_ok rx_demo []" "rx_respected rx_demo" "uart_live rx_demo" "mmio_wr rx_demo = []"
  "moved VIRTIO_NET_RX_QUEUE (mem_barrier rx_demo)" "used_elem (mem_barrier rx_demo) = (0, 0)"
proof -
  show q: "queue rx_demo VIRTIO_NET_RX_QUEUE = empty_queue\<lparr>ring := 0x80100000, buffers := 0x80200000, qsize := 256\<rparr>"
    by (simp add: rx_demo_def queue_def VIRTIO_NET_RX_QUEUE_def)
  have "rng_disj 0x80100000 6664 0x80200000 524288" by (rule rng_disjI) simp_all
  note f = fresh_queueI(1) [OF this, where f = 2 and m = "mem demo_net"]
  have "length (net_queues rx_demo) = VIRTIO_NET_QUEUE_COUNT" by (simp add: rx_demo_def VIRTIO_NET_QUEUE_COUNT_def)
  moreover have "queue_ok (queue rx_demo VIRTIO_NET_RX_QUEUE) (mem rx_demo) []"
    unfolding q by (rule fresh_queue_ok) (use f in \<open>simp_all add: rx_demo_def empty_queue_def\<close>)
  ultimately show "rx_ok rx_demo []" by (simp add: rx_ok_def)
  have dma: "dma_in rx_demo w n m = st16 m (used_idx 0x80100000) 1" for w n m by (simp add: rx_demo_def)
  have "st16 m (used_idx 0x80100000) 1 x = m x" if "in_rng 0x80100000 4612 x" for m x
  proof (rule st16_outside, unfold ring_offsets, rule notI)
    assume "in_rng (0x80100000 + of_nat 4614) 2 x"
    from in_rng_off [OF _ this] that show False by (simp add: in_rng_def)
  qed
  then show "rx_respected rx_demo"
    unfolding rx_respected_def q dma by (simp add: agree_def owned_def empty_queue_def)
  show "uart_live rx_demo" by (auto simp: rx_demo_def demo_net_defs uart_live_def LSR_TX_IDLE_def)
  show "mmio_wr rx_demo = []" by (simp add: rx_demo_def demo_net_defs)
  show "moved VIRTIO_NET_RX_QUEUE (mem_barrier rx_demo)" by (simp add: moved_def q dma empty_queue_def)
  have z: "mem rx_demo x = 0" if "in_rng (0x80100000 + of_nat 4096) 2568 x" for x
    using f that by (simp add: fresh_queue_def rx_demo_def)
  have "ld32 (st16 (mem rx_demo) (0x80100000 + of_nat 4614) 1) (0x80100000 + of_nat (4616 + c)) = 0" if "c \<le> 4" for c
  proof -
    have "rng_disj (0x80100000 + of_nat (4616 + c)) 4 (0x80100000 + of_nat 4614) 2" by (rule rng_disj_off) (use that in simp_all)
    note ld_st_disj(6) [OF this]
    moreover have "ld32 (mem rx_demo) (0x80100000 + of_nat (4616 + c)) = ld32 (\<lambda>_. 0) (0x80100000 + of_nat (4616 + c))"
    proof (rule ld32_cong, rule z)
      fix x
      assume "in_rng (0x80100000 + of_nat (4616 + c)) 4 x"
      then have "in_rng (0x80100000 + of_nat 4096 + of_nat (520 + c)) 4 x" by (simp add: add.assoc)
      from in_rng_off [OF _ this] that show "in_rng (0x80100000 + of_nat 4096) 2568 x" by (simp add: in_rng_def)
    qed
    ultimately show ?thesis by (simp add: ld32_def ld_le_zero del: ld_le.simps)
  qed
  from this [of 0] this [of 4] show "used_elem (mem_barrier rx_demo) = (0, 0)"
    by (simp add: used_elem_def q dma empty_queue_def used_id_def used_len_def used_idx_def)
qed

theorem poll_rx_correct_witness:
  "\<exists>s'. virt_mmio_net_poll_rx 0x10001000 0 2048 rx_demo = Some s' \<and> rx_ok s' [0] \<and>
     last_used_idx (queue s' VIRTIO_NET_RX_QUEUE) = 1 \<and> mmio_wr s' = [(0x10001050, 0)]"
  using poll_rx_correct [OF rx_demo_facts(2-4), of "0x10001000" 0 2048, THEN conjunct2, rule_format, of 0 0 0]
    rx_demo_facts by (auto simp: Let_def empty_queue_def)

end
