(* ===== verification/Virtio_Tx.thy ===== *)
theory Virtio_Tx
  imports Virtio_Send Virtio_Recv
begin

text \<open>
  Correctness of \<open>virt_mmio_net_tx\<close>: the packet is built inside its block, and the function returns
  exactly when the device completes something.
\<close>

section \<open>Sending always returns\<close>

lemma send_returns:
  assumes "uart_live s"
  obtains s' where "virt_mmio_net_send device data len s = Some s'" "uart_live s'"
proof -
  obtain s1 where s1: "uart_puts msg_sending s = Some s1" "uart_live s1"
    using uart.says_total [OF says_msgs(1) assms] by blast
  obtain a b where "uart_puts msg_too_long s1 = Some a" "uart_live a" "uart_puts msg_no_desc s1 = Some b" "uart_live b"
    using uart.says_total [OF says_msgs(2) s1(2)] uart.says_total [OF says_msgs(3) s1(2)] by blast
  with s1 have "\<exists>s'. virt_mmio_net_send device data len s = Some s' \<and> uart_live s'"
    unfolding virt_mmio_net_send_def Let_def
    by (auto simp: virt_mmio_write_def mem_barrier_def set_queue_def uart_live_def)
  with that show thesis by blast
qed

lemma says_tx_msgs: "uart.says (uart_puts msg_tx_alloc s) s msg_tx_alloc" "uart.says (uart_puts msg_tx_wait s) s msg_tx_wait"
  "uart.says (uart_puts msg_tx_done s) s msg_tx_done"
  unfolding msg_tx_alloc_def msg_tx_wait_def msg_tx_done_def by (rule says_puts, simp)+

section \<open>The packet\<close>

lemma in_rng_outside: "\<not> in_rng a n x \<Longrightarrow> i < n \<Longrightarrow> n \<le> 2 ^ 64 \<Longrightarrow> x \<noteq> a + of_nat i"
  using in_rng_offset by blast

lemma virtio_hdr_outside: "\<not> in_rng p 12 x \<Longrightarrow> build_virtio_net_hdr p a b c d e f m x = m x"
proof -
  assume "\<not> in_rng p 12 x"
  note n = in_rng_outside [OF this]
  show ?thesis
    using n [of 0] n [of 1] n [of 2] n [of 3] n [of 4] n [of 5] n [of 6] n [of 7] n [of 8] n [of 9]
    unfolding build_virtio_net_hdr_def Let_def vnet_flags_def vnet_gso_type_def vnet_hdr_len_def vnet_gso_size_def
      vnet_csum_start_def vnet_csum_offset_def st16_bytes by (simp add: add.assoc)
qed

lemma arp_response_outside: "\<not> in_rng p 28 x \<Longrightarrow> build_arp_response p a b c d m x = m x"
proof -
  assume "\<not> in_rng p 28 x"
  note n = in_rng_outside [OF this]
  show ?thesis
    using n [of 0] n [of 1] n [of 2] n [of 3] n [of 4] n [of 5] n [of 6] n [of 7] n [of 8] n [of 9] n [of 10] n [of 11]
      n [of 12] n [of 13] n [of 14] n [of 15] n [of 16] n [of 17] n [of 18] n [of 19] n [of 20] n [of 21] n [of 22]
      n [of 23] n [of 24] n [of 25] n [of 26] n [of 27]
    unfolding build_arp_response_def Let_def packet_offsets copy_macs_bytes st16_bytes st32_bytes by (simp add: add.assoc)
qed

lemma build_packet_outside:
  assumes x: "\<not> in_rng p (54 + unat len) x"
  shows "build_packet p data len m x = m x"
proof -
  have out: "\<not> in_rng (p + of_nat a) n x" if "a + n \<le> 54 + unat len" for a n
  proof
    assume "in_rng (p + of_nat a) n x"
    from in_rng_off [OF _ this] that x show False using unat_lt_32 [of len] by (simp add: in_rng_def)
  qed
  have l: "unat (ucast (ucast len :: u16) :: u32) \<le> unat len" by (simp add: unat_ucast_mod)
  have "\<not> in_rng p 12 x" "\<not> in_rng (p + 12) 14 x" "\<not> in_rng (p + 26) (unat (ucast (ucast len :: u16) :: u32)) x"
    "\<not> in_rng (p + 26) 28 x" "\<not> in_rng (p + 54) (unat len) x"
    using out [of 0 12] out [of 12 14] out [of 26 "unat (ucast (ucast len :: u16) :: u32)"] out [of 26 28]
      out [of 54 "unat len"] l by simp_all
  then show ?thesis
    unfolding build_packet_def Let_def build_eth_frame_def eth_header_def [symmetric]
    by (simp add: mem_copy_outside arp_response_outside eth_header_outside virtio_hdr_outside
        sizeof_virtio_net_hdr_def sizeof_eth_hdr_def sizeof_arp_hdr_def add.assoc)
qed

lemma mem_alloc_null: "alloc_inv s \<Longrightarrow> mem_alloc sz s = Some (0, s1) \<Longrightarrow> s1 = s"
  unfolding alloc_inv_def using mem_alloc_cases [of s _ sz] by (metis Pair_inject option.inject)

lemma moved_emits: "uart_emits s cs t \<Longrightarrow> moved i ((mem_barrier ^^ k) t) = moved i ((mem_barrier ^^ k) s)"
  using uart_emits_net [OF barriers_emits, of s cs t k] by (simp add: moved_def)

lemma tx_run:
  assumes al: "mem_alloc (packet_size len) s = Some (p, s1)" "p \<noteq> 0" and live: "uart_live s1"
  obtains s2 s3 where "virt_mmio_net_send device data len (s1\<lparr>mem := build_packet p data len (mem s1)\<rparr>) = Some s2"
    "uart_emits s2 msg_tx_wait s3" "uart_live s3"
    "virt_mmio_net_tx device data len s = do {
       t \<leftarrow> wait_used VIRTIO_NET_TX_QUEUE s3; t \<leftarrow> uart_puts msg_tx_done t; Some (0, tx_complete t) }"
proof -
  have "uart_live (s1\<lparr>mem := build_packet p data len (mem s1)\<rparr>)" using live by simp
  then obtain s2 where s2: "virt_mmio_net_send device data len (s1\<lparr>mem := build_packet p data len (mem s1)\<rparr>) = Some s2" "uart_live s2"
    by (rule send_returns)
  obtain s3 where s3: "uart_puts msg_tx_wait s2 = Some s3" "uart_emits s2 msg_tx_wait s3" "uart_live s3"
    using uart.says_total [OF says_tx_msgs(2) s2(2)] by blast
  show thesis
    by (rule that [OF s2(1) s3(2,3)])
      (simp add: virt_mmio_net_tx_def al s2(1) s3(1))
qed

lemma send_queues:
  assumes "virt_mmio_net_send device data len s = Some s'"
  shows "length (net_queues s') = length (net_queues s)"
proof -
  obtain s1 where s1: "uart_puts msg_sending s = Some s1"
    using assms by (auto simp: virt_mmio_net_send_def bind_eq_Some_conv)
  then have "length (net_queues s1) = length (net_queues s)" using uart_puts_frame by fastforce
  with assms show ?thesis
    unfolding virt_mmio_net_send_def s1 bind.bind_lunit Let_def
    by (auto simp: virt_mmio_write_def mem_barrier_def set_queue_def split: if_splits dest!: uart_puts_frame)
qed

text \<open>The end of a transmission: the descriptor the device names is free again, and one completion is counted.\<close>

definition released :: "memory \<Rightarrow> virtio_net_queue \<Rightarrow> virtio_net_queue" where
  "released m q =
     (let uid = ld32 m (used_id (ring q) (ucast (last_used_idx q mod qsize q)))
      in q\<lparr>in_use := (if uid < ucast (qsize q) then (in_use q)[unat uid := 0] else in_use q),
           last_used_idx := last_used_idx q + 1\<rparr>)"

lemma tx_complete_effect:
  assumes "length (net_queues s) = VIRTIO_NET_QUEUE_COUNT"
  shows "tx_complete s = s\<lparr>net_queues := (net_queues s)[VIRTIO_NET_TX_QUEUE := released (mem s) (queue s VIRTIO_NET_TX_QUEUE)]\<rparr>"
  using assms by (auto simp: tx_complete_def released_def Let_def set_queue_def queue_def VIRTIO_NET_QUEUE_COUNT_def VIRTIO_NET_TX_QUEUE_def)

text \<open>
  C31. \<open>virt_mmio_net_tx\<close>: without memory for the packet it returns -1 after a message and nothing else has
  changed. Otherwise it calls \<open>virt_mmio_net_send\<close>, which returns, and then returns exactly when the
  device at some time shows a transmit index other than the last one seen, whether or not anything
  was sent; it returns 0. Compared with the state in which the index had moved, it has then printed two messages and
  updated the transmit queue, and changed nothing else: the \<open>in_use\<close> mark of the descriptor that the device
  names in the next used element is cleared, if it is a descriptor at all, and one completion is counted.
\<close>

theorem tx_completes:
  assumes inv: "alloc_inv s" and live: "uart_live s" and two: "length (net_queues s) = VIRTIO_NET_QUEUE_COUNT"
    and al: "mem_alloc (packet_size len) s = Some (p, s1)"
  shows "(p = 0 \<longrightarrow> (\<exists>s'. virt_mmio_net_tx device data len s = Some (- 1, s') \<and> uart_emits s msg_tx_alloc s')) \<and>
    (p \<noteq> 0 \<longrightarrow> (\<exists>s2. virt_mmio_net_send device data len (s1\<lparr>mem := build_packet p data len (mem s1)\<rparr>) = Some s2 \<and>
       ((\<exists>r. virt_mmio_net_tx device data len s = Some r) \<longleftrightarrow> (\<exists>k. moved VIRTIO_NET_TX_QUEUE ((mem_barrier ^^ Suc k) s2))) \<and>
       (\<forall>k t. t = (mem_barrier ^^ Suc k) s2 \<and> moved VIRTIO_NET_TX_QUEUE t \<and>
            (\<forall>j<k. \<not> moved VIRTIO_NET_TX_QUEUE ((mem_barrier ^^ Suc j) s2)) \<longrightarrow>
         (\<exists>n. virt_mmio_net_tx device data len s = Some (0, t\<lparr>uart_rd := n,
            uart_wr := uart_wr t @ map (Pair UART_THR) (msg_tx_wait @ msg_tx_done),
            net_queues := (net_queues t)[1 := released (mem t) (net_queues t ! 1)]\<rparr>)))))"
proof (intro conjI impI)
  assume p: "p = 0"
  then have "s1 = s" using mem_alloc_null [OF inv] al by simp
  then show "\<exists>s'. virt_mmio_net_tx device data len s = Some (- 1, s') \<and> uart_emits s msg_tx_alloc s'"
    using uart.says_total [OF says_tx_msgs(1) live] al p
    by (auto simp: virt_mmio_net_tx_def)
next
  assume p: "p \<noteq> 0"
  have "uart_live s1" using mem_alloc_frame [OF inv al] live by (metis uart_live_frame(4))
  then obtain s2 s3 where r: "virt_mmio_net_send device data len (s1\<lparr>mem := build_packet p data len (mem s1)\<rparr>) = Some s2"
    "uart_emits s2 msg_tx_wait s3" "uart_live s3"
    "virt_mmio_net_tx device data len s = do {
       t \<leftarrow> wait_used VIRTIO_NET_TX_QUEUE s3; t \<leftarrow> uart_puts msg_tx_done t; Some (0, tx_complete t) }"
    by (rule tx_run [OF al p])
  have len2: "length (net_queues s2) = VIRTIO_NET_QUEUE_COUNT"
    by (rule mem_alloc_frame [OF inv al]) (use send_queues [OF r(1)] two in simp)
  have fin: "\<exists>t'. uart_puts msg_tx_done ((mem_barrier ^^ k) s3) = Some t' \<and> uart_emits ((mem_barrier ^^ k) s3) msg_tx_done t'" for k
    using uart.says_total [OF says_tx_msgs(3)] r(3) barriers_frame(5) by blast
  have "(\<exists>r. virt_mmio_net_tx device data len s = Some r) \<longleftrightarrow> (\<exists>t. wait_used VIRTIO_NET_TX_QUEUE s3 = Some t)"
    unfolding r(4) using fin wait_used_Some by (auto simp: bind_eq_Some_conv simp del: funpow.simps) blast
  then have iff: "(\<exists>r. virt_mmio_net_tx device data len s = Some r) \<longleftrightarrow>
      (\<exists>k. moved VIRTIO_NET_TX_QUEUE ((mem_barrier ^^ Suc k) s2))"
    unfolding wait_used_returns_iff moved_emits [OF r(2)] .
  have "\<exists>n. virt_mmio_net_tx device data len s = Some (0, t\<lparr>uart_rd := n,
            uart_wr := uart_wr t @ map (Pair UART_THR) (msg_tx_wait @ msg_tx_done),
            net_queues := (net_queues t)[1 := released (mem t) (net_queues t ! 1)]\<rparr>)"
    if t: "t = (mem_barrier ^^ Suc k) s2" "moved VIRTIO_NET_TX_QUEUE t"
      "\<forall>j<k. \<not> moved VIRTIO_NET_TX_QUEUE ((mem_barrier ^^ Suc j) s2)" for k t
  proof -
    have w: "wait_used VIRTIO_NET_TX_QUEUE s3 = Some ((mem_barrier ^^ Suc k) s3)"
      by (rule wait_used_finds) (use t moved_emits [OF r(2)] in blast)+
    obtain u where u: "uart_puts msg_tx_done ((mem_barrier ^^ Suc k) s3) = Some u"
      "uart_emits ((mem_barrier ^^ Suc k) s3) msg_tx_done u" using fin by blast
    have "virt_mmio_net_tx device data len s = Some (0, tx_complete u)"
      unfolding r(4) w using u(1) by (simp del: funpow.simps)
    moreover from uart.emits_trans [OF barriers_emits [OF r(2)] u(2)]
    obtain n where n: "u = t\<lparr>uart_rd := n, uart_wr := uart_wr t @ map (Pair UART_THR) (msg_tx_wait @ msg_tx_done)\<rparr>"
      unfolding t(1) uart_emits_def by blast
    moreover have "length (net_queues t) = VIRTIO_NET_QUEUE_COUNT" unfolding t(1) by (simp only: barriers_frame len2)
    ultimately show ?thesis by (intro exI [of _ n]) (simp add: tx_complete_effect queue_def VIRTIO_NET_TX_QUEUE_def)
  qed
  then have "\<forall>k t. t = (mem_barrier ^^ Suc k) s2 \<and> moved VIRTIO_NET_TX_QUEUE t \<and>
            (\<forall>j<k. \<not> moved VIRTIO_NET_TX_QUEUE ((mem_barrier ^^ Suc j) s2)) \<longrightarrow>
         (\<exists>n. virt_mmio_net_tx device data len s = Some (0, t\<lparr>uart_rd := n,
            uart_wr := uart_wr t @ map (Pair UART_THR) (msg_tx_wait @ msg_tx_done),
            net_queues := (net_queues t)[1 := released (mem t) (net_queues t ! 1)]\<rparr>))" by blast
  with r(1) iff
  show "\<exists>s2. virt_mmio_net_send device data len (s1\<lparr>mem := build_packet p data len (mem s1)\<rparr>) = Some s2 \<and>
       ((\<exists>r. virt_mmio_net_tx device data len s = Some r) \<longleftrightarrow> (\<exists>k. moved VIRTIO_NET_TX_QUEUE ((mem_barrier ^^ Suc k) s2))) \<and>
       (\<forall>k t. t = (mem_barrier ^^ Suc k) s2 \<and> moved VIRTIO_NET_TX_QUEUE t \<and>
            (\<forall>j<k. \<not> moved VIRTIO_NET_TX_QUEUE ((mem_barrier ^^ Suc j) s2)) \<longrightarrow>
         (\<exists>n. virt_mmio_net_tx device data len s = Some (0, t\<lparr>uart_rd := n,
            uart_wr := uart_wr t @ map (Pair UART_THR) (msg_tx_wait @ msg_tx_done),
            net_queues := (net_queues t)[1 := released (mem t) (net_queues t ! 1)]\<rparr>)))"
    by blast
qed


lemma barriers_idle: "dma_idle s \<Longrightarrow> mem ((mem_barrier ^^ k) s) = mem s"
proof (induction k)
  case (Suc k)
  have "mem ((mem_barrier ^^ Suc k) s) = dma_in s (mmio_wr s) (dma_rd ((mem_barrier ^^ k) s)) (mem ((mem_barrier ^^ k) s))"
    by (simp only: funpow.simps comp_apply set_queue_simps barriers_frame)
  with Suc show ?case by (simp add: dma_idle_def del: funpow.simps)
qed simp

text \<open>
  C39. Data longer than a queue buffer: \<open>virt_mmio_net_send\<close> refuses them, \<open>virt_mmio_net_tx\<close> is not told and
  waits for a completion of something it never published. With a device that writes nothing and
  whose transmit index is the last one seen, it does not return.
\<close>

theorem tx_oversize_hangs:
  assumes inv: "alloc_inv s" and live: "uart_live s" and al: "mem_alloc (packet_size len) s = Some (p, s1)" "p \<noteq> 0"
    and long: "QUEUE_BUF_SIZE < len" and idle: "dma_idle s"
    and still: "\<not> moved VIRTIO_NET_TX_QUEUE (s1\<lparr>mem := build_packet p data len (mem s1)\<rparr>)"
  shows "virt_mmio_net_tx device data len s = None"
proof -
  obtain m h c where s1: "s1 = s\<lparr>mem := m, free_list := h, free_page_count := c\<rparr>"
    by (rule mem_alloc_frame [OF inv al(1)])
  let ?t = "s1\<lparr>mem := build_packet p data len (mem s1)\<rparr>"
  have live1: "uart_live s1" using live s1 by simp
  obtain s2 s3 where r: "virt_mmio_net_send device data len ?t = Some s2" "uart_emits s2 msg_tx_wait s3"
    "virt_mmio_net_tx device data len s = do {
       t \<leftarrow> wait_used VIRTIO_NET_TX_QUEUE s3; t \<leftarrow> uart_puts msg_tx_done t; Some (0, tx_complete t) }"
    by (rule tx_run [OF al live1, of device data])
  have "uart.says (virt_mmio_net_send device data len ?t) ?t (msg_sending @ msg_too_long)"
    unfolding virt_mmio_net_send_def if_P [OF long] by (rule uart.says_bind says_msgs)+
  then have e: "uart_emits ?t (msg_sending @ msg_too_long) s2" using r(1) by (simp add: uart.says_def)
  have "dma_idle ?t" using idle by (simp add: dma_idle_def s1)
  note b = barriers_idle [OF this]
  have "\<not> moved VIRTIO_NET_TX_QUEUE ((mem_barrier ^^ k) ?t)" for k
    using still unfolding moved_def b barriers_frame .
  then have "\<not> (\<exists>t. wait_used VIRTIO_NET_TX_QUEUE s3 = Some t)"
    unfolding wait_used_returns_iff moved_emits [OF r(2)] moved_emits [OF e] by blast
  then have "wait_used VIRTIO_NET_TX_QUEUE s3 = None" by (cases "wait_used VIRTIO_NET_TX_QUEUE s3") auto
  then show ?thesis unfolding r(3) by simp
qed


lemma packet_size_fits:
  assumes fits: "unat len + 54 < 2 ^ 32"
  shows "unat (packet_size len) = unat len + 54"
proof -
  have "unat (ucast len + 28 + 14 + 12 :: u64) = unat len + 54"
    using fits by (simp add: unat_word_ariths unat_ucast_up)
  then show ?thesis
    using fits by (simp add: packet_size_def unat_ucast_mod sizeof_arp_hdr_def sizeof_eth_hdr_def sizeof_virtio_net_hdr_def)
qed

lemma packet_in_block:
  assumes inv: "alloc_inv s" and al: "mem_alloc (packet_size len) s = Some (p, s1)" "p \<noteq> 0"
    and fits: "unat len + 54 < 2 ^ 32"
  shows "\<forall>x. build_packet p data len (mem s1) x \<noteq> mem s1 x \<longrightarrow> covered (free_pages s - free_pages s1) x"
proof -
  obtain xs where xs: "pages_ok s xs" using inv by (auto simp: alloc_inv_def)
  note sz = packet_size_fits [OF fits]
  have "packet_size len \<noteq> 0" using sz by auto
  from xs this show ?thesis
  proof (cases rule: mem_alloc_block)
    case null
    with al show ?thesis by simp
  next
    case (block r m h c ys)
    with al have eq: "r = p" "s1 = s\<lparr>mem := m, free_list := h, free_page_count := c\<rparr>" by auto
    have "54 + unat len \<le> 4096 * npages (packet_size len)"
      using page_round_up [of "unat (packet_size len)"] by (simp add: npages_def sz)
    then have "covered (set xs - set ys) x" if "in_rng p (54 + unat len) x" for x
      using block(5) [of x] that in_rng_mono eq by blast
    then show ?thesis
      using build_packet_outside [of p len _ data "mem s1"] free_pages_eq [OF xs] free_pages_eq [OF block(3)] eq(2) by metis
  qed
qed

text \<open>
  C38. The packet is built inside the block the allocator handed out for it, for every length whose packet
  size fits 32 bits: each byte \<open>build_packet\<close> changes lies in a page that was free before the
  allocation and is not free after it.
\<close>

theorem tx_packet_in_block:
  assumes inv: "alloc_inv s" and al: "mem_alloc (packet_size len) s = Some (p, s1)" "p \<noteq> 0"
    and fits: "unat len + 54 < 2 ^ 32"
  shows "\<forall>x. build_packet p data len (mem s1) x \<noteq> mem s1 x \<longrightarrow> covered (free_pages s - free_pages s1) x"
  by (rule packet_in_block [OF assms])


section \<open>A concrete transmission\<close>

lemma tx_demo_pages: "pages_ok tx_demo [0x80001000, 0x80002000, 0x80003000]"
proof -
  have d: "rng_disj 0x80100000 6664 0x80200000 524288" by (rule rng_disjI) simp_all
  let ?xs = "[0x80001000, 0x80002000, 0x80003000] :: u64 list"
  have far: "\<not> in_rng 0x80100000 6664 y \<and> \<not> in_rng 0x80200000 524288 y" if "p \<in> set ?xs" "in_rng p 8 y" for p y
    using that by (auto simp: in_rng_iff)
  have "pages_ok (demo_net\<lparr>mem := mem tx_demo\<rparr>) ?xs"
  proof (rule pages_ok_write [OF demo_net_facts(1)])
    fix p y
    assume "p \<in> set ?xs" "in_rng p 8 y"
    then show "mem tx_demo y = mem demo_net y"
      using fresh_queueI(2) [OF d, of y 0 "mem demo_net"] far by (simp add: tx_demo_def)
  qed
  then show ?thesis by (simp add: tx_demo_def pages_ok_def heap_ok_def page_ok_def)
qed

lemma tx_demo_alloc:
  assumes "npages (packet_size len) = 1"
  obtains p s1 where "mem_alloc (packet_size len) tx_demo = Some (p, s1)" "p \<noteq> 0"
proof -
  let ?xs = "[0x80001000, 0x80002000, 0x80003000] :: u64 list"
  have "packet_size len \<noteq> 0" using npages_bounds(2) [of "packet_size len"] assms by auto
  with tx_demo_pages show thesis
  proof (cases rule: mem_alloc_block)
    case null
    then have "page_at 0x80001000 0 \<notin> set ?xs" unfolding assms by (metis less_one)
    then show thesis by simp
  qed (use that in blast)
qed


lemma packet_pages: "npages (packet_size 60) = 1" "npages (packet_size 3000) = 1"
  by (simp_all add: npages_def packet_size_def sizeof_arp_hdr_def sizeof_eth_hdr_def sizeof_virtio_net_hdr_def)

theorem tx_packet_in_block_witness:
  "\<exists>p s1. mem_alloc (packet_size 60) tx_demo = Some (p, s1) \<and> p \<noteq> 0 \<and>
    (\<forall>x. build_packet p 0x80000000 60 (mem s1) x \<noteq> mem s1 x \<longrightarrow> covered (free_pages tx_demo - free_pages s1) x)"
proof -
  obtain p s1 where al: "mem_alloc (packet_size 60) tx_demo = Some (p, s1)" "p \<noteq> 0"
    by (rule tx_demo_alloc [OF packet_pages(1)])
  from tx_packet_in_block [OF alloc_invI [OF tx_demo_pages] al, of "0x80000000"] al show ?thesis by auto
qed

theorem tx_completes_witness:
  "\<exists>p s1 s2. mem_alloc (packet_size 60) tx_demo = Some (p, s1) \<and>
    virt_mmio_net_send 0x10001000 0x80000000 60 (s1\<lparr>mem := build_packet p 0x80000000 60 (mem s1)\<rparr>) = Some s2 \<and>
    ((\<exists>r. virt_mmio_net_tx 0x10001000 0x80000000 60 tx_demo = Some r) \<longleftrightarrow>
       (\<exists>k. moved VIRTIO_NET_TX_QUEUE ((mem_barrier ^^ Suc k) s2)))"
proof -
  obtain p s1 where al: "mem_alloc (packet_size 60) tx_demo = Some (p, s1)" "p \<noteq> 0"
    by (rule tx_demo_alloc [OF packet_pages(1)])
  have "length (net_queues tx_demo) = VIRTIO_NET_QUEUE_COUNT" using tx_demo_facts(2) by (simp add: tx_ok_def)
  from tx_completes [OF alloc_invI [OF tx_demo_pages] tx_demo_facts(4) this al(1), of "0x10001000" "0x80000000"] al
  show ?thesis by blast
qed

lemma tx_demo_still:
  assumes al: "mem_alloc (packet_size 3000) tx_demo = Some (p, s1)" "p \<noteq> 0"
  shows "\<not> moved VIRTIO_NET_TX_QUEUE (s1\<lparr>mem := build_packet p 0x80000000 3000 (mem s1)\<rparr>)"
proof -
  let ?xs = "[0x80001000, 0x80002000, 0x80003000] :: u64 list"
  have nz: "packet_size 3000 \<noteq> 0" using npages_bounds(2) [of "packet_size 3000"] packet_pages by auto
  from tx_demo_pages nz show ?thesis
  proof (cases rule: mem_alloc_block)
    case null
    with al show ?thesis by simp
  next
    case (block r m h c ys)
    with al have eq: "r = p" "s1 = tx_demo\<lparr>mem := m, free_list := h, free_page_count := c\<rparr>" by auto
    have same: "build_packet p 0x80000000 3000 m y = mem tx_demo y" if y: "in_rng 0x80101206 2 y" for y
    proof -
      have far: "\<not> covered (set ?xs) y" using y by (auto simp: covered_def in_rng_iff)
      have "\<not> covered (set ?xs - set ys) y" "\<not> covered (set ys) y"
        using far covered_mono [of "set ?xs - set ys" "set ?xs" y] covered_mono [OF block(4), of y] by blast+
      then have "\<not> in_rng p 4096 y" "m y = mem tx_demo y"
        using block(5) [of y] block(6) [of y] eq packet_pages(2) by auto
      with build_packet_outside [of p 3000 y "0x80000000" m] in_rng_mono [of p 3054 y 4096] show ?thesis by auto
    qed
    have "mem tx_demo y = 0" if "in_rng 0x80101206 2 y" for y
    proof -
      have d: "rng_disj 0x80100000 6664 0x80200000 524288" by (rule rng_disjI) simp_all
      have "in_rng (0x80100000 + of_nat 4096) 2568 y" using that by (auto simp: in_rng_iff)
      then show ?thesis
        using fresh_queueI(1) [OF d, of 0 "mem demo_net"] unfolding fresh_queue_def by (simp add: tx_demo_def)
    qed
    with same have "ld16 (build_packet p 0x80000000 3000 m) 0x80101206 = ld16 (\<lambda>_. 0) 0x80101206"
      by (intro ld16_cong) simp
    then have "ld16 (build_packet p 0x80000000 3000 m) 0x80101206 = 0" by (simp add: ld16_bytes)
    moreover have "queue s1 VIRTIO_NET_TX_QUEUE = queue tx_demo VIRTIO_NET_TX_QUEUE" by (simp add: eq queue_def)
    ultimately show ?thesis
      unfolding moved_def using eq by (simp add: queue_def tx_demo_facts [unfolded queue_def] empty_queue_def used_idx_def)
  qed
qed

theorem tx_oversize_hangs_witness: "virt_mmio_net_tx 0x10001000 0x80000000 3000 tx_demo = None"
proof -
  obtain p s1 where al: "mem_alloc (packet_size 3000) tx_demo = Some (p, s1)" "p \<noteq> 0"
    by (rule tx_demo_alloc [OF packet_pages(2)])
  have "QUEUE_BUF_SIZE < 3000" by (simp add: QUEUE_BUF_SIZE_def)
  moreover have "dma_idle tx_demo" by (simp add: dma_idle_def tx_demo_def demo_net_defs)
  ultimately show ?thesis
    using tx_oversize_hangs [OF alloc_invI [OF tx_demo_pages] tx_demo_facts(4) al] tx_demo_still [OF al] by blast
qed

end
