(* ===== verification/Virtio_Dev.thy ===== *)
theory Virtio_Dev
  imports Virtio_Net
begin

text \<open>
  Device discovery and handshake of \<^verbatim>\<open>src/src/driver/virt_mmio.c\<close>: the register report, the feature
  negotiation and queue setup, the MAC address, and the scan of the eight device slots that starts
  the network device. The local array of the scan is given by its address \<open>mac_buf\<close>.
\<close>

section \<open>Constants\<close>

definition VIRTIO_MAGIC :: u32 where "VIRTIO_MAGIC = 0x74726976"
definition QEMU_VENDOR_ID :: u32 where "QEMU_VENDOR_ID = 0x554D4551"

definition VIRTIO_F_VERSION_1 :: u32 where "VIRTIO_F_VERSION_1 = BIT_MASK 0"
definition VIRTIO_NET_F_MAC :: u32 where "VIRTIO_NET_F_MAC = BIT_MASK 15"

definition VIRTIO_MMIO_STATUS :: u32 where "VIRTIO_MMIO_STATUS = 0x070"
definition VIRTIO_MMIO_DEVICE_FEATURES :: u32 where "VIRTIO_MMIO_DEVICE_FEATURES = 0x010"
definition VIRTIO_MMIO_DEVICE_FEATURES_SEL :: u32 where "VIRTIO_MMIO_DEVICE_FEATURES_SEL = 0x014"
definition VIRTIO_MMIO_DRIVER_FEATURES :: u32 where "VIRTIO_MMIO_DRIVER_FEATURES = 0x020"
definition VIRTIO_MMIO_DRIVER_FEATURES_SEL :: u32 where "VIRTIO_MMIO_DRIVER_FEATURES_SEL = 0x024"
definition VIRTIO_MMIO_CONFIG :: u64 where "VIRTIO_MMIO_CONFIG = 0x100"
definition VIRTIO_MMIO_QUEUE_SEL :: u32 where "VIRTIO_MMIO_QUEUE_SEL = 0x030"
definition VIRTIO_MMIO_QUEUE_NUM_MAX :: u32 where "VIRTIO_MMIO_QUEUE_NUM_MAX = 0x034"
definition VIRTIO_MMIO_QUEUE_NUM :: u32 where "VIRTIO_MMIO_QUEUE_NUM = 0x038"
definition VIRTIO_MMIO_QUEUE_READY :: u32 where "VIRTIO_MMIO_QUEUE_READY = 0x044"
definition VIRTIO_MMIO_QUEUE_DESC_LOW :: u32 where "VIRTIO_MMIO_QUEUE_DESC_LOW = 0x080"
definition VIRTIO_MMIO_QUEUE_DESC_HIGH :: u32 where "VIRTIO_MMIO_QUEUE_DESC_HIGH = 0x084"
definition VIRTIO_MMIO_QUEUE_AVAIL_LOW :: u32 where "VIRTIO_MMIO_QUEUE_AVAIL_LOW = 0x090"
definition VIRTIO_MMIO_QUEUE_AVAIL_HIGH :: u32 where "VIRTIO_MMIO_QUEUE_AVAIL_HIGH = 0x094"
definition VIRTIO_MMIO_QUEUE_USED_LOW :: u32 where "VIRTIO_MMIO_QUEUE_USED_LOW = 0x0A0"
definition VIRTIO_MMIO_QUEUE_USED_HIGH :: u32 where "VIRTIO_MMIO_QUEUE_USED_HIGH = 0x0A4"

definition ACKNOWLEDGE :: u32 where "ACKNOWLEDGE = BIT_MASK 0"
definition DRIVER :: u32 where "DRIVER = BIT_MASK 1"
definition DRIVER_OK :: u32 where "DRIVER_OK = BIT_MASK 2"
definition FEATURES_OK :: u32 where "FEATURES_OK = BIT_MASK 3"

section \<open>Configuration space\<close>

definition virt_mmio_read_config :: "u64 \<Rightarrow> u32 \<Rightarrow> u64 \<Rightarrow> u32 \<Rightarrow> 'a net_scheme \<Rightarrow> 'a net_scheme" where
  "virt_mmio_read_config device offset buf len s =
     (let config_base = device + VIRTIO_MMIO_CONFIG
      in s\<lparr>mem := mem_copy buf (config_base + ucast offset) len (mem s)\<rparr>)"

function mac_report_loop :: "u64 \<Rightarrow> nat \<Rightarrow> 'a machine_scheme \<Rightarrow> 'a machine_scheme option" where
  "mac_report_loop mac_buf i s =
     (if i < 6 then do {
        s \<leftarrow> uart_b2x (ucast (mem s (mac_buf + of_nat i))) s;
        s \<leftarrow> (if i < 5 then uart_putc 58 s else Some s);
        mac_report_loop mac_buf (Suc i) s
      }
      else Some s)"
  by pat_completeness auto
termination
  by (relation "measure (\<lambda>(mac_buf, i, s). 6 - i)") auto

declare mac_report_loop.simps [simp del]

definition virt_mmio_net_get_mac_address :: "u64 \<Rightarrow> u64 \<Rightarrow> 'a net_scheme \<Rightarrow> 'a net_scheme option" where
  "virt_mmio_net_get_mac_address device mac_buf s = do {
     let s = virt_mmio_read_config device 0 mac_buf 6 s;
     s \<leftarrow> uart_puts (lit ''MAC Address: '') s;
     s \<leftarrow> mac_report_loop mac_buf 0 s;
     uart_putc 10 s
   }"

section \<open>Handshake\<close>

definition msg_small_queue :: "u8 list" where
  "msg_small_queue = lit (''Virtio queue is smaller than the driver queue.'' @ [CHR 0x0A])"

definition virt_mmio_setup_queue ::
  "u64 \<Rightarrow> u16 \<Rightarrow> virtio_net_queue \<Rightarrow> 'a net_scheme \<Rightarrow> (int \<times> 'a net_scheme) option" where
  "virt_mmio_setup_queue device queue_index q s = do {
     let s = virt_mmio_write device VIRTIO_MMIO_QUEUE_SEL (ucast queue_index) s;
     let (max_size, s) = virt_mmio_read device VIRTIO_MMIO_QUEUE_NUM_MAX s;
     if max_size < ucast (qsize q) then do {
       s \<leftarrow> uart_puts msg_small_queue s;
       Some (- 1, s)
     }
     else do {
       let d = ring q;
       let a = avail (ring q);
       let u = used (ring q);
       let s = virt_mmio_write device VIRTIO_MMIO_QUEUE_NUM (ucast (qsize q)) s;
       let s = virt_mmio_write device VIRTIO_MMIO_QUEUE_DESC_LOW (ucast d) s;
       let s = virt_mmio_write device VIRTIO_MMIO_QUEUE_DESC_HIGH (ucast (drop_bit 32 d)) s;
       let s = virt_mmio_write device VIRTIO_MMIO_QUEUE_AVAIL_LOW (ucast a) s;
       let s = virt_mmio_write device VIRTIO_MMIO_QUEUE_AVAIL_HIGH (ucast (drop_bit 32 a)) s;
       let s = virt_mmio_write device VIRTIO_MMIO_QUEUE_USED_LOW (ucast u) s;
       let s = virt_mmio_write device VIRTIO_MMIO_QUEUE_USED_HIGH (ucast (drop_bit 32 u)) s;
       let s = mem_barrier s;
       Some (0, virt_mmio_write device VIRTIO_MMIO_QUEUE_READY 1 s)
     }
   }"

function setup_queues_loop :: "u64 \<Rightarrow> nat \<Rightarrow> 'a net_scheme \<Rightarrow> (int \<times> 'a net_scheme) option" where
  "setup_queues_loop device i s =
     (if i < VIRTIO_NET_QUEUE_COUNT then do {
        (ret, s) \<leftarrow> virt_mmio_setup_queue device (of_nat i) (queue s i) s;
        if ret \<noteq> 0 then Some (- 1, s) else setup_queues_loop device (Suc i) s
      }
      else Some (0, s))"
  by pat_completeness auto
termination
  by (relation "measure (\<lambda>(device, i, s). VIRTIO_NET_QUEUE_COUNT - i)") auto

declare setup_queues_loop.simps [simp del]

definition msg_handshake :: "u8 list" where
  "msg_handshake = lit (''Starting Virtio MMIO handshake...'' @ [CHR 0x0A])"

definition msg_no_v1 :: "u8 list" where
  "msg_no_v1 = lit (''Virtio MMIO device does not support VERSION_1.'' @ [CHR 0x0A])"

definition msg_neg_failed :: "u8 list" where
  "msg_neg_failed = lit (''Virtio MMIO negotiation failed.'' @ [CHR 0x0A])"

definition msg_neg_done :: "u8 list" where
  "msg_neg_done = lit (''Virtio MMIO negotiation completed.'' @ [CHR 0x0A])"

text \<open>The handshake once the features are agreed on.\<close>

definition negotiation_finish :: "u64 \<Rightarrow> 'a net_scheme \<Rightarrow> (int \<times> 'a net_scheme) option" where
  "negotiation_finish device s = do {
     (ret, s) \<leftarrow> setup_queues_loop device 0 s;
     if ret \<noteq> 0 then Some (- 1, s)
     else do {
       let (status, s) = virt_mmio_read device VIRTIO_MMIO_STATUS s;
       let s = virt_mmio_write device VIRTIO_MMIO_STATUS (status OR DRIVER_OK) s;
       let s = mem_barrier s;
       let s = virt_mmio_write device VIRTIO_MMIO_QUEUE_NOTIFY (of_nat VIRTIO_NET_RX_QUEUE) s;
       s \<leftarrow> uart_puts msg_neg_done s;
       Some (0, s)
     }
   }"

definition virt_mmio_negotiation :: "u64 \<Rightarrow> 'a net_scheme \<Rightarrow> (int \<times> 'a net_scheme) option" where
  "virt_mmio_negotiation device s = do {
     s \<leftarrow> uart_puts msg_handshake s;
     let s = virt_mmio_write device VIRTIO_MMIO_STATUS ACKNOWLEDGE s;
     let s = virt_mmio_write device VIRTIO_MMIO_STATUS (ACKNOWLEDGE OR DRIVER) s;
     let s = virt_mmio_write device VIRTIO_MMIO_DEVICE_FEATURES_SEL 0 s;
     let (v, s) = virt_mmio_read device VIRTIO_MMIO_DEVICE_FEATURES s;
     let feat_low = v AND VIRTIO_NET_F_MAC;
     let s = virt_mmio_write device VIRTIO_MMIO_DEVICE_FEATURES_SEL 1 s;
     let (feat_high, s) = virt_mmio_read device VIRTIO_MMIO_DEVICE_FEATURES s;
     if feat_high AND VIRTIO_F_VERSION_1 = 0 then do {
       s \<leftarrow> uart_puts msg_no_v1 s;
       Some (- 1, s)
     }
     else do {
       let s = virt_mmio_write device VIRTIO_MMIO_DRIVER_FEATURES_SEL 0 s;
       let s = virt_mmio_write device VIRTIO_MMIO_DRIVER_FEATURES feat_low s;
       let s = virt_mmio_write device VIRTIO_MMIO_DRIVER_FEATURES_SEL 1 s;
       let s = virt_mmio_write device VIRTIO_MMIO_DRIVER_FEATURES VIRTIO_F_VERSION_1 s;
       let (status, s) = virt_mmio_read device VIRTIO_MMIO_STATUS s;
       let s = virt_mmio_write device VIRTIO_MMIO_STATUS (status OR FEATURES_OK) s;
       let (status, s) = virt_mmio_read device VIRTIO_MMIO_STATUS s;
       if status AND FEATURES_OK = 0 then do {
         s \<leftarrow> uart_puts msg_neg_failed s;
         Some (- 1, s)
       }
       else negotiation_finish device s
     }
   }"

section \<open>Discovery\<close>

definition print_reg :: "u64 \<Rightarrow> string \<Rightarrow> u32 \<Rightarrow> 'a net_scheme \<Rightarrow> 'a net_scheme option" where
  "print_reg device label offset s = do {
     s \<leftarrow> uart_puts (lit label) s;
     let (v, s) = virt_mmio_read device offset s;
     s \<leftarrow> uart_b2x v s;
     uart_putc 10 s
   }"

definition virt_print_device_info :: "u64 \<Rightarrow> 'a net_scheme \<Rightarrow> 'a net_scheme option" where
  "virt_print_device_info device s = do {
     s \<leftarrow> uart_puts (lit (''Virtio MMIO Device Info:'' @ [CHR 0x0A])) s;
     s \<leftarrow> print_reg device ''Magic: '' 0x000 s;
     s \<leftarrow> print_reg device ''Version: '' 0x004 s;
     s \<leftarrow> print_reg device ''Device ID: '' 0x008 s;
     s \<leftarrow> print_reg device ''Vendor ID: '' 0x00c s;
     s \<leftarrow> print_reg device ''Queue Max Size: '' VIRTIO_MMIO_QUEUE_NUM_MAX s;
     s \<leftarrow> print_reg device ''Host feature sel: '' VIRTIO_MMIO_DEVICE_FEATURES_SEL s;
     s \<leftarrow> print_reg device ''Host Features Low: '' VIRTIO_MMIO_DEVICE_FEATURES s;
     s \<leftarrow> print_reg device ''Guest Features Low: '' VIRTIO_MMIO_DRIVER_FEATURES s;
     let s = virt_mmio_write device VIRTIO_MMIO_DEVICE_FEATURES_SEL 1 s;
     s \<leftarrow> print_reg device ''Host feature sel: '' VIRTIO_MMIO_DEVICE_FEATURES_SEL s;
     s \<leftarrow> print_reg device ''Host Features High: '' VIRTIO_MMIO_DEVICE_FEATURES s;
     print_reg device ''Guest Features High: '' VIRTIO_MMIO_DRIVER_FEATURES s
   }"

definition msg_net_failed :: "u8 list" where
  "msg_net_failed = lit (''Virtio network initialization failed.'' @ [CHR 0x0A])"

text \<open>The second operand of the C disjunction is evaluated only when the first is false.\<close>

definition start_net :: "u64 \<Rightarrow> u64 \<Rightarrow> 'a net_scheme \<Rightarrow> 'a net_scheme option" where
  "start_net mac_buf device s = do {
     s \<leftarrow> uart_puts (lit (''Found Virtio Network Device.'' @ [CHR 0x0A])) s;
     s \<leftarrow> virt_print_device_info device s;
     let s = virt_mmio_write device VIRTIO_MMIO_STATUS 0 s;
     (ret, s) \<leftarrow> virt_mmio_net_virtq_init device s;
     (ret, s) \<leftarrow> (if ret \<noteq> 0 then Some (ret, s) else virt_mmio_negotiation device s);
     if ret \<noteq> 0 then uart_puts msg_net_failed s
     else do {
       s \<leftarrow> virt_mmio_net_get_mac_address device mac_buf s;
       virt_mmio_net_poll_rx device 0 2048 s
     }
   }"

definition probe_slot :: "u64 \<Rightarrow> nat \<Rightarrow> u64 \<Rightarrow> 'a net_scheme \<Rightarrow> 'a net_scheme option" where
  "probe_slot mac_buf i device s = do {
     s \<leftarrow> uart_puts (lit ''Slot '') s;
     s \<leftarrow> uart_b2x (of_nat i) s;
     s \<leftarrow> uart_puts (lit '': '') s;
     let (dev_id, s) = virt_mmio_read device 0x008 s;
     if dev_id = 0 then uart_puts (lit (''Found placeholder.'' @ [CHR 0x0A])) s
     else if dev_id = 1 then start_net mac_buf device s
     else if dev_id = 2 then uart_puts (lit (''Found Virtio Block Device.'' @ [CHR 0x0A])) s
     else do {
       s \<leftarrow> uart_puts (lit ''Found Unknown Virtio Device. Device ID: '') s;
       let (dev_id, s) = virt_mmio_read device 0x008 s;
       s \<leftarrow> uart_b2x dev_id s;
       uart_putc 10 s
     }
   }"

definition slot_device :: "nat \<Rightarrow> u64" where
  "slot_device i = ucast (VIRTIO_SIZE * of_nat i) + GPIO_BASE_ADDR"

function scan_loop :: "u64 \<Rightarrow> nat \<Rightarrow> 'a net_scheme \<Rightarrow> 'a net_scheme option" where
  "scan_loop mac_buf i s =
     (if i \<le> unat VIRTIO_SLOTS then do {
        let device = slot_device i;
        let (magic, s) = virt_mmio_read device 0x000 s;
        s \<leftarrow> (if magic = VIRTIO_MAGIC then
               let (vendor, s) = virt_mmio_read device 0x00c s
               in if vendor = QEMU_VENDOR_ID then probe_slot mac_buf i device s else Some s
             else Some s);
        scan_loop mac_buf (Suc i) s
      }
      else Some s)"
  by pat_completeness auto
termination
  by (relation "measure (\<lambda>(mac_buf, i, s). Suc (unat VIRTIO_SLOTS) - i)") auto

declare scan_loop.simps [simp del]

definition msg_scanning :: "u8 list" where
  "msg_scanning = lit (''Scanning for Virtio MMIO devices...'' @ [CHR 0x0A])"

definition virt_find_all_devices :: "u64 \<Rightarrow> 'a net_scheme \<Rightarrow> 'a net_scheme option" where
  "virt_find_all_devices mac_buf s = do {
     s \<leftarrow> uart_puts msg_scanning s;
     scan_loop mac_buf 1 s
   }"

end
