(* ===== verification/Virtio_Handshake.thy ===== *)
theory Virtio_Handshake
  imports Virtio_Dev Virtio_Recv
begin

text \<open>
  Correctness of \<open>virt_mmio_negotiation\<close>: the register writes of the handshake, on every path.
\<close>

section \<open>The handshake\<close>

text \<open>\<open>s\<close> after register writes \<open>W\<close> (offset and value) and \<open>n\<close> reads of one device, with memory \<open>m\<close> after \<open>b\<close> barriers.\<close>

definition hs :: "u64 \<Rightarrow> 'a net_scheme \<Rightarrow> (u32 \<times> u32) list \<Rightarrow> nat \<Rightarrow> memory \<Rightarrow> nat \<Rightarrow> 'a net_scheme" where
  "hs dev s W n m b = s\<lparr>mmio_wr := mmio_wr s @ map (\<lambda>(off, v). (dev + 4 * ucast (off div 4), v)) W,
     mmio_rd := mmio_rd s + n, mem := m, dma_rd := b\<rparr>"

definition ask :: "u64 \<Rightarrow> 'a net_scheme \<Rightarrow> (u32 \<times> u32) list \<Rightarrow> nat \<Rightarrow> u32 \<Rightarrow> u32" where
  "ask dev s W n off = mmio_in s (mmio_wr s @ map (\<lambda>(off, v). (dev + 4 * ucast (off div 4), v)) W) (mmio_rd s + n)
     (dev + 4 * ucast (off div 4))"

lemma hs_start: "hs dev s [] 0 (mem s) (dma_rd s) = s"
  by (simp add: hs_def)

lemma hs_steps:
  "virt_mmio_write dev off v (hs dev s W n m b) = hs dev s (W @ [(off, v)]) n m b"
  "virt_mmio_read dev off (hs dev s W n m b) = (ask dev s W n off, hs dev s W (Suc n) m b)"
  "\<exists>m'. mem_barrier (hs dev s W n m b) = hs dev s W n m' (Suc b)"
  "queue (hs dev s W n m b) = queue s" "uart_live (hs dev s W n m b) = uart_live s"
  by (simp_all add: hs_def ask_def virt_mmio_write_def virt_mmio_read_def mem_barrier_def queue_def fun_eq_iff uart_live_def)
    (metis)

definition queue_script :: "nat \<Rightarrow> virtio_net_queue \<Rightarrow> (u32 \<times> u32) list" where
  "queue_script i q = [(0x30, of_nat i), (0x38, ucast (qsize q)),
     (0x80, ucast (ring q)), (0x84, ucast (drop_bit 32 (ring q))),
     (0x90, ucast (avail (ring q))), (0x94, ucast (drop_bit 32 (avail (ring q)))),
     (0xA0, ucast (used (ring q))), (0xA4, ucast (drop_bit 32 (used (ring q)))), (0x44, 1)]"

lemmas reg_defs = VIRTIO_MMIO_STATUS_def VIRTIO_MMIO_DEVICE_FEATURES_def VIRTIO_MMIO_DEVICE_FEATURES_SEL_def
  VIRTIO_MMIO_DRIVER_FEATURES_def VIRTIO_MMIO_DRIVER_FEATURES_SEL_def VIRTIO_MMIO_QUEUE_SEL_def
  VIRTIO_MMIO_QUEUE_NUM_MAX_def VIRTIO_MMIO_QUEUE_NUM_def VIRTIO_MMIO_QUEUE_READY_def VIRTIO_MMIO_QUEUE_DESC_LOW_def
  VIRTIO_MMIO_QUEUE_DESC_HIGH_def VIRTIO_MMIO_QUEUE_AVAIL_LOW_def VIRTIO_MMIO_QUEUE_AVAIL_HIGH_def
  VIRTIO_MMIO_QUEUE_USED_LOW_def VIRTIO_MMIO_QUEUE_USED_HIGH_def VIRTIO_MMIO_QUEUE_NOTIFY_def

lemma says_hs_msgs:
  "uart.says (uart_puts msg_small_queue s) s msg_small_queue" "uart.says (uart_puts msg_handshake s) s msg_handshake"
  "uart.says (uart_puts msg_no_v1 s) s msg_no_v1" "uart.says (uart_puts msg_neg_failed s) s msg_neg_failed"
  "uart.says (uart_puts msg_neg_done s) s msg_neg_done"
  unfolding msg_small_queue_def msg_handshake_def msg_no_v1_def msg_neg_failed_def msg_neg_done_def by (rule says_puts, simp)+

lemma setup_queue_script:
  assumes live: "uart_live s" and i: "i < 2"
  shows "ask dev s (W @ take 1 (queue_script i q)) n 0x34 < ucast (qsize q) \<Longrightarrow>
      \<exists>t. virt_mmio_setup_queue dev (of_nat i) q (hs dev s W n m b) = Some (- 1, t) \<and>
        uart_emits (hs dev s (W @ take 1 (queue_script i q)) (Suc n) m b) msg_small_queue t"
    "\<not> ask dev s (W @ take 1 (queue_script i q)) n 0x34 < ucast (qsize q) \<Longrightarrow>
      \<exists>m'. virt_mmio_setup_queue dev (of_nat i) q (hs dev s W n m b) =
        Some (0, hs dev s (W @ queue_script i q) (Suc n) m' (Suc b))"
proof -
  have c: "(ucast (of_nat i :: u16) :: u32) = of_nat i" using i by (cases i rule: nat.exhaust) (auto simp: less_2_cases_iff)
  have t1: "take 1 (queue_script i q) = [(0x30, of_nat i)]" by (simp add: queue_script_def)
  {
    assume small: "ask dev s (W @ take 1 (queue_script i q)) n 0x34 < ucast (qsize q)"
    have "uart_live (hs dev s (W @ take 1 (queue_script i q)) (Suc n) m b)" using live by (simp add: hs_steps)
    from uart.says_total [OF says_hs_msgs(1) this] small [unfolded t1]
    show "\<exists>t. virt_mmio_setup_queue dev (of_nat i) q (hs dev s W n m b) = Some (- 1, t) \<and>
        uart_emits (hs dev s (W @ take 1 (queue_script i q)) (Suc n) m b) msg_small_queue t"
      unfolding virt_mmio_setup_queue_def Let_def reg_defs hs_steps prod.case c t1 by auto
  }
  assume big: "\<not> ask dev s (W @ take 1 (queue_script i q)) n 0x34 < ucast (qsize q)"
  obtain m' where m': "mem_barrier (hs dev s (W @ take 8 (queue_script i q)) (Suc n) m b) =
      hs dev s (W @ take 8 (queue_script i q)) (Suc n) m' (Suc b)" using hs_steps(3) by blast
  have e: "queue_script i q = take 8 (queue_script i q) @ [(0x44, 1)]" by (simp add: queue_script_def)
  have "virt_mmio_setup_queue dev (of_nat i) q (hs dev s W n m b) =
      Some (0, virt_mmio_write dev VIRTIO_MMIO_QUEUE_READY 1 (mem_barrier (hs dev s (W @ take 8 (queue_script i q)) (Suc n) m b)))"
    using big unfolding t1 virt_mmio_setup_queue_def Let_def reg_defs hs_steps prod.case c
    by (simp add: queue_script_def)
  then show "\<exists>m'. virt_mmio_setup_queue dev (of_nat i) q (hs dev s W n m b) =
        Some (0, hs dev s (W @ queue_script i q) (Suc n) m' (Suc b))"
    unfolding m' hs_steps reg_defs using e by (metis append_assoc)
qed


lemma ask_emits: "uart_emits s cs t \<Longrightarrow> ask dev t = ask dev s"
  using uart_emits_net [of s cs t] by (simp add: ask_def fun_eq_iff)

lemma setup_queues_unfold:
  "setup_queues_loop dev 0 s = do {
     (ret, s) \<leftarrow> virt_mmio_setup_queue dev (of_nat 0) (queue s 0) s;
     if ret \<noteq> 0 then Some (- 1, s) else do {
       (ret, s) \<leftarrow> virt_mmio_setup_queue dev (of_nat 1) (queue s 1) s;
       if ret \<noteq> 0 then Some (- 1, s) else Some (0, s) } }"
proof -
  have "setup_queues_loop dev 2 s = Some (0, s)" for s :: "'a net_scheme"
    by (subst setup_queues_loop.simps) (simp add: VIRTIO_NET_QUEUE_COUNT_def)
  then have "setup_queues_loop dev 1 s = do {
       (ret, s) \<leftarrow> virt_mmio_setup_queue dev (of_nat 1) (queue s 1) s;
       if ret \<noteq> 0 then Some (- 1, s) else Some (0, s) }" for s :: "'a net_scheme"
    by (subst setup_queues_loop.simps) (simp add: VIRTIO_NET_QUEUE_COUNT_def numeral_2_eq_2 cong: if_cong)
  then show ?thesis by (subst setup_queues_loop.simps) (simp add: VIRTIO_NET_QUEUE_COUNT_def cong: if_cong)
qed

definition intro_script :: "u32 \<Rightarrow> u32 \<Rightarrow> (u32 \<times> u32) list" where
  "intro_script f st = [(0x70, 1), (0x70, 3), (0x14, 0), (0x14, 1), (0x24, 0), (0x20, f), (0x24, 1), (0x20, 1), (0x70, st OR 8)]"

text \<open>The two queues, from any point on.\<close>

lemma setup_queues_cases:
  fixes s :: "'a net_scheme"
  assumes live: "uart_live s"
  obtains (small0) t where "ask dev s (W @ take 1 (queue_script 0 (queue s 0))) n 0x34 < ucast (qsize (queue s 0))"
      "setup_queues_loop dev 0 (hs dev s W n m b) = Some (- 1, t)"
      "uart_emits (hs dev s (W @ take 1 (queue_script 0 (queue s 0))) (Suc n) m b) msg_small_queue t"
  | (small1) t m' where "\<not> ask dev s (W @ take 1 (queue_script 0 (queue s 0))) n 0x34 < ucast (qsize (queue s 0))"
      "ask dev s (W @ queue_script 0 (queue s 0) @ take 1 (queue_script 1 (queue s 1))) (Suc n) 0x34 < ucast (qsize (queue s 1))"
      "setup_queues_loop dev 0 (hs dev s W n m b) = Some (- 1, t)"
      "uart_emits (hs dev s (W @ queue_script 0 (queue s 0) @ take 1 (queue_script 1 (queue s 1))) (Suc (Suc n)) m' (Suc b))
         msg_small_queue t"
  | (ready) m' where "\<not> ask dev s (W @ take 1 (queue_script 0 (queue s 0))) n 0x34 < ucast (qsize (queue s 0))"
      "\<not> ask dev s (W @ queue_script 0 (queue s 0) @ take 1 (queue_script 1 (queue s 1))) (Suc n) 0x34 < ucast (qsize (queue s 1))"
      "setup_queues_loop dev 0 (hs dev s W n m b) =
         Some (0, hs dev s (W @ queue_script 0 (queue s 0) @ queue_script 1 (queue s 1)) (Suc (Suc n)) m' (Suc (Suc b)))"
proof (cases "ask dev s (W @ take 1 (queue_script 0 (queue s 0))) n 0x34 < ucast (qsize (queue s 0))")
  case True
  with setup_queue_script(1) [OF live, of 0 dev W "queue s 0" n m b] obtain t where
    t: "virt_mmio_setup_queue dev (of_nat 0) (queue s 0) (hs dev s W n m b) = Some (- 1, t)"
    "uart_emits (hs dev s (W @ take 1 (queue_script 0 (queue s 0))) (Suc n) m b) msg_small_queue t" by auto
  have "setup_queues_loop dev 0 (hs dev s W n m b) = Some (- 1, t)"
    unfolding setup_queues_unfold hs_steps t(1) by simp
  from small0 [OF True this t(2)] show thesis .
next
  case False
  then obtain m1 where m1: "virt_mmio_setup_queue dev (of_nat 0) (queue s 0) (hs dev s W n m b) =
      Some (0, hs dev s (W @ queue_script 0 (queue s 0)) (Suc n) m1 (Suc b))"
    using setup_queue_script(2) [OF live, of 0 dev W "queue s 0" n m b] by auto
  let ?W = "W @ queue_script 0 (queue s 0)"
  note q1 = setup_queue_script [OF live, of 1 dev ?W "queue s 1" "Suc n" m1 "Suc b", unfolded append_assoc]
  show thesis
  proof (cases "ask dev s (W @ queue_script 0 (queue s 0) @ take 1 (queue_script 1 (queue s 1))) (Suc n) 0x34 < ucast (qsize (queue s 1))")
    case True
    from q1(1) [OF _ this] obtain t where
      t: "virt_mmio_setup_queue dev (of_nat 1) (queue s 1) (hs dev s ?W (Suc n) m1 (Suc b)) = Some (- 1, t)"
      "uart_emits (hs dev s (W @ queue_script 0 (queue s 0) @ take 1 (queue_script 1 (queue s 1))) (Suc (Suc n)) m1 (Suc b))
         msg_small_queue t" by auto
    have "setup_queues_loop dev 0 (hs dev s W n m b) = Some (- 1, t)"
      unfolding setup_queues_unfold hs_steps m1 bind.bind_lunit prod.case t(1) by simp
    from small1 [OF False True this t(2)] show thesis .
  next
    case ok: False
    from q1(2) [OF _ this] obtain m2 where
      t: "virt_mmio_setup_queue dev (of_nat 1) (queue s 1) (hs dev s ?W (Suc n) m1 (Suc b)) =
        Some (0, hs dev s (W @ queue_script 0 (queue s 0) @ queue_script 1 (queue s 1)) (Suc (Suc n)) m2 (Suc (Suc b)))" by auto
    have "setup_queues_loop dev 0 (hs dev s W n m b) =
        Some (0, hs dev s (W @ queue_script 0 (queue s 0) @ queue_script 1 (queue s 1)) (Suc (Suc n)) m2 (Suc (Suc b)))"
      unfolding setup_queues_unfold hs_steps m1 bind.bind_lunit prod.case t(1) by simp
    from ready [OF False ok this] show thesis .
  qed
qed


definition hs_script :: "u32 \<Rightarrow> u32 \<Rightarrow> u32 \<Rightarrow> virtio_net_queue \<Rightarrow> virtio_net_queue \<Rightarrow> (u32 \<times> u32) list" where
  "hs_script f st st2 q0 q1 = intro_script f st @ queue_script 0 q0 @ queue_script 1 q1 @ [(0x70, st2 OR 4), (0x50, 0)]"

lemma intro_takes:
  "take 3 (intro_script f st) = [(0x70, 1), (0x70, 3), (0x14, 0)]"
  "take 4 (intro_script f st) = [(0x70, 1), (0x70, 3), (0x14, 0), (0x14, 1)]"
  "take 8 (intro_script f st) = [(0x70, 1), (0x70, 3), (0x14, 0), (0x14, 1), (0x24, 0), (0x20, f), (0x24, 1), (0x20, 1)]"
  "take 9 (intro_script f st) = intro_script f st" "length (intro_script f st) = 9" "length (queue_script i q) = 9"
  by (simp_all add: intro_script_def queue_script_def)

lemma hs_script_takes:
  "take 3 (hs_script f st st2 q0 q1) = take 3 (intro_script f st)"
  "take 4 (hs_script f st st2 q0 q1) = take 4 (intro_script f st)"
  "take 8 (hs_script f st st2 q0 q1) = take 8 (intro_script f st)"
  "take 9 (hs_script f st st2 q0 q1) = intro_script f st"
  "take 10 (hs_script f st st2 q0 q1) = intro_script f st @ take 1 (queue_script 0 q0)"
  "take 19 (hs_script f st st2 q0 q1) = intro_script f st @ queue_script 0 q0 @ take 1 (queue_script 1 q1)"
  "take 27 (hs_script f st st2 q0 q1) = intro_script f st @ queue_script 0 q0 @ queue_script 1 q1"
  "take 29 (hs_script f st st2 q0 q1) = hs_script f st st2 q0 q1"
  by (simp_all add: hs_script_def intro_takes)

lemmas status_defs = ACKNOWLEDGE_def DRIVER_def DRIVER_OK_def FEATURES_OK_def VIRTIO_F_VERSION_1_def BIT_MASK_def

lemma negotiation_head:
  fixes dev and s1 :: "'a net_scheme"
  assumes "uart_puts msg_handshake s = Some s1"
    and f: "f = ask dev s1 (take 3 (intro_script 0 0)) 0 0x10 AND VIRTIO_NET_F_MAC"
    and st: "st = ask dev s1 (take 8 (intro_script f 0)) 2 0x70"
  defines "at \<equiv> \<lambda>W n. hs dev s1 W n (mem s1) (dma_rd s1)"
  shows "virt_mmio_negotiation dev s =
    (if ask dev s1 (take 4 (intro_script f st)) 1 0x10 AND VIRTIO_F_VERSION_1 = 0
     then do { s \<leftarrow> uart_puts msg_no_v1 (at (take 4 (intro_script f st)) 2); Some (- 1, s) }
     else if ask dev s1 (intro_script f st) 3 0x70 AND FEATURES_OK = 0
     then do { s \<leftarrow> uart_puts msg_neg_failed (at (intro_script f st) 4); Some (- 1, s) }
     else negotiation_finish dev (at (intro_script f st) 4))"
proof -
  have f': "ask dev s1 [(0x70, 1), (0x70, 3), (0x14, 0)] 0 0x10 AND VIRTIO_NET_F_MAC = f"
    unfolding f intro_takes ..
  have st': "ask dev s1 [(0x70, 1), (0x70, 3), (0x14, 0), (0x14, 1), (0x24, 0), (0x20, f), (0x24, 1), (0x20, 1)] (Suc (Suc 0)) 0x70 = st"
    unfolding st intro_takes numeral_2_eq_2 ..
  have z: "(1 :: u32) OR DRIVER = 3" "ACKNOWLEDGE = 1" "VIRTIO_F_VERSION_1 = 1" "FEATURES_OK = 8" by (simp_all add: status_defs)
  have n: "(2 :: nat) = Suc (Suc 0)" "(3 :: nat) = Suc (Suc (Suc 0))" "(4 :: nat) = Suc (Suc (Suc (Suc 0)))" by simp_all
  show ?thesis
    unfolding virt_mmio_negotiation_def assms(1) bind.bind_lunit
    by (subst hs_start [of dev s1, symmetric])
      (simp only: Let_def hs_steps prod.case at_def z reg_defs append.simps f' st' One_nat_def intro_takes,
       simp only: n intro_script_def)
qed

lemma negotiation_finish_cases:
  fixes s :: "'a net_scheme"
  assumes live: "uart_live s"
  defines "q0 \<equiv> queue s 0" and "q1 \<equiv> queue s 1"
  shows "\<exists>res t W' n' m' b' cs. negotiation_finish dev (hs dev s W n m b) = Some (res, t) \<and> uart_emits (hs dev s W' n' m' b') cs t \<and>
    (ask dev s (W @ take 1 (queue_script 0 q0)) n 0x34 < ucast (qsize q0) \<and> res = - 1 \<and> W' = W @ take 1 (queue_script 0 q0) \<or>
     \<not> ask dev s (W @ take 1 (queue_script 0 q0)) n 0x34 < ucast (qsize q0) \<and>
       ask dev s (W @ queue_script 0 q0 @ take 1 (queue_script 1 q1)) (Suc n) 0x34 < ucast (qsize q1) \<and> res = - 1 \<and>
       W' = W @ queue_script 0 q0 @ take 1 (queue_script 1 q1) \<or>
     \<not> ask dev s (W @ take 1 (queue_script 0 q0)) n 0x34 < ucast (qsize q0) \<and>
       \<not> ask dev s (W @ queue_script 0 q0 @ take 1 (queue_script 1 q1)) (Suc n) 0x34 < ucast (qsize q1) \<and> res = 0 \<and>
       W' = W @ queue_script 0 q0 @ queue_script 1 q1 @
         [(0x70, ask dev s (W @ queue_script 0 q0 @ queue_script 1 q1) (n + 2) 0x70 OR 4), (0x50, 0)])"
  using live
proof (cases rule: setup_queues_cases [where dev = dev and W = W and n = n and m = m and b = b])
  case (small0 t)
  then show ?thesis
    unfolding q0_def q1_def negotiation_finish_def by (intro exI [of _ "- 1"] exI [of _ t] exI) auto
next
  case (small1 t m')
  then show ?thesis
    unfolding q0_def q1_def negotiation_finish_def by (intro exI [of _ "- 1"] exI [of _ t] exI) auto
next
  case (ready m')
  let ?W = "W @ queue_script 0 (queue s 0) @ queue_script 1 (queue s 1)"
  let ?W' = "?W @ [(0x70, ask dev s ?W (n + 2) 0x70 OR 4)]"
  obtain m2 where m2: "mem_barrier (hs dev s ?W' (Suc (n + 2)) m' (Suc (Suc b))) = hs dev s ?W' (Suc (n + 2)) m2 (Suc (Suc (Suc b)))"
    using hs_steps(3) by blast
  let ?t = "hs dev s (?W' @ [(0x50, 0)]) (Suc (n + 2)) m2 (Suc (Suc (Suc b)))"
  have "uart_live ?t" using live by (simp add: hs_steps)
  then obtain t where t: "uart_puts msg_neg_done ?t = Some t" "uart_emits ?t msg_neg_done t"
    using uart.says_total [OF says_hs_msgs(5)] by blast
  have k: "Suc (Suc n) = n + 2" by simp
  have "negotiation_finish dev (hs dev s W n m b) = Some (0, t)"
    unfolding negotiation_finish_def ready(3) bind.bind_lunit prod.case Let_def reg_defs hs_steps k
    using m2 t(1) by (simp add: DRIVER_OK_def BIT_MASK_def VIRTIO_NET_RX_QUEUE_def hs_steps)
  with ready(1,2) t(2) show ?thesis unfolding q0_def q1_def by (intro exI [of _ 0] exI [of _ t] exI) auto
qed


lemma negotiation_finish_prefix:
  fixes s :: "'a net_scheme"
  assumes live: "uart_live s"
  shows "\<exists>k res t n' m' b' cs. negotiation_finish dev (hs dev s (intro_script f st) 4 m b) = Some (res, t) \<and>
    uart_emits (hs dev s (take k (hs_script f st
      (ask dev s (intro_script f st @ queue_script 0 (queue s 0) @ queue_script 1 (queue s 1)) 6 0x70) (queue s 0) (queue s 1))) n' m' b') cs t \<and>
    (ask dev s (intro_script f st @ take 1 (queue_script 0 (queue s 0))) 4 0x34 < ucast (qsize (queue s 0)) \<and> k = 10 \<and> res = - 1 \<or>
     ask dev s (intro_script f st @ take 1 (queue_script 0 (queue s 0))) 4 0x34 \<ge> ucast (qsize (queue s 0)) \<and>
       ask dev s (intro_script f st @ queue_script 0 (queue s 0) @ take 1 (queue_script 1 (queue s 1))) 5 0x34 < ucast (qsize (queue s 1)) \<and>
       k = 19 \<and> res = - 1 \<or>
     ask dev s (intro_script f st @ take 1 (queue_script 0 (queue s 0))) 4 0x34 \<ge> ucast (qsize (queue s 0)) \<and>
       ask dev s (intro_script f st @ queue_script 0 (queue s 0) @ take 1 (queue_script 1 (queue s 1))) 5 0x34 \<ge> ucast (qsize (queue s 1)) \<and>
       k = 29 \<and> res = 0)"
proof -
  have five: "Suc 4 = 5" "(4::nat) + 2 = 6" by simp_all
  note c = negotiation_finish_cases [OF live, of dev "intro_script f st" 4 m b, unfolded five]
  show ?thesis
    using c hs_script_takes(5,6,8) unfolding hs_script_def linorder_not_less by metis
qed

lemma hs_emits_frame:
  "uart_emits (hs dev s W n m b) cs t \<Longrightarrow>
     mmio_wr t = mmio_wr s @ map (\<lambda>(off, v). (dev + 4 * ucast (off div 4), v)) W \<and> queue t = queue s"
  using uart_emits_net [of "hs dev s W n m b" cs t] by (simp add: hs_def queue_def fun_eq_iff)

lemma negotiation_branches:
  assumes live: "uart_live s"
  obtains f st s1 where "uart_emits s msg_handshake s1" "uart_live s1"
    "f = ask dev s (take 3 (intro_script f st)) 0 0x10 AND VIRTIO_NET_F_MAC" "st = ask dev s (take 8 (intro_script f st)) 2 0x70"
    "virt_mmio_negotiation dev s =
      (if ask dev s (take 4 (intro_script f st)) 1 0x10 AND VIRTIO_F_VERSION_1 = 0
       then do { s \<leftarrow> uart_puts msg_no_v1 (hs dev s1 (take 4 (intro_script f st)) 2 (mem s1) (dma_rd s1)); Some (- 1, s) }
       else if ask dev s (intro_script f st) 3 0x70 AND FEATURES_OK = 0
       then do { s \<leftarrow> uart_puts msg_neg_failed (hs dev s1 (intro_script f st) 4 (mem s1) (dma_rd s1)); Some (- 1, s) }
       else negotiation_finish dev (hs dev s1 (intro_script f st) 4 (mem s1) (dma_rd s1)))"
proof -
  obtain s1 where s1: "uart_puts msg_handshake s = Some s1" "uart_emits s msg_handshake s1" "uart_live s1"
    using uart.says_total [OF says_hs_msgs(2) live] by blast
  define f st where "f = ask dev s (take 3 (intro_script 0 0)) 0 0x10 AND VIRTIO_NET_F_MAC"
    and "st = ask dev s (take 8 (intro_script f 0)) 2 0x70"
  have I: "take 3 (intro_script 0 0) = take 3 (intro_script f st)" "take 8 (intro_script f 0) = take 8 (intro_script f st)"
    by (simp_all only: intro_takes)
  show ?thesis
    by (rule that [OF s1(2,3) f_def [unfolded I(1)] st_def [unfolded I(2)]])
      (rule negotiation_head [OF s1(1), of f dev st, unfolded ask_emits [OF s1(2)], OF f_def st_def])
qed

text \<open>
  C14. The handshake of \<open>virt_mmio_negotiation\<close> always returns and writes a prefix of one fixed script to the
  device's registers, in the order of the VirtIO standard: acknowledge, driver, features read and
  written, \<open>FEATURES_OK\<close>, the addresses of both queues, each then marked ready, \<open>DRIVER_OK\<close>, and
  the first notification. It stops after 4 writes, with -1, when the device does not offer version 1;
  after 9 when it does not keep \<open>FEATURES_OK\<close>; after 10 or 19 when queue 0 or queue 1 of the device
  is smaller than the driver's; otherwise it completes the script and returns 0. \<open>DRIVER_OK\<close> is thus
  never written unless version 1 and the features were accepted and both queues are ready.
\<close>

theorem negotiation_protocol:
  assumes live: "uart_live s"
  shows "\<exists>f st st2 k res s'. virt_mmio_negotiation dev s = Some (res, s') \<and> queue s' = queue s \<and>
    (let W = hs_script f st st2 (queue s 0) (queue s 1);
         a = (\<lambda>k n off. ask dev s (take k W) n off);
         v1 = (a 4 1 0x10 AND VIRTIO_F_VERSION_1 \<noteq> 0); fok = (a 9 3 0x70 AND FEATURES_OK \<noteq> 0);
         big0 = (a 10 4 0x34 \<ge> ucast (qsize (queue s 0))); big1 = (a 19 5 0x34 \<ge> ucast (qsize (queue s 1))) in
      mmio_wr s' = mmio_wr s @ map (\<lambda>(off, v). (dev + 4 * ucast (off div 4), v)) (take k W) \<and>
      f = a 3 0 0x10 AND VIRTIO_NET_F_MAC \<and> st = a 8 2 0x70 \<and>
      (\<not> v1 \<and> k = 4 \<and> res = - 1 \<or> v1 \<and> \<not> fok \<and> k = 9 \<and> res = - 1 \<or>
       v1 \<and> fok \<and> \<not> big0 \<and> k = 10 \<and> res = - 1 \<or> v1 \<and> fok \<and> big0 \<and> \<not> big1 \<and> k = 19 \<and> res = - 1 \<or>
       v1 \<and> fok \<and> big0 \<and> big1 \<and> k = 29 \<and> res = 0 \<and> st2 = a 27 6 0x70))"
proof -
  obtain f st s1 where s1: "uart_emits s msg_handshake s1" "uart_live s1"
    and fs: "f = ask dev s (take 3 (intro_script f st)) 0 0x10 AND VIRTIO_NET_F_MAC" "st = ask dev s (take 8 (intro_script f st)) 2 0x70"
    and head: "virt_mmio_negotiation dev s =
      (if ask dev s (take 4 (intro_script f st)) 1 0x10 AND VIRTIO_F_VERSION_1 = 0
       then do { s \<leftarrow> uart_puts msg_no_v1 (hs dev s1 (take 4 (intro_script f st)) 2 (mem s1) (dma_rd s1)); Some (- 1, s) }
       else if ask dev s (intro_script f st) 3 0x70 AND FEATURES_OK = 0
       then do { s \<leftarrow> uart_puts msg_neg_failed (hs dev s1 (intro_script f st) 4 (mem s1) (dma_rd s1)); Some (- 1, s) }
       else negotiation_finish dev (hs dev s1 (intro_script f st) 4 (mem s1) (dma_rd s1)))"
    by (rule negotiation_branches [OF live, of dev])
  note n1 = uart_emits_net [OF s1(1)] and ask1 = ask_emits [OF s1(1)]
  let ?I = "intro_script f st" and ?at = "\<lambda>W n. hs dev s1 W n (mem s1) (dma_rd s1)"
  have lv: "uart_live (?at W n)" for W n using s1(2) by (simp add: hs_steps)
  consider "ask dev s (take 4 ?I) 1 0x10 AND VIRTIO_F_VERSION_1 = 0"
    | "ask dev s (take 4 ?I) 1 0x10 AND VIRTIO_F_VERSION_1 \<noteq> 0" "ask dev s ?I 3 0x70 AND FEATURES_OK = 0"
    | "ask dev s (take 4 ?I) 1 0x10 AND VIRTIO_F_VERSION_1 \<noteq> 0" "ask dev s ?I 3 0x70 AND FEATURES_OK \<noteq> 0" by blast
  then show ?thesis
  proof cases
    case 1
    obtain t where t: "uart_puts msg_no_v1 (?at (take 4 ?I) 2) = Some t" "uart_emits (?at (take 4 ?I) 2) msg_no_v1 t"
      using uart.says_total [OF says_hs_msgs(3) lv] by blast
    have run: "virt_mmio_negotiation dev s = Some (- 1, t)" unfolding head if_P [OF 1] t(1) by simp
    show ?thesis
      by (rule exI [of _ f], rule exI [of _ st], rule exI [of _ 0], rule exI [of _ 4], rule exI [of _ "- 1"], rule exI [of _ t])
        (simp add: Let_def hs_script_takes run 1 [unfolded One_nat_def] hs_emits_frame [OF t(2)] n1 fs [symmetric])
  next
    case 2
    obtain t where t: "uart_puts msg_neg_failed (?at ?I 4) = Some t" "uart_emits (?at ?I 4) msg_neg_failed t"
      using uart.says_total [OF says_hs_msgs(4) lv] by blast
    have run: "virt_mmio_negotiation dev s = Some (- 1, t)" unfolding head if_not_P [OF 2(1)] if_P [OF 2(2)] t(1) by simp
    show ?thesis
      by (rule exI [of _ f], rule exI [of _ st], rule exI [of _ 0], rule exI [of _ 9], rule exI [of _ "- 1"], rule exI [of _ t])
        (simp add: Let_def hs_script_takes run 2 [unfolded One_nat_def] hs_emits_frame [OF t(2)] n1 fs [symmetric] intro_takes(4))
  next
    case 3
    define st2 where "st2 = ask dev s (?I @ queue_script 0 (queue s 0) @ queue_script 1 (queue s 1)) 6 0x70"
    obtain k res t n' m' b' cs where r: "negotiation_finish dev (?at ?I 4) = Some (res, t)"
      "uart_emits (hs dev s1 (take k (hs_script f st st2 (queue s 0) (queue s 1))) n' m' b') cs t"
      and k: "ask dev s (?I @ take 1 (queue_script 0 (queue s 0))) 4 0x34 < ucast (qsize (queue s 0)) \<and> k = 10 \<and> res = - 1 \<or>
       ask dev s (?I @ take 1 (queue_script 0 (queue s 0))) 4 0x34 \<ge> ucast (qsize (queue s 0)) \<and>
         ask dev s (?I @ queue_script 0 (queue s 0) @ take 1 (queue_script 1 (queue s 1))) 5 0x34 < ucast (qsize (queue s 1)) \<and>
         k = 19 \<and> res = - 1 \<or>
       ask dev s (?I @ take 1 (queue_script 0 (queue s 0))) 4 0x34 \<ge> ucast (qsize (queue s 0)) \<and>
         ask dev s (?I @ queue_script 0 (queue s 0) @ take 1 (queue_script 1 (queue s 1))) 5 0x34 \<ge> ucast (qsize (queue s 1)) \<and>
         k = 29 \<and> res = 0"
      using negotiation_finish_prefix [OF s1(2), of dev f st "mem s1" "dma_rd s1"] unfolding ask1 st2_def
      by (simp only: n1) blast
    have run: "virt_mmio_negotiation dev s = Some (res, t)" unfolding head if_not_P [OF 3(1)] if_not_P [OF 3(2)] r(1) ..
    note fr = hs_emits_frame [OF r(2), THEN conjunct1] hs_emits_frame [OF r(2), THEN conjunct2]
    show ?thesis
      unfolding Let_def
    proof (rule exI [of _ f], rule exI [of _ st], rule exI [of _ st2], rule exI [of _ k], rule exI [of _ res], rule exI [of _ t],
        unfold hs_script_takes, intro conjI run fs)
      show "queue t = queue s" "mmio_wr t = mmio_wr s @ map (\<lambda>(off, v). (dev + 4 * ucast (off div 4), v))
          (take k (hs_script f st st2 (queue s 0) (queue s 1)))"
        using fr n1 by simp_all
    qed (use k [unfolded linorder_not_le [symmetric]] 3 st2_def in argo)
  qed
qed


text \<open>A device that offers version 1, keeps the status and has queues of 256 entries.\<close>

definition nego_demo :: net where
  "nego_demo = rx_demo\<lparr>mmio_in := \<lambda>w n a. if a = 0x10001010 then 1 else if a = 0x10001070 then 0xB else 256\<rparr>"

theorem negotiation_protocol_witness:
  "\<exists>s'. virt_mmio_negotiation 0x10001000 nego_demo = Some (0, s') \<and> length (mmio_wr s') = 29"
proof -
  have live: "uart_live nego_demo" using rx_demo_facts(4) by (simp add: nego_demo_def uart_live_def)
  have a: "ask 0x10001000 nego_demo W n 0x10 = 1" "ask 0x10001000 nego_demo W n 0x70 = 0xB"
    "ask 0x10001000 nego_demo W n 0x34 = 256" for W n by (simp_all add: ask_def nego_demo_def)
  have q: "qsize (queue nego_demo 0) = 256" "qsize (queue nego_demo 1) = 0" "mmio_wr nego_demo = []"
    by (simp_all add: nego_demo_def rx_demo_def queue_def empty_queue_def demo_net_defs)
  obtain f st st2 k res s' where "virt_mmio_negotiation 0x10001000 nego_demo = Some (res, s')" "k = 29" "res = 0"
    "mmio_wr s' = mmio_wr nego_demo @ map (\<lambda>(off, v). (0x10001000 + 4 * ucast (off div 4), v))
       (take k (hs_script f st st2 (queue nego_demo 0) (queue nego_demo 1)))"
    using negotiation_protocol [OF live, of "0x10001000"] unfolding Let_def a q by (auto simp: status_defs)
  then show ?thesis by (intro exI [of _ s']) (simp add: q hs_script_takes hs_script_def intro_takes)
qed

end
