(* ===== verification/Virtio_Bringup.thy ===== *)
theory Virtio_Bringup
  imports Virtio_Dev Virtio_Recv
begin

text \<open>
  The bring-up of a network device in \<open>virt_find_all_devices\<close>: report, reset, queues, handshake, MAC
  address and receive poll. Straight-line code is followed with \<open>ends r Q\<close>: the call \<open>r\<close> returns, in a
  state with \<open>Q\<close>.
\<close>

section \<open>Calls that return\<close>

definition ends :: "'s option \<Rightarrow> ('s \<Rightarrow> bool) \<Rightarrow> bool" where
  "ends r Q \<longleftrightarrow> (\<exists>t. r = Some t \<and> Q t)"

lemma ends_Some [simp]: "ends (Some t) Q = Q t"
  by (simp add: ends_def)

lemma ends_bind: "ends r P \<Longrightarrow> (\<And>t. P t \<Longrightarrow> ends (f t) Q) \<Longrightarrow> ends (Option.bind r f) Q"
  by (auto simp: ends_def)

section \<open>The device report\<close>

text \<open>State \<open>t\<close> is \<open>s\<close> after console output, register reads and the register writes \<open>W\<close>.\<close>

definition probed :: "'a net_scheme \<Rightarrow> (u64 \<times> u32) list \<Rightarrow> 'a net_scheme \<Rightarrow> bool" where
  "probed s W t \<longleftrightarrow> 
     t = s\<lparr>uart_rd := uart_rd t, uart_wr := uart_wr t, mmio_rd := mmio_rd t, mmio_wr := mmio_wr s @ W\<rparr>"

lemma probed_facts:
  assumes "probed s W t"
  shows "uart_in t = uart_in s" "mem t = mem s" "net_queues t = net_queues s" "dma_in t = dma_in s"
    "mmio_in t = mmio_in s" "mmio_wr t = mmio_wr s @ W" "alloc_inv t = alloc_inv s" "free_pages t = free_pages s"
    "procs t = procs s"
proof -
  obtain k w n where t: "t = s\<lparr>uart_rd := k, uart_wr := w, mmio_rd := n, mmio_wr := mmio_wr s @ W\<rparr>"
    using assms unfolding probed_def by blast
  show "uart_in t = uart_in s" "mem t = mem s" "net_queues t = net_queues s" "dma_in t = dma_in s"
    "mmio_in t = mmio_in s" "mmio_wr t = mmio_wr s @ W" "alloc_inv t = alloc_inv s" "free_pages t = free_pages s"
    "procs t = procs s"
    unfolding t by (simp_all add: alloc_inv_def free_pages_def pages_ok_def heap_ok_def page_ok_def)
qed

lemma probed_refl: "probed s [] s"
  unfolding probed_def by (cases s) simp

lemma probed_sys_view:
  assumes "probed s W t"
  shows "sys_view t = sys_view s"
proof -
  obtain k w n where t: "t = s\<lparr>uart_rd := k, uart_wr := w, mmio_rd := n, mmio_wr := mmio_wr s @ W\<rparr>"
    using assms unfolding probed_def by blast
  show ?thesis unfolding t by (simp add: sys_view_def csrs_def)
qed

lemma probed_says:
  assumes "probed s W t" "uart_live s" "uart.says r t cs"
  shows "ends r (probed s W)"
proof -
  have "uart_live t" using assms(2) by (simp add: uart_live_def probed_facts [OF assms(1)])
  from uart.says_total [OF assms(3) this] obtain u where "r = Some u" "uart_emits t cs u" by blast
  moreover from this(2) assms(1) have "probed s W u" unfolding probed_def uart_emits_def by (cases s, cases t, auto)
  ultimately show ?thesis by simp
qed

lemma probed_read: "probed s W t \<Longrightarrow> probed s W (snd (virt_mmio_read dev off t))"
  unfolding probed_def virt_mmio_read_def by (cases s, cases t) simp

lemma probed_write:
  "probed s W t \<Longrightarrow> probed s (W @ [(dev + 4 * ucast (off div 4), v)]) (virt_mmio_write dev off v t)"
  unfolding probed_def virt_mmio_write_def by (cases s, cases t) simp

lemma print_reg_probed:
  assumes p: "probed s W t" and live: "uart_live s" and l: "CHR 0x00 \<notin> set label"
  shows "ends (print_reg dev label off t) (probed s W)"
  unfolding print_reg_def
proof (rule ends_bind [OF probed_says [OF p live says_puts [OF l]]])
  fix u
  assume "probed s W u"
  from probed_read [OF this, of dev off]
  show "ends (let (v, s) = virt_mmio_read dev off u in Option.bind (uart_b2x v s) (uart_putc 10)) (probed s W)"
    by (cases "virt_mmio_read dev off u")
      (simp, erule ends_bind [OF probed_says [OF _ live says_b2x]], erule probed_says [OF _ live says_putc])
qed

lemma device_info_probed:
  assumes p: "probed s [] t" and live: "uart_live s"
  shows "ends (virt_print_device_info dev t) (probed s [(dev + 0x14, 1)])"
proof -
  have w: "probed s [(dev + 0x14, 1)] (virt_mmio_write dev VIRTIO_MMIO_DEVICE_FEATURES_SEL 1 u)" if "probed s [] u" for u
    using probed_write [OF that, of dev VIRTIO_MMIO_DEVICE_FEATURES_SEL 1] by (simp add: VIRTIO_MMIO_DEVICE_FEATURES_SEL_def)
  show ?thesis
    unfolding virt_print_device_info_def Let_def
    by (rule ends_bind, rule probed_says [OF p live says_puts], simp,
      (rule ends_bind, rule print_reg_probed [OF _ live], assumption, simp)+,
      (rule ends_bind, rule print_reg_probed [OF _ live], erule w, simp),
      (rule ends_bind, rule print_reg_probed [OF _ live], assumption, simp)+,
      rule print_reg_probed [OF _ live], assumption, simp)
qed

section \<open>What the driver keeps\<close>

text \<open>A property of the state that console output and register reads preserve, with the console live, is kept
  by the scan over slots without a network card, which returns.\<close>

locale console_kept =
  fixes Q :: "'a net_scheme \<Rightarrow> bool"
  assumes live: "Q s \<Longrightarrow> uart_live s"
    and console: "Q s \<Longrightarrow> Q (s\<lparr>uart_rd := k, uart_wr := w\<rparr>)"
    and reg_read: "Q s \<Longrightarrow> Q (s\<lparr>mmio_rd := n\<rparr>)"
begin

lemma emitted: "uart_emits s cs t \<Longrightarrow> Q s \<Longrightarrow> Q t"
  using console by (auto simp: uart_emits_def)

lemma said: "Q s \<Longrightarrow> uart.says r s cs \<Longrightarrow> ends r Q"
  using uart.says_total [of r s cs] live emitted by (auto simp: ends_def)

lemma puts: "Q s \<Longrightarrow> ends (uart_puts str s) Q"
  using uart_puts_total [OF live, of s str] console by (auto simp: ends_def)

lemma read: "Q s \<Longrightarrow> Q (snd (virt_mmio_read dev off s))"
  by (simp add: virt_mmio_read_def reg_read)

lemma quiet_slot:
  assumes Q: "Q s" and none: "\<And>t w n. Q t \<Longrightarrow> mmio_in t w n (slot_device i + 8) \<noteq> 1"
  shows "ends (probe_slot buf i (slot_device i) s) Q"
proof -
  have body: "ends (let (dev_id, s) = virt_mmio_read (slot_device i) 0x008 u in
      if dev_id = 0 then uart_puts (lit (''Found placeholder.'' @ [CHR 0x0A])) s
      else if dev_id = 1 then start_net buf (slot_device i) s
      else if dev_id = 2 then uart_puts (lit (''Found Virtio Block Device.'' @ [CHR 0x0A])) s
      else do {
        s \<leftarrow> uart_puts (lit ''Found Unknown Virtio Device. Device ID: '') s;
        let (dev_id, s) = virt_mmio_read (slot_device i) 0x008 s;
        s \<leftarrow> uart_b2x dev_id s;
        uart_putc 10 s
      }) Q" if u: "Q u" for u
  proof -
    obtain d v where v: "virt_mmio_read (slot_device i) 8 u = (d, v)" by force
    then have d: "d \<noteq> 1" and qv: "Q v" using none [OF u] read [OF u, of "slot_device i" 8] by (auto simp: virt_mmio_read_def)
    have unknown: "ends (let (dev_id, s) = virt_mmio_read (slot_device i) 0x008 y in
        Option.bind (uart_b2x dev_id s) (uart_putc 10)) Q" if y: "Q y" for y
      using read [OF y, of "slot_device i" 8] by (cases "virt_mmio_read (slot_device i) 8 y")
        (simp, erule ends_bind [OF said [OF _ says_b2x]], erule said [OF _ says_putc])
    show ?thesis
      unfolding v Let_def prod.case using d
      by (auto simp del: append_Cons append_Nil simp: Let_def
          intro!: puts [OF qv] ends_bind [OF puts [OF qv]] unknown [unfolded Let_def])
  qed
  show ?thesis
    unfolding probe_slot_def
    by (rule ends_bind [OF puts [OF Q]], rule ends_bind [OF said [OF _ says_b2x]], assumption,
        rule ends_bind [OF puts], assumption, erule body)
qed

lemma quiet_scan:
  assumes "Q s" "i \<le> j" "j \<le> Suc (unat VIRTIO_SLOTS)"
    and none: "\<And>t w n l. Q t \<Longrightarrow> i \<le> l \<Longrightarrow> l < j \<Longrightarrow> mmio_in t w n (slot_device l + 8) \<noteq> 1"
  shows "\<exists>t. Q t \<and> scan_loop buf i s = scan_loop buf j t"
  using assms
proof (induction "j - i" arbitrary: i s)
  case (Suc n)
  then have i: "i \<le> unat VIRTIO_SLOTS" "i < j" and n: "n = j - Suc i" by simp_all
  let ?d = "slot_device i"
  let ?f = "\<lambda>(magic, s). if magic = VIRTIO_MAGIC then
      let (vendor, s) = virt_mmio_read ?d 0x00c s in if vendor = QEMU_VENDOR_ID then probe_slot buf i ?d s else Some s
    else Some s"
  have "ends (probe_slot buf i ?d u) Q" if "Q u" for u
    by (rule quiet_slot [OF that]) (use Suc.prems(4) i(2) in auto)
  then have "ends (?f (virt_mmio_read ?d 0 s)) Q"
    using read [OF Suc.prems(1), of ?d 0] read [of "snd (virt_mmio_read ?d 0 s)" ?d "0x00c"]
    by (auto simp: Let_def split: prod.split)
  then obtain t where t: "?f (virt_mmio_read ?d 0 s) = Some t" "Q t" by (auto simp: ends_def)
  have "scan_loop buf i s = Option.bind (?f (virt_mmio_read ?d 0 s)) (scan_loop buf (Suc i))"
    using i(1) by (subst scan_loop.simps, cases "virt_mmio_read ?d 0 s") (simp only: Let_def if_True prod.case)
  then have "scan_loop buf i s = scan_loop buf (Suc i) t" unfolding t(1) by simp
  moreover have "\<exists>u. Q u \<and> scan_loop buf (Suc i) t = scan_loop buf j u"
    by (rule Suc.hyps(1) [OF n t(2)]) (use i Suc.prems(3,4) in auto)
  ultimately show ?case by simp
qed auto

end

text \<open>If register writes and barriers preserve it too, it is kept by the handshake, which returns.\<close>

locale driver_kept = console_kept +
  assumes reg_write: "Q s \<Longrightarrow> Q (virt_mmio_write dev off v s)"
    and barrier: "Q s \<Longrightarrow> Q (mem_barrier s)"
begin

lemma waited: "Q s \<Longrightarrow> wait_used qi s = Some t \<Longrightarrow> Q t"
proof -
  have "Q ((mem_barrier ^^ n) s)" if "Q s" for n using that by (induction n) (auto intro: barrier)
  then show "Q s \<Longrightarrow> wait_used qi s = Some t \<Longrightarrow> Q t" using wait_used_Some by blast
qed

lemma setup_queue: "Q s \<Longrightarrow> ends (virt_mmio_setup_queue dev i qu s) (\<lambda>(ret, t). Q t)"
  unfolding virt_mmio_setup_queue_def virt_mmio_read_def Let_def
  by (auto intro!: barrier reg_write reg_read ends_bind [OF puts])

lemma setup_queues: "Q s \<Longrightarrow> ends (setup_queues_loop dev i s) (\<lambda>(ret, t). Q t)"
proof (induction "VIRTIO_NET_QUEUE_COUNT - i" arbitrary: i s)
  case 0
  then show ?case by (subst setup_queues_loop.simps) simp
next
  case (Suc n)
  then have i: "i < VIRTIO_NET_QUEUE_COUNT" and n: "n = VIRTIO_NET_QUEUE_COUNT - Suc i" by simp_all
  show ?case
    by (subst setup_queues_loop.simps)
      (use i in \<open>auto intro!: ends_bind [OF setup_queue [OF Suc.prems]] Suc.hyps(1) [OF n]\<close>)
qed

lemma finish: "Q s \<Longrightarrow> ends (negotiation_finish dev s) (\<lambda>(ret, t). Q t)"
  unfolding negotiation_finish_def virt_mmio_read_def Let_def
  by (rule ends_bind [OF setup_queues], assumption)
    (auto intro!: barrier reg_write reg_read ends_bind [OF puts])

lemma negotiation: "Q s \<Longrightarrow> ends (virt_mmio_negotiation dev s) (\<lambda>(ret, t). Q t)"
  unfolding virt_mmio_negotiation_def virt_mmio_read_def Let_def
  by (rule ends_bind [OF puts], assumption)
    (auto intro!: finish reg_write reg_read ends_bind [OF puts])

end

text \<open>A machine whose devices have only been looked at.\<close>

interpretation probe: console_kept "\<lambda>t. probed s W t \<and> uart_live s" for s W
proof unfold_locales
  fix t :: "'a net_scheme"
  assume t: "probed s W t \<and> uart_live s"
  then show "uart_live t" using probed_facts [of s W t] by (simp add: uart_live_def)
  show "probed s W (t\<lparr>uart_rd := k, uart_wr := w\<rparr>) \<and> uart_live s" "probed s W (t\<lparr>mmio_rd := n\<rparr>) \<and> uart_live s" for k w n
    using t unfolding probed_def by (cases s, cases t, simp)+
qed

text \<open>The receive queue.\<close>

definition rx_ready :: "virtio_net_queue \<Rightarrow> u16 list \<Rightarrow> 'a net_scheme \<Rightarrow> bool" where
  "rx_ready q h s \<longleftrightarrow> queue s VIRTIO_NET_RX_QUEUE = q \<and> rx_ok s h \<and> rx_respected s \<and> uart_live s"

lemma rx_ready_frame [simp]:
  "rx_ready q h (s\<lparr>uart_rd := k, uart_wr := w\<rparr>) = rx_ready q h s" "rx_ready q h (virt_mmio_write dev off v s) = rx_ready q h s"
  "rx_ready q h (s\<lparr>mmio_rd := n\<rparr>) = rx_ready q h s"
  by (simp_all add: rx_ready_def rx_ok_def rx_respected_def uart_live_def virt_mmio_write_def queue_def)

lemma rx_ready_barrier: "rx_ready q h s \<Longrightarrow> rx_ready q h (mem_barrier s)"
  using rx_barrier [of s] by (simp add: rx_ready_def uart_live_def mem_barrier_def queue_def)

interpretation rx: driver_kept "rx_ready q h" for q h
  by unfold_locales (simp add: rx_ready_def, simp_all add: rx_ready_barrier)

section \<open>The MAC address\<close>

definition mac_report :: "u8 list \<Rightarrow> u8 list" where
  "mac_report bs = lit ''MAC Address: '' @ join 58 (map (\<lambda>b. lit ''0x'' @ hex_text 8 (unat b)) bs) @ [10]"

lemma unat_ucast_byte: "unat (ucast (b :: u8) :: u32) = unat b"
  by (simp add: unat_ucast_up)

lemma says_mac_loop:
  assumes "i < 6"
  shows "uart.says (mac_report_loop mac i s) s
    (join 58 (map (\<lambda>i. lit ''0x'' @ hex_text 8 (unat (mem s (mac + of_nat i)))) [i..<6]))"
  using assms
proof (induction "5 - i" arbitrary: i s)
  case 0
  then have i: "i = 5" by simp
  have e: "mac_report_loop mac 6 t = Some t" for t :: "'a machine_scheme" by (subst mac_report_loop.simps) simp
  have "mac_report_loop mac 5 s = Option.bind (uart_b2x (ucast (mem s (mac + of_nat 5))) s) Some"
    by (subst mac_report_loop.simps) (simp add: e)
  then show ?case
    unfolding i using says_b2x [of "ucast (mem s (mac + of_nat 5))" s] by (simp add: join_def unat_ucast_byte)
next
  case (Suc d)
  then have i: "Suc i < 6" and d: "d = 5 - Suc i" by simp_all
  let ?b = "mem s (mac + of_nat i)"
  have step: "mac_report_loop mac i s = Option.bind (uart_b2x (ucast ?b) s)
      (\<lambda>s. Option.bind (uart_putc 58 s) (mac_report_loop mac (Suc i)))"
    using i by (subst mac_report_loop.simps) simp
  have rest: "uart.says (mac_report_loop mac (Suc i) t) t
      (join 58 (map (\<lambda>i. lit ''0x'' @ hex_text 8 (unat (mem s (mac + of_nat i)))) [Suc i..<6]))" if "mem t = mem s"
    for t :: "'a machine_scheme"
    using Suc.hyps(1) [OF d i, of t] that by simp
  have b: "uart.says (uart_b2x (ucast ?b) s) s (lit ''0x'' @ hex_text 8 (unat ?b))"
    using says_b2x [of "ucast ?b" s] by (simp add: unat_ucast_byte)
  show ?case
    unfolding step join_upt [OF i]
    by (rule uart.says_bind b says_putc rest | (drule uart_emits_mem)+, simp)+
qed

lemma says_get_mac:
  "uart.says (virt_mmio_net_get_mac_address dev mac s) (s\<lparr>mem := mem_copy mac (dev + 0x100) 6 (mem s)\<rparr>)
     (mac_report (bytes (mem_copy mac (dev + 0x100) 6 (mem s)) mac 6))"
  for s :: "'a net_scheme"
proof -
  let ?m = "mem_copy mac (dev + 0x100) 6 (mem s)"
  have loop: "uart.says (mac_report_loop mac 0 t) t
      (join 58 (map (\<lambda>b. lit ''0x'' @ hex_text 8 (unat b)) (bytes ?m mac 6)))" if "mem t = ?m" for t :: "'a net_scheme"
    using says_mac_loop [of 0 mac t] that by (simp add: bytes_def comp_def)
  show ?thesis
    unfolding virt_mmio_net_get_mac_address_def virt_mmio_read_config_def Let_def mac_report_def VIRTIO_MMIO_CONFIG_def
    by (simp, (rule uart.says_bind says_puts says_putc loop | (drule uart_emits_mem)+, simp | simp)+)
qed

lemma get_mac_ready:
  assumes r: "rx_ready q h s" and mac: "\<And>i. i < 6 \<Longrightarrow> \<not> in_rng (ring q) 4612 (mac + of_nat i)"
  shows "ends (virt_mmio_net_get_mac_address dev mac s) (\<lambda>t. rx_ready q h t \<and>
    uart_emits (s\<lparr>mem := mem_copy mac (dev + 0x100) 6 (mem s)\<rparr>) (mac_report (bytes (mem t) mac 6)) t)"
proof -
  let ?m = "mem_copy mac (dev + 0x100) 6 (mem s)"
  let ?s = "s\<lparr>mem := ?m\<rparr>"
  have "?m x = mem s x" if x: "in_rng (ring q) 4612 x" for x
  proof (rule mem_copy_outside, rule notI)
    assume "in_rng mac (unat (6 :: u32)) x"
    then obtain i where "i < 6" "x = mac + of_nat i" by (auto elim!: in_rngE)
    with mac x show False by blast
  qed
  then have ag: "agree (ring q) (buffers q) 0 ?m (mem s)" by (auto simp: agree_def owned_def in_rng_def)
  then have rs: "rx_ready q h ?s"
    using r queue_ok_agree [OF ag] by (auto simp: rx_ready_def rx_ok_def rx_respected_def queue_def)
  note says = says_get_mac [of dev mac s]
  from uart.says_total [OF says] rs obtain t where t: "virt_mmio_net_get_mac_address dev mac s = Some t"
    "uart_emits ?s (mac_report (bytes ?m mac 6)) t" by (auto simp: rx_ready_def)
  moreover have "rx_ready q h t" using t(2) rs by (auto simp: uart_emits_def)
  ultimately show ?thesis using uart_emits_mem [OF t(2)] by simp
qed

section \<open>The bring-up\<close>

text \<open>The register writes before the queues are set up: a feature page selected by the report, and
  the reset.\<close>

definition reset_writes :: "u64 \<Rightarrow> (u64 \<times> u32) list" where
  "reset_writes dev = [(dev + 0x14, 1), (dev + 0x70, 0)]"

lemma says_net_failed: "uart.says (uart_puts msg_net_failed s) s msg_net_failed"
  unfolding msg_net_failed_def by (rule says_puts) simp

text \<open>Report and reset.\<close>

lemma start_net_resets:
  fixes s :: "'a net_scheme"
  assumes live: "uart_live s"
  obtains s1 where "probed s (reset_writes dev) s1"
    "start_net mac dev s = do {
      (ret, s) \<leftarrow> virt_mmio_net_virtq_init dev s1;
      (ret, s) \<leftarrow> (if ret \<noteq> 0 then Some (ret, s) else virt_mmio_negotiation dev s);
      if ret \<noteq> 0 then uart_puts msg_net_failed s
      else do { s \<leftarrow> virt_mmio_net_get_mac_address dev mac s; virt_mmio_net_poll_rx dev 0 2048 s } }"
proof -
  have found: "uart.says (uart_puts (lit (''Found Virtio Network Device.'' @ [CHR 0x0A])) s) s
      (lit (''Found Virtio Network Device.'' @ [CHR 0x0A]))" by (rule says_puts) simp
  from probed_says [OF probed_refl live found] obtain sa where
    sa: "uart_puts (lit (''Found Virtio Network Device.'' @ [CHR 0x0A])) s = Some sa" "probed s [] sa" by (auto simp: ends_def)
  from device_info_probed [OF sa(2) live, of dev] obtain sb where
    sb: "virt_print_device_info dev sa = Some sb" "probed s [(dev + 0x14, 1)] sb" by (auto simp: ends_def)
  have "probed s (reset_writes dev) (virt_mmio_write dev VIRTIO_MMIO_STATUS 0 sb)"
    using probed_write [OF sb(2), of dev VIRTIO_MMIO_STATUS 0] by (simp add: reset_writes_def VIRTIO_MMIO_STATUS_def)
  then show ?thesis by (rule that) (simp only: start_net_def sa(1) sb(1) bind.bind_lunit Let_def)
qed

lemma start_net_effect:
  fixes s :: "'a net_scheme"
  assumes inv: "alloc_inv s" and live: "uart_live s" and pair: "pair_ok s"
    and idle: "\<And>n m. dma_in s (mmio_wr s @ reset_writes dev) n m = m"
    and mac: "\<And>i. i < 6 \<Longrightarrow> \<not> covered (free_pages s) (mac + of_nat i)"
  shows "\<exists>s1 res s2. probed s (reset_writes dev) s1 \<and> virt_mmio_net_virtq_init dev s1 = Some (res, s2) \<and>
    (res \<noteq> 0 \<longrightarrow> (\<exists>s'. start_net mac dev s = Some s' \<and> uart_emits s2 msg_net_failed s')) \<and>
    (res = 0 \<and> rx_respected s2 \<longrightarrow> (\<exists>ret s3. virt_mmio_negotiation dev s2 = Some (ret, s3) \<and>
      (ret \<noteq> 0 \<longrightarrow> (\<exists>s'. start_net mac dev s = Some s' \<and> uart_emits s3 msg_net_failed s')) \<and>
      (ret = 0 \<longrightarrow> (\<exists>s4. start_net mac dev s = virt_mmio_net_poll_rx dev 0 2048 s4 \<and>
         rx_ok s4 (map of_nat [0..<256]) \<and> rx_respected s4 \<and> uart_live s4 \<and>
         queue s4 VIRTIO_NET_RX_QUEUE = queue s2 VIRTIO_NET_RX_QUEUE \<and> last_used_idx (queue s4 VIRTIO_NET_RX_QUEUE) = 0 \<and>
         uart_emits (s3\<lparr>mem := mem_copy mac (dev + 0x100) 6 (mem s3)\<rparr>) (mac_report (bytes (mem s4) mac 6)) s4))))"
proof -
  obtain s1 where p: "probed s (reset_writes dev) s1" and reset: "start_net mac dev s = do {
      (ret, s) \<leftarrow> virt_mmio_net_virtq_init dev s1;
      (ret, s) \<leftarrow> (if ret \<noteq> 0 then Some (ret, s) else virt_mmio_negotiation dev s);
      if ret \<noteq> 0 then uart_puts msg_net_failed s
      else do { s \<leftarrow> virt_mmio_net_get_mac_address dev mac s; virt_mmio_net_poll_rx dev 0 2048 s } }"
    by (rule start_net_resets [OF live])
  have f: "uart_in s1 = uart_in s" "mem s1 = mem s" "net_queues s1 = net_queues s" "dma_in s1 = dma_in s"
    "mmio_wr s1 = mmio_wr s @ reset_writes dev" "alloc_inv s1 = alloc_inv s" "free_pages s1 = free_pages s"
    by (simp_all add: probed_facts [OF p])
  have "alloc_inv s1" "uart_live s1" "pair_ok s1" "dma_idle s1"
    using inv live pair idle f by (simp_all add: uart_live_def pair_ok_def dma_idle_def)
  from virtq_init_effect [OF this, of dev] obtain res s2 where
    s2: "virt_mmio_net_virtq_init dev s1 = Some (res, s2)" "uart_live s2"
    and ok: "res = 0 \<Longrightarrow> queue_ok (queue s2 VIRTIO_NET_RX_QUEUE) (mem s2) (map of_nat [0..<256]) \<and>
      last_used_idx (queue s2 VIRTIO_NET_RX_QUEUE) = 0 \<and> length (net_queues s2) = 2 \<and>
      in_pages (queue s2 VIRTIO_NET_RX_QUEUE) (free_pages s - free_pages s2)"
    unfolding Let_def f(7) by blast
  note run = reset [unfolded s2(1) bind.bind_lunit prod.case]
  have fails: "\<exists>s'. uart_puts msg_net_failed t = Some s' \<and> uart_emits t msg_net_failed s'" if "uart_live t" for t :: "'a net_scheme"
    using uart.says_total [OF says_net_failed that] by blast
  show ?thesis
  proof (rule exI [of _ s1], rule exI [of _ res], rule exI [of _ s2], intro conjI impI p s2(1))
    assume "res \<noteq> 0"
    with fails [OF s2(2)] show "\<exists>s'. start_net mac dev s = Some s' \<and> uart_emits s2 msg_net_failed s'" by (simp add: run)
  next
    let ?q = "queue s2 VIRTIO_NET_RX_QUEUE" and ?h = "map of_nat [0..<256] :: u16 list"
    assume "res = 0 \<and> rx_respected s2"
    then have z: "res = 0" and ready: "rx_ready ?q ?h s2"
      using ok s2(2) by (auto simp: rx_ready_def rx_ok_def VIRTIO_NET_QUEUE_COUNT_def)
    obtain ret s3 where s3: "virt_mmio_negotiation dev s2 = Some (ret, s3)" "rx_ready ?q ?h s3"
      using rx.negotiation [OF ready, of dev] by (auto simp: ends_def)
    have away: "\<not> in_rng (ring ?q) 4612 (mac + of_nat i)" if "i < 6" for i
      using mac [OF that] ok [OF z] covered_mono [of "free_pages s - free_pages s2" "free_pages s"]
        in_rng_mono [of "ring ?q" 4612 "mac + of_nat i" 6664] by (auto simp: in_pages_def)
    obtain s4 where s4: "virt_mmio_net_get_mac_address dev mac s3 = Some s4" "rx_ready ?q ?h s4"
      "uart_emits (s3\<lparr>mem := mem_copy mac (dev + 0x100) 6 (mem s3)\<rparr>) (mac_report (bytes (mem s4) mac 6)) s4"
      using get_mac_ready [OF s3(2) away, of dev] by (auto simp: ends_def)
    have go: "start_net mac dev s = virt_mmio_net_poll_rx dev 0 2048 s4" if "ret = 0"
      using that z s3(1) s4(1) by (simp add: run)
    have stop: "\<exists>s'. start_net mac dev s = Some s' \<and> uart_emits s3 msg_net_failed s'" if "ret \<noteq> 0"
      using that z s3 fails [of s3] by (simp add: run rx_ready_def)
    show "\<exists>ret s3. virt_mmio_negotiation dev s2 = Some (ret, s3) \<and>
      (ret \<noteq> 0 \<longrightarrow> (\<exists>s'. start_net mac dev s = Some s' \<and> uart_emits s3 msg_net_failed s')) \<and>
      (ret = 0 \<longrightarrow> (\<exists>s4. start_net mac dev s = virt_mmio_net_poll_rx dev 0 2048 s4 \<and>
         rx_ok s4 ?h \<and> rx_respected s4 \<and> uart_live s4 \<and> queue s4 VIRTIO_NET_RX_QUEUE = queue s2 VIRTIO_NET_RX_QUEUE \<and> last_used_idx (queue s4 VIRTIO_NET_RX_QUEUE) = 0 \<and>
         uart_emits (s3\<lparr>mem := mem_copy mac (dev + 0x100) 6 (mem s3)\<rparr>) (mac_report (bytes (mem s4) mac 6)) s4))"
      using s3(1) stop go s4(2,3) ok [OF z] unfolding rx_ready_def by metis
  qed
qed

text \<open>
  C8. Bringing up a network device. \<open>start_net\<close> reports on the device, resets it (two register writes) and
  initialises the queues. If that fails, it says so and returns without a further register write. If
  it succeeds, and the device does not write the driver's side of the receive ring from then on, the
  handshake returns; if it was refused, \<open>start_net\<close> says so and returns; otherwise it reads and prints
  the MAC address and goes over to the receive poll, in a state where all 256 receive buffers are
  offered and none is consumed, which is what the poll relies on.
\<close>

theorem start_net_brings_up:
  fixes s :: "'a net_scheme"
  assumes inv: "alloc_inv s" and live: "uart_live s" and pair: "pair_ok s"
    and idle: "\<And>n m. dma_in s (mmio_wr s @ reset_writes dev) n m = m"
    and mac: "\<And>i. i < 6 \<Longrightarrow> \<not> covered (free_pages s) (mac + of_nat i)"
  shows "\<exists>s1 res s2. probed s (reset_writes dev) s1 \<and> virt_mmio_net_virtq_init dev s1 = Some (res, s2) \<and>
    (res \<noteq> 0 \<longrightarrow> (\<exists>s'. start_net mac dev s = Some s' \<and> uart_emits s2 msg_net_failed s')) \<and>
    (res = 0 \<and> rx_respected s2 \<longrightarrow> (\<exists>ret s3. virt_mmio_negotiation dev s2 = Some (ret, s3) \<and>
      (ret \<noteq> 0 \<longrightarrow> (\<exists>s'. start_net mac dev s = Some s' \<and> uart_emits s3 msg_net_failed s')) \<and>
      (ret = 0 \<longrightarrow> (\<exists>s4. start_net mac dev s = virt_mmio_net_poll_rx dev 0 2048 s4 \<and>
         rx_ok s4 (map of_nat [0..<256]) \<and> rx_respected s4 \<and> uart_live s4 \<and>
         queue s4 VIRTIO_NET_RX_QUEUE = queue s2 VIRTIO_NET_RX_QUEUE \<and> last_used_idx (queue s4 VIRTIO_NET_RX_QUEUE) = 0 \<and>
         uart_emits (s3\<lparr>mem := mem_copy mac (dev + 0x100) 6 (mem s3)\<rparr>) (mac_report (bytes (mem s4) mac 6)) s4))))"
  using start_net_effect [OF assms] .

text \<open>The sample machine without a free page.\<close>

definition poor_net :: net where
  "poor_net = demo_net\<lparr>free_list := 0, free_page_count := 0\<rparr>"

lemma poor_net_facts: "alloc_inv poor_net" "free_pages poor_net = {}" "uart_live poor_net" "pair_ok poor_net"
proof -
  have "pages_ok poor_net []"
    using demo_net_facts(1) by (simp add: poor_net_def pages_ok_def heap_ok_def)
  then show "alloc_inv poor_net" "free_pages poor_net = {}" using alloc_invI [of poor_net] free_pages_eq [of poor_net "[]"] by auto
  show "uart_live poor_net" "pair_ok poor_net"
    using demo_net_facts(2,3) by (simp_all add: poor_net_def uart_live_def pair_ok_def)
qed

theorem start_net_brings_up_witness:
  "\<exists>s2 s'. start_net 0x600 0x10001000 poor_net = Some s' \<and> uart_emits s2 msg_net_failed s'"
proof -
  have idle: "dma_in poor_net w n m = m" for w n m by (simp add: poor_net_def demo_net_defs)
  have mac: "\<not> covered (free_pages poor_net) (0x600 + of_nat i)" for i by (simp add: poor_net_facts covered_def)
  obtain s1 res s2 where s: "probed poor_net (reset_writes 0x10001000) s1"
    "virt_mmio_net_virtq_init 0x10001000 s1 = Some (res, s2)"
    "res \<noteq> 0 \<longrightarrow> (\<exists>s'. start_net 0x600 0x10001000 poor_net = Some s' \<and> uart_emits s2 msg_net_failed s')"
    using start_net_brings_up [OF poor_net_facts(1,3,4) idle mac, of "0x10001000"] by blast
  note f = probed_facts [OF s(1)]
  have "alloc_inv s1" "uart_live s1" "pair_ok s1" "dma_idle s1"
    using poor_net_facts idle by (simp_all add: f uart_live_def pair_ok_def dma_idle_def)
  from virtq_init_effect [OF this, of "0x10001000"] s(2)
  have "res = 0 \<longrightarrow> in_pages (queue s2 VIRTIO_NET_RX_QUEUE) {}" unfolding f poor_net_facts(2) Let_def by auto
  moreover have "in_rng (ring q) 6664 (ring q)" for q by (simp add: in_rng_def)
  then have "\<not> in_pages q {}" for q unfolding in_pages_def covered_def by blast
  ultimately show ?thesis using s(3) by blast
qed

end
