(* ===== verification/Virtio_Kept.thy ===== *)
theory Virtio_Kept
  imports Virtio_Bringup Virtio_Tx
begin

text \<open>
  What a driver call on one queue leaves alone: a property of the state that does not depend on that
  queue, and only on memory outside an area that contains the queue, is kept by every call that
  works on it, through all the barriers at which the device acts.
\<close>

declare lit_Cons [simp del]

section \<open>Accesses of the calls\<close>

lemma avail_writes_in_ring:
  assumes "\<not> in_rng r 6664 y"
  shows "avail_put r 256 d m y = m y" "avail_bump r m y = m y"
proof -
  have off: "\<not> in_rng (r + of_nat a) 2 y" if "a + 2 \<le> 6664" for a
    using assms in_rng_sub [of r a 2 y 6664] that by auto
  let ?k = "ucast (ld16 m (avail_idx r) mod 256) :: u64"
  have "unat (ld16 m (avail_idx r) mod 256) < 256" by (simp add: unat_mod)
  then have k: "unat ?k < 256" by (simp add: unat_ucast_up)
  have "avail_ring r ?k = r + of_nat (4100 + 2 * unat ?k)" using ring_offsets(6) [of r "unat ?k"] by simp
  then have "\<not> in_rng (avail_ring r ?k) 2 y" using off [of "4100 + 2 * unat ?k"] k by simp
  then show "avail_put r 256 d m y = m y" unfolding avail_put_def by (rule st16_outside)
  have "\<not> in_rng (avail_idx r) 2 y" unfolding ring_offsets by (rule off) simp
  then show "avail_bump r m y = m y" unfolding avail_bump_def by (rule st16_outside)
qed

definition queue_area :: "virtio_net_queue \<Rightarrow> u64 \<Rightarrow> bool" where
  "queue_area q y \<longleftrightarrow> in_rng (ring q) 6664 y \<or> in_rng (buffers q) 524288 y"

section \<open>What the calls keep\<close>

locale area_kept = driver_kept +
  fixes A :: "u64 \<Rightarrow> bool" and j :: nat
  assumes area_write: "Q s \<Longrightarrow> (\<And>x. \<not> A x \<Longrightarrow> m x = mem s x) \<Longrightarrow> Q (s\<lparr>mem := m\<rparr>)"
    and own_queue: "Q s \<Longrightarrow> Q (set_queue j f s)"
begin

lemma published:
  assumes Q: "Q s" and r: "\<And>y. in_rng r 6664 y \<Longrightarrow> A y"
  shows "Q (s\<lparr>mem := avail_put r 256 d (mem s)\<rparr>)" "Q (s\<lparr>mem := avail_bump r (mem s)\<rparr>)"
  by (rule area_write [OF Q], rule avail_writes_in_ring, use r in blast)+

lemma recycled:
  assumes Q: "Q s" and j: "j = VIRTIO_NET_RX_QUEUE" and sz: "qsize (queue s j) = 256"
    and r: "\<And>y. in_rng (ring (queue s j)) 6664 y \<Longrightarrow> A y"
  shows "Q (rx_recycle dev d s)"
  unfolding rx_recycle_def Let_def j [symmetric] sz
  by (intro reg_write barrier own_queue published(2) published(1) Q r)

lemma handled:
  assumes Q2: "Q s2" "rx_ready q h s2" and j: "j = VIRTIO_NET_RX_QUEUE" and r: "\<And>y. in_rng (ring q) 6664 y \<Longrightarrow> A y"
    and run: "rx_handle dev L s2 = Some s'"
  shows "Q s'"
proof -
  let ?Q = "\<lambda>u. Q u \<and> rx_ready q h u"
  have qs: "qsize (queue s2 VIRTIO_NET_RX_QUEUE) = 256" "uart_live s2"
    using Q2(2) by (auto simp: rx_ready_def rx_ok_def queue_ok_def)
  obtain s3 cs where s3: "uart_emits s2 cs s3" "rx_handle dev L s2 = rx_rest dev L s3"
    using rx_handle_head [of s2 dev L] qs by blast
  have Q3: "?Q s3" using Q2 emitted [OF s3(1)] rx.emitted [OF s3(1)] by blast
  have rest: "rx_rest dev L s3 = Some s'" using run s3(2) by simp
  obtain e n where e: "used_elem s3 = (e, n)" by force
  show ?thesis
  proof (cases "e \<ge> 256")
    case True
    then show ?thesis using rest e puts [of s3 msg_bad_desc] Q3 by (auto simp: rx_rest_def ends_def)
  next
    case False
    let ?fr = "ld64 (mem s3) (desc_addr (ring (queue s3 VIRTIO_NET_RX_QUEUE)) (ucast e)) + sizeof_virtio_net_hdr"
    obtain u1 where u1: "report_frame ?fr s3 = Some u1" "uart_emits s3 (frame_text (mem s3) ?fr) u1"
      using uart.says_total [OF says_report_frame] live Q3 by blast
    have Q4: "?Q u1" using Q3 emitted [OF u1(2)] rx.emitted [OF u1(2)] by blast
    define u2 where "u2 = rx_recycle dev (ucast e) u1"
    have c2: "Q u2"
      unfolding u2_def by (rule recycled) (use Q4 r j in \<open>auto simp: rx_ready_def rx_ok_def queue_ok_def\<close>)
    have "ends (do {
        v \<leftarrow> uart_puts (lit ''Received data length: '') u2;
        v \<leftarrow> uart_b2x x v;
        v \<leftarrow> uart_putc 10 v;
        uart_puts msg_poll_done v
      }) Q" for x
      by (rule ends_bind [OF puts [OF c2]], rule ends_bind [OF said [OF _ says_b2x]], assumption,
          rule ends_bind [OF said [OF _ says_putc]], assumption, erule puts)
    from this [of "(if n > L then L else n) - ucast sizeof_virtio_net_hdr"] show ?thesis
      using rest e False u1(1) unfolding rx_rest_def u2_def by (auto simp: ends_def Let_def)
  qed
qed

lemma polled:
  fixes s
  assumes Q: "Q s" and rx: "rx_ready q h s" and j: "j = VIRTIO_NET_RX_QUEUE" and r: "\<And>y. in_rng (ring q) 6664 y \<Longrightarrow> A y"
    and run: "virt_mmio_net_poll_rx dev buf L s = Some s'"
  shows "Q s'"
proof -
  let ?Q = "\<lambda>u. Q u \<and> rx_ready q h u"
  obtain s1 where s1: "uart_puts msg_polling s = Some s1" "?Q s1"
    using puts [OF Q, of msg_polling] rx.puts [OF rx, of msg_polling] by (auto simp: ends_def)
  obtain s2 where s2: "wait_used VIRTIO_NET_RX_QUEUE s1 = Some s2" "rx_handle dev L s2 = Some s'"
    using run s1(1) by (auto simp: virt_mmio_net_poll_rx_def bind_eq_Some_conv)
  have "?Q s2" using s1(2) s2(1) waited rx.waited by blast
  with handled [OF _ _ j r s2(2)] show ?thesis by blast
qed

lemma sent:
  fixes s
  assumes Q: "Q s" and ok: "tx_ok s h" and j: "j = VIRTIO_NET_TX_QUEUE"
    and area: "\<And>y. queue_area (queue s j) y \<Longrightarrow> A y"
    and src: "rng_disj (buffers (queue s j)) 524288 data (unat len)"
    and run: "virt_mmio_net_send dev data len s = Some s'"
  shows "Q s'"
proof -
  define q where "q = queue s VIRTIO_NET_TX_QUEUE"
  define d where "d = find_free (in_use q) 256 0 (next_desc q)"
  have q: "length (in_use q) = 256" "next_desc q < 256" "rng_disj (ring q) 6664 (buffers q) 524288"
    using ok by (simp_all add: q_def tx_ok_def queue_ok_def)
  obtain s1 where s1: "uart_puts msg_sending s = Some s1" "Q s1" using puts [OF Q] by (auto simp: ends_def)
  note un = send_unfold [OF ok s1(1), of dev data len, folded q_def, unfolded Let_def, folded d_def]
  consider "len > QUEUE_BUF_SIZE \<or> in_use q ! unat d \<noteq> 0" | "len \<le> 2048" "in_use q ! unat d = 0"
    unfolding QUEUE_BUF_SIZE_def by fastforce
  then show ?thesis
  proof cases
    case 1
    then show ?thesis using run puts [OF s1(2), of msg_too_long] puts [OF s1(2), of msg_no_desc]
      by (auto simp: un ends_def split: if_splits)
  next
    case 2
    let ?m = "fill_desc (ring q) (buffers q + of_nat (2048 * unat d)) data len d (mem s1)"
    have d: "d < 256" using find_free_spec(1) [OF q(1,2)] by (simp add: d_def)
    have d': "unat d < 256" and len': "unat len \<le> 2048" using d 2(1) by (simp_all add: word_less_nat_alt word_le_nat_alt)
    have a: "\<And>y. in_rng (ring q) 6664 y \<Longrightarrow> A y" "\<And>y. in_rng (buffers q) 524288 y \<Longrightarrow> A y"
      using area by (auto simp: queue_area_def q_def j)
    have "?m x = mem s1 x" if "\<not> A x" for x
      by (rule fill_desc_effect(6) [OF q(3) d 2(1) src [folded q_def, unfolded j, folded q_def]])
        (use a that buffer_inside [OF d' len'] in_rng_mono [of "ring q" 4096 x 6664] in force)+
    from area_write [OF s1(2) this] have "Q (s1\<lparr>mem := ?m\<rparr>)" .
    from published(1) [OF this a(1), where d = d] have w: "Q (s1\<lparr>mem := avail_put (ring q) 256 d ?m\<rparr>)" by simp
    have c: "\<not> QUEUE_BUF_SIZE < len" "\<not> in_use q ! unat d \<noteq> 0" using 2 by (simp_all add: QUEUE_BUF_SIZE_def)
    note r = run [unfolded un if_not_P [OF c(1)] if_not_P [OF c(2)] option.inject]
    show ?thesis
      unfolding r [symmetric] by (intro reg_write barrier published(2) own_queue [unfolded j] w a(1))
  qed
qed

end

section \<open>One queue and the allocator\<close>

text \<open>The device writes no free page's link, whatever it does at a barrier.\<close>

definition dma_away :: "u64 set \<Rightarrow> 'a net_scheme \<Rightarrow> bool" where
  "dma_away F t \<longleftrightarrow> (\<forall>w n m p y. p \<in> F \<longrightarrow> in_rng p 8 y \<longrightarrow> dma_in t w n m y = m y)"

lemma free_pages_frame:
  "alloc_inv (s\<lparr>uart_rd := k, uart_wr := w\<rparr>) = alloc_inv s" "free_pages (s\<lparr>uart_rd := k, uart_wr := w\<rparr>) = free_pages s"
  "alloc_inv (s\<lparr>mmio_rd := n\<rparr>) = alloc_inv s" "free_pages (s\<lparr>mmio_rd := n\<rparr>) = free_pages s"
  "alloc_inv (virt_mmio_write dev off v s) = alloc_inv s" "free_pages (virt_mmio_write dev off v s) = free_pages s"
  "alloc_inv (s\<lparr>dma_rd := n\<rparr>) = alloc_inv s" "free_pages (s\<lparr>dma_rd := n\<rparr>) = free_pages s"
  "alloc_inv (set_queue i f s) = alloc_inv s" "free_pages (set_queue i f s) = free_pages s"
  for s :: "'a net_scheme"
  by (simp_all add: alloc_inv_def free_pages_def pages_ok_def heap_ok_def page_ok_def virt_mmio_write_def set_queue_def)

lemma dma_away_simps [simp]: "dma_away F (t\<lparr>mem := m\<rparr>) = dma_away F t" "dma_away F (set_queue i f t) = dma_away F t"
  "dma_away F (mem_barrier t) = dma_away F t" "dma_away F (virt_mmio_write dev off v t) = dma_away F t"
  "dma_away F (t\<lparr>uart_rd := k, uart_wr := w\<rparr>) = dma_away F t" "dma_away F (t\<lparr>mmio_rd := n\<rparr>) = dma_away F t"
  by (simp_all add: dma_away_def set_queue_def mem_barrier_def virt_mmio_write_def)

lemma heap_kept_write:
  assumes "alloc_inv t" "\<And>p y. p \<in> free_pages t \<Longrightarrow> in_rng p 8 y \<Longrightarrow> m y = mem t y"
  shows "alloc_inv (t\<lparr>mem := m\<rparr>) \<and> free_pages (t\<lparr>mem := m\<rparr>) = free_pages t"
  using assms pages.wr_inv [of t m] by blast

lemma heap_kept_barrier:
  assumes "alloc_inv t" "dma_away (free_pages t) t"
  shows "alloc_inv (mem_barrier t) \<and> free_pages (mem_barrier t) = free_pages t"
proof -
  have "alloc_inv (t\<lparr>mem := m\<rparr>) \<and> free_pages (t\<lparr>mem := m\<rparr>) = free_pages t"
    if "m = dma_in t (mmio_wr t) (dma_rd t) (mem t)" for m
    unfolding that by (rule heap_kept_write) (use assms in \<open>auto simp: dma_away_def\<close>)
  then show ?thesis unfolding mem_barrier_def by (simp add: free_pages_frame)
qed

lemma free_apart:
  assumes "alloc_inv s" "P \<subseteq> free_pages s" "Q \<subseteq> free_pages s" "P \<inter> Q = {}" "covered P y"
  shows "\<not> covered Q y"
proof -
  obtain xs where xs: "pages_ok s xs" using assms(1) by (auto simp: alloc_inv_def)
  with assms(2-5) covered_disj [OF xs, of P Q y] show ?thesis by (simp add: free_pages_eq [OF xs])
qed

text \<open>Queue \<open>i\<close> is \<open>q\<close>, well-formed, with \<open>h\<close> published; the device leaves the driver's part of it, with the
  first \<open>n\<close> bytes of its buffers, alone, and so it does the free pages \<open>F\<close>.\<close>

definition side :: "nat \<Rightarrow> virtio_net_queue \<Rightarrow> u16 list \<Rightarrow> nat \<Rightarrow> u64 set \<Rightarrow> 'a net_scheme \<Rightarrow> bool" where
  "side i q h n F t \<longleftrightarrow> length (net_queues t) = VIRTIO_NET_QUEUE_COUNT \<and> queue t i = q \<and> queue_ok q (mem t) h \<and>
     (\<forall>w k m. agree (ring q) (buffers q) n (dma_in t w k m) m) \<and>
     alloc_inv t \<and> free_pages t = F \<and> dma_away F t \<and> uart_live t"

definition clear :: "nat \<Rightarrow> virtio_net_queue \<Rightarrow> u64 set \<Rightarrow> (u64 \<Rightarrow> bool) \<Rightarrow> nat \<Rightarrow> bool" where
  "clear i q F A j \<longleftrightarrow> i \<noteq> j \<and> (\<forall>x. A x \<longrightarrow> \<not> in_rng (ring q) 4612 x \<and> (\<forall>p\<in>F. \<not> in_rng p 8 x))"

lemma side_barrier:
  assumes s: "side i q h n F t"
  shows "side i q h n F (mem_barrier t)"
proof -
  have "agree (ring q) (buffers q) n (mem (mem_barrier t)) (mem t)" using s by (simp add: side_def)
  from queue_ok_agree [OF this] heap_kept_barrier [of t] s show ?thesis
    by (simp add: side_def) (simp add: uart_live_def mem_barrier_def)
qed

lemma side_write:
  assumes s: "side i q h n F t" and A: "clear i q F A j" and m: "\<And>x. \<not> A x \<Longrightarrow> m x = mem t x"
  shows "side i q h n F (t\<lparr>mem := m\<rparr>)"
proof -
  have "agree (ring q) (buffers q) 0 m (mem t)" using A m by (auto simp: agree_def owned_def clear_def in_rng_def)
  from queue_ok_agree [OF this] have "queue_ok q m h = queue_ok q (mem t) h" by auto
  moreover have "alloc_inv (t\<lparr>mem := m\<rparr>) \<and> free_pages (t\<lparr>mem := m\<rparr>) = free_pages t"
    by (rule heap_kept_write) (use s A m in \<open>auto simp: side_def clear_def\<close>)
  ultimately show ?thesis using s by (auto simp: side_def uart_live_def queue_def)
qed

interpretation side: driver_kept "side i q h n F" for i q h n F
proof unfold_locales
  fix t :: "'a net_scheme"
  assume t: "side i q h n F t"
  show "uart_live t" using t by (simp add: side_def)
  show "side i q h n F (t\<lparr>uart_rd := k, uart_wr := w\<rparr>)" "side i q h n F (t\<lparr>mmio_rd := l\<rparr>)"
    "side i q h n F (virt_mmio_write dev off v t)" for k w l dev off v
    using t by (auto simp: side_def free_pages_frame) (auto simp: uart_live_def queue_def virt_mmio_write_def)
  show "side i q h n F (mem_barrier t)" by (rule side_barrier [OF t])
qed

interpretation other: area_kept "\<lambda>t. side i q h n F t \<and> clear i q F A j" A j for i q h n F A j
proof unfold_locales
  fix t :: "'a net_scheme"
  assume t: "side i q h n F t \<and> clear i q F A j"
  show "side i q h n F (t\<lparr>mem := m\<rparr>) \<and> clear i q F A j" if "\<And>x. \<not> A x \<Longrightarrow> m x = mem t x" for m
    using t side_write [OF _ _ that] by blast
  show "side i q h n F (set_queue j f t) \<and> clear i q F A j" for f
    using t by (auto simp: side_def clear_def free_pages_frame) (auto simp: set_queue_def queue_def)
qed (auto intro: side.live side.console side.reg_read side.reg_write side.barrier)

end
