(* ===== verification/Virtio_Used.thy ===== *)
theory Virtio_Used
  imports Virtio_Kept
begin

text \<open>
  The used ring, and what the device promises about it. A queue has two histories: \<open>h\<close>, every descriptor the driver
  has published in the available ring, and \<open>u\<close>, every descriptor the device has put into the used
  ring, both read from memory (\<open>avail_rep\<close>, \<open>used_rep\<close>). What is in \<open>h\<close> and not in \<open>u\<close> is with the device.

  \<open>obeys I r t\<close> is the contract of the device, by the VirtIO standard: it may return at a barrier any of the
  descriptors it has, and nothing else. \<open>I h u\<close> says which pairs of histories a device can have; a device that
  works in order has \<open>u = take (length u) h\<close>. The driver's own books, the index of the last element it has looked
  at and the \<^verbatim>\<open>in_use\<close> flags, lag behind \<open>u\<close>; \<open>books\<close> and \<open>marked\<close> say how.
\<close>

declare lit_Cons [simp del]

section \<open>The used ring in memory\<close>

definition used_rep :: "u64 \<Rightarrow> memory \<Rightarrow> u16 list \<Rightarrow> bool" where
  "used_rep r m u \<longleftrightarrow> ld16 m (used_idx r) = of_nat (length u) \<and>
     (\<forall>k < length u. length u \<le> k + DESC_QUEUE_SIZE \<longrightarrow> ld32 m (used_id r (of_nat (k mod DESC_QUEUE_SIZE))) = ucast (u ! k))"

definition in_used :: "u64 \<Rightarrow> u64 \<Rightarrow> bool" where
  "in_used r x \<longleftrightarrow> in_rng r 6664 x \<and> \<not> in_rng r 4612 x"

lemma in_used_off:
  assumes "4612 \<le> a" "a + n \<le> 6664" "in_rng (r + of_nat a) n x"
  shows "in_used r x"
  using in_rng_off [OF _ assms(3)] assms(1,2) by (simp add: in_used_def in_rng_def)

lemma used_rep_cong:
  assumes "\<And>x. in_used r x \<Longrightarrow> m' x = m x"
  shows "used_rep r m' u \<longleftrightarrow> used_rep r m u"
proof -
  have "ld16 m' (r + of_nat 4614) = ld16 m (r + of_nat 4614)"
    by (rule ld16_cong, rule assms, rule in_used_off [of 4614 2]) simp_all
  moreover have "ld32 m' (r + of_nat (4616 + 8 * (k mod 256))) = ld32 m (r + of_nat (4616 + 8 * (k mod 256)))" for k
  proof (rule ld32_cong, rule assms, rule in_used_off)
    have "k mod 256 < 256" by simp
    then show "4616 + 8 * (k mod 256) + 4 \<le> 6664" by linarith
  qed simp_all
  ultimately show ?thesis unfolding used_rep_def ring_offsets DESC_QUEUE_SIZE_def by simp
qed

lemma ucast_16_32: "(ucast (ucast (d :: u16) :: u32) :: u16) = d"
  by (rule bit_eqI) (auto simp: bit_simps)

lemma used_slot:
  "used_id r (ucast ((of_nat n :: u16) mod 256)) = used_id r (of_nat (n mod DESC_QUEUE_SIZE))"
  using idx_slot [of n] by (simp add: DESC_QUEUE_SIZE_def)

text \<open>The elements that have been added to the used ring, and to the available ring, from one memory to another.\<close>

definition returned :: "u64 \<Rightarrow> memory \<Rightarrow> memory \<Rightarrow> u16 list" where
  "returned r m m' =
     (let i = ld16 m (used_idx r)
      in map (\<lambda>k. ucast (ld32 m' (used_id r (ucast ((i + of_nat k) mod 256))))) [0..<unat (ld16 m' (used_idx r) - i)])"

definition published :: "u64 \<Rightarrow> memory \<Rightarrow> memory \<Rightarrow> u16 list" where
  "published r m m' =
     (let i = ld16 m (avail_idx r)
      in map (\<lambda>k. ld16 m' (avail_ring r (ucast ((i + of_nat k) mod 256)))) [0..<unat (ld16 m' (avail_idx r) - i)])"

lemma returned_eq:
  assumes "used_rep r m u" "used_rep r m' (u @ v)" "length v \<le> 256"
  shows "returned r m m' = v"
proof -
  have "unat (of_nat (length v) :: u16) = length v" using assms(3) by (intro unat_of_nat_lt) simp
  then have n: "unat (ld16 m' (used_idx r) - ld16 m (used_idx r)) = length v" using assms(1,2) by (simp add: used_rep_def)
  have "ucast (ld32 m' (used_id r (ucast ((ld16 m (used_idx r) + of_nat k) mod 256)))) = v ! k" if k: "k < length v" for k
  proof -
    have "ld32 m' (used_id r (of_nat ((length u + k) mod DESC_QUEUE_SIZE))) = ucast ((u @ v) ! (length u + k))"
      using assms(2,3) k unfolding used_rep_def by (auto simp: DESC_QUEUE_SIZE_def)
    moreover have "ucast (ucast (v ! k) :: u32) = v ! k" by (rule ucast_16_32)
    moreover have "ld16 m (used_idx r) + of_nat k = of_nat (length u + k)" using assms(1) by (simp add: used_rep_def)
    ultimately show ?thesis using used_slot [of r "length u + k"] by simp
  qed
  then show ?thesis unfolding returned_def Let_def n by (intro nth_equalityI) simp_all
qed

lemma published_eq:
  assumes "avail_rep r m h" "avail_rep r m' (h @ ds)" "length ds \<le> 256"
  shows "published r m m' = ds"
proof -
  have "unat (of_nat (length ds) :: u16) = length ds" using assms(3) by (intro unat_of_nat_lt) simp
  then have n: "unat (ld16 m' (avail_idx r) - ld16 m (avail_idx r)) = length ds" using assms(1,2) by (simp add: avail_rep_def)
  have "ld16 m' (avail_ring r (ucast ((ld16 m (avail_idx r) + of_nat k) mod 256))) = ds ! k" if k: "k < length ds" for k
  proof -
    have "ld16 m' (avail_ring r (of_nat ((length h + k) mod DESC_QUEUE_SIZE))) = (h @ ds) ! (length h + k)"
      using assms(2,3) k unfolding avail_rep_def by (auto simp: DESC_QUEUE_SIZE_def)
    moreover have "ld16 m (avail_idx r) + of_nat k = of_nat (length h + k)" using assms(1) by (simp add: avail_rep_def)
    ultimately show ?thesis using idx_slot [of "length h + k"] by (simp add: DESC_QUEUE_SIZE_def)
  qed
  then show ?thesis unfolding published_def Let_def n by (intro nth_equalityI) simp_all
qed

section \<open>The contract of the device\<close>

text \<open>What the device reads of the available ring: the index, and the entries from number \<open>n\<close> on.\<close>

definition avail_open :: "u64 \<Rightarrow> memory \<Rightarrow> u16 list \<Rightarrow> nat \<Rightarrow> bool" where
  "avail_open r m h n \<longleftrightarrow> ld16 m (avail_idx r) = of_nat (length h) \<and>
     (\<forall>k < length h. n \<le> k \<longrightarrow> ld16 m (avail_ring r (of_nat (k mod DESC_QUEUE_SIZE))) = h ! k)"

definition obeys :: "(u16 list \<Rightarrow> u16 list \<Rightarrow> bool) \<Rightarrow> u64 \<Rightarrow> 'a net_scheme \<Rightarrow> bool" where
  "obeys I r t \<longleftrightarrow> (\<forall>h u d. I h u \<longrightarrow> count_list u d \<le> count_list h d) \<and> (\<forall>h u d. I h u \<longrightarrow> I (h @ [d]) u) \<and>
     (\<forall>w n m h u. avail_open r m h (length u) \<and> length h \<le> length u + DESC_QUEUE_SIZE \<and> used_rep r m u \<and> I h u \<longrightarrow>
        (\<exists>v. used_rep r (dma_in t w n m) (u @ v) \<and> I h (u @ v)))"

lemma avail_rep_open: "avail_rep r m h \<Longrightarrow> length h \<le> n + DESC_QUEUE_SIZE \<Longrightarrow> avail_open r m h n"
  by (auto simp: avail_rep_def avail_open_def)

lemma avail_open_agree:
  assumes "agree r b n m m'"
  shows "avail_open r m h k \<longleftrightarrow> avail_open r m' h k"
proof -
  have "ld16 m (r + of_nat 4098) = ld16 m' (r + of_nat 4098)" by (rule agree_ld(3) [OF assms]) simp
  moreover have "ld16 m (r + of_nat (4100 + 2 * (j mod 256))) = ld16 m' (r + of_nat (4100 + 2 * (j mod 256)))" for j
  proof (rule agree_ld(3) [OF assms])
    have "j mod 256 < 256" by simp
    then show "4100 + 2 * (j mod 256) + 2 \<le> 4612" by linarith
  qed
  ultimately show ?thesis unfolding avail_open_def ring_offsets DESC_QUEUE_SIZE_def by simp
qed

lemma avail_put_open:
  assumes h: "avail_rep r m h" and n: "length h < n + DESC_QUEUE_SIZE"
  shows "avail_open r (avail_put r 256 d m) h n"
proof -
  let ?n = "length h"
  have idx: "ld16 m (avail_idx r) = of_nat ?n" using h by (simp add: avail_rep_def)
  have lt: "k mod DESC_QUEUE_SIZE < 256" for k by (simp add: DESC_QUEUE_SIZE_def)
  have p: "avail_put r 256 d m = st16 m (avail_ring r (of_nat (?n mod DESC_QUEUE_SIZE))) d"
    using avail_put_at [OF idx, of d] by (simp add: DESC_QUEUE_SIZE_def)
  have "ld16 (avail_put r 256 d m) (avail_idx r) = of_nat ?n"
    unfolding p using idx by (simp add: ld_st_disj(9) [OF rng_disj_sym [OF slot_idx_disj [OF lt]]])
  moreover have "ld16 (avail_put r 256 d m) (avail_ring r (of_nat (k mod DESC_QUEUE_SIZE))) = h ! k" if k: "k < ?n" "n \<le> k" for k
  proof -
    have "0 < ?n - k" "?n - k < DESC_QUEUE_SIZE" using k n by auto
    then have "k mod DESC_QUEUE_SIZE \<noteq> ?n mod DESC_QUEUE_SIZE"
      using k(1) by (metis less_imp_le mod_eq_dvd_iff_nat nat_dvd_not_less)
    then show ?thesis
      unfolding p using k n h by (simp add: ld_st_disj(9) [OF slots_disj [OF lt lt]] avail_rep_def)
  qed
  ultimately show ?thesis by (simp add: avail_open_def)
qed

lemma writes_spare_used:
  assumes "in_used r x"
  shows "avail_put r 256 d m x = m x" "avail_bump r m x = m x"
proof -
  have off: "\<not> in_rng (r + of_nat a) 2 x" if "a + 2 \<le> 4612" for a
    using in_rng_off [of a 2 r x] assms that by (auto simp: in_used_def in_rng_def)
  let ?k = "ucast (ld16 m (avail_idx r) mod 256) :: u64"
  have "unat (ld16 m (avail_idx r) mod 256) < 256" by (simp add: unat_mod)
  then have k: "unat ?k < 256" by (simp add: unat_ucast_up)
  have "avail_ring r ?k = r + of_nat (4100 + 2 * unat ?k)" using ring_offsets(6) [of r "unat ?k"] by simp
  then have "\<not> in_rng (avail_ring r ?k) 2 x" using off [of "4100 + 2 * unat ?k"] k by simp
  then show "avail_put r 256 d m x = m x" unfolding avail_put_def by (rule st16_outside)
  have "\<not> in_rng (avail_idx r) 2 x" unfolding ring_offsets by (rule off) simp
  then show "avail_bump r m x = m x" unfolding avail_bump_def by (rule st16_outside)
qed

text \<open>A publication, with the device acting at the two barriers: whatever it returns, it had.\<close>

lemma publish_used:
  assumes dev: "obeys I r t" and keep: "\<And>w n m. agree r b 0 (dma_in t w n m) m"
    and m: "avail_rep r m h" "used_rep r m u" "I h u" and room: "length h < length u + DESC_QUEUE_SIZE"
    and mb: "mb = dma_in t w n (avail_put r 256 d m)" and mf: "mf = dma_in t w' n' (avail_bump r mb)"
  shows "\<exists>v. used_rep r mf (u @ v) \<and> I (h @ [d]) (u @ v)"
proof -
  have "used_rep r (avail_put r 256 d m) u" using used_rep_cong [of r "avail_put r 256 d m" m u] writes_spare_used(1) m(2) by blast
  moreover have "avail_open r (avail_put r 256 d m) h (length u)" by (rule avail_put_open [OF m(1) room])
  ultimately obtain v where v: "used_rep r mb (u @ v)" "I h (u @ v)"
    using dev m(3) room unfolding obeys_def mb by (meson less_imp_le)
  have "agree r b 0 (avail_bump r mb) (avail_publish r d m)"
    using avail_bump_agree [OF keep] by (simp add: mb avail_publish_def DESC_QUEUE_SIZE_def)
  moreover have "avail_open r (avail_publish r d m) (h @ [d]) (length (u @ v))"
    by (rule avail_rep_open [OF availq.publish_rep [OF m(1)]]) (use room in simp)
  ultimately have "avail_open r (avail_bump r mb) (h @ [d]) (length (u @ v))" using avail_open_agree by blast
  moreover have "used_rep r (avail_bump r mb) (u @ v)" using used_rep_cong [of r "avail_bump r mb" mb "u @ v"] writes_spare_used(2) v(1) by blast
  moreover have "I (h @ [d]) (u @ v)" using dev v(2) by (simp add: obeys_def)
  moreover have "length (h @ [d]) \<le> length (u @ v) + DESC_QUEUE_SIZE" using room by simp
  ultimately obtain v' where "used_rep r mf ((u @ v) @ v')" "I (h @ [d]) ((u @ v) @ v')"
    using dev unfolding obeys_def mf by meson
  then show ?thesis by (intro exI [of _ "v @ v'"]) simp
qed

section \<open>The driver's books\<close>

text \<open>The driver has looked at the first \<open>c\<close> elements of the used ring. By its books every descriptor is out at most
  once, and there are 256 of them; a transmit descriptor is marked exactly when it is out.\<close>

definition books :: "virtio_net_queue \<Rightarrow> u16 list \<Rightarrow> u16 list \<Rightarrow> nat \<Rightarrow> bool" where
  "books q h u c \<longleftrightarrow> c \<le> length u \<and> last_used_idx q = of_nat c \<and> set h \<subseteq> {d. d < 256} \<and>
     (\<forall>d. count_list h d \<le> count_list (take c u) d + 1)"

definition marked :: "virtio_net_queue \<Rightarrow> u16 list \<Rightarrow> u16 list \<Rightarrow> nat \<Rightarrow> bool" where
  "marked q h u c \<longleftrightarrow> (\<forall>d<256. in_use q ! unat d \<noteq> 0 \<longleftrightarrow> count_list (take c u) d < count_list h d)"

lemma descriptors: "finite {d :: u16. d < 256}" "card {d :: u16. d < 256} = 256"
proof -
  have "{d :: u16. d < 256} = of_nat ` {..<256}"
  proof (intro equalityI subsetI)
    fix d :: u16
    assume "d \<in> {d. d < 256}"
    then have "unat d < 256" "d = of_nat (unat d)" by (simp_all add: word_less_nat_alt)
    then show "d \<in> of_nat ` {..<256}" by blast
  qed (auto simp: word_less_nat_alt unat_of_nat)
  moreover have "inj_on (of_nat :: nat \<Rightarrow> u16) {..<256}"
    by (rule inj_on_inverseI [of _ unat]) (simp add: unat_of_nat)
  ultimately show "finite {d :: u16. d < 256}" "card {d :: u16. d < 256} = 256" by (simp_all add: card_image)
qed

lemma count_take: "count_list (take c u) d \<le> count_list u d"
  using count_list_append [of "take c u" "drop c u" d] by simp

lemma count_append_mono: "count_list u d \<le> count_list (u @ v) d"
  by simp

lemma distinct_count: "distinct xs \<Longrightarrow> count_list xs d \<le> 1"
  by (induction xs) (auto simp: count_list_0_iff)

lemma length_counts: "set h \<subseteq> {d. d < 256} \<Longrightarrow> length h = (\<Sum>d | d < 256. count_list h (d :: u16))"
  using sum_count_set [of h "{d. d < 256}"] descriptors(1) by simp

lemma set_counts: "(\<And>d. count_list u d \<le> count_list h d) \<Longrightarrow> set u \<subseteq> set h"
  by (metis count_list_0_iff le_zero_eq subsetI)

lemma returned_length:
  assumes "\<And>d. count_list u d \<le> count_list h d" "set h \<subseteq> {d :: u16. d < 256}"
  shows "length u \<le> length h"
proof -
  have "set u \<subseteq> {d. d < 256}" using set_counts [OF assms(1)] assms(2) by blast
  then show ?thesis using length_counts assms by (simp add: sum_mono)
qed

lemma books_length:
  assumes b: "books q h u c" and c: "\<And>d. count_list u d \<le> count_list h d"
  shows "length h \<le> c + 256" "d < 256 \<Longrightarrow> count_list h d \<le> count_list (take c u) d \<Longrightarrow> length h < c + 256"
proof -
  let ?D = "{d :: u16. d < 256}"
  have h: "set h \<subseteq> ?D" "c \<le> length u" "\<And>d. count_list h d \<le> count_list (take c u) d + 1" using b by (simp_all add: books_def)
  have "set u \<subseteq> ?D" using set_counts [OF c] h(1) by blast
  then have "set (take c u) \<subseteq> ?D" using set_take_subset [of c u] by blast
  then have "(\<Sum>d\<in>?D. count_list (take c u) d) = c" using length_counts [of "take c u"] h(2) by simp
  then have n: "(\<Sum>d\<in>?D. count_list (take c u) d + 1) = c + 256" by (simp add: sum.distrib descriptors del: One_nat_def add_Suc_right)
  have "length h \<le> (\<Sum>d\<in>?D. count_list (take c u) d + 1)" unfolding length_counts [OF h(1)] by (rule sum_mono) (rule h(3))
  then show "length h \<le> c + 256" by (simp only: n)
  assume d: "d < 256" "count_list h d \<le> count_list (take c u) d"
  have "length h < (\<Sum>d\<in>?D. count_list (take c u) d + 1)"
    unfolding length_counts [OF h(1)] by (rule sum_strict_mono_ex1) (use descriptors(1) h(3) d in \<open>auto intro!: bexI [of _ d]\<close>)
  then show "length h < c + 256" by (simp only: n)
qed

lemma books_grow: "books q h u c \<Longrightarrow> books q h (u @ v) c" "c \<le> length u \<Longrightarrow> marked q h u c = marked q h (u @ v) c"
  by (auto simp: books_def marked_def)

text \<open>The element the driver looks at next: it is in the ring, it is a descriptor, and it was out by the books.\<close>

lemma next_element:
  assumes b: "books q h u c" and c: "\<And>d. count_list u d \<le> count_list h d" and rep: "used_rep r m u"
    and moved: "last_used_idx q \<noteq> ld16 m (used_idx r)"
  shows "c < length u" "ld32 m (used_id r (ucast (last_used_idx q mod 256))) = ucast (u ! c)" "u ! c < 256"
    "take (Suc c) u = take c u @ [u ! c]"
proof -
  show lt: "c < length u" using b moved rep by (auto simp: books_def used_rep_def order_le_less)
  then show "take (Suc c) u = take c u @ [u ! c]" by (rule take_Suc_conv_app_nth)
  have "u ! c \<in> set h" using set_counts [OF c] lt nth_mem by blast
  then show "u ! c < 256" using b by (auto simp: books_def)
  have "length u \<le> c + 256"
    using returned_length [OF c] books_length(1) [OF b c] b by (simp add: books_def) 
  then show "ld32 m (used_id r (ucast (last_used_idx q mod 256))) = ucast (u ! c)"
    using rep lt b used_slot [of r c] by (simp add: used_rep_def books_def DESC_QUEUE_SIZE_def)
qed

lemma books_offer:
  assumes b: "books q h u c" and d: "d < 256" "count_list h d \<le> count_list (take c u) d"
  shows "books q (h @ [d]) u c"
  using assms by (auto simp: books_def)

lemma books_look:
  assumes b: "books q h u c" and lt: "c < length u"
  shows "books (q\<lparr>last_used_idx := last_used_idx q + 1\<rparr>) h u (Suc c)"
    "count_list h (u ! c) \<le> count_list (take (Suc c) u) (u ! c)"
proof -
  have "take (Suc c) u = take c u @ [u ! c]" using lt by (rule take_Suc_conv_app_nth)
  then have t: "count_list (take (Suc c) u) d = count_list (take c u) d + (if u ! c = d then 1 else 0)" for d by simp
  show "books (q\<lparr>last_used_idx := last_used_idx q + 1\<rparr>) h u (Suc c)"
    "count_list h (u ! c) \<le> count_list (take (Suc c) u) (u ! c)"
    using b lt unfolding books_def t by (auto simp: add.commute intro: le_trans trans_le_add1)
qed

lemma mark_nth:
  "length xs = 256 \<Longrightarrow> d < 256 \<Longrightarrow> xs[unat d := v] ! unat k = (if k = d then v else xs ! unat k)" for d k :: u16
  by (auto simp: nth_list_update word_unat_eq_iff word_less_nat_alt)

lemma marked_offer:
  assumes m: "marked q h u c" and q: "length (in_use q) = 256" "d < 256" "in_use q' = (in_use q)[unat d := 1]"
    and c: "count_list u d \<le> count_list h d"
  shows "marked q' (h @ [d]) u c"
  unfolding marked_def
proof (intro allI impI)
  fix k :: u16
  assume k: "k < 256"
  have "count_list (take c u) d < count_list h d + 1" using count_take [of c u d] c by simp
  then show "in_use q' ! unat k \<noteq> 0 \<longleftrightarrow> count_list (take c u) k < count_list (h @ [d]) k"
    using m k mark_nth [OF q(1,2), of 1 k] unfolding q(3) marked_def by (cases "k = d") simp_all
qed

lemma marked_look:
  assumes m: "marked q h u c" and q: "length (in_use q) = 256" "u ! c < 256" "in_use q' = (in_use q)[unat (u ! c) := 0]"
    and b: "books q h u c" "c < length u"
  shows "marked q' h u (Suc c)"
  unfolding marked_def
proof (intro allI impI)
  fix k :: u16
  assume k: "k < 256"
  have t: "count_list (take (Suc c) u) k = count_list (take c u) k + (if u ! c = k then 1 else 0)"
    using b(2) by (simp add: take_Suc_conv_app_nth)
  show "in_use q' ! unat k \<noteq> 0 \<longleftrightarrow> count_list (take (Suc c) u) k < count_list h k"
    using m k mark_nth [OF q(1,2), of 0 k] books_look(2) [OF b] unfolding q(3) marked_def
    by (cases "k = u ! c") (simp_all add: t not_less)
qed

section \<open>What the calls keep of it\<close>

text \<open>The used ring shows exactly \<open>u\<close>; and, for a stretch of the driver's work, \<open>u\<close> and what has come since.\<close>

definition exact :: "(u16 list \<Rightarrow> u16 list \<Rightarrow> bool) \<Rightarrow> u64 \<Rightarrow> u16 list \<Rightarrow> u16 list \<Rightarrow> 'a net_scheme \<Rightarrow> bool" where
  "exact I r h u t \<longleftrightarrow> obeys I r t \<and> used_rep r (mem t) u \<and> I h u"

definition lends :: "(u16 list \<Rightarrow> u16 list \<Rightarrow> bool) \<Rightarrow> u64 \<Rightarrow> u16 list \<Rightarrow> u16 list \<Rightarrow> 'a net_scheme \<Rightarrow> bool" where
  "lends I r h u t \<longleftrightarrow> length h \<le> length u + DESC_QUEUE_SIZE \<and> (\<exists>v. exact I r h (u @ v) t)"

lemma exact_cong:
  assumes "dma_in t' = dma_in t" "\<And>x. in_used r x \<Longrightarrow> mem t' x = mem t x"
  shows "exact I r h u t' \<longleftrightarrow> exact I r h u t"
  using used_rep_cong [of r "mem t'" "mem t" u] assms by (simp add: exact_def obeys_def)

lemma lends_cong:
  assumes "dma_in t' = dma_in t" "\<And>x. in_used r x \<Longrightarrow> mem t' x = mem t x"
  shows "lends I r h u t' \<longleftrightarrow> lends I r h u t"
  using exact_cong [OF assms] by (simp add: lends_def)

lemma lends_barrier:
  assumes l: "lends I r h u t" and h: "avail_rep r (mem t) h"
  shows "lends I r h u (mem_barrier t)"
proof -
  obtain v where v: "exact I r h (u @ v) t" and n: "length h \<le> length u + DESC_QUEUE_SIZE" using l by (auto simp: lends_def)
  have "avail_open r (mem t) h (length (u @ v))" by (rule avail_rep_open [OF h]) (use n in simp)
  moreover have "length h \<le> length (u @ v) + DESC_QUEUE_SIZE" using n by simp
  moreover have "used_rep r (mem t) (u @ v)" "I h (u @ v)" using v by (simp_all add: exact_def)
  ultimately obtain v' where "used_rep r (mem (mem_barrier t)) ((u @ v) @ v')" "I h ((u @ v) @ v')"
    using v [unfolded exact_def obeys_def, THEN conjunct1, THEN conjunct2, THEN conjunct2] unfolding set_queue_simps by meson
  moreover have "obeys I r (mem_barrier t)" using v by (simp add: exact_def obeys_def)
  ultimately show ?thesis using n unfolding lends_def exact_def by (auto intro!: exI [of _ "v @ v'"])
qed

interpretation lend: driver_kept "\<lambda>t. side i q h n F t \<and> lends I (ring q) h u t" for i q h n F I u
proof unfold_locales
  fix t :: "'a net_scheme"
  assume t: "side i q h n F t \<and> lends I (ring q) h u t"
  then have s: "side i q h n F t" and l: "lends I (ring q) h u t" by blast+
  show "uart_live t" by (rule side.live [OF s])
  show "side i q h n F (t\<lparr>uart_rd := k, uart_wr := w\<rparr>) \<and> lends I (ring q) h u (t\<lparr>uart_rd := k, uart_wr := w\<rparr>)" for k w
    using side.console [OF s, of w k] l lends_cong [of "t\<lparr>uart_rd := k, uart_wr := w\<rparr>" t] by simp
  show "side i q h n F (t\<lparr>mmio_rd := l\<rparr>) \<and> lends I (ring q) h u (t\<lparr>mmio_rd := l\<rparr>)" for l
    using side.reg_read [OF s, of l] \<open>lends I (ring q) h u t\<close> lends_cong [of "t\<lparr>mmio_rd := l\<rparr>" t] by simp
  show "side i q h n F (virt_mmio_write dev off v t) \<and> lends I (ring q) h u (virt_mmio_write dev off v t)" for dev off v
    using side.reg_write [OF s, of dev off v] l lends_cong [of "virt_mmio_write dev off v t" t] by simp
  have "avail_rep (ring q) (mem t) h" using s by (simp add: side_def queue_ok_def)
  then show "side i q h n F (mem_barrier t) \<and> lends I (ring q) h u (mem_barrier t)"
    using side.barrier [OF s] lends_barrier [OF l] by blast
qed

text \<open>Another queue's work, in an area that does not meet this one's ring.\<close>

definition off_ring :: "virtio_net_queue \<Rightarrow> (u64 \<Rightarrow> bool) \<Rightarrow> bool" where
  "off_ring q A \<longleftrightarrow> (\<forall>x. A x \<longrightarrow> \<not> in_rng (ring q) 6664 x)"

interpretation lend_other: area_kept
  "\<lambda>t. (side i q h n F t \<and> lends I (ring q) h u t) \<and> clear i q F A j \<and> off_ring q A" A j for i q h n F I u A j
proof unfold_locales
  fix t :: "'a net_scheme"
  assume t: "(side i q h n F t \<and> lends I (ring q) h u t) \<and> clear i q F A j \<and> off_ring q A"
  show "(side i q h n F (t\<lparr>mem := m\<rparr>) \<and> lends I (ring q) h u (t\<lparr>mem := m\<rparr>)) \<and> clear i q F A j \<and> off_ring q A"
    if m: "\<And>x. \<not> A x \<Longrightarrow> m x = mem t x" for m
  proof -
    have "lends I (ring q) h u (t\<lparr>mem := m\<rparr>) = lends I (ring q) h u t"
      by (rule lends_cong) (use t m in \<open>auto simp: off_ring_def in_used_def\<close>)
    with t side_write [OF _ _ m] show ?thesis by blast
  qed
  show "(side i q h n F (set_queue j f t) \<and> lends I (ring q) h u (set_queue j f t)) \<and> clear i q F A j \<and> off_ring q A" for f
    using t other.own_queue [of i q h n F t A j f] lends_cong [of "set_queue j f t" t] by simp
  note k = conjunct1 [OF t] conjunct2 [OF t]
  show "uart_live t" by (rule lend.live [OF k(1)])
  show "(side i q h n F (t\<lparr>uart_rd := x, uart_wr := w\<rparr>) \<and> lends I (ring q) h u (t\<lparr>uart_rd := x, uart_wr := w\<rparr>)) \<and>
      clear i q F A j \<and> off_ring q A" for x w by (rule conjI [OF lend.console [OF k(1)] k(2)])
  show "(side i q h n F (t\<lparr>mmio_rd := x\<rparr>) \<and> lends I (ring q) h u (t\<lparr>mmio_rd := x\<rparr>)) \<and> clear i q F A j \<and> off_ring q A" for x
    by (rule conjI [OF lend.reg_read [OF k(1)] k(2)])
  show "(side i q h n F (virt_mmio_write dev off v t) \<and> lends I (ring q) h u (virt_mmio_write dev off v t)) \<and>
      clear i q F A j \<and> off_ring q A" for dev off v by (rule conjI [OF lend.reg_write [OF k(1)] k(2)])
  show "(side i q h n F (mem_barrier t) \<and> lends I (ring q) h u (mem_barrier t)) \<and> clear i q F A j \<and> off_ring q A"
    by (rule conjI [OF lend.barrier [OF k(1)] k(2)])
qed

end
