(* ===== verification/Virtio_Own.thy ===== *)
theory Virtio_Own
  imports Virtio_Used
begin

text \<open>
  The driver as a whole: every sequence of its calls (handshake, MAC address, receive poll, send,
  transmit) on a set-up pair of queues, with the device acting at every barrier. A call is told as a list of
  transfers of descriptors, read from the rings in memory: what the driver has added to the available rings, and what
  the device has added to the used rings. The abstract specification is the ownership of descriptors \<open>own\<close>: the
  driver offers nothing that the device has, and the device returns only what it has.
\<close>

declare lit_Cons [simp del]

section \<open>Transfers of descriptors\<close>

datatype transfer = Offer nat u16 | Return nat u16

fun own :: "(nat \<Rightarrow> u16 set) \<Rightarrow> transfer list \<Rightarrow> (nat \<Rightarrow> u16 set) option" where
  "own H [] = Some H"
| "own H (Offer i d # es) = (if d \<in> H i then None else own (H(i := insert d (H i))) es)"
| "own H (Return i d # es) = (if d \<in> H i then own (H(i := H i - {d})) es else None)"

fun offers :: "nat \<Rightarrow> transfer list \<Rightarrow> u16 list" where
  "offers i [] = []"
| "offers i (Offer k d # es) = (if k = i then d # offers i es else offers i es)"
| "offers i (Return k d # es) = offers i es"

fun returns :: "nat \<Rightarrow> transfer list \<Rightarrow> u16 list" where
  "returns i [] = []"
| "returns i (Offer k d # es) = returns i es"
| "returns i (Return k d # es) = (if k = i then d # returns i es else returns i es)"

lemma own_append: "own H (es @ fs) = Option.bind (own H es) (\<lambda>H. own H fs)"
  by (induction H es rule: own.induct) (simp_all del: fun_upd_apply)

lemma offers_append [simp]: "offers i (es @ fs) = offers i es @ offers i fs"
  by (induction i es rule: offers.induct) auto

lemma returns_append [simp]: "returns i (es @ fs) = returns i es @ returns i fs"
  by (induction i es rule: returns.induct) auto

lemma transfer_maps [simp]:
  "offers i (map (Offer k) ds) = (if k = i then ds else [])" "offers i (map (Return k) ds) = []"
  "returns i (map (Return k) ds) = (if k = i then ds else [])" "returns i (map (Offer k) ds) = []"
  by (induction ds) auto

section \<open>The transfers of a call\<close>

text \<open>What the rings in memory show to have happened between two states. The offers come first: a descriptor that is
  offered must have been returned before the first of the two.\<close>

definition seg :: "'a net_scheme \<Rightarrow> 'a net_scheme \<Rightarrow> transfer list" where
  "seg s s' =
     (let r = ring (queue s VIRTIO_NET_RX_QUEUE); t = ring (queue s VIRTIO_NET_TX_QUEUE)
      in map (Offer VIRTIO_NET_RX_QUEUE) (published r (mem s) (mem s')) @
         map (Offer VIRTIO_NET_TX_QUEUE) (published t (mem s) (mem s')) @
         map (Return VIRTIO_NET_RX_QUEUE) (returned r (mem s) (mem s')) @
         map (Return VIRTIO_NET_TX_QUEUE) (returned t (mem s) (mem s')))"

text \<open>The calls, with what their caller owes: the data are not in the transmit buffers, the MAC address
  goes to memory of its own, and the size of a packet fits its type. In a poll \<open>s2\<close> is the state in which the wait for
  the device ends.\<close>

inductive driver_step :: "u64 \<Rightarrow> 'a net_scheme \<Rightarrow> transfer list \<Rightarrow> 'a net_scheme \<Rightarrow> bool" for device where
  handshake: "virt_mmio_negotiation device s = Some (ret, s') \<Longrightarrow> driver_step device s (seg s s') s'"
| get_mac: "virt_mmio_net_get_mac_address device mac s = Some s' \<Longrightarrow>
    (\<And>i. i < 6 \<Longrightarrow> \<not> queue_area (queue s VIRTIO_NET_RX_QUEUE) (mac + of_nat i) \<and>
       \<not> queue_area (queue s VIRTIO_NET_TX_QUEUE) (mac + of_nat i) \<and> \<not> covered (free_pages s) (mac + of_nat i)) \<Longrightarrow>
    driver_step device s (seg s s') s'"
| poll: "uart_puts msg_polling s = Some s1 \<Longrightarrow> wait_used VIRTIO_NET_RX_QUEUE s1 = Some s2 \<Longrightarrow>
    virt_mmio_net_poll_rx device buffer L s = Some s' \<Longrightarrow> driver_step device s (seg s s2 @ seg s2 s') s'"
| send: "virt_mmio_net_send device data len s = Some s' \<Longrightarrow>
    rng_disj (buffers (queue s VIRTIO_NET_TX_QUEUE)) 524288 data (unat len) \<Longrightarrow> driver_step device s (seg s s') s'"
| tx: "virt_mmio_net_tx device data len s = Some (ret, s') \<Longrightarrow>
    rng_disj (buffers (queue s VIRTIO_NET_TX_QUEUE)) 524288 data (unat len) \<Longrightarrow> unat len + 54 < 2 ^ 32 \<Longrightarrow>
    driver_step device s (seg s s') s'"

inductive driver_run :: "u64 \<Rightarrow> 'a net_scheme \<Rightarrow> transfer list \<Rightarrow> 'a net_scheme \<Rightarrow> bool" for device s where
  start: "driver_run device s [] s"
| step: "driver_run device s es t \<Longrightarrow> driver_step device t fs u \<Longrightarrow> driver_run device s (es @ fs) u"

section \<open>The invariant\<close>

definition both :: "virtio_net_queue \<Rightarrow> virtio_net_queue \<Rightarrow> u16 list \<Rightarrow> u16 list \<Rightarrow> u64 set \<Rightarrow> 'a net_scheme \<Rightarrow> bool" where
  "both rx tx hr ht F s \<longleftrightarrow> side VIRTIO_NET_RX_QUEUE rx hr 0 F s \<and> side VIRTIO_NET_TX_QUEUE tx ht 524288 F s"

definition placed :: "virtio_net_queue \<Rightarrow> virtio_net_queue \<Rightarrow> u64 set \<Rightarrow> bool" where
  "placed rx tx F \<longleftrightarrow> apart rx tx \<and> (\<forall>y. queue_area rx y \<or> queue_area tx y \<longrightarrow> \<not> covered F y)"

text \<open>Two well-formed queues, the histories of both in their rings, and the driver's books in step with them.\<close>

type_synonym history_law = "nat \<Rightarrow> u16 list \<Rightarrow> u16 list \<Rightarrow> bool"

definition good :: "history_law \<Rightarrow> virtio_net_queue \<Rightarrow> virtio_net_queue \<Rightarrow> u64 set \<Rightarrow>
    u16 list \<Rightarrow> u16 list \<Rightarrow> u16 list \<Rightarrow> u16 list \<Rightarrow> nat \<Rightarrow> nat \<Rightarrow> 'a net_scheme \<Rightarrow> bool" where
  "good I rx tx F hr ht ur ut c e s \<longleftrightarrow> both rx tx hr ht F s \<and> placed rx tx F \<and>
     exact (I VIRTIO_NET_RX_QUEUE) (ring rx) hr ur s \<and> exact (I VIRTIO_NET_TX_QUEUE) (ring tx) ht ut s \<and>
     books rx hr ur c \<and> books tx ht ut e \<and> marked tx ht ut e"

definition driver_inv :: "history_law \<Rightarrow> 'a net_scheme \<Rightarrow> u16 list \<Rightarrow> u16 list \<Rightarrow> u16 list \<Rightarrow> u16 list \<Rightarrow> bool" where
  "driver_inv I s hr ht ur ut \<longleftrightarrow>
     (\<exists>c e. good I (queue s VIRTIO_NET_RX_QUEUE) (queue s VIRTIO_NET_TX_QUEUE) (free_pages s) hr ht ur ut c e s)"

text \<open>What the device has: all it was offered and has not returned.\<close>

definition out :: "u16 list \<Rightarrow> u16 list \<Rightarrow> u16 set" where
  "out h u = {d. count_list u d < count_list h d}"

definition held :: "u16 list \<Rightarrow> u16 list \<Rightarrow> u16 list \<Rightarrow> u16 list \<Rightarrow> nat \<Rightarrow> u16 set" where
  "held hr ht ur ut i =
     (if i = VIRTIO_NET_RX_QUEUE then out hr ur else if i = VIRTIO_NET_TX_QUEUE then out ht ut else {})"

definition stepped :: "history_law \<Rightarrow> u16 list \<Rightarrow> u16 list \<Rightarrow> u16 list \<Rightarrow> u16 list \<Rightarrow> transfer list \<Rightarrow> 'a net_scheme \<Rightarrow> bool" where
  "stepped I hr ht ur ut es s' \<longleftrightarrow>
     (let hr' = hr @ offers VIRTIO_NET_RX_QUEUE es; ht' = ht @ offers VIRTIO_NET_TX_QUEUE es;
          ur' = ur @ returns VIRTIO_NET_RX_QUEUE es; ut' = ut @ returns VIRTIO_NET_TX_QUEUE es
      in driver_inv I s' hr' ht' ur' ut' \<and> own (held hr ht ur ut) es = Some (held hr' ht' ur' ut'))"

lemma queue_ids [simp]: "VIRTIO_NET_TX_QUEUE \<noteq> VIRTIO_NET_RX_QUEUE" "VIRTIO_NET_RX_QUEUE \<noteq> VIRTIO_NET_TX_QUEUE"
  by (simp_all add: VIRTIO_NET_RX_QUEUE_def VIRTIO_NET_TX_QUEUE_def)

lemma exact_counts: "exact I r h u t \<Longrightarrow> count_list u d \<le> count_list h d"
  by (auto simp: exact_def obeys_def)

subsection \<open>A segment is a run of the abstract model\<close>

text \<open>At most one descriptor, and one that the device does not have.\<close>

definition fits :: "u16 list \<Rightarrow> u16 list \<Rightarrow> u16 list \<Rightarrow> bool" where
  "fits ds h u \<longleftrightarrow> ds = [] \<or> (\<exists>d. ds = [d] \<and> count_list h d \<le> count_list u d)"

lemma own_offers:
  assumes "H i = out h u" "fits ds h u" "\<And>d. count_list u d \<le> count_list h d"
  shows "own H (map (Offer i) ds) = Some (H(i := out (h @ ds) u))"
proof (cases "ds = []")
  case True
  then show ?thesis using assms(1) by (simp add: fun_upd_idem)
next
  case False
  then obtain d where d: "ds = [d]" "count_list h d \<le> count_list u d" using assms(2) by (auto simp: fits_def)
  then have "d \<notin> H i" "out (h @ ds) u = insert d (H i)"
    using assms(1,3) by (auto simp: out_def less_Suc_eq_le)
  with d show ?thesis by simp
qed

lemma own_returns:
  assumes "H i = out h u" "\<And>d. count_list h d \<le> count_list u d + 1" "\<And>d. count_list (u @ v) d \<le> count_list h d"
  shows "own H (map (Return i) v) = Some (H(i := out h (u @ v)))"
  using assms
proof (induction v arbitrary: u H)
  case Nil
  then show ?case by (simp add: fun_upd_idem)
next
  case (Cons d v)
  have n: "count_list h e \<le> count_list u e + 1" "count_list u e + count_list (d # v) e \<le> count_list h e" for e
    using Cons.prems(2) [of e] Cons.prems(3) [of e] by simp_all
  have d: "count_list h d = count_list u d + 1" using n [of d] by simp
  then have mem: "d \<in> H i" and out: "H i - {d} = out h (u @ [d])"
    using Cons.prems(1) by (auto simp: out_def)
  have "own (H(i := H i - {d})) (map (Return i) v) = Some ((H(i := H i - {d}))(i := out h ((u @ [d]) @ v)))"
  proof (rule Cons.IH)
    show "(H(i := H i - {d})) i = out h (u @ [d])" using out by simp
    show "count_list h e \<le> count_list (u @ [d]) e + 1" for e using n(1) [of e] by simp
    show "count_list ((u @ [d]) @ v) e \<le> count_list h e" for e using n(2) [of e] by simp
  qed
  then show ?case using mem by (simp del: fun_upd_apply add: fun_upd_upd)
qed

lemma fits_bound:
  assumes "books q h u c" "fits ds h u"
  shows "count_list (h @ ds) d \<le> count_list u d + 1"
proof -
  have "count_list h d \<le> count_list u d + 1"
    using assms(1) count_take [of c u d] by (auto simp: books_def intro: order_trans)
  then show ?thesis using assms(2) by (auto simp: fits_def)
qed

lemma segment:
  assumes s: "good I rx tx F hr ht ur ut c e s" and s': "good I rx' tx' F' (hr @ dr) (ht @ dt) (ur @ vr) (ut @ vt) c' e' s'"
    and q: "ring rx' = ring rx" "ring tx' = ring tx" and f: "fits dr hr ur" "fits dt ht ut"
    and n: "length (hr @ dr) \<le> length ur + 256" "length (ht @ dt) \<le> length ut + 256"
  shows "stepped I hr ht ur ut (seg s s') s'"
proof -
  have x: "exact (I VIRTIO_NET_RX_QUEUE) (ring rx) hr ur s" "exact (I VIRTIO_NET_TX_QUEUE) (ring tx) ht ut s"
    "exact (I VIRTIO_NET_RX_QUEUE) (ring rx) (hr @ dr) (ur @ vr) s'" "exact (I VIRTIO_NET_TX_QUEUE) (ring tx) (ht @ dt) (ut @ vt) s'"
    and b: "books rx hr ur c" "books tx ht ut e" and b': "books rx' (hr @ dr) (ur @ vr) c'" "books tx' (ht @ dt) (ut @ vt) e'"
    using s s' by (simp_all add: good_def q)
  note cnt = exact_counts [OF x(1)] exact_counts [OF x(2)] exact_counts [OF x(3)] exact_counts [OF x(4)]
  have d: "length dr \<le> 256" "length dt \<le> 256" using f by (auto simp: fits_def)
  have "length (ur @ vr) \<le> length (hr @ dr)" "length (ut @ vt) \<le> length (ht @ dt)"
    using returned_length [OF cnt(3)] returned_length [OF cnt(4)] b' by (simp_all add: books_def)
  then have v: "length vr \<le> 256" "length vt \<le> 256" using n by simp_all
  have qs: "queue s VIRTIO_NET_RX_QUEUE = rx" "queue s VIRTIO_NET_TX_QUEUE = tx"
    and a: "avail_rep (ring rx) (mem s) hr" "avail_rep (ring tx) (mem s) ht"
      "avail_rep (ring rx) (mem s') (hr @ dr)" "avail_rep (ring tx) (mem s') (ht @ dt)"
    using s s' unfolding good_def both_def side_def queue_ok_def q by blast+
  have u: "used_rep (ring rx) (mem s) ur" "used_rep (ring tx) (mem s) ut"
    "used_rep (ring rx) (mem s') (ur @ vr)" "used_rep (ring tx) (mem s') (ut @ vt)"
    using x unfolding exact_def by blast+
  have log: "seg s s' = map (Offer VIRTIO_NET_RX_QUEUE) dr @ map (Offer VIRTIO_NET_TX_QUEUE) dt @
      map (Return VIRTIO_NET_RX_QUEUE) vr @ map (Return VIRTIO_NET_TX_QUEUE) vt"
    unfolding seg_def Let_def qs published_eq [OF a(1,3) d(1)] published_eq [OF a(2,4) d(2)]
      returned_eq [OF u(1,3) v(1)] returned_eq [OF u(2,4) v(2)] ..
  have "own (held hr ht ur ut) (map (Offer VIRTIO_NET_RX_QUEUE) dr) = Some (held (hr @ dr) ht ur ut)"
    by (subst own_offers [OF _ f(1) cnt(1)]) (auto simp: held_def fun_eq_iff)
  moreover have "own (held (hr @ dr) ht ur ut) (map (Offer VIRTIO_NET_TX_QUEUE) dt) = Some (held (hr @ dr) (ht @ dt) ur ut)"
    by (subst own_offers [OF _ f(2) cnt(2)]) (auto simp: held_def fun_eq_iff)
  moreover have "own (held (hr @ dr) (ht @ dt) ur ut) (map (Return VIRTIO_NET_RX_QUEUE) vr) = Some (held (hr @ dr) (ht @ dt) (ur @ vr) ut)"
    by (subst own_returns [OF _ fits_bound [OF b(1) f(1)] cnt(3)]) (auto simp: held_def fun_eq_iff)
  moreover have "own (held (hr @ dr) (ht @ dt) (ur @ vr) ut) (map (Return VIRTIO_NET_TX_QUEUE) vt) =
      Some (held (hr @ dr) (ht @ dt) (ur @ vr) (ut @ vt))"
    by (subst own_returns [OF _ fits_bound [OF b(2) f(2)] cnt(4)]) (auto simp: held_def fun_eq_iff)
  moreover have "driver_inv I s' (hr @ dr) (ht @ dt) (ur @ vr) (ut @ vt)"
    using s' by (auto simp: driver_inv_def good_def both_def side_def)
  ultimately show ?thesis by (simp add: stepped_def log own_append)
qed

lemma both_iff:
  "both rx tx hr ht F s \<longleftrightarrow> rx_ready rx hr s \<and> tx_ok s ht \<and> tx_respected s \<and> queue s VIRTIO_NET_TX_QUEUE = tx \<and>
     alloc_inv s \<and> free_pages s = F \<and> dma_away F s"
  by (auto simp: both_def side_def rx_ready_def rx_ok_def tx_ok_def rx_respected_def tx_respected_def)

lemma bothI_rx:
  assumes "side VIRTIO_NET_TX_QUEUE tx ht 524288 F s" "rx_ok s hr" "rx_respected s" "queue s VIRTIO_NET_RX_QUEUE = rx"
  shows "both rx tx hr ht F s"
  using assms by (auto simp: both_def side_def rx_ok_def rx_respected_def)

lemma bothI_tx:
  assumes "side VIRTIO_NET_RX_QUEUE rx hr 0 F s" "tx_ok s ht" "tx_respected s" "queue s VIRTIO_NET_TX_QUEUE = tx"
  shows "both rx tx hr ht F s"
  using assms by (auto simp: both_def side_def tx_ok_def tx_respected_def)

lemma placed_clear:
  assumes "placed rx tx F"
  shows "clear VIRTIO_NET_TX_QUEUE tx F (in_rng (ring rx) 6664) VIRTIO_NET_RX_QUEUE \<and> off_ring tx (in_rng (ring rx) 6664)"
    "clear VIRTIO_NET_RX_QUEUE rx F (queue_area tx) VIRTIO_NET_TX_QUEUE \<and> off_ring rx (queue_area tx)"
  using assms unfolding clear_def off_ring_def placed_def apart_def queue_area_def covered_def
  by (auto dest: in_rng_mono [of _ 8 _ 4096] in_rng_mono [of _ 4612 _ 6664])

lemma placed_cong:
  "placed rx tx F \<Longrightarrow> ring rx' = ring rx \<Longrightarrow> buffers rx' = buffers rx \<Longrightarrow> ring tx' = ring tx \<Longrightarrow> buffers tx' = buffers tx \<Longrightarrow>
   F' \<subseteq> F \<Longrightarrow> placed rx' tx' F'"
  using covered_mono [of F' F] by (auto simp: placed_def apart_def queue_area_def)

subsection \<open>Stretches in which the driver publishes nothing\<close>

definition kept :: "history_law \<Rightarrow> virtio_net_queue \<Rightarrow> virtio_net_queue \<Rightarrow> u64 set \<Rightarrow>
    u16 list \<Rightarrow> u16 list \<Rightarrow> u16 list \<Rightarrow> u16 list \<Rightarrow> 'a net_scheme \<Rightarrow> bool" where
  "kept I rx tx F hr ht ur ut s \<longleftrightarrow>
     (side VIRTIO_NET_RX_QUEUE rx hr 0 F s \<and> lends (I VIRTIO_NET_RX_QUEUE) (ring rx) hr ur s) \<and>
     (side VIRTIO_NET_TX_QUEUE tx ht 524288 F s \<and> lends (I VIRTIO_NET_TX_QUEUE) (ring tx) ht ut s)"

interpretation kept: driver_kept "kept I rx tx F hr ht ur ut" for I rx tx F hr ht ur ut
proof unfold_locales
  fix t :: "'a net_scheme"
  assume t: "kept I rx tx F hr ht ur ut t"
  note k = conjunct1 [OF t [unfolded kept_def]] conjunct2 [OF t [unfolded kept_def]]
  show "uart_live t" by (rule lend.live [OF k(1)])
  show "kept I rx tx F hr ht ur ut (t\<lparr>uart_rd := x, uart_wr := w\<rparr>)" for x w
    unfolding kept_def by (intro conjI [OF lend.console lend.console] k)
  show "kept I rx tx F hr ht ur ut (t\<lparr>mmio_rd := x\<rparr>)" for x
    unfolding kept_def by (intro conjI [OF lend.reg_read lend.reg_read] k)
  show "kept I rx tx F hr ht ur ut (virt_mmio_write dev off v t)" for dev off v
    unfolding kept_def by (intro conjI [OF lend.reg_write lend.reg_write] k)
  show "kept I rx tx F hr ht ur ut (mem_barrier t)"
    unfolding kept_def by (intro conjI [OF lend.barrier lend.barrier] k)
qed

lemma exact_lends:
  assumes "exact I r h u t" "books q h u c"
  shows "lends I r h u t"
proof -
  have "length h \<le> c + 256" by (rule books_length(1) [OF assms(2) exact_counts [OF assms(1)]])
  moreover have "c \<le> length u" using assms(2) by (simp add: books_def)
  moreover have "exact I r h (u @ []) t" using assms(1) by simp
  ultimately show ?thesis unfolding lends_def DESC_QUEUE_SIZE_def by (metis add_le_mono1 order_trans)
qed

lemma good_kept: "good I rx tx F hr ht ur ut c e s \<Longrightarrow> kept I rx tx F hr ht ur ut s"
  unfolding good_def kept_def both_def using exact_lends by blast

lemma goodI:
  assumes s: "books rx hr ur c" "books tx ht ut e" "marked tx ht ut e" and b: "both rx tx hr ht F s'" "placed rx tx F"
    and l: "lends (I VIRTIO_NET_RX_QUEUE) (ring rx) hr ur s'" "lends (I VIRTIO_NET_TX_QUEUE) (ring tx) ht ut s'"
  shows "\<exists>vr vt. good I rx tx F hr ht (ur @ vr) (ut @ vt) c e s'"
proof -
  obtain vr vt where "exact (I VIRTIO_NET_RX_QUEUE) (ring rx) hr (ur @ vr) s'" "exact (I VIRTIO_NET_TX_QUEUE) (ring tx) ht (ut @ vt) s'"
    using l by (auto simp: lends_def)
  moreover have "e \<le> length ut" using s(2) by (simp add: books_def)
  ultimately show ?thesis
    using b books_grow(1) [OF s(1)] books_grow(1) [OF s(2)] books_grow(2) [of e ut tx ht] s(3) unfolding good_def by blast
qed

lemma kept_good:
  assumes s: "good I rx tx F hr ht ur ut c e s" and k: "kept I rx tx F hr ht ur ut s'"
  obtains vr vt where "good I rx tx F hr ht (ur @ vr) (ut @ vt) c e s'"
proof -
  have "\<exists>vr vt. good I rx tx F hr ht (ur @ vr) (ut @ vt) c e s'"
    by (rule goodI) (use s k in \<open>auto simp: good_def kept_def both_def\<close>)
  with that show thesis by blast
qed

lemma good_lengths:
  assumes "good I rx tx F hr ht ur ut c e s"
  shows "length hr \<le> length ur + 256" "length ht \<le> length ut + 256"
  using good_kept [OF assms] by (simp_all add: kept_def lends_def DESC_QUEUE_SIZE_def)

lemma kept_stepped:
  assumes s: "good I rx tx F hr ht ur ut c e s" and k: "kept I rx tx F hr ht ur ut s'"
  shows "stepped I hr ht ur ut (seg s s') s'"
proof -
  obtain vr vt where g: "good I rx tx F hr ht (ur @ vr) (ut @ vt) c e s'" by (rule kept_good [OF s k])
  show ?thesis
    by (rule segment [OF s, of rx tx F "[]" "[]" vr vt c e s']) (use g good_lengths [OF s] in \<open>simp_all add: fits_def\<close>)
qed

lemma mac_kept:
  assumes b: "kept I rx tx F hr ht ur ut s" and run: "virt_mmio_net_get_mac_address dev mac s = Some s'"
    and mac: "\<And>i. i < 6 \<Longrightarrow> \<not> queue_area rx (mac + of_nat i) \<and> \<not> queue_area tx (mac + of_nat i) \<and> \<not> covered F (mac + of_nat i)"
  shows "kept I rx tx F hr ht ur ut s'"
proof -
  let ?A = "in_rng mac 6" and ?m = "mem_copy mac (dev + 0x100) 6 (mem s)" and ?N = VIRTIO_NET_QUEUE_COUNT
  have c: "clear i q F ?A ?N \<and> off_ring q ?A" if "q = rx \<or> q = tx" "i < ?N" for i q
  proof -
    have "\<not> in_rng (ring q) 6664 x \<and> (\<forall>p\<in>F. \<not> in_rng p 8 x)" if x: "?A x" for x
    proof -
      obtain k where k: "k < 6" "x = mac + of_nat k" using x by (auto elim!: in_rngE)
      with mac [OF k(1)] \<open>q = rx \<or> q = tx\<close> show ?thesis
        using in_rng_mono [of _ 8 x 4096] by (auto simp: queue_area_def covered_def)
    qed
    then show ?thesis using that(2) in_rng_mono [of "ring q" 4612 _ 6664] by (auto simp: clear_def off_ring_def)
  qed
  have m: "?m x = mem s x" if "\<not> ?A x" for x using that by (intro mem_copy_outside) simp
  have i: "VIRTIO_NET_RX_QUEUE < ?N" "VIRTIO_NET_TX_QUEUE < ?N"
    by (simp_all add: VIRTIO_NET_RX_QUEUE_def VIRTIO_NET_TX_QUEUE_def VIRTIO_NET_QUEUE_COUNT_def)
  note k = conjunct1 [OF b [unfolded kept_def]] conjunct2 [OF b [unfolded kept_def]]
  have "kept I rx tx F hr ht ur ut (s\<lparr>mem := ?m\<rparr>)"
    unfolding kept_def
    using conjunct1 [OF lend_other.area_write [OF conjI [OF k(1) c [OF disjI1 [OF refl] i(1)]] m]]
      conjunct1 [OF lend_other.area_write [OF conjI [OF k(2) c [OF disjI2 [OF refl] i(2)]] m]] by blast
  moreover have "uart_emits (s\<lparr>mem := ?m\<rparr>) (mac_report (bytes ?m mac 6)) s'"
    using says_get_mac [of dev mac s] run by (simp add: uart.says_def)
  ultimately show ?thesis using kept.emitted by blast
qed

section \<open>The receive poll\<close>

text \<open>The handling of a received frame is a recycling between two reports.\<close>

lemma rx_handle_shape:
  assumes ok: "rx_ok s h" and live: "uart_live s" and e: "used_elem s = (e, n)" "e < 256" and run: "rx_handle dev L s = Some s'"
  obtains t cs cs' where "uart_emits s cs t" "uart_emits (rx_recycle dev (ucast e) t) cs' s'"
proof -
  have sz: "qsize (queue s VIRTIO_NET_RX_QUEUE) = 256" using ok by (simp add: rx_ok_def queue_ok_def)
  obtain s3 cs where s3: "uart_emits s cs s3" "uart_live s3" "rx_handle dev L s = rx_rest dev L s3"
    using rx_handle_head [OF live sz, of dev L] by blast
  have e3: "used_elem s3 = (e, n)" using e(1) uart_emits_net [OF s3(1)] by (simp add: used_elem_def)
  let ?fr = "ld64 (mem s3) (desc_addr (ring (queue s3 VIRTIO_NET_RX_QUEUE)) (ucast e)) + sizeof_virtio_net_hdr"
  obtain t where t: "report_frame ?fr s3 = Some t" "uart_emits s3 (frame_text (mem s3) ?fr) t"
    using uart.says_total [OF says_report_frame s3(2)] by blast
  let ?u = "rx_recycle dev (ucast e) t" and ?n = "(if n > L then L else n) - ucast sizeof_virtio_net_hdr"
  have says: "uart.says (do { s \<leftarrow> uart_puts (lit ''Received data length: '') ?u; s \<leftarrow> uart_b2x ?n s; s \<leftarrow> uart_putc 10 s;
      uart_puts msg_poll_done s }) ?u (rx_tail ?n)"
    unfolding rx_tail_def by (rule uart.says_bind says_puts says_b2x says_putc says_rx_msgs | simp)+
  have "do { s \<leftarrow> uart_puts (lit ''Received data length: '') ?u; s \<leftarrow> uart_b2x ?n s; s \<leftarrow> uart_putc 10 s;
      uart_puts msg_poll_done s } = Some s'"
    using run e(2) unfolding s3(3) rx_rest_def e3 Let_def prod.case t(1) by (simp add: linorder_not_le [THEN iffD2, OF e(2)])
  with says have "uart_emits ?u (rx_tail ?n) s'" by (simp add: uart.says_def)
  with uart.emits_trans [OF s3(1) t(2)] show thesis by (rule that)
qed

lemma exact_emits: "uart_emits s cs t \<Longrightarrow> exact I r h u t \<longleftrightarrow> exact I r h u s"
  by (rule exact_cong) (simp_all add: uart_emits_net)

lemma recycle_exact:
  assumes sd: "side VIRTIO_NET_RX_QUEUE rx h 0 F t" and x: "exact I (ring rx) h u t" and room: "length h < length u + 256"
  shows "\<exists>v. exact I (ring rx) (h @ [d]) (u @ v) (rx_recycle dev d t)"
proof -
  have q: "queue t VIRTIO_NET_RX_QUEUE = rx" "qsize rx = 256" "avail_rep (ring rx) (mem t) h"
    and keep: "agree (ring rx) (buffers rx) 0 (dma_in t w n m) m" for w n m
    using sd by (auto simp: side_def queue_ok_def)
  have d: "dma_in (rx_recycle dev d t) = dma_in t" by (simp add: rx_recycle_def Let_def)
  have "\<exists>v. used_rep (ring rx) (mem (rx_recycle dev d t)) (u @ v) \<and> I (h @ [d]) (u @ v)"
    by (rule publish_used [OF _ keep q(3), where mb = "dma_in t (mmio_wr t) (dma_rd t) (avail_put (ring rx) 256 d (mem t))"
          and w = "mmio_wr t" and n = "dma_rd t" and w' = "mmio_wr t" and n' = "Suc (dma_rd t)"])
      (use x room q in \<open>simp_all add: exact_def DESC_QUEUE_SIZE_def rx_recycle_def Let_def, simp add: mem_barrier_def set_queue_def\<close>)
  with x d show ?thesis by (auto simp: exact_def obeys_def)
qed

lemma handle_good:
  assumes g: "good I rx tx F hr ht ur ut c e s" and m: "moved VIRTIO_NET_RX_QUEUE s" and run: "rx_handle dev L s = Some s'"
  shows "stepped I hr ht ur ut (seg s s') s'"
proof -
  define d where "d = ur ! c"
  let ?q = "rx\<lparr>last_used_idx := last_used_idx rx + 1\<rparr>"
  have b: "both rx tx hr ht F s" and p: "placed rx tx F" and x: "exact (I VIRTIO_NET_RX_QUEUE) (ring rx) hr ur s"
    and bk: "books rx hr ur c" "books tx ht ut e" "marked tx ht ut e" using g by (simp_all add: good_def)
  have r: "rx_ok s hr" "rx_respected s" "uart_live s" "queue s VIRTIO_NET_RX_QUEUE = rx" "rx_ready rx hr s"
    using b by (auto simp: both_iff rx_ready_def)
  have rep: "used_rep (ring rx) (mem s) ur" using x by (simp add: exact_def)
  note el = next_element [OF bk(1) exact_counts [OF x] rep m [unfolded moved_def r(4)], folded d_def]
  obtain n where n: "used_elem s = (ucast d, n)" using el(2) r(4) by (simp add: used_elem_def)
  have d: "(ucast d :: u32) < 256" "ucast (ucast d :: u32) = d"
    using el(3) ucast_16_32 by (simp_all add: word_less_nat_alt unat_ucast_up)
  have ok: "rx_ok s' (hr @ [d])" "rx_respected s'" "queue s' VIRTIO_NET_RX_QUEUE = ?q"
    using rx_handle_effect [OF r(1-3) n, of dev L] run d unfolding r(4) by auto
  have "(side VIRTIO_NET_TX_QUEUE tx ht 524288 F s \<and> lends (I VIRTIO_NET_TX_QUEUE) (ring tx) ht ut s) \<and>
      clear VIRTIO_NET_TX_QUEUE tx F (in_rng (ring rx) 6664) VIRTIO_NET_RX_QUEUE \<and> off_ring tx (in_rng (ring rx) 6664)"
    using good_kept [OF g] placed_clear(1) [OF p] unfolding kept_def by blast
  from lend_other.handled [OF this r(5) refl _ run]
  have tx: "side VIRTIO_NET_TX_QUEUE tx ht 524288 F s'" "lends (I VIRTIO_NET_TX_QUEUE) (ring tx) ht ut s'" by auto
  have len: "length hr \<le> c + 256" by (rule books_length(1) [OF bk(1) exact_counts [OF x]])
  obtain t cs cs' where t: "uart_emits s cs t" "uart_emits (rx_recycle dev d t) cs' s'"
    using rx_handle_shape [OF r(1,3) n d(1) run] unfolding d(2) by blast
  have st: "side VIRTIO_NET_RX_QUEUE rx hr 0 F t" using side.emitted [OF t(1)] b by (simp add: both_def)
  obtain v where v: "exact (I VIRTIO_NET_RX_QUEUE) (ring rx) (hr @ [d]) (ur @ v) s'"
    using recycle_exact [OF st, of "I VIRTIO_NET_RX_QUEUE" ur d dev] x len el(1) exact_emits [OF t(1)] exact_emits [OF t(2)] by auto
  have lk: "books ?q hr ur (Suc c)" "count_list hr d \<le> count_list (take (Suc c) ur) d"
    using books_look [OF bk(1) el(1)] by (simp_all add: d_def)
  have l: "lends (I VIRTIO_NET_RX_QUEUE) (ring ?q) (hr @ [d]) ur s'" using v len el(1) by (auto simp: lends_def DESC_QUEUE_SIZE_def)
  have "both ?q tx (hr @ [d]) ht F s'" by (rule bothI_rx [OF tx(1)]) (use ok in auto)
  moreover have "placed ?q tx F" by (rule placed_cong [OF p]) simp_all
  ultimately obtain vr vt where s': "good I ?q tx F (hr @ [d]) ht (ur @ vr) (ut @ vt) (Suc c) e s'"
    using goodI [OF books_offer [OF lk(1) el(3) lk(2)] bk(2,3) _ _ l tx(2)] by blast
  have "fits [d] hr ur" using lk(2) count_take [of "Suc c" ur d] by (simp add: fits_def)
  with s' len el(1) good_lengths(2) [OF g] show ?thesis
    by (intro segment [OF g, of ?q tx F "[d]" "[]" vr vt "Suc c" e s']) (simp_all add: fits_def)
qed

lemma stepped_append:
  assumes "stepped I hr ht ur ut es s"
    and "stepped I (hr @ offers VIRTIO_NET_RX_QUEUE es) (ht @ offers VIRTIO_NET_TX_QUEUE es)
      (ur @ returns VIRTIO_NET_RX_QUEUE es) (ut @ returns VIRTIO_NET_TX_QUEUE es) fs s'"
  shows "stepped I hr ht ur ut (es @ fs) s'"
  using assms by (simp add: stepped_def Let_def own_append)

lemma poll_stepped:
  assumes g: "good I rx tx F hr ht ur ut c e s" and s1: "uart_puts msg_polling s = Some s1" "wait_used VIRTIO_NET_RX_QUEUE s1 = Some s2"
    and run: "virt_mmio_net_poll_rx dev buf L s = Some s'"
  shows "stepped I hr ht ur ut (seg s s2 @ seg s2 s') s'"
proof -
  have "kept I rx tx F hr ht ur ut s1" using kept.puts [OF good_kept [OF g], of msg_polling] s1(1) by (auto simp: ends_def)
  note st = kept_stepped [OF g kept.waited [OF this s1(2)]]
  have run2: "rx_handle dev L s2 = Some s'" using run s1 by (simp add: virt_mmio_net_poll_rx_def)
  have "moved VIRTIO_NET_RX_QUEUE s2" using wait_used_Some [OF s1(2)] by blast
  moreover obtain rx' tx' F' c' e' where "good I rx' tx' F' (hr @ offers VIRTIO_NET_RX_QUEUE (seg s s2))
      (ht @ offers VIRTIO_NET_TX_QUEUE (seg s s2)) (ur @ returns VIRTIO_NET_RX_QUEUE (seg s s2))
      (ut @ returns VIRTIO_NET_TX_QUEUE (seg s s2)) c' e' s2"
    using st by (auto simp: stepped_def Let_def driver_inv_def)
  ultimately show ?thesis using stepped_append [OF st handle_good] run2 by blast
qed

section \<open>Sending\<close>

lemma fill_spares_used:
  assumes disj: "rng_disj r 6664 b 524288" and d: "unat d < 256" and len: "unat len \<le> 2048" and x: "in_used r x"
  shows "fill_desc r (b + of_nat (2048 * unat d)) data len d m x = m x"
proof (rule fill_desc_outside [OF d len])
  have r: "in_rng r 6664 x" "\<not> in_rng r 4612 x" using x by (simp_all add: in_used_def)
  show "\<not> in_rng (b + of_nat (2048 * unat d)) (unat len) x"
    using disj r(1) buffer_inside [OF d len] unfolding rng_disj_def by blast
  show "\<not> in_rng r 4096 x" using r(2) in_rng_mono [of r 4096 x 4612] by auto
qed

text \<open>The memory a send leaves when it publishes descriptor \<open>d\<close>.\<close>

lemma send_mem:
  assumes ok: "tx_ok s h" and q: "queue s VIRTIO_NET_TX_QUEUE = tx"
    and d: "d = find_free (in_use tx) 256 0 (next_desc tx)" "in_use tx ! unat d = 0" and len: "len \<le> QUEUE_BUF_SIZE"
    and run: "virt_mmio_net_send dev data len s = Some s'"
  shows "dma_in s' = dma_in s" "mem s' = dma_in s (mmio_wr s) (Suc (dma_rd s)) (avail_bump (ring tx)
    (dma_in s (mmio_wr s) (dma_rd s) (avail_put (ring tx) 256 d
       (fill_desc (ring tx) (buffers tx + of_nat (2048 * unat d)) data len d (mem s)))))"
proof -
  obtain s1 where s1: "uart_puts msg_sending s = Some s1" using run by (auto simp: virt_mmio_net_send_def bind_eq_Some_conv)
  then have f: "mem s1 = mem s" "dma_in s1 = dma_in s" "mmio_wr s1 = mmio_wr s" "dma_rd s1 = dma_rd s"
    using uart_puts_frame by fastforce+
  have c: "\<not> QUEUE_BUF_SIZE < len" "\<not> in_use tx ! unat d \<noteq> 0" using d(2) len by simp_all
  note run' = run [unfolded send_unfold [OF ok s1] Let_def q d(1) [symmetric] if_not_P [OF c(1)] if_not_P [OF c(2)] option.inject
      f(1), symmetric]
  show "dma_in s' = dma_in s" by (simp add: run' f)
  show "mem s' = dma_in s (mmio_wr s) (Suc (dma_rd s)) (avail_bump (ring tx)
    (dma_in s (mmio_wr s) (dma_rd s) (avail_put (ring tx) 256 d
       (fill_desc (ring tx) (buffers tx + of_nat (2048 * unat d)) data len d (mem s)))))"
    by (simp add: run' f) (simp add: mem_barrier_def set_queue_def f)
qed

lemma send_exact:
  assumes sd: "side VIRTIO_NET_TX_QUEUE tx h 524288 F s" and x: "exact I (ring tx) h u s" and room: "length h < length u + 256"
    and d: "d = find_free (in_use tx) 256 0 (next_desc tx)" "in_use tx ! unat d = 0" and len: "len \<le> QUEUE_BUF_SIZE"
    and src: "rng_disj (buffers tx) 524288 data (unat len)" and run: "virt_mmio_net_send dev data len s = Some s'"
  shows "\<exists>v. exact I (ring tx) (h @ [d]) (u @ v) s'"
proof -
  have q: "queue s VIRTIO_NET_TX_QUEUE = tx" "length (in_use tx) = 256" "next_desc tx < 256"
    "rng_disj (ring tx) 6664 (buffers tx) 524288" "avail_rep (ring tx) (mem s) h" and ok: "tx_ok s h"
    and keep: "agree (ring tx) (buffers tx) 524288 (dma_in s w n m) m" for w n m
    using sd by (auto simp: side_def queue_ok_def tx_ok_def)
  have keep0: "agree (ring tx) (buffers tx) 0 (dma_in s w n m) m" for w n m
    using keep [of w n m] by (auto simp: agree_def owned_def in_rng_def)
  have d256: "d < 256" using find_free_spec(1) [OF q(2,3)] d(1) by simp
  have u: "unat d < 256" "unat len \<le> 2048" "len \<le> 2048"
    using d256 len by (simp_all add: word_less_nat_alt word_le_nat_alt QUEUE_BUF_SIZE_def)
  define m where "m = fill_desc (ring tx) (buffers tx + of_nat (2048 * unat d)) data len d (mem s)"
  note mem' = send_mem [OF ok q(1) d len run, folded m_def]
  have "avail_rep (ring tx) m h" unfolding m_def by (rule fill_desc_effect(5) [OF q(4) d256 u(3) src q(5)])
  moreover have "used_rep (ring tx) m u"
    using used_rep_cong [of "ring tx" m "mem s" u] fill_spares_used [OF q(4) u(1,2)] x by (auto simp: m_def exact_def)
  ultimately have "\<exists>v. used_rep (ring tx) (mem s') (u @ v) \<and> I (h @ [d]) (u @ v)"
    using x room by (intro publish_used [OF _ keep0 _ _ _ _ refl mem'(2)]) (simp_all add: exact_def DESC_QUEUE_SIZE_def)
  with x mem'(1) show ?thesis by (auto simp: exact_def obeys_def)
qed

lemma send_good:
  assumes g: "good I rx tx F hr ht ur ut c e s"
    and run: "virt_mmio_net_send dev data len s = Some s'" and src: "rng_disj (buffers tx) 524288 data (unat len)"
  obtains tx' dt vr vt where "good I rx tx' F hr (ht @ dt) (ur @ vr) (ut @ vt) c e s'" "ring tx' = ring tx" "fits dt ht ut"
    "length (ht @ dt) \<le> length ut + 256"
proof -
  have b: "both rx tx hr ht F s" and p: "placed rx tx F" and x: "exact (I VIRTIO_NET_TX_QUEUE) (ring tx) ht ut s"
    and bk: "books rx hr ur c" "books tx ht ut e" "marked tx ht ut e" using g by (simp_all add: good_def)
  have f: "tx_ok s ht" "tx_respected s" "queue s VIRTIO_NET_TX_QUEUE = tx" using b by (simp_all add: both_iff)
  then have q: "qsize tx = 256" "length (in_use tx) = 256" "next_desc tx < 256" by (auto simp: tx_ok_def queue_ok_def)
  define d where "d = find_free (in_use tx) 256 0 (next_desc tx)"
  have d: "d < 256" using find_free_spec(1) [OF q(2,3)] by (simp add: d_def)
  then have d': "unat d < 256" by (simp add: word_less_nat_alt)
  have src': "rng_disj (buffers (queue s VIRTIO_NET_TX_QUEUE)) 524288 data (unat len)" using src f(3) by simp
  obtain s1 where s1: "uart_puts msg_sending s = Some s1" "uart_emits s msg_sending s1"
    using uart.says_total [OF says_msgs(1) kept.live [OF good_kept [OF g]]] by blast
  have k1: "kept I rx tx F hr ht ur ut s1" by (rule kept.emitted [OF s1(2) good_kept [OF g]])
  show thesis
  proof (cases "len \<le> QUEUE_BUF_SIZE \<and> in_use tx ! unat d = 0")
    case True
    have "(side VIRTIO_NET_RX_QUEUE rx hr 0 F s \<and> lends (I VIRTIO_NET_RX_QUEUE) (ring rx) hr ur s) \<and>
        clear VIRTIO_NET_RX_QUEUE rx F (queue_area tx) VIRTIO_NET_TX_QUEUE \<and> off_ring rx (queue_area tx)"
      using good_kept [OF g] placed_clear(2) [OF p] unfolding kept_def by blast
    from lend_other.sent [OF this f(1) refl _ src' run]
    have rx: "side VIRTIO_NET_RX_QUEUE rx hr 0 F s'" "lends (I VIRTIO_NET_RX_QUEUE) (ring rx) hr ur s'" by (simp_all add: f(3))
    let ?t = "tx\<lparr>in_use := (in_use tx)[unat d := 1], next_desc := (d + 1) mod 256\<rparr>"
    have "tx_ok s' (ht @ [d]) \<and> tx_respected s' \<and> queue s' VIRTIO_NET_TX_QUEUE = ?t"
      using send_free [OF f(1,2) True [THEN conjunct1] src' s1, of d dev] True run unfolding f(3) by (auto simp: d_def)
    then have b': "both rx ?t hr (ht @ [d]) F s'" by (intro bothI_tx [OF rx(1)]) auto
    have free: "count_list ht d \<le> count_list (take e ut) d" using bk(3) True d by (auto simp: marked_def not_less)
    have lt: "length ht < e + 256" by (rule books_length(2) [OF bk(2) exact_counts [OF x] d free])
    have e: "e \<le> length ut" using bk(2) by (simp add: books_def)
    have "\<exists>v. exact (I VIRTIO_NET_TX_QUEUE) (ring tx) (ht @ [d]) (ut @ v) s'"
      by (rule send_exact [OF _ x _ d_def]) (use b True src run lt e in \<open>auto simp: both_def\<close>)
    then have l: "lends (I VIRTIO_NET_TX_QUEUE) (ring ?t) (ht @ [d]) ut s'" using lt e by (auto simp: lends_def DESC_QUEUE_SIZE_def)
    have bt: "books ?t (ht @ [d]) ut e" using books_offer [OF bk(2) d free] by (simp add: books_def)
    have mt: "marked ?t (ht @ [d]) ut e" by (rule marked_offer [OF bk(3) q(2) d _ exact_counts [OF x]]) simp
    obtain vr vt where s': "good I rx ?t F hr (ht @ [d]) (ur @ vr) (ut @ vt) c e s'"
      using goodI [OF bk(1) bt mt b' placed_cong [OF p] rx(2) l] by auto
    have "fits [d] ht ut" using free count_take [of e ut d] by (simp add: fits_def)
    with s' lt e show thesis by (intro that [of ?t "[d]" vr vt]) simp_all
  next
    case False
    then have "uart_puts msg_too_long s1 = Some s' \<or> uart_puts msg_no_desc s1 = Some s'"
      using run unfolding send_unfold [OF f(1) s1(1)] Let_def f(3) d_def [symmetric] by (auto split: if_splits)
    then have "kept I rx tx F hr ht ur ut s'"
      using kept.puts [OF k1, of msg_too_long] kept.puts [OF k1, of msg_no_desc] by (auto simp: ends_def)
    then obtain vr vt where "good I rx tx F hr ht (ur @ vr) (ut @ vt) c e s'" by (rule kept_good [OF g])
    with good_lengths(2) [OF g] show thesis by (intro that [of tx "[]" vr vt]) (simp_all add: fits_def)
  qed
qed

section \<open>Transmitting\<close>

lemma done_good:
  assumes g: "good I rx tx F hr ht ur ut c e t" and m: "moved VIRTIO_NET_TX_QUEUE t"
  shows "\<exists>tx'. good I rx tx' F hr ht ur ut c (Suc e) (tx_complete t) \<and> ring tx' = ring tx"
proof -
  let ?j = VIRTIO_NET_TX_QUEUE
  have b: "both rx tx hr ht F t" and p: "placed rx tx F" and x: "exact (I ?j) (ring tx) ht ut t"
    "exact (I VIRTIO_NET_RX_QUEUE) (ring rx) hr ur t"
    and bk: "books rx hr ur c" "books tx ht ut e" "marked tx ht ut e" using g by (simp_all add: good_def)
  have f: "tx_ok t ht" "tx_respected t" "queue t ?j = tx" using b by (simp_all add: both_iff)
  then have q: "qsize tx = 256" "length (in_use tx) = 256" and two: "length (net_queues t) = VIRTIO_NET_QUEUE_COUNT"
    by (auto simp: tx_ok_def queue_ok_def)
  have rep: "used_rep (ring tx) (mem t) ut" using x(1) by (simp add: exact_def)
  note el = next_element [OF bk(2) exact_counts [OF x(1)] rep m [unfolded moved_def f(3)]]
  have d: "(ucast (ut ! e) :: u32) < 256" "unat (ucast (ut ! e) :: u32) = unat (ut ! e)"
    using el(3) by (simp_all add: word_less_nat_alt unat_ucast_up)
  let ?t = "tx\<lparr>in_use := (in_use tx)[unat (ut ! e) := 0], last_used_idx := last_used_idx tx + 1\<rparr>"
  have j: "?j < length (net_queues t)" using two by (simp add: VIRTIO_NET_TX_QUEUE_def VIRTIO_NET_QUEUE_COUNT_def)
  have "released (mem t) tx = ?t" using d by (simp add: released_def Let_def q(1) el(2))
  then have c: "tx_complete t = set_queue ?j (\<lambda>_. ?t) t" by (simp add: tx_complete_effect [OF two] f(3) set_queue_def)
  have "side VIRTIO_NET_RX_QUEUE rx hr 0 F t \<and> clear VIRTIO_NET_RX_QUEUE rx F (\<lambda>_. False) ?j"
    using b by (simp add: both_def clear_def)
  from other.own_queue [OF this] have rx: "side VIRTIO_NET_RX_QUEUE rx hr 0 F (tx_complete t)" by (simp add: c)
  have "queue (tx_complete t) ?j = ?t" using j by (simp add: c queue_set_queue)
  moreover from this have "tx_ok (tx_complete t) ht" "tx_respected (tx_complete t)"
    using f q by (auto simp: tx_ok_def tx_respected_def queue_ok_def c)
  ultimately have b': "both rx ?t hr ht F (tx_complete t)" by (intro bothI_tx [OF rx])
  have x': "exact I' r h u (tx_complete t) = exact I' r h u t" for I' r h u by (rule exact_cong) (simp_all add: c)
  have "books ?t ht ut (Suc e)" using books_look(1) [OF bk(2) el(1)] by (simp add: books_def)
  moreover have "marked ?t ht ut (Suc e)" by (rule marked_look [OF bk(3) q(2) el(3) _ bk(2) el(1)]) simp
  moreover have "placed rx ?t F" by (rule placed_cong [OF p]) simp_all
  ultimately have "good I rx ?t F hr ht ur ut c (Suc e) (tx_complete t)" using b' x bk(1) by (simp add: good_def x')
  then show ?thesis by (intro exI [of _ ?t]) simp
qed

lemma both_heap:
  assumes b: "both rx tx hr ht F s" and p: "placed rx tx F"
    and t: "t = s\<lparr>mem := m, free_list := h, free_page_count := c\<rparr>" "alloc_inv t" "free_pages t \<subseteq> F"
    and m: "\<And>y. m y \<noteq> mem s y \<Longrightarrow> covered F y"
  shows "both rx tx hr ht (free_pages t) t"
proof -
  have "agree (ring q) (buffers q) 0 m (mem s)" if "q = rx \<or> q = tx" for q
    unfolding agree_def
  proof (intro allI impI)
    fix x
    assume "owned (ring q) (buffers q) 0 x"
    then have "queue_area q x" using in_rng_mono [of "ring q" 4612 x 6664] by (auto simp: owned_def queue_area_def in_rng_def)
    with that p m show "m x = mem s x" by (auto simp: placed_def)
  qed
  from queue_ok_agree [OF this] have "queue_ok rx m hr = queue_ok rx (mem s) hr" "queue_ok tx m ht = queue_ok tx (mem s) ht"
    by blast+
  moreover have "dma_away (free_pages t) t" using b t(3) by (auto simp: both_iff dma_away_def t(1))
  ultimately show ?thesis
    using b t(2) unfolding both_def side_def by (auto simp: t(1) uart_live_def queue_def)
qed

lemma packet_both:
  fixes data :: u64
  assumes b: "both rx tx hr ht F s" and p: "placed rx tx F" and fits: "unat len + 54 < 2 ^ 32"
    and al: "mem_alloc (packet_size len) s = Some (r, s1)" "r \<noteq> 0"
  defines "t \<equiv> s1\<lparr>mem := build_packet r data len (mem s1)\<rparr>"
  shows "both rx tx hr ht (free_pages t) t \<and> free_pages t \<subseteq> F \<and> dma_in t = dma_in s \<and>
    (\<forall>y. mem t y \<noteq> mem s y \<longrightarrow> covered F y)"
proof -
  have inv: "alloc_inv s" "free_pages s = F" using b by (simp_all add: both_iff)
  note pk = packet_in_block [OF inv(1) al fits, of data]
  obtain xs where xs: "pages_ok s xs" using inv(1) by (auto simp: alloc_inv_def)
  have "packet_size len \<noteq> 0" using packet_size_fits [OF fits] by auto
  from xs this obtain m h c where s1: "s1 = s\<lparr>mem := m, free_list := h, free_page_count := c\<rparr>" "alloc_inv s1"
    "free_pages s1 \<subseteq> F" "\<And>y. m y \<noteq> mem s y \<Longrightarrow> covered (free_pages s1) y"
  proof (cases rule: mem_alloc_block)
    case (block r' m h c ys)
    note f = free_pages_eq [OF xs] free_pages_eq [OF block(3)]
    show ?thesis
      by (rule that) (use block al alloc_invI [OF block(3)] f inv(2) in auto)
  qed (use al in simp)
  have out: "build_packet r data len (mem s1) y \<noteq> mem s1 y \<Longrightarrow> covered (F - free_pages s1) y" for y
    using pk unfolding inv(2) by blast
  have "alloc_inv t \<and> free_pages t = free_pages s1"
    unfolding t_def
  proof (rule heap_kept_write [OF s1(2)], rule ccontr)
    fix p y
    assume "p \<in> free_pages s1" "in_rng p 8 y" "build_packet r data len (mem s1) y \<noteq> mem s1 y"
    then have "covered (free_pages s1) y" "covered (F - free_pages s1) y"
      using out in_rng_mono [of p 8 y 4096] by (auto simp: covered_def)
    with free_apart [OF inv(1), of "F - free_pages s1" "free_pages s1" y] s1(3) inv(2) show False by blast
  qed
  moreover have "covered F y" if "build_packet r data len (mem s1) y \<noteq> mem s y" for y
    using that out [of y] s1(4) [of y] covered_mono [of "F - free_pages s1" F y] covered_mono [OF s1(3), of y]
    by (cases "build_packet r data len (mem s1) y = mem s1 y") (auto simp: s1(1))
  ultimately show ?thesis
    using both_heap [OF b p, where t = t and m = "build_packet r data len (mem s1)" and h = h and c = c] s1(1,3) by (simp add: t_def)
qed

lemma packet_good:
  fixes data :: u64
  assumes g: "good I rx tx F hr ht ur ut c e s" and fits: "unat len + 54 < 2 ^ 32"
    and al: "mem_alloc (packet_size len) s = Some (r, s1)" "r \<noteq> 0"
  defines "t \<equiv> s1\<lparr>mem := build_packet r data len (mem s1)\<rparr>"
  shows "good I rx tx (free_pages t) hr ht ur ut c e t"
proof -
  have b: "both rx tx hr ht F s" and p: "placed rx tx F" using g by (simp_all add: good_def)
  note k = packet_both [OF b p fits al, of data, folded t_def]
  have "mem t y = mem s y" if "in_used (ring q) y" "q = rx \<or> q = tx" for q y
  proof (rule ccontr)
    assume "mem t y \<noteq> mem s y"
    then have "covered F y" using k by blast
    with p that show False by (auto simp: placed_def queue_area_def in_used_def)
  qed
  then have "exact J (ring q) h u t = exact J (ring q) h u s" if "q = rx \<or> q = tx" for J q h u
    using k that by (intro exact_cong) blast+
  moreover have "placed rx tx (free_pages t)" by (rule placed_cong [OF p]) (use k in simp_all)
  ultimately show ?thesis using g k by (simp add: good_def)
qed

lemma tx_stepped:
  assumes g: "good I rx tx F hr ht ur ut c e s" and run: "virt_mmio_net_tx dev data len s = Some (ret, s')"
    and src: "rng_disj (buffers tx) 524288 data (unat len)" and fits: "unat len + 54 < 2 ^ 32"
  shows "stepped I hr ht ur ut (seg s s') s'"
proof -
  obtain r s1 where al: "mem_alloc (packet_size len) s = Some (r, s1)"
    using run by (auto simp: virt_mmio_net_tx_def bind_eq_Some_conv)
  show ?thesis
  proof (cases "r = 0")
    case True
    have "alloc_inv s" using g by (simp add: good_def both_iff)
    then have "s1 = s" using mem_alloc_null [of s "packet_size len" s1] al True by simp
    then have "uart_puts msg_tx_alloc s = Some s'"
      using run True al by (auto simp: virt_mmio_net_tx_def bind_eq_Some_conv)
    then have "kept I rx tx F hr ht ur ut s'" using kept.puts [OF good_kept [OF g], of msg_tx_alloc] by (auto simp: ends_def)
    then show ?thesis by (rule kept_stepped [OF g])
  next
    case False
    define t where "t = s1\<lparr>mem := build_packet r data len (mem s1)\<rparr>"
    have gt: "good I rx tx (free_pages t) hr ht ur ut c e t" using packet_good [OF g fits al False, of data] by (simp add: t_def)
    obtain s2 s3 s4 s5 where run': "virt_mmio_net_send dev data len t = Some s2" "uart_puts msg_tx_wait s2 = Some s3"
      "wait_used VIRTIO_NET_TX_QUEUE s3 = Some s4" "uart_puts msg_tx_done s4 = Some s5" "s' = tx_complete s5"
      using run al False by (auto simp: virt_mmio_net_tx_def t_def Let_def bind_eq_Some_conv)
    obtain tx1 dt vr vt where g2: "good I rx tx1 (free_pages t) hr (ht @ dt) (ur @ vr) (ut @ vt) c e s2" "ring tx1 = ring tx"
      "fits dt ht ut" "length (ht @ dt) \<le> length ut + 256"
      by (rule send_good [OF gt run'(1) src])
    have "kept I rx tx1 (free_pages t) hr (ht @ dt) (ur @ vr) (ut @ vt) s3"
      using kept.puts [OF good_kept [OF g2(1)], of msg_tx_wait] run'(2) by (auto simp: ends_def)
    from kept.waited [OF this run'(3)] have "kept I rx tx1 (free_pages t) hr (ht @ dt) (ur @ vr) (ut @ vt) s5"
      using kept.puts [of _ _ _ _ _ _ _ _ s4 msg_tx_done] run'(4) by (auto simp: ends_def)
    then obtain wr wt where g5: "good I rx tx1 (free_pages t) hr (ht @ dt) ((ur @ vr) @ wr) ((ut @ vt) @ wt) c e s5"
      by (rule kept_good [OF g2(1)])
    have "moved VIRTIO_NET_TX_QUEUE s5"
      using wait_used_Some [OF run'(3)] uart_puts_frame [OF run'(4)] by (auto simp: moved_def queue_def)
    from done_good [OF g5 this] obtain tx2 where "good I rx tx2 (free_pages t) hr (ht @ dt) ((ur @ vr) @ wr) ((ut @ vt) @ wt) c (Suc e) s'"
      "ring tx2 = ring tx1" using run'(5) by blast
    with g2 good_lengths(1) [OF g] show ?thesis
      by (intro segment [OF g, of rx tx2 "free_pages t" "[]" dt "vr @ wr" "vt @ wt" c "Suc e" s']) (simp_all add: fits_def)
  qed
qed

section \<open>Runs of the driver\<close>

lemma driver_step_inv:
  assumes inv: "driver_inv I s hr ht ur ut" and step: "driver_step device s es s'"
  shows "stepped I hr ht ur ut es s'"
proof -
  define rx tx F where "rx = queue s VIRTIO_NET_RX_QUEUE" and "tx = queue s VIRTIO_NET_TX_QUEUE" and "F = free_pages s"
  obtain c e where g: "good I rx tx F hr ht ur ut c e s" using inv by (auto simp: driver_inv_def rx_def tx_def F_def)
  note k = good_kept [OF g]
  from step show ?thesis
  proof (cases rule: driver_step.cases)
    case (handshake ret)
    then show ?thesis using kept_stepped [OF g] kept.negotiation [OF k, of device] by (auto simp: ends_def)
  next
    case (get_mac mac)
    then show ?thesis using kept_stepped [OF g mac_kept [OF k]] by (auto simp: rx_def tx_def F_def)
  next
    case (poll s1 s2 buffer L)
    then show ?thesis using poll_stepped [OF g] by blast
  next
    case (send data len)
    then have src: "rng_disj (buffers tx) 524288 data (unat len)" by (simp add: tx_def)
    obtain tx' dt vr vt where "good I rx tx' F hr (ht @ dt) (ur @ vr) (ut @ vt) c e s'" "ring tx' = ring tx" "fits dt ht ut"
      "length (ht @ dt) \<le> length ut + 256"
      by (rule send_good [OF g send(2) src])
    with good_lengths(1) [OF g] have "stepped I hr ht ur ut (seg s s') s'"
      by (intro segment [OF g, of rx tx' F "[]" dt vr vt c e s']) (simp_all add: fits_def)
    then show ?thesis using send(1) by simp
  next
    case (tx data len ret)
    then show ?thesis using tx_stepped [OF g] by (simp add: \<open>tx = queue s VIRTIO_NET_TX_QUEUE\<close>)
  qed
qed

lemma all_descriptors: "distinct (map of_nat [0..<256] :: u16 list)" "set (map of_nat [0..<256]) \<subseteq> {d :: u16. d < 256}"
proof -
  have "inj_on (of_nat :: nat \<Rightarrow> u16) {0..<256}" by (rule inj_on_inverseI [of _ unat]) (simp add: unat_of_nat)
  then show "distinct (map of_nat [0..<256] :: u16 list)" unfolding distinct_map by (simp del: upt_rec_numeral)
  show "set (map of_nat [0..<256]) \<subseteq> {d :: u16. d < 256}"
    unfolding set_map set_upt by (auto simp: word_less_nat_alt unat_of_nat)
qed

text \<open>Where the runs start: the state a successful \<open>virt_mmio_net_virtq_init\<close> leaves, if no transmit descriptor was marked.\<close>

lemma virtq_init_driver_inv:
  assumes inv: "alloc_inv s" and live: "uart_live s" and pair: "pair_ok s" and idle: "dma_idle s"
    and init: "virt_mmio_net_virtq_init device s = Some (0, s')"
    and dev: "rx_respected s'" "tx_respected s'" "dma_away (free_pages s') s'"
    and law: "obeys (I VIRTIO_NET_RX_QUEUE) (ring (queue s' VIRTIO_NET_RX_QUEUE)) s'" "I VIRTIO_NET_RX_QUEUE (map of_nat [0..<256]) []"
      "obeys (I VIRTIO_NET_TX_QUEUE) (ring (queue s' VIRTIO_NET_TX_QUEUE)) s'" "I VIRTIO_NET_TX_QUEUE [] []"
    and unmarked: "in_use (queue s VIRTIO_NET_TX_QUEUE) = replicate 256 0"
  shows "driver_inv I s' (map of_nat [0..<256]) [] [] []"
proof -
  let ?rx = "queue s' VIRTIO_NET_RX_QUEUE" and ?tx = "queue s' VIRTIO_NET_TX_QUEUE" and ?T = "free_pages s - free_pages s'"
  have e: "alloc_inv s'" "uart_live s'" "queue_ok ?rx (mem s') (map of_nat [0..<256])" "queue_ok ?tx (mem s') []" "apart ?rx ?tx"
    "in_pages ?rx ?T" "in_pages ?tx ?T" "length (net_queues s') = 2" "free_pages s' \<subseteq> free_pages s"
    "last_used_idx ?rx = 0" "last_used_idx ?tx = 0" "ld16 (mem s') (used_idx (ring ?rx)) = 0" "ld16 (mem s') (used_idx (ring ?tx)) = 0"
    "in_use ?tx = in_use (queue s VIRTIO_NET_TX_QUEUE)"
    using virtq_init_effect [OF inv live pair idle, of device] init by (simp_all add: Let_def)
  have "\<not> covered (free_pages s') y" if "queue_area ?rx y \<or> queue_area ?tx y" for y
    using free_apart [OF inv, of ?T "free_pages s'" y] e(6,7,9) that by (auto simp: in_pages_def queue_area_def)
  then have "both ?rx ?tx (map of_nat [0..<256]) [] (free_pages s') s'" "placed ?rx ?tx (free_pages s')"
    using e dev by (simp_all add: placed_def both_iff rx_ready_def rx_ok_def tx_ok_def VIRTIO_NET_QUEUE_COUNT_def)
  moreover have "exact (I VIRTIO_NET_RX_QUEUE) (ring ?rx) (map of_nat [0..<256]) [] s'" "exact (I VIRTIO_NET_TX_QUEUE) (ring ?tx) [] [] s'"
    using e law by (simp_all add: exact_def used_rep_def)
  moreover have "books ?rx (map of_nat [0..<256]) [] 0"
    using distinct_count [OF all_descriptors(1)] all_descriptors(2) e(10) unfolding books_def by (simp del: upt_rec_numeral)
  moreover have "books ?tx [] [] 0" "marked ?tx [] [] 0"
    using e(11,14) unmarked by (simp_all add: books_def marked_def word_less_nat_alt)
  ultimately show ?thesis unfolding driver_inv_def good_def by blast
qed

section \<open>Properties\<close>

text \<open>
  C5. Ownership of the descriptors. From a state with two well-formed queues that overlap neither each
  other nor the free pages (\<open>virtq_init_driver_inv\<close>: a successful \<open>virt_mmio_net_virtq_init\<close> leaves one),
  whatever handshakes, MAC address reads, receive polls, sends and transmissions follow, in any
  order, with a device that writes only its own part of the queues and puts into the used rings only descriptors that
  it has been offered and has not returned (\<open>obeys\<close>): read from the rings in memory before and after each call, the
  transfers are a run of the abstract ownership model. So no descriptor is ever offered that the device still has.
  The queues and the allocator stay well-formed, the rings show exactly the transfers, in order, and the driver's books stay
  right: \<^verbatim>\<open>last_used_idx\<close> counts the elements it has looked at, and the descriptors marked \<^verbatim>\<open>in_use\<close> are those that were
  offered and not among these.
\<close>

theorem driver_owns_descriptors:
  assumes inv: "driver_inv I s hr ht ur ut" and run: "driver_run device s es s'"
  shows "let hr' = hr @ offers VIRTIO_NET_RX_QUEUE es; ht' = ht @ offers VIRTIO_NET_TX_QUEUE es;
      ur' = ur @ returns VIRTIO_NET_RX_QUEUE es; ut' = ut @ returns VIRTIO_NET_TX_QUEUE es
    in driver_inv I s' hr' ht' ur' ut' \<and> own (held hr ht ur ut) es = Some (held hr' ht' ur' ut')"
proof -
  have "stepped I hr ht ur ut es s'" using run
  proof (induction rule: driver_run.induct)
    case start
    then show ?case using inv by (simp add: stepped_def)
  next
    case (step es t fs u)
    then have "driver_inv I t (hr @ offers VIRTIO_NET_RX_QUEUE es) (ht @ offers VIRTIO_NET_TX_QUEUE es)
        (ur @ returns VIRTIO_NET_RX_QUEUE es) (ut @ returns VIRTIO_NET_TX_QUEUE es)" by (simp add: stepped_def Let_def)
    from stepped_append [OF step.IH driver_step_inv [OF this step.hyps(2)]] show ?case .
  qed
  then show ?thesis unfolding stepped_def .
qed

subsection \<open>A device that works in order\<close>

text \<open>At each barrier it returns the oldest descriptor it has, if it has one.\<close>

definition in_order :: "u16 list \<Rightarrow> u16 list \<Rightarrow> bool" where
  "in_order h u \<longleftrightarrow> u = take (length u) h"

definition echo :: "u64 \<Rightarrow> memory \<Rightarrow> memory" where
  "echo r m =
     (let i = ld16 m (used_idx r); k = ucast (i mod 256)
      in if i = ld16 m (avail_idx r) then m
         else st16 (st32 m (used_id r k) (ucast (ld16 m (avail_ring r k)))) (used_idx r) (i + 1))"

lemma in_order_props:
  "in_order h u \<Longrightarrow> length u \<le> length h" "in_order h u \<Longrightarrow> count_list u d \<le> count_list h d" "in_order h u \<Longrightarrow> in_order (h @ [d]) u"
proof -
  show len: "in_order h u \<Longrightarrow> length u \<le> length h" unfolding in_order_def by (metis length_take min.cobounded1)
  show "in_order h u \<Longrightarrow> count_list u d \<le> count_list h d" unfolding in_order_def by (metis count_take)
  show "in_order h u \<Longrightarrow> in_order (h @ [d]) u" using len unfolding in_order_def by simp
qed

lemma used_slots:
  "j < 256 \<Longrightarrow> rng_disj (used_id r (of_nat j)) 4 (used_idx r) 2"
  "i < 256 \<Longrightarrow> j < 256 \<Longrightarrow> i \<noteq> j \<Longrightarrow> rng_disj (used_id r (of_nat i)) 4 (used_id r (of_nat j)) 4"
  unfolding ring_offsets by (rule rng_disj_off; auto)+

lemma echo_outside: "\<not> in_used r x \<Longrightarrow> echo r m x = m x"
proof -
  assume x: "\<not> in_used r x"
  let ?k = "ucast (ld16 m (used_idx r) mod 256) :: u64"
  have "unat (ld16 m (used_idx r) mod 256) < 256" by (simp add: unat_mod)
  then have k: "unat ?k < 256" by (simp add: unat_ucast_up)
  have "used_id r ?k = r + of_nat (4616 + 8 * unat ?k)" using ring_offsets(8) [of r "unat ?k"] by simp
  moreover have "\<not> in_rng (r + of_nat (4616 + 8 * unat ?k)) 4 x" "\<not> in_rng (r + of_nat 4614) 2 x"
    using x k in_used_off [of "4616 + 8 * unat ?k" 4 r x] in_used_off [of 4614 2 r x] by auto
  ultimately show "echo r m x = m x"
    unfolding echo_def Let_def ring_offsets(7) by (simp add: st16_outside st32_outside)
qed

lemma echo_returns:
  assumes a: "avail_open r m h (length u)" and n: "length h \<le> length u + 256" and u: "used_rep r m u" and i: "in_order h u"
  shows "\<exists>v. used_rep r (echo r m) (u @ v) \<and> in_order h (u @ v)"
proof (cases "length h = length u")
  case True
  then have "echo r m = m" using a u by (simp add: echo_def Let_def avail_open_def used_rep_def)
  with u i show ?thesis by (intro exI [of _ "[]"]) simp
next
  case False
  let ?n = "length u" and ?s = "of_nat (length u mod 256) :: u64"
  define d where "d = h ! ?n"
  have lt: "?n < length h" using False in_order_props(1) [OF i] by simp
  have slot: "ucast ((of_nat ?n :: u16) mod 256) = ?s" using idx_slot [of ?n] by (simp add: DESC_QUEUE_SIZE_def)
  have "(of_nat (length h) :: u16) \<noteq> of_nat ?n"
  proof
    assume "(of_nat (length h) :: u16) = of_nat ?n"
    then have "unat (of_nat (length h - ?n) :: u16) = 0" using lt by (simp add: of_nat_diff)
    moreover have "unat (of_nat (length h - ?n) :: u16) = length h - ?n" using n by (intro unat_of_nat_lt) simp
    ultimately show False using lt by simp
  qed
  then have e: "echo r m = st16 (st32 m (used_id r ?s) (ucast d)) (used_idx r) (of_nat (Suc ?n))"
    using a u lt slot by (auto simp: echo_def Let_def avail_open_def used_rep_def DESC_QUEUE_SIZE_def d_def add.commute)
  have mod: "k mod 256 < 256" for k :: nat by simp
  have "ld32 (echo r m) (used_id r (of_nat (k mod DESC_QUEUE_SIZE))) = ucast ((u @ [d]) ! k)"
    if k: "k < Suc ?n" "Suc ?n \<le> k + DESC_QUEUE_SIZE" for k
  proof (cases "k = ?n")
    case True
    then show ?thesis by (simp add: e DESC_QUEUE_SIZE_def ld_st_disj(6) [OF used_slots(1) [OF mod]])
  next
    case False
    then have "0 < ?n - k" "?n - k < 256" "k \<le> ?n" using k by (auto simp: DESC_QUEUE_SIZE_def)
    then have "k mod 256 \<noteq> ?n mod 256" by (metis mod_eq_dvd_iff_nat nat_dvd_not_less)
    then show ?thesis
      using k False u by (simp add: e DESC_QUEUE_SIZE_def ld_st_disj(6) [OF used_slots(1) [OF mod]]
          ld_st_disj(5) [OF used_slots(2) [OF mod mod]] used_rep_def nth_append)
  qed
  then have "used_rep r (echo r m) (u @ [d])" by (simp add: used_rep_def e)
  moreover have "in_order h (u @ [d])" using i lt by (simp add: in_order_def d_def take_Suc_conv_app_nth)
  ultimately show ?thesis by blast
qed

lemma echo_obeys: "(\<And>w n. dma_in t w n = echo r) \<Longrightarrow> obeys in_order r t"
  unfolding obeys_def using in_order_props(2,3) echo_returns [of r] by (simp add: DESC_QUEUE_SIZE_def)

lemma quiet_obeys:
  assumes "\<And>w n m x. in_used r x \<Longrightarrow> dma_in t w n m x = m x"
  shows "obeys in_order r t"
proof -
  have "used_rep r (dma_in t w n m) u = used_rep r m u" for w n m u by (rule used_rep_cong) (rule assms)
  then show ?thesis
    unfolding obeys_def using in_order_props(2,3) by (intro conjI allI impI) (auto intro!: exI [of _ "[]"])
qed

subsection \<open>A run\<close>

text \<open>Two queues that have just been set up, with nothing offered, and a device that returns what it is given to send.\<close>

definition ready_queue :: "u64 \<Rightarrow> u64 \<Rightarrow> virtio_net_queue" where
  "ready_queue r b = empty_queue\<lparr>ring := r, buffers := b, qsize := 256\<rparr>"

definition ready_mem :: "u64 \<Rightarrow> u64 \<Rightarrow> u16 \<Rightarrow> memory \<Rightarrow> memory" where
  "ready_mem r b f m = init_desc_loop r b f 256 0 (mem_zero b (QUEUE_BUF_SIZE * of_nat DESC_QUEUE_SIZE) (mem_zero r sizeof_virtq m))"

definition driver_demo :: net where
  "driver_demo = demo_net\<lparr>net_queues := [ready_queue 0x80100000 0x80200000, ready_queue 0x80300000 0x80400000],
     mem := ready_mem 0x80300000 0x80400000 0 (ready_mem 0x80100000 0x80200000 2 (mem demo_net)),
     dma_in := \<lambda>w n. echo 0x80300000\<rparr>"

lemma driver_demo_queues:
  "queue driver_demo VIRTIO_NET_RX_QUEUE = ready_queue 0x80100000 0x80200000"
  "queue driver_demo VIRTIO_NET_TX_QUEUE = ready_queue 0x80300000 0x80400000"
  "length (net_queues driver_demo) = 2" "dma_in driver_demo w n = echo 0x80300000" "uart_live driver_demo"
  by (simp_all add: driver_demo_def queue_def VIRTIO_NET_RX_QUEUE_def VIRTIO_NET_TX_QUEUE_def demo_net_defs)
    (auto simp: uart_live_def LSR_TX_IDLE_def)

lemma echo_far: "\<not> in_rng r 6664 x \<or> in_rng r 4612 x \<Longrightarrow> echo r m x = m x"
  by (rule echo_outside) (auto simp: in_used_def)

lemma driver_demo_mem:
  defines "m \<equiv> mem driver_demo"
  shows "queue_ok (ready_queue 0x80100000 0x80200000) m []" "queue_ok (ready_queue 0x80300000 0x80400000) m []"
    "used_rep 0x80100000 m []" "used_rep 0x80300000 m []"
    "\<And>y. \<not> queue_area (ready_queue 0x80100000 0x80200000) y \<Longrightarrow> \<not> queue_area (ready_queue 0x80300000 0x80400000) y \<Longrightarrow>
       m y = mem demo_net y"
proof -
  let ?rx = "ready_queue 0x80100000 0x80200000" and ?tx = "ready_queue 0x80300000 0x80400000"
  let ?m = "ready_mem 0x80100000 0x80200000 2 (mem demo_net)"
  have d: "rng_disj 0x80100000 6664 0x80200000 524288" "rng_disj 0x80300000 6664 0x80400000 524288"
    by (rule rng_disjI, simp_all)+
  note fr = fresh_queueI(1) [OF d(1), folded ready_mem_def] fresh_queueI(1) [OF d(2), folded ready_mem_def]
    and out = fresh_queueI(2) [OF d(1), folded ready_mem_def] fresh_queueI(2) [OF d(2), folded ready_mem_def]
  have m: "m = ready_mem 0x80300000 0x80400000 0 ?m" by (simp add: m_def driver_demo_def)
  have same: "m y = ?m y" if "in_rng 0x80100000 6664 y \<or> in_rng 0x80200000 524288 y" for y
    unfolding m by (rule out(2)) (use that in \<open>auto simp: in_rng_iff\<close>)
  have rx: "fresh_queue 0x80100000 0x80200000 2 m" by (rule fresh_queue_cong [OF fr(1)]) (rule same)
  have tx: "fresh_queue 0x80300000 0x80400000 0 m" unfolding m by (rule fr(2))
  show "queue_ok ?rx m []" by (rule fresh_queue_ok [OF rx]) (simp_all add: ready_queue_def empty_queue_def)
  show "queue_ok ?tx m []" by (rule fresh_queue_ok [OF tx]) (simp_all add: ready_queue_def empty_queue_def)
  show "used_rep 0x80100000 m []" "used_rep 0x80300000 m []"
    using fresh_used_idx [OF rx, of m] fresh_used_idx [OF tx, of m] by (simp_all add: used_rep_def)
  show "m y = mem demo_net y" if "\<not> queue_area ?rx y" "\<not> queue_area ?tx y" for y
    using that out unfolding m by (simp add: queue_area_def ready_queue_def)
qed

lemma driver_demo_inv: "driver_inv (\<lambda>_. in_order) driver_demo [] [] [] []"
proof -
  let ?rx = "ready_queue 0x80100000 0x80200000" and ?tx = "ready_queue 0x80300000 0x80400000"
  let ?xs = "[0x80001000, 0x80002000, 0x80003000] :: u64 list"
  note q = driver_demo_queues and m = driver_demo_mem
  have area: "queue_area (ready_queue r b) y \<longleftrightarrow> in_rng r 6664 y \<or> in_rng b 524288 y" for r b y
    by (simp add: queue_area_def ready_queue_def)
  have ap: "apart ?rx ?tx" by (auto simp: apart_def ready_queue_def in_rng_iff)
  have far: "\<not> queue_area ?rx y \<and> \<not> queue_area ?tx y" if "covered (set ?xs) y" for y
    using that by (auto simp: covered_def area in_rng_iff)
  have pg8: "covered (set ?xs) y" if "p \<in> set ?xs" "in_rng p 8 y" for p y
    using that in_rng_mono [of p 8 y 4096] unfolding covered_def by auto
  have "pages_ok (demo_net\<lparr>mem := mem driver_demo\<rparr>) ?xs"
    by (rule pages_ok_write [OF demo_net_facts(1)], rule m(5)) (use far pg8 in blast)+
  then have pg: "pages_ok driver_demo ?xs" by (simp add: driver_demo_def pages_ok_def heap_ok_def page_ok_def)
  have agr: "agree 0x80100000 0x80200000 n (echo 0x80300000 mm) mm" "agree 0x80300000 0x80400000 k (echo 0x80300000 mm) mm"
    if "n \<le> 524288" "k \<le> 524288" for mm n k
    using that by (auto simp: agree_def owned_def in_rng_iff intro!: echo_far)
  have away: "dma_away (set ?xs) driver_demo"
    unfolding dma_away_def q using far pg8 by (auto simp: area intro!: echo_far)
  have "both ?rx ?tx [] [] (free_pages driver_demo) driver_demo"
    unfolding both_def side_def q VIRTIO_NET_QUEUE_COUNT_def free_pages_eq [OF pg]
    using m(1,2) alloc_invI [OF pg] away agr [of 0 524288] q(5) by (simp add: ready_queue_def)
  moreover have "placed ?rx ?tx (free_pages driver_demo)"
    unfolding placed_def free_pages_eq [OF pg] using ap far by blast
  moreover have "exact in_order (ring ?rx) [] [] driver_demo"
    using m(3) quiet_obeys [of "0x80100000" driver_demo] q(4)
    by (auto simp: exact_def ready_queue_def in_order_def in_used_def in_rng_iff intro!: quiet_obeys echo_far)
  moreover have "exact in_order (ring ?tx) [] [] driver_demo"
    using m(4) echo_obeys [OF q(4)] by (simp add: exact_def ready_queue_def in_order_def)
  moreover have "books ?rx [] [] 0" "books ?tx [] [] 0" "marked ?tx [] [] 0"
    by (simp_all add: books_def marked_def ready_queue_def empty_queue_def word_less_nat_alt)
  ultimately show ?thesis unfolding driver_inv_def good_def q by blast
qed

text \<open>A send to that device: the descriptor goes out at the second barrier and comes back at once.\<close>

lemma demo_send:
  assumes run: "virt_mmio_net_send dev 0x80000000 60 driver_demo = Some s'"
  shows "published 0x80300000 (mem driver_demo) (mem s') = [0]" "ld16 (mem s') (used_idx 0x80300000) = 1"
proof -
  let ?r = "0x80300000 :: u64" and ?tx = "ready_queue 0x80300000 0x80400000"
  note q = driver_demo_queues and m = driver_demo_mem
  define b where "b = fill_desc ?r (0x80400000 + of_nat (2048 * unat (0 :: u16))) 0x80000000 60 0 (mem driver_demo)"
  have f: "ring ?tx = ?r" "buffers ?tx = 0x80400000" "in_use ?tx = replicate 256 0" "next_desc ?tx = 0"
    by (simp_all add: ready_queue_def empty_queue_def)
  have d: "(0 :: u16) = find_free (in_use ?tx) 256 0 (next_desc ?tx)" by (simp add: f find_free.simps [of _ _ 0 0])
  have ok: "tx_ok driver_demo []" using m(2) by (simp add: tx_ok_def q VIRTIO_NET_QUEUE_COUNT_def)
  have disj: "rng_disj ?r 6664 0x80400000 524288" by (rule rng_disjI) simp_all
  have src: "rng_disj 0x80400000 524288 0x80000000 (unat (60 :: u32))" by (rule rng_disjI) simp_all
  have mem': "mem s' = echo ?r (avail_bump ?r (echo ?r (avail_put ?r 256 0 b)))"
    using send_mem(2) [OF ok q(2) d _ _ run] by (simp add: q f QUEUE_BUF_SIZE_def b_def)
  have rep0: "avail_rep ?r (mem driver_demo) []" using m(2) by (simp add: queue_ok_def f)
  then have rep: "avail_rep ?r b []" unfolding b_def by (intro fill_desc_effect(5) [OF disj _ _ src]) simp_all
  have "used_rep ?r b []"
    using used_rep_cong [of ?r b "mem driver_demo" "[]"] fill_spares_used [OF disj, of 0 60] m(4) by (simp add: b_def)
  then have u1: "used_rep ?r (avail_put ?r 256 0 b) []"
    using used_rep_cong [of ?r "avail_put ?r 256 0 b" b "[]"] writes_spare_used(1) by blast
  have "avail_open ?r (avail_put ?r 256 0 b) [] 0" by (rule avail_put_open [OF rep]) (simp add: DESC_QUEUE_SIZE_def)
  then have "echo ?r (avail_put ?r 256 0 b) = avail_put ?r 256 0 b"
    using u1 by (simp add: echo_def Let_def avail_open_def used_rep_def)
  then have pub: "mem s' = echo ?r (avail_publish ?r 0 b)" by (simp add: mem' avail_publish_def DESC_QUEUE_SIZE_def)
  have rep1: "avail_rep ?r (avail_publish ?r 0 b) [0]" using availq.publish_rep [OF rep, of 0] by simp
  have "agree ?r 0 0 (mem s') (avail_publish ?r 0 b)"
    unfolding pub by (auto simp: agree_def owned_def in_rng_def intro!: echo_far)
  from avail_rep_agree [OF this] rep1 have "avail_rep ?r (mem s') ([] @ [0])" by simp
  from published_eq [OF rep0 this] show "published ?r (mem driver_demo) (mem s') = [0]" by simp
  have "used_rep ?r (avail_publish ?r 0 b) []"
    using used_rep_cong [of ?r "avail_publish ?r 0 b" "avail_put ?r 256 0 b" "[]"] writes_spare_used(2) u1
    by (simp add: avail_publish_def DESC_QUEUE_SIZE_def)
  then show "ld16 (mem s') (used_idx ?r) = 1" using rep1 by (simp add: pub echo_def Let_def used_rep_def avail_rep_def)
qed

lemma send_ring:
  assumes "virt_mmio_net_send dev data len s = Some s'" "length (net_queues s) = 2"
  shows "ring (queue s' VIRTIO_NET_TX_QUEUE) = ring (queue s VIRTIO_NET_TX_QUEUE)"
proof -
  obtain s1 where s1: "uart_puts msg_sending s = Some s1"
    using assms(1) by (auto simp: virt_mmio_net_send_def bind_eq_Some_conv)
  then have n: "net_queues s1 = net_queues s" using uart_puts_frame by fastforce
  with assms show ?thesis
    unfolding virt_mmio_net_send_def s1 bind.bind_lunit Let_def
    by (auto simp: virt_mmio_write_def mem_barrier_def set_queue_def queue_def VIRTIO_NET_TX_QUEUE_def
        split: if_splits dest!: uart_puts_frame)
qed

theorem driver_owns_descriptors_witness:
  "\<exists>es s'. driver_run 0x10001000 driver_demo es s' \<and>
    offers VIRTIO_NET_TX_QUEUE es = [0] \<and> returns VIRTIO_NET_TX_QUEUE es = [0] \<and>
    (\<exists>H. own (held [] [] [] []) es = Some H \<and> H VIRTIO_NET_TX_QUEUE = {})"
proof -
  obtain s' where s': "virt_mmio_net_send 0x10001000 0x80000000 60 driver_demo = Some s'"
    using send_returns [OF driver_demo_queues(5)] by blast
  let ?es = "seg driver_demo s'" and ?tx = VIRTIO_NET_TX_QUEUE
  have "rng_disj (buffers (queue driver_demo ?tx)) 524288 0x80000000 (unat (60 :: u32))"
    unfolding driver_demo_queues by (rule rng_disjI) (simp_all add: ready_queue_def)
  from driver_step.send [OF s' this] have r: "driver_run 0x10001000 driver_demo ?es s'"
    using driver_run.step [OF driver_run.start] by fastforce
  have o: "offers ?tx ?es = [0]"
    using demo_send(1) [OF s'] by (simp add: seg_def Let_def driver_demo_queues ready_queue_def)
  note t = driver_owns_descriptors [OF driver_demo_inv r, unfolded Let_def o append_Nil]
  from t obtain rx c e where g: "good (\<lambda>_. in_order) rx (queue s' ?tx) (free_pages s') (offers VIRTIO_NET_RX_QUEUE ?es) [0]
      (returns VIRTIO_NET_RX_QUEUE ?es) (returns ?tx ?es) c e s'" by (auto simp: driver_inv_def)
  have "ring (queue s' ?tx) = 0x80300000"
    using send_ring [OF s' driver_demo_queues(3)] by (simp add: driver_demo_queues ready_queue_def)
  with g demo_send(2) [OF s'] have "in_order [0] (returns ?tx ?es)" "(of_nat (length (returns ?tx ?es)) :: u16) = 1"
    by (auto simp: good_def exact_def used_rep_def)
  then have "returns ?tx ?es = [0]"
    using in_order_props(1) [of "[0]" "returns ?tx ?es"] by (cases "returns ?tx ?es") (auto simp: in_order_def)
  with r o t show ?thesis by (intro exI [of _ ?es] exI [of _ s']) (auto simp: held_def out_def)
qed

end
