(* ===== verification/Boot.thy ===== *)
theory Boot
  imports Trap Dtb Virtio_Bringup
begin

text \<open>
  The kernel entry of \<^verbatim>\<open>src/src/kernel/main.c\<close>: the two tasks and \<open>main\<close>, which composes all other
  components. Addresses the linker assigns (code of the kernel, the trap entry, the tasks, the
  literals of \<open>dtb_callback\<close>, the variable \<^verbatim>\<open>_dtb_addr\<close>) and that of a local array are the record \<open>image\<close>.

  \<open>main_boot\<close> is \<open>main\<close> up to the call of \<open>scheduler\<close>. The scheduler is the step relation \<open>kstep\<close> of
  \<open>Process\<close>, and \<open>kmain\<close> relates the state \<open>main\<close> is called in to the one in which it returns.
  Interrupts that arrive while \<open>main\<close> itself runs are not part of this relation.
\<close>

declare lit_Cons [simp del]

section \<open>The tasks\<close>

function delay_loop :: "int \<Rightarrow> int" where
  "delay_loop d = (if d < 10000000 then delay_loop (d + 1) else d)"
  by pat_completeness auto
termination
  by (relation "measure (\<lambda>d. nat (10000000 - d))") auto

declare delay_loop.simps [simp del]

function task_loop :: "u8 list \<Rightarrow> nat \<Rightarrow> 'a machine_scheme \<Rightarrow> 'a machine_scheme option" where
  "task_loop label i s =
     (if i < 5 then do {
        s \<leftarrow> uart_puts label s;
        s \<leftarrow> uart_putc (48 + of_nat i) s;
        s \<leftarrow> uart_puts (lit ('').'' @ [CHR 0x0A])) s;
        let d = delay_loop 0;
        task_loop label (Suc i) s
      }
      else Some s)"
  by pat_completeness auto
termination
  by (relation "measure (\<lambda>(label, i, s). 5 - i)") auto

declare task_loop.simps [simp del]

definition taskA :: "'a machine_scheme \<Rightarrow> 'a machine_scheme option" where
  "taskA = task_loop (lit ''Task A is running (step '') 0"

definition taskB :: "'a machine_scheme \<Rightarrow> 'a machine_scheme option" where
  "taskB = task_loop (lit ''Task B is running (step '') 0"

section \<open>The entry\<close>

record image =
  kcode :: code
  trap_vector_pc :: u64
  dtb_sym :: u64
  lit_ns16550a :: u64
  lit_virtio_mmio :: u64
  mac_buf_addr :: u64
  taskA_pc :: u64
  taskB_pc :: u64

definition msg_hello :: "u8 list" where "msg_hello = lit (''Hello, World!'' @ [CHR 0x0A])"
definition msg_trap :: "u8 list" where "msg_trap = lit (''Trap handler initialized.'' @ [CHR 0x0A])"
definition msg_procs :: "u8 list" where "msg_procs = lit (''Initializing process subsystem...'' @ [CHR 0x0A])"
definition msg_create :: "u8 list" where "msg_create = lit (''Creating Task A and Task B...'' @ [CHR 0x0A])"
definition msg_sched :: "u8 list" where "msg_sched = lit (''Starting scheduler...'' @ [CHR 0x0A])"
definition msg_end :: "u8 list" where "msg_end = lit (''End of main.'' @ [CHR 0x0A])"

text \<open>\<open>main\<close> after \<open>mem_init\<close>, in three parts: console, traps and timer; devices; processes.\<close>

definition main_machine :: "image \<Rightarrow> 'a machine_scheme \<Rightarrow> 'a machine_scheme option" where
  "main_machine I s = do {
     s \<leftarrow> uart_init 115200 100000000 s;
     s \<leftarrow> uart_puts msg_hello s;
     let s = trap_init (trap_vector_pc I) s;
     s \<leftarrow> uart_puts msg_trap s;
     let s = set_timer 1000000 s;
     let s = enable_timer_interrupt s;
     Some (intr_on s)
   }"

definition main_devices :: "image \<Rightarrow> 'a net_scheme \<Rightarrow> 'a net_scheme option" where
  "main_devices I s = do {
     calls \<leftarrow> fdt_traverse (mem s) (ld64 (mem s) (dtb_sym I)) (dtb_callback (lit_ns16550a I) (lit_virtio_mmio I) (mem s));
     virt_find_all_devices (mac_buf_addr I) s
   }"

definition main_procs :: "image \<Rightarrow> 'a kernel_scheme \<Rightarrow> 'a kernel_scheme option" where
  "main_procs I s = do {
     s \<leftarrow> uart_puts msg_procs s;
     let s = proc_init s;
     s \<leftarrow> uart_puts msg_create s;
     (p, s) \<leftarrow> proc_create (kcode I) (taskA_pc I) (Some (lit ''taskA'')) s;
     (p, s) \<leftarrow> proc_create (kcode I) (taskB_pc I) (Some (lit ''taskB'')) s;
     uart_puts msg_sched s
   }"

definition main_boot :: "image \<Rightarrow> 'a net_scheme \<Rightarrow> (map_fault + bool \<times> 'a net_scheme) option" where
  "main_boot I s =
     rbind (mem_init s) (\<lambda>(ret, s).
       if ret \<noteq> 0 then Some (Inr (False, s))
       else do {
         s \<leftarrow> main_machine I s;
         s \<leftarrow> main_devices I s;
         s \<leftarrow> main_procs I s;
         Some (Inr (True, s))
       })"

inductive kmain :: "image \<Rightarrow> 'a net_scheme \<Rightarrow> 'a net_scheme \<Rightarrow> bool" for I where
  no_memory: "main_boot I s = Some (Inr (False, s')) \<Longrightarrow> kmain I s s'"
| all_done: "main_boot I s = Some (Inr (True, s1)) \<Longrightarrow>
    (kstep (kcode I))\<^sup>*\<^sup>* (L_scan 0 False, s1) (L_exit, s2) \<Longrightarrow> uart_puts msg_end s2 = Some s' \<Longrightarrow> kmain I s s'"

section \<open>What the tasks print\<close>

lemma delay_ends: "d \<le> 10000000 \<Longrightarrow> delay_loop d = 10000000"
proof (induction "nat (10000000 - d)" arbitrary: d)
  case 0
  then show ?case by (subst delay_loop.simps) simp
next
  case (Suc n)
  then show ?case by (subst delay_loop.simps) auto
qed

definition task_text :: "u8 list \<Rightarrow> u8 list" where
  "task_text label = concat (map (\<lambda>i. label @ [48 + of_nat i] @ lit ('').'' @ [CHR 0x0A])) [0..<5])"

lemma says_task_loop:
  assumes "CHR 0x00 \<notin> set label"
  shows "uart.says (task_loop (lit label) i s) s
    (concat (map (\<lambda>i. lit label @ [48 + of_nat i] @ lit ('').'' @ [CHR 0x0A])) [i..<5]))"
proof (induction "5 - i" arbitrary: i s)
  case 0
  then show ?case by (subst task_loop.simps) (simp add: uart.says_nothing)
next
  case (Suc n)
  then have i: "i < 5" by simp
  have IH: "uart.says (task_loop (lit label) (Suc i) t) t
      (concat (map (\<lambda>i. lit label @ [48 + of_nat i] @ lit ('').'' @ [CHR 0x0A])) [Suc i..<5]))" for t :: "'a machine_scheme"
    using Suc by (intro Suc.hyps(1)) simp
  show ?case
    using i unfolding upt_conv_Cons [OF i] list.map concat.simps append_assoc
    by (subst task_loop.simps, simp only: if_True Let_def)
      (rule uart.says_bind says_puts says_putc IH | use assms in simp | simp)+
qed

lemma tasks_print:
  "uart.says (taskA s) s (task_text (lit ''Task A is running (step ''))"
  "uart.says (taskB s) s (task_text (lit ''Task B is running (step ''))"
  unfolding taskA_def taskB_def task_text_def by (rule says_task_loop, simp)+

section \<open>The parts of main\<close>

lemma says_main_msgs:
  "uart.says (uart_puts msg_hello s) s msg_hello" "uart.says (uart_puts msg_trap s) s msg_trap"
  "uart.says (uart_puts msg_procs s) s msg_procs" "uart.says (uart_puts msg_create s) s msg_create"
  "uart.says (uart_puts msg_sched s) s msg_sched"
  unfolding msg_hello_def msg_trap_def msg_procs_def msg_create_def msg_sched_def by (rule says_puts, simp)+

lemma uart_init_frame: "baud \<noteq> 0 \<Longrightarrow> \<exists>k w. uart_init baud clk s = Some (s\<lparr>uart_rd := k, uart_wr := w\<rparr>)"
  unfolding uart_init_def Let_def uart_read_def uart_write_def by (simp split: prod.split) blast

lemma puts_frame:
  "uart.says (uart_puts str s) s cs \<Longrightarrow> uart_live s \<Longrightarrow> \<exists>k w. uart_puts str s = Some (s\<lparr>uart_rd := k, uart_wr := w\<rparr>)"
  using uart.says_total uart_puts_frame by blast

lemma main_machine_effect:
  assumes live: "uart_live s"
  shows "\<exists>k w. main_machine I s = Some (s\<lparr>stvec := trap_vector_pc I, uart_rd := k, uart_wr := w,
     time_rd := Suc (time_rd s), mtimecmp := time_in s (time_rd s) + 1000000, mip := csr_clear (mip s) 0x20,
     mie := csr_set (csr_set (mie s) 0x80) (push_bit 5 1), sstatus := csr_set (sstatus s) (push_bit 1 1)\<rparr>)"
proof -
  obtain k1 w1 where s1: "uart_init 115200 100000000 s = Some (s\<lparr>uart_rd := k1, uart_wr := w1\<rparr>)"
    using uart_init_frame [of 115200 100000000 s] by auto
  have l: "uart_live (s\<lparr>uart_rd := k, uart_wr := w\<rparr>)" "uart_live (s\<lparr>uart_rd := k, uart_wr := w, stvec := v\<rparr>)" for k w v
    using live by (simp_all add: uart_live_def)
  obtain k2 w2 where s2: "uart_puts msg_hello (s\<lparr>uart_rd := k1, uart_wr := w1\<rparr>) = Some (s\<lparr>uart_rd := k2, uart_wr := w2\<rparr>)"
    using puts_frame [OF says_main_msgs(1) l(1) [where k = k1 and w = w1]] by auto
  obtain k3 w3 n3 where s3: "uart_puts msg_trap (s\<lparr>uart_rd := k2, uart_wr := w2, stvec := trap_vector_pc I\<rparr>) =
      Some (s\<lparr>stvec := trap_vector_pc I, uart_rd := k3, uart_wr := w3\<rparr>)"
    using puts_frame [OF says_main_msgs(2) l(2) [where k = k2 and w = w2 and v = "trap_vector_pc I"]] by auto
  show ?thesis
    unfolding main_machine_def s1 trap_init_def w_stvec_def set_timer_def get_time_def m_set_timer_def
      enable_timer_interrupt_def intr_on_def by (auto simp: s2 s3)
qed

text \<open>No slot reports the device type of a network card. Other devices may be there.\<close>

definition no_net_device :: "'a net_scheme \<Rightarrow> bool" where
  "no_net_device s \<longleftrightarrow> (\<forall>w n i. mmio_in s w n (slot_device i + 8) \<noteq> 1)"

lemma main_devices_effect:
  assumes live: "uart_live s" and none: "no_net_device s"
    and fdt: "fdt_traverse (mem s) (ld64 (mem s) (dtb_sym I)) (dtb_callback (lit_ns16550a I) (lit_virtio_mmio I) (mem s)) = Some calls"
  shows "\<exists>k w n. main_devices I s = Some (s\<lparr>uart_rd := k, uart_wr := w, mmio_rd := n\<rparr>)"
proof -
  have Q: "probed s [] s \<and> uart_live s" using live by (simp add: probed_refl)
  obtain u where u: "uart_puts msg_scanning s = Some u" "probed s [] u \<and> uart_live s"
    using probe.puts [OF Q] by (auto simp: ends_def)
  have "\<exists>t. (probed s [] t \<and> uart_live s) \<and> scan_loop (mac_buf_addr I) 1 u = scan_loop (mac_buf_addr I) (Suc (unat VIRTIO_SLOTS)) t"
    using u(2) by (rule probe.quiet_scan) (use none in \<open>auto simp: no_net_device_def probed_facts VIRTIO_SLOTS_def\<close>)
  moreover have "scan_loop (mac_buf_addr I) (Suc (unat VIRTIO_SLOTS)) t = Some t" for t :: "'a net_scheme"
    by (subst scan_loop.simps) simp
  ultimately obtain t where t: "main_devices I s = Some t" "probed s [] t"
    using u(1) unfolding main_devices_def virt_find_all_devices_def fdt bind.bind_lunit by auto
  have "t = s\<lparr>uart_rd := uart_rd t, uart_wr := uart_wr t, mmio_rd := mmio_rd t\<rparr>" using t(2) by (simp add: probed_def)
  with t(1) show ?thesis by metis
qed

text \<open>The part of the process table the two calls of \<open>proc_create\<close> leave behind.\<close>

definition tasks_made :: "image \<Rightarrow> 'a kernel_scheme \<Rightarrow> bool" where
  "tasks_made I s \<longleftrightarrow> state (proc_at s 0) = PROC_RUNNABLE \<and> entry_fn (proc_at s 0) = taskA_pc I \<and>
     state (proc_at s 1) = PROC_RUNNABLE \<and> entry_fn (proc_at s 1) = taskB_pc I \<and>
     (\<forall>i<NPROC. 2 \<le> i \<longrightarrow> state (proc_at s i) = PROC_UNUSED)"

lemma ready_facts: "ready A s \<Longrightarrow> length (procs s) = NPROC \<and> alloc_inv s \<and> uart_live s"
  by (simp add: ready_def table_ok_def stacks_ok_def)

lemma find_unused_at:
  assumes "i < NPROC" "state (proc_at s i) = PROC_UNUSED" "\<forall>j<i. state (proc_at s j) \<noteq> PROC_UNUSED"
    "find_unused (procs s) 0 = Some k"
  shows "k = i"
  using find_unused_Some [OF assms(4)] assms(1-3) unfolding proc_at_def by (metis linorder_neqE_nat)

lemma proc_create_at:
  fixes fn :: u64 and name :: "u8 list option"
  assumes r: "ready A s" and i: "i < NPROC" "state (proc_at s i) = PROC_UNUSED" "\<forall>j<i. state (proc_at s j) \<noteq> PROC_UNUSED"
    and pg: "Suc n \<le> card (free_pages s)"
  shows "\<exists>s' stk. proc_create A fn name s = Some (Some i, s') \<and> ready A s' \<and> n \<le> card (free_pages s') \<and>
    (\<forall>j. proc_at s' j = (if j = i then new_process A i stk fn name (proc_at s i) else proc_at s j))"
  using ready_facts [OF r, THEN conjunct1] ready_facts [OF r, THEN conjunct2, THEN conjunct1]
    ready_facts [OF r, THEN conjunct2, THEN conjunct2]
proof (cases rule: proc_create_cases [where A = A and entry = fn and name = name])
  case (full k w)
  then show ?thesis using i find_unused_None [of s] by auto
next
  case (nomem k' k w)
  then show ?thesis using pg by simp
next
  case (made k stk t)
  have k: "k = i" by (rule find_unused_at [OF i made(1)])
  note m = proc_create_made [OF r made(1,7,9,6,2-4), of fn name]
  have "free_pages (set_proc k (\<lambda>p. new_process A k stk fn name p) t) = free_pages s - {stk}"
    using made(9) by simp
  then show ?thesis using made(2,5) m pg unfolding k by (auto simp: card_Diff_singleton_if)
qed

lemma proc_create_total:
  assumes r: "ready A s"
  shows "\<exists>res s'. proc_create A fn name s = Some (res, s') \<and> ready A s'"
proof -
  have "\<exists>res s'. proc_create A fn name s = Some (res, s')"
    using ready_facts [OF r, THEN conjunct1] ready_facts [OF r, THEN conjunct2, THEN conjunct1]
      ready_facts [OF r, THEN conjunct2, THEN conjunct2]
    by (rule proc_create_cases [where A = A and entry = fn and name = name]) blast+
  with proc_create_ready [OF r] show ?thesis by blast
qed

lemma proc_create_csrs:
  assumes r: "ready A s" and c: "proc_create A fn name s = Some (res, s')"
  shows "csrs s' = csrs s"
  using ready_facts [OF r, THEN conjunct1] ready_facts [OF r, THEN conjunct2, THEN conjunct1]
    ready_facts [OF r, THEN conjunct2, THEN conjunct2]
proof (cases rule: proc_create_cases [where A = A and entry = fn and name = name])
  case (made i stk t)
  obtain m h d where t: "t = s\<lparr>mem := m, free_list := h, free_page_count := d\<rparr>" using made(6) by blast
  have "s' = set_proc i (\<lambda>p. new_process A i stk fn name p) t" using made(5) c by simp
  then show ?thesis by (simp add: t csrs_def set_proc_def)
qed (use c in \<open>simp_all add: csrs_def\<close>)

lemma two_tasks:
  assumes r: "ready A s" and un: "\<forall>i<NPROC. state (proc_at s i) = PROC_UNUSED" and A: "A = kcode I"
  shows "\<exists>p s1 q s2. proc_create A (taskA_pc I) n1 s = Some (p, s1) \<and> proc_create A (taskB_pc I) n2 s1 = Some (q, s2) \<and>
    ready A s1 \<and> ready A s2 \<and> (2 \<le> card (free_pages s) \<longrightarrow> tasks_made I s2)"
proof (cases "2 \<le> card (free_pages s)")
  case True
  have n: "0 < NPROC" "1 < NPROC" by (simp_all add: NPROC_def)
  obtain s1 stk where s1: "proc_create A (taskA_pc I) n1 s = Some (Some 0, s1)" "ready A s1" "1 \<le> card (free_pages s1)"
    "\<forall>j. proc_at s1 j = (if j = 0 then new_process A 0 stk (taskA_pc I) n1 (proc_at s 0) else proc_at s j)"
    using proc_create_at [OF r n(1), of 1 "taskA_pc I" n1] un n True by auto
  have "state (proc_at s1 1) = PROC_UNUSED" "\<forall>j<1. state (proc_at s1 j) \<noteq> PROC_UNUSED"
    using s1(4) un n by (simp_all add: new_process_def)
  then obtain s2 stk2 where s2: "proc_create A (taskB_pc I) n2 s1 = Some (Some 1, s2)" "ready A s2"
    "\<forall>j. proc_at s2 j = (if j = 1 then new_process A 1 stk2 (taskB_pc I) n2 (proc_at s1 1) else proc_at s1 j)"
    using proc_create_at [OF s1(2) n(2), of 0 "taskB_pc I" n2] s1(3) by auto
  have "tasks_made I s2" using s1(4) s2(3) un by (auto simp: tasks_made_def new_process_def)
  with s1(1,2) s2(1,2) show ?thesis by blast
next
  case False
  obtain p s1 where s1: "proc_create A (taskA_pc I) n1 s = Some (p, s1)" "ready A s1"
    using proc_create_total [OF r] by blast
  obtain q s2 where "proc_create A (taskB_pc I) n2 s1 = Some (q, s2)" "ready A s2"
    using proc_create_total [OF s1(2)] by blast
  with s1 False show ?thesis by blast
qed

lemma main_procs_effect:
  assumes len: "length (procs s) = NPROC" and inv: "alloc_inv s" and live: "uart_live s"
  shows "\<exists>s'. main_procs I s = Some s' \<and> ready (kcode I) s' \<and> csrs s' = csrs s \<and>
    (2 \<le> card (free_pages s) \<longrightarrow> tasks_made I s')"
proof -
  let ?A = "kcode I"
  obtain k1 w1 where s1: "uart_puts msg_procs s = Some (s\<lparr>uart_rd := k1, uart_wr := w1\<rparr>)" (is "_ = Some ?s1")
    using puts_frame [OF says_main_msgs(3) live] by blast
  have s1': "length (procs ?s1) = NPROC" "alloc_inv ?s1" "uart_live ?s1"
    using len inv live by (simp_all add: uart_live_def alloc_inv_def pages_ok_def heap_ok_def page_ok_def)
  note r1 = proc_init_ready [OF s1', of ?A]
  obtain k2 w2 where s2: "uart_puts msg_create (proc_init ?s1) = Some ((proc_init ?s1)\<lparr>uart_rd := k2, uart_wr := w2\<rparr>)" (is "_ = Some ?s2")
    using puts_frame [OF says_main_msgs(4)] ready_facts [OF r1] by blast
  have r2: "ready ?A ?s2" by (rule ready_uart [OF r1])
  have un: "state (proc_at ?s2 i) = PROC_UNUSED" if "i < NPROC" for i
    using that len by (simp add: proc_init_def proc_at_def)
  have fr: "free_pages ?s2 = free_pages s"
    by (simp add: free_pages_def proc_init_def pages_ok_def heap_ok_def page_ok_def)
  have un': "\<forall>i<NPROC. state (proc_at ?s2 i) = PROC_UNUSED" using un by blast
  obtain p s3 q s4 where s4: "proc_create ?A (taskA_pc I) (Some (lit ''taskA'')) ?s2 = Some (p, s3)"
    "proc_create ?A (taskB_pc I) (Some (lit ''taskB'')) s3 = Some (q, s4)" "ready ?A s4" "ready ?A s3"
    "2 \<le> card (free_pages s) \<longrightarrow> tasks_made I s4"
    using two_tasks [OF r2 un' refl, of "Some (lit ''taskA'')" "Some (lit ''taskB'')"] unfolding fr by blast
  obtain k5 w5 where s5: "uart_puts msg_sched s4 = Some (s4\<lparr>uart_rd := k5, uart_wr := w5\<rparr>)"
    using puts_frame [OF says_main_msgs(5)] ready_facts [OF s4(3)] by blast
  have "main_procs I s = Some (s4\<lparr>uart_rd := k5, uart_wr := w5\<rparr>)"
    unfolding main_procs_def s1 by (simp add: s2 s4(1,2) s5)
  moreover have "tasks_made I (s4\<lparr>uart_rd := k5, uart_wr := w5\<rparr>) = tasks_made I s4" by (simp add: tasks_made_def)
  moreover have "csrs (s4\<lparr>uart_rd := k5, uart_wr := w5\<rparr>) = csrs s"
    using proc_create_csrs [OF r2 s4(1)] proc_create_csrs [OF s4(4,2)] by (simp add: csrs_def proc_init_def)
  ultimately show ?thesis using ready_uart [OF s4(3)] s4(5) by auto
qed

text \<open>\<open>main\<close> around \<open>main_devices\<close>: whatever the devices do, if they leave control registers, process table and
  heap alone, the rest of \<open>main\<close> arrives at the scheduler.\<close>

definition booted :: "image \<Rightarrow> 'a net_scheme \<Rightarrow> 'a net_scheme \<Rightarrow> bool" where
  "booted I s1 s' \<longleftrightarrow> sched_inv (kcode I) (L_scan 0 False, s') \<and> uart_live s' \<and> satp s' = satp s1 \<and>
     stvec s' = trap_vector_pc I \<and> sie_on s' \<and> bit (mie s') 5 \<and> bit (mie s') 7 \<and>
     mtimecmp s' = time_in s1 (time_rd s1) + 1000000"

lemma main_boot_around:
  fixes s s1 :: "'a net_scheme"
  assumes init: "mem_init s = Some (Inr (0, s1))" and live: "uart_live s1" and len: "length (procs s1) = NPROC"
  obtains k w s2 where "main_machine I s1 = Some s2"
    "s2 = s1\<lparr>stvec := trap_vector_pc I, uart_rd := k, uart_wr := w,
     time_rd := Suc (time_rd s1), mtimecmp := time_in s1 (time_rd s1) + 1000000, mip := csr_clear (mip s1) 0x20,
     mie := csr_set (csr_set (mie s1) 0x80) (push_bit 5 1), sstatus := csr_set (sstatus s1) (push_bit 1 1)\<rparr>"
    "main_devices I s2 = None \<Longrightarrow> main_boot I s = None"
    "\<And>t. main_devices I s2 = Some t \<Longrightarrow> csrs t = csrs s2 \<Longrightarrow> procs t = procs s2 \<Longrightarrow> alloc_inv t \<Longrightarrow> uart_live t \<Longrightarrow>
       \<exists>s'. main_boot I s = Some (Inr (True, s')) \<and> booted I s1 s' \<and> (2 \<le> card (free_pages t) \<longrightarrow> tasks_made I s')"
proof -
  obtain k w where m: "main_machine I s1 = Some (s1\<lparr>stvec := trap_vector_pc I, uart_rd := k, uart_wr := w,
     time_rd := Suc (time_rd s1), mtimecmp := time_in s1 (time_rd s1) + 1000000, mip := csr_clear (mip s1) 0x20,
     mie := csr_set (csr_set (mie s1) 0x80) (push_bit 5 1), sstatus := csr_set (sstatus s1) (push_bit 1 1)\<rparr>)" (is "_ = Some ?s2")
    using main_machine_effect [OF live] by blast
  have unfold: "main_boot I s = Option.bind (main_devices I ?s2) (\<lambda>t. Option.bind (main_procs I t) (\<lambda>s'. Some (Inr (True, s'))))"
    unfolding main_boot_def init rbind_simps prod.case by (simp only: m bind.bind_lunit if_False simp_thms)
  have bits: "bit (push_bit 5 1 :: u64) 5" "bit (0x80 :: u64) 7" "bit (push_bit 1 1 :: u64) 1" by (simp_all add: bit_simps)
  have "\<exists>s'. main_boot I s = Some (Inr (True, s')) \<and> booted I s1 s' \<and> (2 \<le> card (free_pages t) \<longrightarrow> tasks_made I s')"
    if t: "main_devices I ?s2 = Some t" "csrs t = csrs ?s2" "procs t = procs ?s2" "alloc_inv t" "uart_live t" for t
  proof -
    have "length (procs t) = NPROC" using t(3) len by simp
    then obtain s' where s': "main_procs I t = Some s'" "ready (kcode I) s'" "csrs s' = csrs t"
      "2 \<le> card (free_pages t) \<longrightarrow> tasks_made I s'"
      using main_procs_effect [OF _ t(4,5), of I] by blast
    moreover have "booted I s1 s'"
      using ready_start [OF s'(2)] ready_facts [OF s'(2)] s'(3) t(2) bits by (auto simp: booted_def csrs_def sie_on_def)
    ultimately show ?thesis unfolding unfold t(1) by simp
  qed
  with m unfold show ?thesis by (intro that [where k = k and w = w]) auto
qed

lemma main_boot_effect:
  fixes I :: image and s s1 :: "'a net_scheme"
  assumes inv: "alloc_inv s" and pages: "3 \<le> card (free_pages s)" and live: "uart_live s"
    and len: "length (procs s) = NPROC" and none: "no_net_device s"
    and init: "mem_init s = Some (Inr (0, s1))"
    and fdt: "fdt_traverse (mem s1) (ld64 (mem s1) (dtb_sym I)) (dtb_callback (lit_ns16550a I) (lit_virtio_mmio I) (mem s1)) = Some calls"
  shows "\<exists>s'. main_boot I s = Some (Inr (True, s')) \<and> sched_inv (kcode I) (L_scan 0 False, s') \<and> uart_live s' \<and>
    satp s' = satp s1 \<and> stvec s' = trap_vector_pc I \<and> sie_on s' \<and> bit (mie s') 5 \<and> bit (mie s') 7 \<and>
    mtimecmp s' = time_in s (time_rd s) + 1000000 \<and> (5 \<le> card (free_pages s) \<longrightarrow> tasks_made I s')"
proof -
  obtain root m h c where s1: "s1 = s\<lparr>mem := m, free_list := h, free_page_count := c, satp := satp_value root\<rparr>" "alloc_inv s1"
    "card (free_pages s) \<le> card (free_pages s1) + 3"
    using mem_init_maps [OF inv pages] init by auto
  have l1: "uart_live s1" "length (procs s1) = NPROC" "no_net_device s1"
    using live len none by (simp_all add: s1(1) uart_live_def no_net_device_def)
  obtain k w s2 where s2: "s2 = s1\<lparr>stvec := trap_vector_pc I, uart_rd := k, uart_wr := w,
     time_rd := Suc (time_rd s1), mtimecmp := time_in s1 (time_rd s1) + 1000000, mip := csr_clear (mip s1) 0x20,
     mie := csr_set (csr_set (mie s1) 0x80) (push_bit 5 1), sstatus := csr_set (sstatus s1) (push_bit 1 1)\<rparr>"
    and go: "\<And>t. main_devices I s2 = Some t \<Longrightarrow> csrs t = csrs s2 \<Longrightarrow> procs t = procs s2 \<Longrightarrow> alloc_inv t \<Longrightarrow> uart_live t \<Longrightarrow>
       \<exists>s'. main_boot I s = Some (Inr (True, s')) \<and> booted I s1 s' \<and> (2 \<le> card (free_pages t) \<longrightarrow> tasks_made I s')"
    by (rule main_boot_around [OF init l1(1,2), of I]) blast
  have l2: "uart_live s2" "no_net_device s2" using l1 by (simp_all add: s2 uart_live_def no_net_device_def)
  obtain k3 w3 n3 where s3: "main_devices I s2 = Some (s2\<lparr>uart_rd := k3, uart_wr := w3, mmio_rd := n3\<rparr>)" (is "_ = Some ?s3")
    using main_devices_effect [OF l2, of I calls] fdt by (auto simp: s2)
  have "alloc_inv ?s3" "uart_live ?s3" "free_pages ?s3 = free_pages s1" "csrs ?s3 = csrs s2"
    using l1 s1(2) by (simp_all add: s2 alloc_inv_def free_pages_def pages_ok_def heap_ok_def page_ok_def uart_live_def csrs_def)
  with go [OF s3] s1(1,3) show ?thesis by (auto simp: booted_def)
qed

lemma used_step:
  assumes "sched_inv A d" "kstep A d d'" "i < NPROC" "state (proc_at (snd d) i) \<noteq> PROC_UNUSED"
  shows "state (proc_at (snd d') i) \<noteq> PROC_UNUSED"
  using assms(2,1,4)
proof (cases rule: kstep.cases)
  case (pick k s s' found)
  with assms show ?thesis by (auto simp: table_ok_def sched_dispatch_effect)
next
  case (exit k s s')
  from uart_puts_frame [OF exit(5)] exit assms show ?thesis by auto
next
  case (user s s' k)
  with assms show ?thesis by (simp add: user_step_def proc_at_def)
next
  case (yields s' s k)
  with assms show ?thesis by (auto simp: table_ok_def yield_effect)
next
  case (finish s s' k)
  with assms have "length (procs s) = NPROC" "current_process s = Some k" "k < NPROC" by (auto simp: table_ok_def)
  from forkret_exit_effect(2) [OF this finish(3)] finish assms show ?thesis by auto
qed auto

lemma used_run:
  assumes "(kstep A)\<^sup>*\<^sup>* c d" "sched_inv A c" "i < NPROC" "state (proc_at (snd c) i) \<noteq> PROC_UNUSED"
  shows "state (proc_at (snd d) i) \<noteq> PROC_UNUSED"
proof -
  have "sched_inv A d \<and> state (proc_at (snd d) i) \<noteq> PROC_UNUSED"
    using assms by (induction rule: rtranclp_induct) (auto dest: sched_inv_step used_step)
  then show ?thesis ..
qed

lemma forkret_exit_total:
  assumes live: "uart_live s"
  shows "\<exists>s'. forkret_exit A s = Some s' \<and> uart_live s'"
proof (cases "current_process s")
  case None
  then show ?thesis using live by (simp add: forkret_exit_def yield_def)
next
  case (Some i)
  have pr: "\<exists>t. uart_puts str u = Some t \<and> uart_live t \<and> proc_at t = proc_at u \<and> current_process t = current_process u"
    if "uart_live u" for str and u :: "'a kernel_scheme"
    using uart_puts_total [OF that, of str] that by (auto simp: uart_live_def)
  have y: "uart_live (yield A u)" if "uart_live u" for u :: "'a kernel_scheme"
    using that by (auto simp: yield_def call_swtch_def swtch_def ctx_store_def ctx_load_def uart_live_def Let_def split: option.split)
  obtain s1 where s1: "uart_puts (lit (''Process '' @ [CHR 0x27])) s = Some s1" "uart_live s1" using pr [OF live] by blast
  obtain s2 where s2: "uart_puts (pname (proc_at s1 i)) s1 = Some s2" "uart_live s2" using pr [OF s1(2)] by blast
  obtain s3 where s3: "uart_puts (lit ([CHR 0x27] @ '' finished execution. Exiting...'' @ [CHR 0x0A])) s2 = Some s3" "uart_live s3"
    using pr [OF s2(2)] by blast
  have "uart_live (set_proc i (state_update (\<lambda>_. PROC_ZOMBIE)) s3)" using s3(2) by (simp add: uart_live_def)
  from y [OF this] show ?thesis
    unfolding forkret_exit_def Some option.case s1(1) bind.bind_lunit s2(1) s3(1) by blast
qed

text \<open>A run in which every process finishes the first time it is picked.\<close>

lemma finish_at_once:
  assumes inv: "sched_inv A (L_scan i f, s)" and live: "uart_live s" and i: "i < NPROC" "state (proc_at s i) = PROC_RUNNABLE"
  shows "\<exists>s'. (kstep A)\<^sup>*\<^sup>* (L_scan i f, s) (L_scan (Suc i) True, s') \<and> sched_inv A (L_scan (Suc i) True, s') \<and>
    uart_live s' \<and> state (proc_at s' i) = PROC_ZOMBIE \<and> (\<forall>j. j \<noteq> i \<longrightarrow> proc_at s' j = proc_at s j)"
proof -
  let ?d = "sched_dispatch A i s"
  have len: "length (procs s) = NPROC" using inv by (simp add: table_ok_def)
  note dis = sched_dispatch_effect [OF len i(1), of A]
  have p: "kstep A (L_scan i f, s) (enter_proc A i ?d, ?d)" by (rule kstep.pick) (use i in auto)
  have run: "enter_proc A i ?d = L_run i"
    using sched_inv_step [OF inv p] by (auto simp: enter_proc_def split: if_splits)
  have live_d: "uart_live ?d" using live
    by (simp add: uart_live_def sched_dispatch_def call_swtch_def swtch_def ctx_store_def ctx_load_def sched_mark_def Let_def)
  obtain t where t: "forkret_exit A ?d = Some t" "uart_live t"
    using forkret_exit_total [OF live_d] by blast
  have fi: "kstep A (L_run i, ?d) (enter_sched A i t, t)" by (rule kstep.finish [OF t(1)])
  have it: "sched_inv A (enter_sched A i t, t)" using sched_inv_step [OF sched_inv_step [OF inv p, unfolded run] fi] .
  then have bk: "enter_sched A i t = L_back i" by (auto simp: enter_sched_def split: if_splits)
  note fin = forkret_exit_effect [OF dis(1,3) i(1) t(1)]
  have r: "kstep A (L_back i, t) (L_scan (Suc i) True, t\<lparr>current_process := None\<rparr>)" by (rule kstep.returned)
  have "(kstep A)\<^sup>*\<^sup>* (L_scan i f, s) (L_scan (Suc i) True, t\<lparr>current_process := None\<rparr>)"
    using p [unfolded run] fi [unfolded bk] r by (meson rtranclp.rtrancl_into_rtrancl rtranclp.rtrancl_refl)
  moreover have "uart_live (t\<lparr>current_process := None\<rparr>)" using t(2) by (simp add: uart_live_def)
  ultimately show ?thesis
    using sched_inv_step [OF it [unfolded bk] r] fin(2) dis(2)
    by (intro exI [of _ "t\<lparr>current_process := None\<rparr>"]) auto
qed

lemma scan_to_end:
  assumes "sched_inv A (L_scan i f, s)" "uart_live s" "i \<le> NPROC"
  shows "\<exists>f' s'. (kstep A)\<^sup>*\<^sup>* (L_scan i f, s) (L_scan NPROC f', s') \<and> sched_inv A (L_scan NPROC f', s') \<and> uart_live s' \<and>
    (\<forall>j<i. proc_at s' j = proc_at s j) \<and> (\<forall>j<NPROC. i \<le> j \<longrightarrow> state (proc_at s' j) \<noteq> PROC_RUNNABLE) \<and>
    ((\<forall>j<NPROC. i \<le> j \<longrightarrow> state (proc_at s j) \<noteq> PROC_RUNNABLE) \<longrightarrow> f' = f \<and> s' = s)"
  using assms
proof (induction "NPROC - i" arbitrary: i f s)
  case 0
  then show ?case by (intro exI [of _ f] exI [of _ s]) auto
next
  case (Suc n)
  then have i: "i < NPROC" "n = NPROC - Suc i" "Suc i \<le> NPROC" by auto
  show ?case
  proof (cases "state (proc_at s i) = PROC_RUNNABLE")
    case True
    obtain s1 where s1: "(kstep A)\<^sup>*\<^sup>* (L_scan i f, s) (L_scan (Suc i) True, s1)" "sched_inv A (L_scan (Suc i) True, s1)"
      "uart_live s1" "state (proc_at s1 i) = PROC_ZOMBIE" "\<forall>j. j \<noteq> i \<longrightarrow> proc_at s1 j = proc_at s j"
      using finish_at_once [OF Suc.prems(1,2) i(1) True] by blast
    from Suc.hyps(1) [OF i(2) s1(2,3) i(3)] obtain f' s' where
      "(kstep A)\<^sup>*\<^sup>* (L_scan (Suc i) True, s1) (L_scan NPROC f', s')" "sched_inv A (L_scan NPROC f', s')" "uart_live s'"
      "\<forall>j<Suc i. proc_at s' j = proc_at s1 j" "\<forall>j<NPROC. Suc i \<le> j \<longrightarrow> state (proc_at s' j) \<noteq> PROC_RUNNABLE" by blast
    with s1 True i(1) show ?thesis
      by (intro exI [of _ f'] exI [of _ s']) (auto simp: le_less_Suc_eq not_less_eq_eq dest: rtranclp_trans le_neq_implies_less)
  next
    case False
    have k: "kstep A (L_scan i f, s) (L_scan (Suc i) f, s)" by (rule kstep.skip [OF i(1) False])
    from Suc.hyps(1) [OF i(2) sched_inv_step [OF Suc.prems(1) k] Suc.prems(2) i(3)] obtain f' s' where
      r: "(kstep A)\<^sup>*\<^sup>* (L_scan (Suc i) f, s) (L_scan NPROC f', s')" "sched_inv A (L_scan NPROC f', s')" "uart_live s'"
      "\<forall>j<Suc i. proc_at s' j = proc_at s j" "\<forall>j<NPROC. Suc i \<le> j \<longrightarrow> state (proc_at s' j) \<noteq> PROC_RUNNABLE"
      "(\<forall>j<NPROC. Suc i \<le> j \<longrightarrow> state (proc_at s j) \<noteq> PROC_RUNNABLE) \<longrightarrow> f' = f \<and> s' = s" by blast
    have "state (proc_at s' j) \<noteq> PROC_RUNNABLE" if "j < NPROC" "i \<le> j" for j
      using that r(4,5) False by (cases "j = i") auto
    with r k show ?thesis
      by (intro exI [of _ f'] exI [of _ s']) (auto intro: converse_rtranclp_into_rtranclp)
  qed
qed

lemma scheduler_can_exit:
  assumes inv: "sched_inv A (L_scan 0 False, s)" and live: "uart_live s"
  shows "\<exists>s'. (kstep A)\<^sup>*\<^sup>* (L_scan 0 False, s) (L_exit, s') \<and> uart_live s'"
proof -
  obtain f t where t: "(kstep A)\<^sup>*\<^sup>* (L_scan 0 False, s) (L_scan NPROC f, t)" "sched_inv A (L_scan NPROC f, t)" "uart_live t"
    "\<forall>j<NPROC. state (proc_at t j) \<noteq> PROC_RUNNABLE"
    using scan_to_end [OF inv live] by auto
  have na: "\<not> active t" using t(2,4) by (auto simp: active_iff none_running_def)
  obtain k w where "uart_puts sched_exit_msg t = Some (t\<lparr>uart_rd := k, uart_wr := w\<rparr>)" (is "_ = Some ?t")
    using uart_puts_total [OF t(3)] by blast
  then have ex: "kstep A (L_scan NPROC False, t) (L_exit, ?t)" by (intro kstep.exit na) simp_all
  have end_live: "uart_live ?t" using t(3) by (simp add: uart_live_def)
  have "(kstep A)\<^sup>*\<^sup>* (L_scan NPROC f, t) (L_scan NPROC False, t)"
  proof (cases f)
    case True
    have k: "kstep A (L_scan NPROC True, t) (L_scan 0 False, t)" by (rule kstep.again) simp
    have "sched_inv A (L_scan 0 False, t)" using t(2) by simp
    from scan_to_end [OF this t(3)] t(4) have "(kstep A)\<^sup>*\<^sup>* (L_scan 0 False, t) (L_scan NPROC False, t)" by auto
    with k True show ?thesis by (auto intro: converse_rtranclp_into_rtranclp)
  qed simp
  with t(1) ex end_live show ?thesis by (meson rtranclp.rtrancl_into_rtrancl rtranclp_trans)
qed

inductive_cases kmainE: "kmain I s s'"

lemma boot_traversed:
  assumes init: "mem_init s = Some (Inr (0, s1))" and live: "uart_live s1" and boot: "main_boot I s = Some (Inr (True, t))"
  shows "\<exists>calls. fdt_traverse (mem s1) (ld64 (mem s1) (dtb_sym I)) (dtb_callback (lit_ns16550a I) (lit_virtio_mmio I) (mem s1)) = Some calls"
  using boot main_machine_effect [OF live, of I] unfolding main_boot_def init rbind_simps
  by (auto simp: main_devices_def bind_eq_Some_conv)

lemma main_can_return:
  assumes boot: "main_boot I s = Some (Inr (True, t))" and inv: "sched_inv (kcode I) (L_scan 0 False, t)" and live: "uart_live t"
  shows "\<exists>s'. kmain I s s'"
proof -
  obtain t2 where t2: "(kstep (kcode I))\<^sup>*\<^sup>* (L_scan 0 False, t) (L_exit, t2)" "uart_live t2"
    using scheduler_can_exit [OF inv live] by blast
  obtain s' where "uart_puts msg_end t2 = Some s'" using uart_puts_total [OF t2(2)] by blast
  with boot t2(1) show ?thesis by (blast intro: kmain.all_done)
qed

text \<open>Only a scheduler without processes left returns, and \<open>main\<close> after it.\<close>

lemma returned_finished:
  assumes boot: "main_boot I s = Some (Inr (True, t))" and inv: "sched_inv (kcode I) (L_scan 0 False, t)" and run: "kmain I s s'"
  shows "\<forall>i<NPROC. state (proc_at s' i) = PROC_UNUSED \<or> state (proc_at s' i) = PROC_ZOMBIE"
    "tasks_made I t \<Longrightarrow> state (proc_at s' 0) = PROC_ZOMBIE \<and> state (proc_at s' 1) = PROC_ZOMBIE"
proof -
  obtain t2 where t: "(kstep (kcode I))\<^sup>*\<^sup>* (L_scan 0 False, t) (L_exit, t2)" "uart_puts msg_end t2 = Some s'"
    using run boot by (auto elim: kmainE)
  have same: "proc_at s' = proc_at t2" using uart_puts_frame [OF t(2)] by auto
  have "sched_inv (kcode I) (L_exit, t2)" using sched.good_run [OF t(1) inv] .
  then have fin: "state (proc_at t2 i) = PROC_UNUSED \<or> state (proc_at t2 i) = PROC_ZOMBIE" if "i < NPROC" for i
    using that by (auto simp: active_iff intro: proc_state.exhaust [of "state (proc_at t2 i)"])
  then show "\<forall>i<NPROC. state (proc_at s' i) = PROC_UNUSED \<or> state (proc_at s' i) = PROC_ZOMBIE" by (simp add: same)
  assume made: "tasks_made I t"
  have n: "0 < NPROC" "1 < NPROC" by (simp_all add: NPROC_def)
  have "state (proc_at t2 0) \<noteq> PROC_UNUSED" "state (proc_at t2 1) \<noteq> PROC_UNUSED"
    using used_run [OF t(1) inv n(1)] used_run [OF t(1) inv n(2)] made by (simp_all add: tasks_made_def)
  with fin [OF n(1)] fin [OF n(2)] show "state (proc_at s' 0) = PROC_ZOMBIE \<and> state (proc_at s' 1) = PROC_ZOMBIE"
    by (simp add: same)
qed

text \<open>What \<open>main\<close> needs of memory to come back at all.\<close>

lemma returned_pages:
  assumes inv: "alloc_inv s" and run: "kmain I s s'"
  obtains "free_pages s = {}" "s' = s"
  | s1 t where "3 \<le> card (free_pages s)" "mem_init s = Some (Inr (0, s1))" "main_boot I s = Some (Inr (True, t))"
proof -
  consider "free_pages s = {}" | "card (free_pages s) = 1 \<or> card (free_pages s) = 2" | "3 \<le> card (free_pages s)"
    using page_counts [OF inv] by blast
  then show thesis
  proof cases
    case 1
    then have "main_boot I s = Some (Inr (False, s))"
      using get_none [OF inv] by (simp add: main_boot_def mem_init_def)
    with run 1 that(1) show thesis by (auto elim: kmainE)
  next
    case 2
    then have "main_boot I s = Some (Inl Null_table)" using mem_init_starved [OF inv] by (simp add: main_boot_def)
    with run show thesis by (auto elim: kmainE)
  next
    case 3
    obtain s1 where init: "mem_init s = Some (Inr (0, s1))" using mem_init_maps [OF inv 3] by blast
    have "main_boot I s \<noteq> Some (Inr (False, s'))" unfolding main_boot_def init rbind_simps by (auto simp: bind_eq_Some_conv)
    with run obtain t where "main_boot I s = Some (Inr (True, t))" by (auto elim: kmainE)
    then show thesis by (rule that(2) [OF 3 init])
  qed
qed

section \<open>A sample image\<close>

definition demo_image :: image where
  "demo_image = \<lparr>kcode = demo_code, trap_vector_pc = 0x400, dtb_sym = 0x900, lit_ns16550a = 0x500,
     lit_virtio_mmio = 0x510, mac_buf_addr = 0x600, taskA_pc = 0x700, taskB_pc = 0x800\<rparr>"

lemma demo_boot_facts:
  "alloc_inv demo_net" "3 \<le> card (free_pages demo_net)" "length (procs demo_net) = NPROC" "no_net_device demo_net"
proof -
  show "alloc_inv demo_net" "3 \<le> card (free_pages demo_net)"
    using alloc_invI [OF demo_net_facts(1)] free_pages_eq [OF demo_net_facts(1)] by simp_all
  show "length (procs demo_net) = NPROC" "no_net_device demo_net"
    by (simp_all add: demo_net_defs no_net_device_def VIRTIO_MAGIC_def NPROC_def)
qed

lemma three_pages_boot:
  assumes pg: "pages_ok s [0x80001000, 0x80002000, 0x80003000]" and m: "mem s = mem demo_net"
  obtains s1 where "mem_init s = Some (Inr (0, s1))"
    "\<And>cb. fdt_traverse (mem s1) (ld64 (mem s1) (dtb_sym demo_image)) cb = Some []"
proof -
  have three: "alloc_inv s" "3 \<le> card (free_pages s)" using alloc_invI [OF pg] free_pages_eq [OF pg] by simp_all
  obtain s1 where s1: "mem_init s = Some (Inr (0, s1))"
    and fr: "\<And>y. mem s1 y \<noteq> mem s y \<Longrightarrow> covered (free_pages s) y"
    using mem_init_maps [OF three] by blast
  have low: "mem s1 y = 0" if "unat y < 0x80001000" for y
  proof -
    have "\<not> covered (free_pages s) y"
      unfolding covered_def free_pages_eq [OF pg] using that by (simp add: in_rng_iff)
    then have "mem s1 y = mem demo_net y" using fr m by fastforce
    also have "\<dots> = 0" using that by (simp add: demo_net_defs st64_outside in_rng_iff)
    finally show ?thesis .
  qed
  have "ld64 (mem s1) 0x900 = 0"
    unfolding ld64_def by (subst ld_le_zero) (simp_all add: in_rng_iff low)
  moreover have "unat (BE2LE (fdt_magic (mem s1) 0)) = 0"
    unfolding fdt_magic_def unat_BE2LE_ld32 by (simp add: low)
  ultimately have "fdt_traverse (mem s1) (ld64 (mem s1) (dtb_sym demo_image)) cb = Some []" for cb
    by (auto simp: demo_image_def fdt_traverse_def)
  with s1 show ?thesis by (rule that)
qed

lemmas demo_boots = three_pages_boot [OF demo_net_facts(1) refl]

section \<open>Properties\<close>

text \<open>
  C15. The kernel boots. With three free pages, a console whose transmitter becomes idle again and
  again, no network card in any slot and a device tree that \<open>fdt_traverse\<close> gets through, \<open>main\<close>
  arrives at the scheduler: the address space is the one \<open>mem_init\<close> built, the trap vector is set,
  the timer is armed 1000000 ticks after the time read and its interrupt enabled, interrupts
  are on, and the process table satisfies the scheduler's invariant. If five pages are free (three
  for the page tables, two for stacks), exactly the two tasks are there, runnable, in slots 0 and 1.
\<close>

theorem main_reaches_scheduler:
  fixes I :: image and s s1 :: "'a net_scheme"
  assumes inv: "alloc_inv s" and pages: "3 \<le> card (free_pages s)" and live: "uart_live s"
    and len: "length (procs s) = NPROC" and none: "no_net_device s"
    and init: "mem_init s = Some (Inr (0, s1))"
    and fdt: "fdt_traverse (mem s1) (ld64 (mem s1) (dtb_sym I)) (dtb_callback (lit_ns16550a I) (lit_virtio_mmio I) (mem s1)) = Some calls"
  shows "\<exists>s'. main_boot I s = Some (Inr (True, s')) \<and> sched_inv (kcode I) (L_scan 0 False, s') \<and>
    satp s' = satp s1 \<and> stvec s' = trap_vector_pc I \<and> sie_on s' \<and> bit (mie s') 5 \<and> bit (mie s') 7 \<and>
    mtimecmp s' = time_in s (time_rd s) + 1000000 \<and> (5 \<le> card (free_pages s) \<longrightarrow> tasks_made I s')"
  using main_boot_effect [OF assms] by blast

theorem main_reaches_scheduler_witness:
  "\<exists>I s'. main_boot I demo_net = Some (Inr (True, s')) \<and> sched_inv demo_code (L_scan 0 False, s') \<and>
    stvec s' = 0x400 \<and> sie_on s' \<and> mtimecmp s' = time_in demo_net 0 + 1000000"
proof -
  obtain s1 where d: "mem_init demo_net = Some (Inr (0, s1))"
    "\<And>cb. fdt_traverse (mem s1) (ld64 (mem s1) (dtb_sym demo_image)) cb = Some []"
    by (rule demo_boots) blast
  have "time_rd demo_net = 0" by (simp add: demo_net_defs)
  then show ?thesis
    using main_reaches_scheduler [OF demo_boot_facts(1,2) demo_net_facts(2) demo_boot_facts(3,4) d(1), of demo_image "[]"]
      d(2) by (intro exI [of _ demo_image]) (auto simp: demo_image_def)
qed

end
