(* ===== verification/Net_Boot.thy ===== *)
theory Net_Boot
  imports Boot Virtio_Kept
begin

text \<open>
  The boot of a machine with a network card: \<open>main\<close> around \<open>start_net\<close>. This composes the allocator, the
  queues, the handshake and the receive poll with the rest of \<open>main\<close>; what the driver must not disturb for
  the boot to go on is \<open>calm\<close>. With \<open>Boot\<close> it covers both machines, so that what holds when \<open>main\<close> returns is here.
\<close>

declare lit_Cons [simp del]

section \<open>What the driver must not disturb\<close>

definition calm :: "'a net_scheme \<Rightarrow> u64 set \<Rightarrow> 'a net_scheme \<Rightarrow> bool" where
  "calm s F t \<longleftrightarrow> sys_view t = sys_view s \<and> alloc_inv t \<and> free_pages t = F \<and> uart_live t"

definition ring_away :: "virtio_net_queue \<Rightarrow> u64 set \<Rightarrow> bool" where
  "ring_away q F \<longleftrightarrow> (\<forall>p\<in>F. \<forall>y. in_rng p 8 y \<longrightarrow> \<not> in_rng (ring q) 6664 y)"

lemma calm_mem:
  assumes "calm s F t" "\<And>p y. p \<in> F \<Longrightarrow> in_rng p 8 y \<Longrightarrow> m y = mem t y"
  shows "calm s F (t\<lparr>mem := m\<rparr>)"
  using assms heap_kept_write [of t m] by (auto simp: calm_def uart_live_def)

interpretation calm: console_kept "calm s F" for s F
  by unfold_locales (simp_all add: calm_def free_pages_frame, simp_all add: uart_live_def)

interpretation still: area_kept "\<lambda>t. calm s F t \<and> dma_away F t \<and> ring_away q F" "in_rng (ring q) 6664" VIRTIO_NET_RX_QUEUE for s F q
proof unfold_locales
  fix t :: "'a net_scheme"
  assume t: "calm s F t \<and> dma_away F t \<and> ring_away q F"
  show "uart_live t" using t by (simp add: calm_def)
  show "calm s F (t\<lparr>uart_rd := k, uart_wr := w\<rparr>) \<and> dma_away F (t\<lparr>uart_rd := k, uart_wr := w\<rparr>) \<and> ring_away q F" for k w
    using t calm.console [of s F t] by simp
  show "calm s F (t\<lparr>mmio_rd := n\<rparr>) \<and> dma_away F (t\<lparr>mmio_rd := n\<rparr>) \<and> ring_away q F" for n
    using t calm.reg_read [of s F t] by simp
  show "calm s F (virt_mmio_write dev off v t) \<and> dma_away F (virt_mmio_write dev off v t) \<and> ring_away q F" for dev off v
    using t by (auto simp: calm_def free_pages_frame) (auto simp: uart_live_def virt_mmio_write_def)
  show "calm s F (mem_barrier t) \<and> dma_away F (mem_barrier t) \<and> ring_away q F"
    using t heap_kept_barrier [of t] by (auto simp: calm_def) (auto simp: uart_live_def mem_barrier_def)
  show "calm s F (t\<lparr>mem := m\<rparr>) \<and> dma_away F (t\<lparr>mem := m\<rparr>) \<and> ring_away q F"
    if "\<And>x. \<not> in_rng (ring q) 6664 x \<Longrightarrow> m x = mem t x" for m
    using t that by (auto intro!: calm_mem simp: ring_away_def)
  show "calm s F (set_queue VIRTIO_NET_RX_QUEUE f t) \<and> dma_away F (set_queue VIRTIO_NET_RX_QUEUE f t) \<and> ring_away q F" for f
    using t by (simp add: calm_def free_pages_frame)
qed

section \<open>The card\<close>

lemma taken_ring_away:
  assumes "alloc_inv s" "in_pages q (free_pages s - F)" "F \<subseteq> free_pages s"
  shows "ring_away q F"
  unfolding ring_away_def
proof (intro ballI allI impI notI)
  fix p y
  assume "p \<in> F" "in_rng p 8 y" "in_rng (ring q) 6664 y"
  then have "covered F y" "covered (free_pages s - F) y"
    using assms(2) in_rng_mono [of p 8 y 4096] by (auto simp: covered_def in_pages_def)
  with free_apart [OF assms(1), of "free_pages s - F" F y] assms(3) show False by blast
qed

lemma calm_mac:
  assumes c: "calm s F t" and mac: "\<And>i. i < 6 \<Longrightarrow> \<not> covered F (mac + of_nat i)"
  shows "calm s F (t\<lparr>mem := mem_copy mac src 6 (mem t)\<rparr>)"
proof (rule calm_mem [OF c], rule mem_copy_outside, rule notI)
  fix p y
  assume p: "p \<in> F" "in_rng p 8 y" "in_rng mac (unat (6 :: u32)) y"
  then obtain i where "i < 6" "y = mac + of_nat i" by (auto elim!: in_rngE)
  with mac [of i] p(1) in_rng_mono [OF p(2), of 4096] show False by (auto simp: covered_def)
qed

lemma waits_outcome:
  fixes s3 :: "'a net_scheme"
  assumes c: "calm s F s3" "dma_away F s3" and away: "ring_away q F"
    and mac: "\<And>i. i < 6 \<Longrightarrow> \<not> covered F (mac + of_nat i)"
    and ready: "rx_ready q h s4" and said: "uart_emits (s3\<lparr>mem := mem_copy mac src 6 (mem s3)\<rparr>) cs s4"
  shows "if \<exists>n. moved VIRTIO_NET_RX_QUEUE ((mem_barrier ^^ Suc n) s4)
    then ends (virt_mmio_net_poll_rx dev buf L s4) (calm s F) else virt_mmio_net_poll_rx dev buf L s4 = None"
proof -
  let ?t = "s3\<lparr>mem := mem_copy mac src 6 (mem s3)\<rparr>"
  have "calm s F ?t \<and> dma_away F ?t \<and> ring_away q F" using calm_mac [OF c(1) mac] c(2) away by simp
  note c4 = still.emitted [OF said this]
  have r: "rx_ok s4 h" "rx_respected s4" "uart_live s4" using ready by (simp_all add: rx_ready_def)
  show ?thesis
    unfolding poll_rx_returns [OF r, of dev buf L, symmetric]
    using still.polled [OF c4 ready refl, of dev buf L] by (auto simp: ends_def)
qed

text \<open>The outcomes of bringing up the card at \<open>dev\<close> from \<open>s\<close>: reset and queues; handshake; MAC address and poll for a
  frame. In each of them either the caller goes on, and \<open>P\<close> is told the pages still free, or it waits
  for ever, which is \<open>N\<close>. Once the device has the queues it is to leave the driver's side of the ring and
  the free pages alone.\<close>

definition card_outcome :: "u64 \<Rightarrow> u64 \<Rightarrow> 'a net_scheme \<Rightarrow> (u64 set \<Rightarrow> bool) \<Rightarrow> bool \<Rightarrow> bool" where
  "card_outcome mac dev s P N \<longleftrightarrow>
    (\<exists>s1 res s2. probed s (reset_writes dev) s1 \<and> virt_mmio_net_virtq_init dev s1 = Some (res, s2) \<and>
      (res \<noteq> 0 \<longrightarrow> P (free_pages s2)) \<and>
      (res = 0 \<and> rx_respected s2 \<and> dma_away (free_pages s2) s2 \<longrightarrow>
        (\<exists>ret s3. virt_mmio_negotiation dev s2 = Some (ret, s3) \<and>
          (ret \<noteq> 0 \<longrightarrow> P (free_pages s2)) \<and>
          (ret = 0 \<longrightarrow> (\<exists>s4. rx_ok s4 (map of_nat [0..<256]) \<and>
             uart_emits (s3\<lparr>mem := mem_copy mac (dev + 0x100) 6 (mem s3)\<rparr>) (mac_report (bytes (mem s4) mac 6)) s4 \<and>
             (if \<exists>n. moved VIRTIO_NET_RX_QUEUE ((mem_barrier ^^ Suc n) s4) then P (free_pages s2) else N))))))"

lemma card_outcome_probed:
  assumes "probed s [] u" "card_outcome mac dev u P N" "\<And>F. P F \<Longrightarrow> P' F" "N \<Longrightarrow> N'"
  shows "card_outcome mac dev s P' N'"
proof -
  have tr: "probed u W t \<Longrightarrow> probed s W t" for W t
    using assms(1) unfolding probed_def by (cases s, cases u, cases t) simp
  show ?thesis
    using assms(2) unfolding card_outcome_def
    by (elim ex_forward conj_forward imp_forward) (auto intro: tr assms(3,4) split: if_splits)
qed

lemma start_net_outcome:
  fixes s :: "'a net_scheme"
  assumes inv: "alloc_inv s" and live: "uart_live s" and pair: "pair_ok s"
    and idle: "\<And>n m. dma_in s (mmio_wr s @ reset_writes dev) n m = m"
    and mac: "\<And>i. i < 6 \<Longrightarrow> \<not> covered (free_pages s) (mac + of_nat i)"
  shows "card_outcome mac dev s (\<lambda>F. ends (start_net mac dev s) (calm s F)) (start_net mac dev s = None)"
proof -
  obtain s1 res s2 where s1: "probed s (reset_writes dev) s1" "virt_mmio_net_virtq_init dev s1 = Some (res, s2)"
    and bad: "res \<noteq> 0 \<longrightarrow> (\<exists>s'. start_net mac dev s = Some s' \<and> uart_emits s2 msg_net_failed s')"
    and good: "res = 0 \<and> rx_respected s2 \<longrightarrow> (\<exists>ret s3. virt_mmio_negotiation dev s2 = Some (ret, s3) \<and>
      (ret \<noteq> 0 \<longrightarrow> (\<exists>s'. start_net mac dev s = Some s' \<and> uart_emits s3 msg_net_failed s')) \<and>
      (ret = 0 \<longrightarrow> (\<exists>s4. start_net mac dev s = virt_mmio_net_poll_rx dev 0 2048 s4 \<and>
         rx_ok s4 (map of_nat [0..<256]) \<and> rx_respected s4 \<and> uart_live s4 \<and>
         queue s4 VIRTIO_NET_RX_QUEUE = queue s2 VIRTIO_NET_RX_QUEUE \<and> last_used_idx (queue s4 VIRTIO_NET_RX_QUEUE) = 0 \<and>
         uart_emits (s3\<lparr>mem := mem_copy mac (dev + 0x100) 6 (mem s3)\<rparr>) (mac_report (bytes (mem s4) mac 6)) s4)))"
    using start_net_effect [OF assms] by blast
  let ?F = "free_pages s2" and ?q = "queue s2 VIRTIO_NET_RX_QUEUE" and ?h = "map of_nat [0..<256] :: u16 list"
  note f = probed_facts [OF s1(1)]
  note sv = probed_sys_view [OF s1(1)]
  have "alloc_inv s1" "uart_live s1" "pair_ok s1" "dma_idle s1"
    using inv live pair idle by (simp_all add: f uart_live_def pair_ok_def dma_idle_def)
  from virtq_init_effect [OF this, of dev] s1(2) have c2: "calm s ?F s2"
    and ok: "res = 0 \<Longrightarrow> in_pages ?q (free_pages s - ?F) \<and> ?F \<subseteq> free_pages s"
    by (simp_all add: calm_def sv f Let_def)
  have no: "ends (start_net mac dev s) (calm s ?F)" if "res \<noteq> 0"
    using bad that calm.emitted [OF _ c2] by (auto simp: ends_def)
  have yes: "\<exists>ret s3. virt_mmio_negotiation dev s2 = Some (ret, s3) \<and>
      (ret \<noteq> 0 \<longrightarrow> ends (start_net mac dev s) (calm s ?F)) \<and>
      (ret = 0 \<longrightarrow> (\<exists>s4. rx_ok s4 ?h \<and>
         uart_emits (s3\<lparr>mem := mem_copy mac (dev + 0x100) 6 (mem s3)\<rparr>) (mac_report (bytes (mem s4) mac 6)) s4 \<and>
         (if \<exists>n. moved VIRTIO_NET_RX_QUEUE ((mem_barrier ^^ Suc n) s4)
          then ends (start_net mac dev s) (calm s ?F) else start_net mac dev s = None)))"
    if r: "res = 0" "rx_respected s2" "dma_away ?F s2"
  proof -
    have away: "ring_away ?q ?F" using taken_ring_away [OF inv] ok [OF r(1)] by blast
    have mac2: "\<not> covered ?F (mac + of_nat i)" if "i < 6" for i
      using mac [OF that] ok [OF r(1)] covered_mono [of ?F "free_pages s"] by blast
    obtain ret s3 where s3: "virt_mmio_negotiation dev s2 = Some (ret, s3)"
      and fail: "ret \<noteq> 0 \<longrightarrow> (\<exists>s'. start_net mac dev s = Some s' \<and> uart_emits s3 msg_net_failed s')"
      and go: "ret = 0 \<longrightarrow> (\<exists>s4. start_net mac dev s = virt_mmio_net_poll_rx dev 0 2048 s4 \<and>
         rx_ok s4 ?h \<and> rx_respected s4 \<and> uart_live s4 \<and>
         queue s4 VIRTIO_NET_RX_QUEUE = ?q \<and> last_used_idx (queue s4 VIRTIO_NET_RX_QUEUE) = 0 \<and>
         uart_emits (s3\<lparr>mem := mem_copy mac (dev + 0x100) 6 (mem s3)\<rparr>) (mac_report (bytes (mem s4) mac 6)) s4)"
      using good r(1,2) by blast
    have c3: "calm s ?F s3" "dma_away ?F s3" using still.negotiation [of s ?F s2 ?q dev] c2 r(3) s3 away by (auto simp: ends_def)
    have lose: "ends (start_net mac dev s) (calm s ?F)" if "ret \<noteq> 0"
      using fail that calm.emitted [OF _ c3(1)] by (auto simp: ends_def)
    have win: "\<exists>s4. rx_ok s4 ?h \<and>
         uart_emits (s3\<lparr>mem := mem_copy mac (dev + 0x100) 6 (mem s3)\<rparr>) (mac_report (bytes (mem s4) mac 6)) s4 \<and>
         (if \<exists>n. moved VIRTIO_NET_RX_QUEUE ((mem_barrier ^^ Suc n) s4)
          then ends (start_net mac dev s) (calm s ?F) else start_net mac dev s = None)" if "ret = 0"
    proof -
      obtain s4 where s4: "start_net mac dev s = virt_mmio_net_poll_rx dev 0 2048 s4" "rx_ready ?q ?h s4"
        "uart_emits (s3\<lparr>mem := mem_copy mac (dev + 0x100) 6 (mem s3)\<rparr>) (mac_report (bytes (mem s4) mac 6)) s4"
        using go \<open>ret = 0\<close> unfolding rx_ready_def by blast
      from waits_outcome [OF c3 away mac2 s4(2,3), of dev 0 2048, folded s4(1)] s4(2,3) show ?thesis
        unfolding rx_ready_def by blast
    qed
    show ?thesis using s3 lose win by blast
  qed
  show ?thesis
    unfolding card_outcome_def by (rule exI [of _ s1], rule exI [of _ res], rule exI [of _ s2]) (use s1 no yes in blast)
qed

section \<open>The scan\<close>

text \<open>Slot \<open>k\<close> holds a network card that answers the same way whatever was written and read before, and no other
  slot holds one.\<close>

definition card_at :: "'a net_scheme \<Rightarrow> nat \<Rightarrow> bool" where
  "card_at s k \<longleftrightarrow> 1 \<le> k \<and> k \<le> unat VIRTIO_SLOTS \<and>
     (\<forall>w n. mmio_in s w n (slot_device k) = VIRTIO_MAGIC \<and> mmio_in s w n (slot_device k + 12) = QEMU_VENDOR_ID \<and>
       mmio_in s w n (slot_device k + 8) = 1) \<and>
     (\<forall>w n i. 1 \<le> i \<longrightarrow> i \<le> unat VIRTIO_SLOTS \<longrightarrow> i \<noteq> k \<longrightarrow> mmio_in s w n (slot_device i + 8) \<noteq> 1)"

lemma scan_meets_card:
  fixes s :: "'a net_scheme"
  assumes card: "card_at s k" and live: "uart_live s" and t: "probed s [] t"
  shows "\<exists>u. probed s [] u \<and> scan_loop mac 1 t = Option.bind (start_net mac (slot_device k) u) (scan_loop mac (Suc k))"
proof -
  let ?d = "slot_device k"
  have k: "1 \<le> k" "k \<le> unat VIRTIO_SLOTS" and reg: "\<And>w n. mmio_in s w n ?d = VIRTIO_MAGIC"
    "\<And>w n. mmio_in s w n (?d + 12) = QEMU_VENDOR_ID" "\<And>w n. mmio_in s w n (?d + 8) = 1"
    and oth: "\<And>w n i. 1 \<le> i \<Longrightarrow> i < k \<Longrightarrow> mmio_in s w n (slot_device i + 8) \<noteq> 1"
    using card by (auto simp: card_at_def)
  have "\<exists>u. (probed s [] u \<and> uart_live s) \<and> scan_loop mac 1 t = scan_loop mac k u"
    by (rule probe.quiet_scan) (use t live k oth in \<open>auto simp: probed_facts\<close>)
  then obtain u where u: "probed s [] u" "scan_loop mac 1 t = scan_loop mac k u" by blast
  have rd: "\<exists>v'. virt_mmio_read ?d off v = (mmio_in s (mmio_wr v) (mmio_rd v) (?d + 4 * ucast (off div 4)), v') \<and> probed s [] v'"
    if "probed s [] v" for v off
    using probed_read [OF that, of ?d off] by (auto simp: virt_mmio_read_def probed_facts [OF that])
  obtain u1 where u1: "virt_mmio_read ?d 0 u = (VIRTIO_MAGIC, u1)" "probed s [] u1" using rd [OF u(1), of 0] reg(1) by auto
  obtain u2 where u2: "virt_mmio_read ?d 12 u1 = (QEMU_VENDOR_ID, u2)" "probed s [] u2" using rd [OF u1(2), of 12] reg(2) by auto
  obtain v1 where v1: "uart_puts (lit ''Slot '') u2 = Some v1" "probed s [] v1 \<and> uart_live s"
    using probe.puts [OF conjI [OF u2(2) live]] by (auto simp: ends_def)
  obtain v2 where v2: "uart_b2x (of_nat k) v1 = Some v2" "probed s [] v2 \<and> uart_live s"
    using probe.said [OF v1(2) says_b2x] by (auto simp: ends_def)
  obtain v3 where v3: "uart_puts (lit '': '') v2 = Some v3" "probed s [] v3 \<and> uart_live s"
    using probe.puts [OF v2(2)] by (auto simp: ends_def)
  obtain v4 where v4: "virt_mmio_read ?d 8 v3 = (1, v4)" "probed s [] v4" using rd [of v3 8] v3(2) reg(3) by auto
  have "probe_slot mac k ?d u2 = start_net mac ?d v4"
    unfolding probe_slot_def v1(1) bind.bind_lunit v2(1) v3(1) by (simp add: v4(1))
  then have "scan_loop mac k u = Option.bind (start_net mac ?d v4) (scan_loop mac (Suc k))"
    using k(2) by (subst scan_loop.simps) (simp add: u1(1) u2(1))
  with u(2) v4(2) show ?thesis by auto
qed

lemma scan_ends: "scan_loop mac (Suc (unat VIRTIO_SLOTS)) t = Some t"
  by (subst scan_loop.simps) simp

lemma scan_after_card:
  assumes card: "card_at s k" and v: "calm s F v"
  shows "ends (scan_loop mac (Suc k) v) (calm s F)"
proof -
  have "\<exists>t. calm s F t \<and> scan_loop mac (Suc k) v = scan_loop mac (Suc (unat VIRTIO_SLOTS)) t"
    by (rule calm.quiet_scan [OF v]) (use card in \<open>auto simp: card_at_def calm_def sys_view_def\<close>)
  then show ?thesis by (auto simp: scan_ends)
qed

lemma devices_with_card:
  fixes s :: "'a net_scheme"
  assumes card: "card_at s k" and live: "uart_live s"
    and fdt: "fdt_traverse (mem s) (ld64 (mem s) (dtb_sym I)) (dtb_callback (lit_ns16550a I) (lit_virtio_mmio I) (mem s)) = Some calls"
  obtains u where "probed s [] u" "\<And>F. ends (start_net (mac_buf_addr I) (slot_device k) u) (calm u F) \<Longrightarrow> ends (main_devices I s) (calm s F)"
    "start_net (mac_buf_addr I) (slot_device k) u = None \<Longrightarrow> main_devices I s = None"
proof -
  have Q: "probed s [] s \<and> uart_live s" using live by (simp add: probed_refl)
  obtain t where t: "uart_puts msg_scanning s = Some t" "probed s [] t"
    using probe.puts [OF Q] by (auto simp: ends_def)
  obtain u where u: "probed s [] u"
    "scan_loop (mac_buf_addr I) 1 t = Option.bind (start_net (mac_buf_addr I) (slot_device k) u) (scan_loop (mac_buf_addr I) (Suc k))"
    using scan_meets_card [OF card live t(2)] by blast
  have run: "main_devices I s = Option.bind (start_net (mac_buf_addr I) (slot_device k) u) (scan_loop (mac_buf_addr I) (Suc k))"
    unfolding main_devices_def virt_find_all_devices_def fdt bind.bind_lunit t(1) u(2) ..
  have same: "calm u F = calm s F" for F by (simp add: calm_def probed_sys_view [OF u(1)] fun_eq_iff)
  show ?thesis
    by (rule that [OF u(1)]) (auto simp: run same intro: ends_bind scan_after_card [OF card])
qed

section \<open>The boot\<close>

lemma main_machine_net:
  assumes live: "uart_live s" and m: "main_machine I s = Some m"
  shows "uart_live m" "pair_ok m = pair_ok s" "alloc_inv m = alloc_inv s" "free_pages m = free_pages s"
    "card_at m k = card_at s k" "mmio_wr m = mmio_wr s" "dma_in m = dma_in s" "mem m = mem s"
proof -
  obtain x w where e: "m = s\<lparr>stvec := trap_vector_pc I, uart_rd := x, uart_wr := w,
     time_rd := Suc (time_rd s), mtimecmp := time_in s (time_rd s) + 1000000, mip := csr_clear (mip s) 0x20,
     mie := csr_set (csr_set (mie s) 0x80) (push_bit 5 1), sstatus := csr_set (sstatus s) (push_bit 1 1)\<rparr>"
    using main_machine_effect [OF live, of I] m by auto
  show "uart_live m" using live by (simp add: e uart_live_def)
  show "pair_ok m = pair_ok s" "alloc_inv m = alloc_inv s" "free_pages m = free_pages s"
    "card_at m k = card_at s k" "mmio_wr m = mmio_wr s" "dma_in m = dma_in s" "mem m = mem s"
    by (simp_all add: e card_at_def pair_ok_def alloc_inv_def free_pages_def pages_ok_def heap_ok_def page_ok_def)
qed

lemma mem_init_net:
  assumes inv: "alloc_inv s" and pages: "3 \<le> card (free_pages s)" and init: "mem_init s = Some (Inr (0, s1))"
  shows "uart_live s1 = uart_live s" "pair_ok s1 = pair_ok s" "alloc_inv s1" "free_pages s1 \<subseteq> free_pages s"
    "card_at s1 k = card_at s k" "mmio_wr s1 = mmio_wr s" "dma_in s1 = dma_in s" "procs s1 = procs s"
proof -
  obtain root mm h c where s1: "s1 = s\<lparr>mem := mm, free_list := h, free_page_count := c, satp := satp_value root\<rparr>" "alloc_inv s1"
    "free_pages s1 \<subseteq> free_pages s"
    using mem_init_maps [OF inv pages] init by auto
  show "uart_live s1 = uart_live s" "pair_ok s1 = pair_ok s" "alloc_inv s1" "free_pages s1 \<subseteq> free_pages s"
    "card_at s1 k = card_at s k" "mmio_wr s1 = mmio_wr s" "dma_in s1 = dma_in s" "procs s1 = procs s"
    using s1(2,3) by (simp_all add: s1(1) uart_live_def pair_ok_def card_at_def)
qed

text \<open>\<open>main\<close> arrives at the scheduler, with the tasks if \<open>F\<close> has room for their stacks.\<close>

definition arrives :: "image \<Rightarrow> 'a net_scheme \<Rightarrow> 'a net_scheme \<Rightarrow> u64 set \<Rightarrow> bool" where
  "arrives I s s1 F \<longleftrightarrow> (\<exists>s'. main_boot I s = Some (Inr (True, s')) \<and> booted I s1 s' \<and> (2 \<le> card F \<longrightarrow> tasks_made I s'))"

lemma main_card_effect:
  fixes I :: image and s s1 :: "'a net_scheme"
  assumes inv: "alloc_inv s" and pages: "3 \<le> card (free_pages s)" and live: "uart_live s"
    and len: "length (procs s) = NPROC" and pair: "pair_ok s" and card: "card_at s k"
    and idle: "\<And>n m. dma_in s (mmio_wr s @ reset_writes (slot_device k)) n m = m"
    and mac: "\<And>i. i < 6 \<Longrightarrow> \<not> covered (free_pages s) (mac_buf_addr I + of_nat i)"
    and init: "mem_init s = Some (Inr (0, s1))"
    and fdt: "fdt_traverse (mem s1) (ld64 (mem s1) (dtb_sym I)) (dtb_callback (lit_ns16550a I) (lit_virtio_mmio I) (mem s1)) = Some calls"
  shows "\<exists>m. main_machine I s1 = Some m \<and>
    card_outcome (mac_buf_addr I) (slot_device k) m (arrives I s s1) (main_boot I s = None)"
proof -
  let ?d = "slot_device k" and ?b = "mac_buf_addr I"
  note i1 = mem_init_net [OF inv pages init]
  have l1: "uart_live s1" "length (procs s1) = NPROC" using live len i1 by simp_all
  obtain m where m: "main_machine I s1 = Some m" and hang: "main_devices I m = None \<Longrightarrow> main_boot I s = None"
    and go: "\<And>t. main_devices I m = Some t \<Longrightarrow> csrs t = csrs m \<Longrightarrow> procs t = procs m \<Longrightarrow> alloc_inv t \<Longrightarrow> uart_live t \<Longrightarrow>
       \<exists>s'. main_boot I s = Some (Inr (True, s')) \<and> booted I s1 s' \<and> (2 \<le> card (free_pages t) \<longrightarrow> tasks_made I s')"
    by (rule main_boot_around [OF init l1, of I]) (erule that; blast)
  have on: "arrives I s s1 F" if "ends (main_devices I m) (calm m F)" for F
    using that go by (auto simp: ends_def calm_def sys_view_def arrives_def)
  note lm = main_machine_net [OF l1(1) m]
  have cm: "card_at m k" using card lm i1 by simp
  obtain u where u: "probed m [] u" and on1: "\<And>F. ends (start_net ?b ?d u) (calm u F) \<Longrightarrow> ends (main_devices I m) (calm m F)"
    and hang1: "start_net ?b ?d u = None \<Longrightarrow> main_devices I m = None"
    by (rule devices_with_card [OF cm lm(1), of I calls]) (use fdt lm(8) in auto)
  note f = probed_facts [OF u]
  have U: "alloc_inv u" "uart_live u" "pair_ok u" using lm i1 pair by (simp_all add: f uart_live_def pair_ok_def)
  have U4: "dma_in u (mmio_wr u @ reset_writes ?d) n v = v" for n v using idle by (simp add: f lm i1)
  have U5: "\<not> covered (free_pages u) (?b + of_nat i)" if "i < 6" for i
    using mac [OF that] covered_mono [OF i1(4)] by (auto simp: f lm)
  have "card_outcome ?b ?d m (arrives I s s1) (main_boot I s = None)"
    by (rule card_outcome_probed [OF u start_net_outcome [OF U U4 U5]]) (auto intro: on on1 hang hang1)
  with m show ?thesis by blast
qed

text \<open>A network card in slot \<open>k\<close> that \<open>main\<close> can bring up without harm: it does nothing before its queues are set
  up, and afterwards writes neither the driver's side of the receive ring nor a free page; the place for the MAC
  address is outside the free pages.\<close>

definition card_ready :: "image \<Rightarrow> 'a net_scheme \<Rightarrow> nat \<Rightarrow> bool" where
  "card_ready I s k \<longleftrightarrow> card_at s k \<and> pair_ok s \<and>
     (\<forall>n m. dma_in s (mmio_wr s @ reset_writes (slot_device k)) n m = m) \<and>
     (\<forall>i<6. \<not> covered (free_pages s) (mac_buf_addr I + of_nat i)) \<and>
     (\<forall>s1 m u s2. mem_init s = Some (Inr (0, s1)) \<and> main_machine I s1 = Some m \<and>
        probed m (reset_writes (slot_device k)) u \<and> virt_mmio_net_virtq_init (slot_device k) u = Some (0, s2) \<longrightarrow>
        rx_respected s2 \<and> dma_away (free_pages s2) s2)"

lemma card_ready_boots:
  fixes I :: image and s s1 :: "'a net_scheme"
  assumes inv: "alloc_inv s" and pages: "3 \<le> card (free_pages s)" and live: "uart_live s"
    and len: "length (procs s) = NPROC" and card: "card_ready I s k"
    and init: "mem_init s = Some (Inr (0, s1))" and boot: "main_boot I s = Some (Inr (True, t))"
  shows "sched_inv (kcode I) (L_scan 0 False, t)"
proof -
  note c = card [unfolded card_ready_def]
  have l1: "uart_live s1" using mem_init_net(1) [OF inv pages init] live by simp
  obtain calls where fdt: "fdt_traverse (mem s1) (ld64 (mem s1) (dtb_sym I)) (dtb_callback (lit_ns16550a I) (lit_virtio_mmio I) (mem s1)) = Some calls"
    using boot_traversed [OF init l1 boot] by blast
  obtain m u res s2 where m: "main_machine I s1 = Some m" "probed m (reset_writes (slot_device k)) u"
    "virt_mmio_net_virtq_init (slot_device k) u = Some (res, s2)"
    and no: "res \<noteq> 0 \<longrightarrow> arrives I s s1 (free_pages s2)"
    and yes: "res = 0 \<and> rx_respected s2 \<and> dma_away (free_pages s2) s2 \<longrightarrow>
      arrives I s s1 (free_pages s2) \<or> main_boot I s = None"
    using main_card_effect [OF inv pages live len _ _ _ _ init fdt, of k] c unfolding card_outcome_def
    by (elim exE conjE) (metis)
  have "arrives I s s1 (free_pages s2)"
    using no yes boot c init m by (cases "res = 0") auto
  with boot show ?thesis by (auto simp: arrives_def booted_def)
qed

text \<open>
  C16. The boot with a network card. With three free pages, a live console, a device tree that is got
  through, a network card in one slot and a place for the MAC address outside the free pages, \<open>main\<close>
  brings the card up. If the queues find no memory, or the device refuses the handshake, \<open>main\<close> goes
  on and arrives at the scheduler, set up as without a card, with both tasks if two pages are still
  free. If the card comes up, and writes neither the driver's side of the receive ring nor a free page,
  \<open>main\<close> offers it all 256 receive buffers, prints the MAC address and arrives at the scheduler exactly
  if a first frame is received at some time; otherwise it waits for one for ever, before any process
  has been created.
\<close>

theorem main_with_card:
  fixes I :: image and s s1 :: "'a net_scheme"
  assumes inv: "alloc_inv s" and pages: "3 \<le> card (free_pages s)" and live: "uart_live s"
    and len: "length (procs s) = NPROC" and pair: "pair_ok s" and card: "card_at s k"
    and idle: "\<And>n m. dma_in s (mmio_wr s @ reset_writes (slot_device k)) n m = m"
    and mac: "\<And>i. i < 6 \<Longrightarrow> \<not> covered (free_pages s) (mac_buf_addr I + of_nat i)"
    and init: "mem_init s = Some (Inr (0, s1))"
    and fdt: "fdt_traverse (mem s1) (ld64 (mem s1) (dtb_sym I)) (dtb_callback (lit_ns16550a I) (lit_virtio_mmio I) (mem s1)) = Some calls"
  shows "\<exists>m. main_machine I s1 = Some m \<and>
    card_outcome (mac_buf_addr I) (slot_device k) m (arrives I s s1) (main_boot I s = None)"
  using main_card_effect [OF assms] .

text \<open>The sample machine with a card in slot 1 and too little memory for its queues.\<close>

definition card_net :: net where
  "card_net = demo_net\<lparr>mmio_in := \<lambda>w n a. if a = slot_device 1 then VIRTIO_MAGIC
     else if a = slot_device 1 + 12 then QEMU_VENDOR_ID else if a = slot_device 1 + 8 then 1 else 0\<rparr>"

lemma card_net_facts:
  "pages_ok card_net [0x80001000, 0x80002000, 0x80003000]" "uart_live card_net" "pair_ok card_net"
  "length (procs card_net) = NPROC" "dma_in card_net w n m = m" "mem card_net = mem demo_net" "card_at card_net 1"
proof -
  show "pages_ok card_net [0x80001000, 0x80002000, 0x80003000]"
    using demo_net_facts(1) by (simp add: card_net_def pages_ok_def heap_ok_def page_ok_def)
  show "uart_live card_net" "pair_ok card_net" using demo_net_facts(2,3) by (simp_all add: card_net_def uart_live_def pair_ok_def)
  show "length (procs card_net) = NPROC" "mem card_net = mem demo_net" using demo_boot_facts(3) by (simp_all add: card_net_def)
  show "dma_in card_net w n m = m" by (simp add: card_net_def demo_net_defs)
  have other: "slot_device i \<noteq> slot_device 1" if "i \<le> 8" "i \<noteq> 1" for i
  proof -
    have "i \<in> set [0..<9]" using that(1) by auto
    moreover have "\<forall>i\<in>set [0..<9]. i \<noteq> 1 \<longrightarrow> slot_device i \<noteq> slot_device 1" by code_simp
    ultimately show ?thesis using that(2) by blast
  qed
  then show "card_at card_net 1"
    by (auto simp: card_at_def card_net_def VIRTIO_SLOTS_def VIRTIO_MAGIC_def QEMU_VENDOR_ID_def split: if_splits)
qed

text \<open>The buffers of a queue do not fit in three pages.\<close>

lemma three_pages_too_few: "\<not> in_pages q {0x80001000, 0x80002000, 0x80003000}"
proof
  assume q: "in_pages q {0x80001000, 0x80002000, 0x80003000}"
  have "in_rng (buffers q) 524288 (buffers q)" "in_rng (buffers q) 524288 (buffers q + 0x4000)" by (simp_all add: in_rng_def)
  then have c: "covered {0x80001000, 0x80002000, 0x80003000} (buffers q)"
    "covered {0x80001000, 0x80002000, 0x80003000} (buffers q + 0x4000)" using q by (auto simp: in_pages_def)
  have lim: "0x80001000 \<le> unat y \<and> unat y < 0x80004000" if "covered {0x80001000, 0x80002000, 0x80003000} y" for y
    using that by (auto simp: covered_def in_rng_iff)
  have "unat (buffers q + 0x4000) = unat (buffers q) + 0x4000" using lim [OF c(1)] by (simp add: unat_plus_if')
  with lim [OF c(1)] lim [OF c(2)] show False by simp
qed

theorem main_with_card_witness:
  "\<exists>s'. main_boot demo_image card_net = Some (Inr (True, s')) \<and> sched_inv demo_code (L_scan 0 False, s') \<and> stvec s' = 0x400 \<and> sie_on s'"
proof -
  note c = card_net_facts
  have pg: "alloc_inv card_net" "free_pages card_net = {0x80001000, 0x80002000, 0x80003000}"
    using alloc_invI [OF c(1)] free_pages_eq [OF c(1)] by simp_all
  obtain s1 where d: "mem_init card_net = Some (Inr (0, s1))"
    "\<And>cb. fdt_traverse (mem s1) (ld64 (mem s1) (dtb_sym demo_image)) cb = Some []"
    by (rule three_pages_boot [OF c(1,6)]) blast
  have three: "3 \<le> card (free_pages card_net)" by (simp add: pg(2))
  have mac: "\<not> covered (free_pages card_net) (mac_buf_addr demo_image + of_nat i)" if "i < 6" for i
    using that by (auto simp: covered_def pg(2) demo_image_def in_rng_iff unat_plus_if' unat_of_nat)
  obtain m u res s2 where m: "main_machine demo_image s1 = Some m" "probed m (reset_writes (slot_device 1)) u"
    "virt_mmio_net_virtq_init (slot_device 1) u = Some (res, s2)" "res \<noteq> 0 \<longrightarrow> arrives demo_image card_net s1 (free_pages s2)"
    using main_with_card [OF pg(1) three c(2,4,3,7) c(5) mac d(1,2)] unfolding card_outcome_def by blast
  note i1 = mem_init_net [OF pg(1) three d(1)]
  have l1: "uart_live s1" using i1 c(2) by simp
  note lm = main_machine_net [OF l1 m(1)] and f = probed_facts [OF m(2)]
  have "alloc_inv u" "uart_live u" "pair_ok u" "dma_idle u"
    using lm i1 c(3,5) by (simp_all add: f uart_live_def pair_ok_def dma_idle_def)
  from virtq_init_effect [OF this, of "slot_device 1"] m(3)
  have "res = 0 \<longrightarrow> in_pages (queue s2 VIRTIO_NET_RX_QUEUE) (free_pages s1 - free_pages s2)" by (simp add: f lm Let_def)
  moreover have "free_pages s1 - free_pages s2 \<subseteq> {0x80001000, 0x80002000, 0x80003000}" using i1(4) unfolding pg(2) by blast
  ultimately have "res = 0 \<longrightarrow> in_pages (queue s2 VIRTIO_NET_RX_QUEUE) {0x80001000, 0x80002000, 0x80003000}"
    using covered_mono unfolding in_pages_def by blast
  then have "res \<noteq> 0" using three_pages_too_few by blast
  with m(4) show ?thesis by (auto simp: arrives_def booted_def demo_image_def)
qed

text \<open>
  C32. When \<open>main\<close> returns. Without a free page it returns at once and nothing has changed. Otherwise, on a machine
  without a network card or with one as in \<open>card_ready\<close>, it returns only after every process has finished: no slot
  is RUNNABLE or RUNNING any more, and if both tasks had been created (without a card, if five pages were
  free), both are zombies. With one or two free pages it does not return.
\<close>

theorem main_returns_finished:
  fixes I :: image and s :: "'a net_scheme"
  assumes inv: "alloc_inv s" and live: "uart_live s" and len: "length (procs s) = NPROC"
    and env: "no_net_device s \<or> (\<exists>k. card_ready I s k)" and run: "kmain I s s'"
  shows "if free_pages s = {} then s' = s
    else 3 \<le> card (free_pages s) \<and>
      (\<forall>i<NPROC. state (proc_at s' i) = PROC_UNUSED \<or> state (proc_at s' i) = PROC_ZOMBIE) \<and>
      (\<exists>t. main_boot I s = Some (Inr (True, t)) \<and>
        (tasks_made I t \<longrightarrow> state (proc_at s' 0) = PROC_ZOMBIE \<and> state (proc_at s' 1) = PROC_ZOMBIE) \<and>
        (no_net_device s \<and> 5 \<le> card (free_pages s) \<longrightarrow> tasks_made I t))"
proof (rule returned_pages [OF inv run])
  fix s1 t
  assume pages: "3 \<le> card (free_pages s)" and init: "mem_init s = Some (Inr (0, s1))" and boot: "main_boot I s = Some (Inr (True, t))"
  have l1: "uart_live s1" using mem_init_net(1) [OF inv pages init] live by simp
  have n: "sched_inv (kcode I) (L_scan 0 False, t) \<and> (5 \<le> card (free_pages s) \<longrightarrow> tasks_made I t)" if "no_net_device s"
    using boot_traversed [OF init l1 boot] main_boot_effect [OF inv pages live len that init] boot by fastforce
  then have b: "sched_inv (kcode I) (L_scan 0 False, t)"
    using env card_ready_boots [OF inv pages live len _ init boot] by blast
  show ?thesis using pages boot n returned_finished [OF boot b run] by auto
qed simp

theorem main_returns_finished_witness:
  "\<exists>I s'. kmain I demo_net s' \<and>
    (\<forall>i<NPROC. state (proc_at s' i) = PROC_UNUSED \<or> state (proc_at s' i) = PROC_ZOMBIE)"
proof -
  obtain s1 where d: "mem_init demo_net = Some (Inr (0, s1))"
    "\<And>cb. fdt_traverse (mem s1) (ld64 (mem s1) (dtb_sym demo_image)) cb = Some []"
    by (rule demo_boots) blast
  obtain t where "main_boot demo_image demo_net = Some (Inr (True, t))" "sched_inv demo_code (L_scan 0 False, t)" "uart_live t"
    using main_boot_effect [OF demo_boot_facts(1,2) demo_net_facts(2) demo_boot_facts(3,4) d(1), of demo_image "[]"]
      d(2) by (auto simp: demo_image_def)
  then obtain s' where r: "kmain demo_image demo_net s'" using main_can_return [of demo_image] by (auto simp: demo_image_def)
  have ne: "free_pages demo_net \<noteq> {}" using demo_boot_facts(2) by auto
  from main_returns_finished [OF demo_boot_facts(1) demo_net_facts(2) demo_boot_facts(3) _ r] ne demo_boot_facts(4) r
  show ?thesis by auto
qed

end
