(* ===== verification/Preempt.thy ===== *)
theory Preempt
  imports Trap
begin

text \<open>
  Preemption, from the timer interrupt in a process to the moment it goes on: \<^verbatim>\<open>trap_vector\<close> saves the
  registers on the process's stack, the timer handler yields, the scheduler runs other processes,
  and when the process is picked again \<^verbatim>\<open>swtch\<close> returns into \<open>yield\<close>, the handler returns and \<^verbatim>\<open>trap_vector\<close>
  restores the registers. This composes the trap frame of \<open>Trap\<close> with the contexts of \<open>Process\<close>.

  The C code between \<^verbatim>\<open>trap_vector\<close> and \<^verbatim>\<open>swtch\<close> uses \<open>depth\<close> bytes of stack and leaves \<open>c\<close> in the
  callee-saved registers; what it gives back on return is the stack pointer it was called with.

  The last property takes the same interrupt where the scheduler has marked a process as running and has not switched
  to it yet.
\<close>

declare lit_Cons [simp del]

section \<open>Memory under the scheduler\<close>

lemma sched_dispatch_mem: "mem (sched_dispatch A i s) = mem s"
  by (simp add: sched_dispatch_def call_swtch_def swtch_def ctx_store_def sched_mark_def set_proc_def Let_def)

lemma kernel_step_mem:
  assumes "kstep A d d'" "\<And>k. fst d \<noteq> L_run k"
  shows "mem (snd d') = mem (snd d)"
  using assms
proof (cases rule: kstep.cases)
  case (exit i s s')
  then show ?thesis using uart_puts_frame [OF exit(5)] by auto
qed (auto simp: sched_dispatch_mem)

text \<open>A step while process \<open>i\<close> waits, in which no other process writes the addresses \<open>F\<close>.\<close>

definition away_step :: "code \<Rightarrow> nat \<Rightarrow> (u64 \<Rightarrow> bool) \<Rightarrow> loc \<times> 'a kernel_scheme \<Rightarrow> loc \<times> 'a kernel_scheme \<Rightarrow> bool" where
  "away_step A i F d d' \<longleftrightarrow> kstep A d d' \<and> fst d' \<noteq> L_run i \<and>
     ((\<exists>k. fst d = L_run k) \<longrightarrow> (\<forall>x. F x \<longrightarrow> mem (snd d') x = mem (snd d) x))"

lemma away_run_mem: "(away_step A i F)\<^sup>*\<^sup>* d d' \<Longrightarrow> F x \<Longrightarrow> mem (snd d') x = mem (snd d) x"
proof (induction rule: rtranclp_induct)
  case (step d1 d2)
  then show ?case using kernel_step_mem [of A d1 d2] by (auto simp: away_step_def)
qed simp

lemma away_run_kstep:
  "(away_step A i F)\<^sup>*\<^sup>* d d' \<Longrightarrow> (\<lambda>d d'. kstep A d d' \<and> fst d' \<noteq> L_run i)\<^sup>*\<^sup>* d d'"
  by (rule rtranclp_mono [THEN predicate2D, rotated]) (auto simp: away_step_def)

lemma yield_mie [simp]: "mie (yield A s) = mie s"
  by (simp add: yield_def call_swtch_def swtch_def ctx_store_def set_proc_def Let_def split: option.split)

text \<open>Nothing the handler does before it yields touches the process table.\<close>

lemma timer_state:
  assumes "uart_emits (s\<lparr>time_rd := k\<rparr>) cs t"
  shows "user_step s (set_timer n t)" "cpu (set_timer n t) = cpu s" "mem (set_timer n t) = mem s"
    "bit (mie (set_timer n t)) 7"
proof -
  obtain j where t: "t = s\<lparr>time_rd := k, uart_rd := j, uart_wr := uart_wr s @ map (Pair UART_THR) cs\<rparr>"
    using assms by (auto simp: uart_emits_def)
  have "bit (0x80 :: u64) 7" by (simp add: bit_simps)
  then show "user_step s (set_timer n t)" "cpu (set_timer n t) = cpu s" "mem (set_timer n t) = mem s"
    "bit (mie (set_timer n t)) 7"
    unfolding t by (simp_all add: user_step_def set_timer_def get_time_def m_set_timer_def)
qed

lemma timer_handled:
  fixes s :: "'a kernel_scheme"
  assumes live: "uart_live s" and intr: "bit cause 63" "irq_of cause = IRQ_S_TIMER"
    and enter: "trap_save (take_trap cause tval (h, s)) = (h1, s1)"
  obtains w where "trap_handler A (gpr h1 10) (s1\<lparr>cpu := c\<rparr>) = Some (Inr (yield A w))" "user_step s w"
    "cpu w = c" "mem w = mem s1" "bit (mie w) 7"
proof -
  have s1: "user_step s s1" "uart_live (s1\<lparr>cpu := c\<rparr>)" "gpr h1 2 = gpr h1 10"
    using enter live by (auto simp: trap_save_def take_trap_def Let_def user_step_def uart_live_def)
  obtain g v where dummy: "trap_restore (h1, s1) = (g, v)" by force
  have cause: "cause = ctx_word (mem (s1\<lparr>cpu := c\<rparr>)) (gpr h1 10) 34"
    using trap_resume(8) [OF enter refl _ dummy] s1(3) by simp
  obtain cs t where t: "uart_emits (s1\<lparr>cpu := c, time_rd := Suc (time_rd s1)\<rparr>) cs t"
    "trap_handler A (gpr h1 10) (s1\<lparr>cpu := c\<rparr>) = Some (Inr (yield A (set_timer 10000000 t)))"
    using trap_handler_timer [OF s1(2) cause intr, of A] by auto
  define w where "w = set_timer 10000000 t"
  note w = timer_state [OF t(1), of 10000000, folded w_def]
  have "user_step s w" using s1(1) w(1) by (simp add: user_step_def)
  with t(2) w(2-4) show ?thesis by (intro that [of w]) (simp_all add: w_def)
qed

lemma timer_preempts:
  fixes s :: "'a kernel_scheme"
  assumes inv: "sched_inv A (L_run i, s)" and live: "uart_live s"
    and intr: "bit cause 63" "irq_of cause = IRQ_S_TIMER"
    and enter: "trap_save (take_trap cause tval (h, s)) = (h1, s1)"
  obtains w where "trap_handler A (gpr h1 10) (s1\<lparr>cpu := c\<rparr>) = Some (Inr (yield A w))" "sched_inv A (L_run i, w)"
    "procs w = procs s" "cpu w = c" "mem w = mem s1" "bit (mie w) 7"
proof (rule timer_handled [OF live intr enter, of A c])
  fix w
  assume w: "trap_handler A (gpr h1 10) (s1\<lparr>cpu := c\<rparr>) = Some (Inr (yield A w))" "user_step s w" "cpu w = c"
    "mem w = mem s1" "bit (mie w) 7"
  then have "sched_inv A (L_run i, w)" by (intro sched_inv_step [OF inv] kstep.user)
  with w show thesis by (intro that [of w]) (simp_all add: user_step_def)
qed

text \<open>The hart takes a supervisor timer interrupt when one is pending and enabled.\<close>

definition timer_taken :: "'a machine_scheme \<Rightarrow> bool" where
  "timer_taken s \<longleftrightarrow> sie_on s \<and> bit (mie s) 5 \<and> bit (mip s) 5"

section \<open>Properties\<close>

text \<open>
  C11. A preempted process goes on as if nothing had happened. A timer interrupt in running process \<open>i\<close>: the
  handler returns from its output, re-arms the timer and arrives in the scheduler. Whatever is scheduled
  then, if no other process writes the 288 bytes of the trap frame, the next time process \<open>i\<close> is entered the code
  after the handler, with the stack pointer the calling convention gives back, restores every general register,
  the program counter and the interrupt enable bit of the moment of the interrupt, and the process is the
  current one and RUNNING.
\<close>

theorem preempted_process_resumes:
  fixes s :: "'a kernel_scheme"
  assumes inv: "sched_inv A (L_run i, s)" and live: "uart_live s"
    and intr: "bit cause 63" "irq_of cause = IRQ_S_TIMER"
    and enter: "trap_save (take_trap cause tval (h, s)) = (h1, s1)" and depth: "reg_sp c = gpr h1 2 - depth"
  shows "\<exists>s2. trap_handler A (gpr h1 10) (s1\<lparr>cpu := c\<rparr>) = Some (Inr s2) \<and> bit (mie s2) 7 \<and>
    (\<forall>l s3 s4 h2 h3 s5. (away_step A i (in_rng (gpr h 2 - 288) 288))\<^sup>*\<^sup>* (L_back i, s2) (l, s3) \<longrightarrow>
       kstep A (l, s3) (L_run i, s4) \<longrightarrow> gpr h2 2 = reg_sp (cpu s4) + depth \<longrightarrow>
       trap_restore (h2, s4) = (h3, s5) \<longrightarrow>
       (\<forall>r. 0 < r \<and> r < 32 \<longrightarrow> gpr h3 r = gpr h r) \<and> pc h3 = pc h \<and> sie_on s5 = sie_on s \<and>
       current_process s5 = Some i \<and> state (proc_at s5 i) = PROC_RUNNING)"
proof -
  obtain w where w: "trap_handler A (gpr h1 10) (s1\<lparr>cpu := c\<rparr>) = Some (Inr (yield A w))" "sched_inv A (L_run i, w)"
    "cpu w = c" "mem w = mem s1" "bit (mie w) 7"
    by (rule timer_preempts [OF inv live intr enter])
  have sp1: "gpr h1 2 = gpr h 2 - 288" using enter by (auto simp: trap_save_def take_trap_def Let_def)
  have "(\<forall>r. 0 < r \<and> r < 32 \<longrightarrow> gpr h3 r = gpr h r) \<and> pc h3 = pc h \<and> sie_on s5 = sie_on s \<and>
       current_process s5 = Some i \<and> state (proc_at s5 i) = PROC_RUNNING"
    if run: "(away_step A i (in_rng (gpr h 2 - 288) 288))\<^sup>*\<^sup>* (L_back i, yield A w) (l, s3)"
      and pick: "kstep A (l, s3) (L_run i, s4)" and sp: "gpr h2 2 = reg_sp (cpu s4) + depth"
      and leave: "trap_restore (h2, s4) = (h3, s5)" for l s3 s4 h2 h3 s5
  proof -
    note y = yield_resumes [OF w(2) away_run_kstep [OF run] pick]
    have "mem s4 = mem s3" using kernel_step_mem [OF pick] pick y(3)
      by (cases l) (auto simp: enter_sched_def elim: kstep_runE split: if_splits)
    moreover have "mem s3 x = mem s1 x" if "in_rng (gpr h1 2) 288 x" for x
      using away_run_mem [OF run, of x] that w(4) sp1 by simp
    ultimately have fr: "mem s4 x = mem s1 x" if "in_rng (gpr h1 2) 288 x" for x using that by simp
    have "gpr h2 2 = gpr h1 2" using sp y(1) w(3) depth by simp
    note r = trap_resume [OF enter this fr leave]
    obtain q where "s5 = s4\<lparr>sstatus := q\<rparr>" using trap_restore_effect(4) [OF leave] by blast
    then have "current_process s5 = Some i" "state (proc_at s5 i) = PROC_RUNNING" using y(2) by (simp_all add: proc_at_def)
    with r(1,2) r(3) [of 1] show ?thesis by (simp add: sie_on_def)
  qed
  moreover have "bit (mie (yield A w)) 7" using w(5) by simp
  ultimately show ?thesis using w(1) by blast
qed

theorem preempted_process_resumes_witness:
  "\<exists>(s :: kernel) h1 s1 c s2 s3 (s4 :: kernel) h3 s5.
     trap_save (take_trap 0x8000000000000005 0
       (\<lparr>gpr = (\<lambda>r. of_nat r + 0x80003000), pc = 0x80000100, sepc = 0, scause = 0, stval = 0\<rparr>, s)) = (h1, s1) \<and>
     trap_handler demo_code (gpr h1 10) (s1\<lparr>cpu := c\<rparr>) = Some (Inr s2) \<and>
     kstep demo_code (L_scan 0 False, s3) (L_run 0, s4) \<and>
     trap_restore (h1\<lparr>gpr := (gpr h1)(2 := reg_sp (cpu s4) + 64)\<rparr>, s4) = (h3, s5) \<and>
     gpr h3 7 = 0x80003007 \<and> pc h3 = 0x80000100 \<and> current_process s5 = Some 0"
proof -
  define h where "h = \<lparr>gpr = (\<lambda>r. of_nat r + 0x80003000), pc = 0x80000100, sepc = 0, scause = 0, stval = 0\<rparr>"
  let ?cause = "0x8000000000000005 :: u64" and ?A = demo_code
  have intr: "bit ?cause 63" "irq_of ?cause = IRQ_S_TIMER"
    by (simp_all add: irq_of_def SCAUSE_INTR_FLAG_def IRQ_S_TIMER_def)
  obtain s :: kernel where s: "sched_inv ?A (L_run 0, s)" "\<forall>j<NPROC. j \<noteq> 0 \<longrightarrow> state (proc_at s j) \<noteq> PROC_RUNNABLE" "uart_live s"
    by (rule demo_running)
  obtain h1 s1 where enter: "trap_save (take_trap ?cause 0 (h, s)) = (h1, s1)" by force
  define c where "c = zero_context\<lparr>reg_sp := gpr h1 2 - 64\<rparr>"
  have depth: "reg_sp c = gpr h1 2 - 64" by (simp add: c_def)
  obtain w where w: "trap_handler ?A (gpr h1 10) (s1\<lparr>cpu := c\<rparr>) = Some (Inr (yield ?A w))" "sched_inv ?A (L_run 0, w)" "procs w = procs s"
    by (rule timer_preempts [OF s(1,3) intr enter])
  then have alone: "\<forall>j<NPROC. j \<noteq> 0 \<longrightarrow> state (proc_at w j) \<noteq> PROC_RUNNABLE" using s(2) by (simp add: proc_at_def)
  obtain t where t: "(\<lambda>d d'. kstep ?A d d' \<and> fst d' \<noteq> L_run 0 \<and> (\<forall>k. fst d \<noteq> L_run k))\<^sup>*\<^sup>* (L_back 0, yield ?A w) (L_scan 0 False, t)"
    "kstep ?A (L_scan 0 False, t) (L_run 0, sched_dispatch ?A 0 t)"
    by (rule lone_process_picked [OF w(2) alone])
  have run: "(away_step ?A 0 F)\<^sup>*\<^sup>* (L_back 0, yield ?A w) (L_scan 0 False, t)" for F
    using t(1) by (rule rtranclp_mono [THEN predicate2D, rotated]) (auto simp: away_step_def)
  define h2 where "h2 = h1\<lparr>gpr := (gpr h1)(2 := reg_sp (cpu (sched_dispatch ?A 0 t)) + 64)\<rparr>"
  have sp: "gpr h2 2 = reg_sp (cpu (sched_dispatch ?A 0 t)) + 64" by (simp add: h2_def)
  obtain h3 s5 where leave: "trap_restore (h2, sched_dispatch ?A 0 t) = (h3, s5)" by force
  have r: "\<forall>r. 0 < r \<and> r < 32 \<longrightarrow> gpr h3 r = gpr h r" "pc h3 = pc h" "current_process s5 = Some 0"
    using preempted_process_resumes [OF s(1,3) intr enter depth] w(1) run [of "in_rng (gpr h 2 - 288) 288"] t(2) sp leave
    by (metis option.inject sum.inject(2))+
  then have "gpr h3 7 = 0x80003007" "pc h3 = 0x80000100" by (simp_all add: h_def)
  with r(3) enter w(1) t(2) leave show ?thesis unfolding h_def h2_def by blast
qed

text \<open>
  C40. The scheduler's critical section is not protected. The scheduler runs with interrupts and the timer interrupt
  enabled, as \<open>main\<close> leaves them, and picks process \<open>i\<close>. Nothing it does up to the switch masks them: if the timer
  becomes pending once \<open>i\<close> is current, the interrupt is taken. The trap is entered, \<open>trap_handler\<close> returns from
  its output and yields, and \<open>yield\<close> stores the registers of the interrupted scheduler in the saved context of
  \<open>i\<close>, whose own context is gone, marks \<open>i\<close> RUNNABLE, and goes on with the scheduler's context of its previous switch.
\<close>

theorem interrupt_in_scheduler_loses_context:
  fixes s :: "'a kernel_scheme"
  assumes inv: "sched_inv A (L_scan i found, s)" "i < NPROC" "state (proc_at s i) = PROC_RUNNABLE"
    and on: "sie_on s" "bit (mie s) 5" and live: "uart_live s"
    and window: "t = (sched_mark i s)\<lparr>mip := pending\<rparr>" "bit pending 5"
    and intr: "bit cause 63" "irq_of cause = IRQ_S_TIMER"
    and enter: "trap_save (take_trap cause tval (h, t)) = (h1, s1)"
  shows "timer_taken t \<and> (\<exists>s2. trap_handler A (gpr h1 10) (s1\<lparr>cpu := c\<rparr>) = Some (Inr s2) \<and>
    saved (proc_at s2 i) = c\<lparr>reg_ra := yield_pc A\<rparr> \<and> state (proc_at s2 i) = PROC_RUNNABLE \<and>
    current_process s2 = None \<and> cpu s2 = sched_context s)"
proof -
  have l: "length (procs s) = NPROC" using inv(1) by (simp add: table_ok_def)
  have t: "timer_taken t" "uart_live t"
    using on live window by (simp_all add: timer_taken_def sie_on_def sched_mark_def set_proc_def uart_live_def)
  have p: "procs t = procs (sched_mark i s)" "current_process t = Some i" "sched_context t = sched_context s"
    by (simp_all add: window sched_mark_def)
  show ?thesis
  proof (rule timer_handled [OF t(2) intr enter, of A c])
    fix w
    assume w: "trap_handler A (gpr h1 10) (s1\<lparr>cpu := c\<rparr>) = Some (Inr (yield A w))" "user_step t w" "cpu w = c"
    then have q: "procs w = procs (sched_mark i s)" "current_process w = Some i" "sched_context w = sched_context s"
      using p by (simp_all add: user_step_def)
    have "proc_at w = proc_at (sched_mark i s)" "length (procs w) = NPROC"
      using q(1) l by (simp_all add: proc_at_def fun_eq_iff sched_mark_def)
    then have "length (procs w) = NPROC" "state (proc_at w i) = PROC_RUNNING"
      using l inv(2) by (simp_all add: sched_mark_def proc_at_set_proc)
    with yield_effect [OF _ q(2) inv(2), of A] w(1,3) q(3) t(1) show ?thesis by auto
  qed
qed

theorem interrupt_in_scheduler_loses_context_witness:
  "\<exists>(s :: kernel) h1 s1 s2. state (proc_at s 0) = PROC_RUNNABLE \<and>
     trap_save (take_trap 0x8000000000000005 0
       (\<lparr>gpr = (\<lambda>r. of_nat r + 0x80003000), pc = 0x80000100, sepc = 0, scause = 0, stval = 0\<rparr>, (sched_mark 0 s)\<lparr>mip := 0x20\<rparr>)) = (h1, s1) \<and>
     trap_handler demo_code (gpr h1 10) (s1\<lparr>cpu := zero_context\<lparr>reg_sp := 0x80004000\<rparr>\<rparr>) = Some (Inr s2) \<and>
     saved (proc_at s 0) \<noteq> saved (proc_at s2 0) \<and> reg_sp (saved (proc_at s2 0)) = 0x80004000"
proof -
  let ?cause = "0x8000000000000005 :: u64" and ?A = demo_code
  let ?h = "\<lparr>gpr = (\<lambda>r. of_nat r + 0x80003000), pc = 0x80000100, sepc = 0, scause = 0, stval = 0\<rparr> :: hart"
  obtain s0 stk where "spawn ?A [(0x400, None)] (proc_init demo_kernel) = Some s0" and s0: "ready ?A s0"
    "proc_at s0 0 = new_process ?A 0 stk 0x400 None (proc_at (proc_init demo_kernel) 0)"
    and "\<forall>j<NPROC. j \<noteq> 0 \<longrightarrow> state (proc_at s0 j) = PROC_UNUSED"
    by (rule demo_spawn)
  define s where "s = s0\<lparr>sstatus := 2, mie := 0x20\<rparr>"
  have same: "proc_at s = proc_at s0" by (simp add: s_def proc_at_def fun_eq_iff)
  have p: "state (proc_at s 0) = PROC_RUNNABLE" "reg_ra (saved (proc_at s 0)) = 0x100"
    using s0(2) by (simp_all add: same new_process_def demo_code_def)
  have inv: "sched_inv ?A (L_scan 0 False, s)" "uart_live s"
    using s0(1) by (simp_all add: ready_def table_ok_def none_running_def same uart_live_def) (simp_all add: s_def)
  have on: "sie_on s" "bit (mie s) 5" "bit (0x20 :: u64) 5" by (simp_all add: s_def sie_on_def bit_simps)
  have intr: "bit ?cause 63" "irq_of ?cause = IRQ_S_TIMER"
    by (simp_all add: irq_of_def SCAUSE_INTR_FLAG_def IRQ_S_TIMER_def)
  obtain h1 s1 where enter: "trap_save (take_trap ?cause 0 (?h, (sched_mark 0 s)\<lparr>mip := 0x20\<rparr>)) = (h1, s1)" by force
  have "0 < NPROC" by (simp add: NPROC_def)
  from interrupt_in_scheduler_loses_context [OF inv(1) this p(1) on(1,2) inv(2) refl on(3) intr enter,
      of "zero_context\<lparr>reg_sp := 0x80004000\<rparr>"]
  obtain s2 where s2: "trap_handler ?A (gpr h1 10) (s1\<lparr>cpu := zero_context\<lparr>reg_sp := 0x80004000\<rparr>\<rparr>) = Some (Inr s2)"
    "saved (proc_at s2 0) = zero_context\<lparr>reg_sp := 0x80004000, reg_ra := yield_pc ?A\<rparr>" by auto
  then have "reg_ra (saved (proc_at s2 0)) = 0x300" "reg_sp (saved (proc_at s2 0)) = 0x80004000" by (simp_all add: demo_code_def)
  moreover from this have "saved (proc_at s 0) \<noteq> saved (proc_at s2 0)" using p(2) by auto
  ultimately show ?thesis using p(1) enter s2(1) by blast
qed

end
