(* ===== verification/Start.thy ===== *)
theory Start
  imports Net_Boot
begin

text \<open>
  The reset code of \<^verbatim>\<open>src/src/asm/Start.S\<close>, from the first instruction in machine mode to the call of
  \<open>main\<close> in supervisor mode: it stores the device tree's address, clears \<^verbatim>\<open>.bss\<close>, calls
  \<open>relocate_kernel\<close>, programs the machine-mode registers and drops to supervisor mode.

  The addresses the linker assigns are the record \<open>layout\<close>, which extends \<open>image\<close>; \<open>layout_ok\<close> states
  what \<^verbatim>\<open>src/src/kernel/linker.ld\<close> gives. \<^verbatim>\<open>la\<close> is relative to the program counter, so these are the physical
  addresses the code runs at. Registers a call may change are an arbitrary function \<open>clobber\<close>.
\<close>

declare lit_Cons [simp del]

section \<open>State\<close>

record layout = image +
  stack_top :: u64
  sbss :: u64
  ebss :: u64
  heap_sym :: u64
  stack_limit :: u64
  boot_pt :: u64
  mtrap_vector_pc :: u64
  m_stack_top :: u64
  kernel_entry_pc :: u64

datatype priv = PRV_U | PRV_S | PRV_M

text \<open>\<open>mstatus\<close> holds the machine-level fields; the fields it shares with \<^verbatim>\<open>sstatus\<close> are those of the
  machine record.\<close>

record start_hart = mhart +
  mode :: priv
  mstatus :: u64
  mtvec :: u64
  mcounteren :: u64
  medeleg :: u64
  mideleg :: u64
  pmpaddr0 :: u64
  pmpcfg0 :: u64

section \<open>The code\<close>

definition set_reg :: "nat \<Rightarrow> u64 \<Rightarrow> 'a hart_scheme \<Rightarrow> 'a hart_scheme" where
  "set_reg r v h = h\<lparr>gpr := (gpr h)(r := v)\<rparr>"

partial_function (option) bss_loop :: "u64 \<Rightarrow> u64 \<Rightarrow> memory \<Rightarrow> (u64 \<times> memory) option" where
  "bss_loop t0 t1 m =
     (if t0 \<ge> t1 then Some (t0, m) else bss_loop (t0 + 8) t1 (st64 m t0 0))"

text \<open>The variables the model keeps outside the byte memory are all without an initialiser and so in
  \<^verbatim>\<open>.bss\<close>: clearing it sets them to zero.\<close>

definition clear_globals :: "'a net_scheme \<Rightarrow> 'a net_scheme" where
  "clear_globals s = s\<lparr>free_list := 0, heap_start := 0, heap_end := 0, free_page_count := 0,
     procs := replicate NPROC idle_proc, current_process := None, sched_context := zero_context,
     net_queues := replicate VIRTIO_NET_QUEUE_COUNT empty_queue\<rparr>"

text \<open>Up to the call of \<open>relocate_kernel\<close>. Registers 2, 5, 6 and 11 are \<^verbatim>\<open>sp\<close>, \<^verbatim>\<open>t0\<close>, \<^verbatim>\<open>t1\<close> and \<^verbatim>\<open>a1\<close>.\<close>

definition start_clear ::
  "layout \<Rightarrow> start_hart \<times> 'a net_scheme \<Rightarrow> (start_hart \<times> 'a net_scheme) option" where
  "start_clear L = (\<lambda>(h, s). do {
     let h = set_reg 2 (stack_top L) h;
     let h = set_reg 5 (dtb_sym L) h;
     let s = s\<lparr>mem := st64 (mem s) (gpr h 5) (gpr h 11)\<rparr>;
     let h = set_reg 5 (sbss L) h;
     let h = set_reg 6 (ebss L) h;
     (t0, m) \<leftarrow> bss_loop (gpr h 5) (gpr h 6) (mem s);
     Some (set_reg 5 t0 h, clear_globals (s\<lparr>mem := m\<rparr>))
   })"

text \<open>\<^verbatim>\<open>mret\<close>: the previous mode and interrupt enable come back from \<open>mstatus\<close> (fields MIE 3, MPIE 7, MPP 11
  and 12, MPRV 17).\<close>

definition MPP_MASK :: u64 where "MPP_MASK = push_bit 11 3"

definition mpp :: "u64 \<Rightarrow> priv" where
  "mpp r = (if drop_bit 11 (r AND MPP_MASK) = 0 then PRV_U else if drop_bit 11 (r AND MPP_MASK) = 1 then PRV_S else PRV_M)"

definition mret :: "start_hart \<Rightarrow> start_hart" where
  "mret h =
     (let r = mstatus h;
          prv = mpp r;
          r = csr_clear (set_bit_to 7 True (set_bit_to 3 (bit r 7) r)) MPP_MASK
      in h\<lparr>mode := prv, mstatus := (if prv = PRV_M then r else set_bit_to 17 False r), pc := mepc h\<rparr>)"

text \<open>From the return of \<open>relocate_kernel\<close> on.\<close>

definition drop_to_kernel :: "layout \<Rightarrow> start_hart \<times> 'a machine_scheme \<Rightarrow> start_hart \<times> 'a machine_scheme" where
  "drop_to_kernel L = (\<lambda>(h, s).
     let s = s\<lparr>mie := 0\<rparr>;
         h = set_reg 5 (mtrap_vector_pc L) h; h = h\<lparr>mtvec := gpr h 5\<rparr>;
         h = set_reg 5 (m_stack_top L) h; h = h\<lparr>mscratch := gpr h 5\<rparr>;
         h = set_reg 5 (- 1) h; h = h\<lparr>mcounteren := gpr h 5\<rparr>;
         h = set_reg 5 (- 1) h; h = h\<lparr>pmpaddr0 := gpr h 5\<rparr>;
         h = set_reg 6 0x8f h; h = h\<lparr>pmpcfg0 := gpr h 6\<rparr>;
         h = set_reg 5 0xfdff h; h = h\<lparr>medeleg := gpr h 5\<rparr>;
         h = set_reg 5 0x222 h; h = h\<lparr>mideleg := gpr h 5\<rparr>;
         h = set_reg 5 (push_bit 11 3) h; h = h\<lparr>mstatus := csr_clear (mstatus h) (gpr h 5)\<rparr>;
         h = set_reg 5 (push_bit 11 1) h; h = h\<lparr>mstatus := csr_set (mstatus h) (gpr h 5)\<rparr>;
         h = set_reg 5 (kernel_entry_pc L) h; h = h\<lparr>mepc := gpr h 5\<rparr>
     in (mret h, s))"

definition start ::
  "layout \<Rightarrow> ((nat \<Rightarrow> u64) \<Rightarrow> nat \<Rightarrow> u64) \<Rightarrow> start_hart \<times> 'a net_scheme \<Rightarrow>
   (map_fault + start_hart \<times> 'a net_scheme) option" where
  "start L clobber hs = do {
     (h, s) \<leftarrow> start_clear L hs;
     rbind (relocate_kernel (heap_sym L) (stack_limit L) (boot_pt L) s) (\<lambda>s.
       Some (Inr (drop_to_kernel L (h\<lparr>gpr := clobber (gpr h)\<rparr>, s))))
   }"

text \<open>\<^verbatim>\<open>kernel_entry\<close>: the hart at the call of \<open>main\<close>, and what \<open>main\<close> does up to the scheduler.\<close>

definition kernel_entry ::
  "layout \<Rightarrow> start_hart \<times> 'a net_scheme \<Rightarrow> start_hart \<times> (map_fault + bool \<times> 'a net_scheme) option" where
  "kernel_entry L = (\<lambda>(h, s). (set_reg 2 (stack_top L) h, main_boot (image.truncate L) s))"

section \<open>What the linker script gives\<close>

text \<open>\<^verbatim>\<open>_dtb_addr\<close> is in \<^verbatim>\<open>.data\<close>, below \<^verbatim>\<open>.bss\<close>; the boot page table is in \<^verbatim>\<open>.bss\<close>; the heap begins at
  its end and has room for two pages.\<close>

definition layout_ok :: "layout \<Rightarrow> bool" where
  "layout_ok L \<longleftrightarrow> heap_syms_ok (heap_sym L) (stack_limit L) \<and> aligned 12 (boot_pt L) \<and>
     unat (dtb_sym L) + 8 \<le> unat (sbss L) \<and> unat (sbss L) \<le> unat (boot_pt L) \<and>
     unat (boot_pt L) + 4096 \<le> unat (ebss L) \<and> unat (ebss L) \<le> heap_first (heap_sym L) \<and>
     heap_first (heap_sym L) + 2 * 4096 \<le> heap_last (heap_sym L) (stack_limit L)"

text \<open>All that the reset code writes lies between the variable and the end of the heap.\<close>

definition boot_area :: "layout \<Rightarrow> u64 \<Rightarrow> bool" where
  "boot_area L y \<longleftrightarrow> unat (dtb_sym L) \<le> unat y \<and> unat y < heap_last (heap_sym L) (stack_limit L)"

section \<open>Lemmas\<close>

lemma bss_loop_clears:
  assumes "unat e + 8 \<le> 2 ^ 64"
  shows "\<exists>p m'. bss_loop b e m = Some (p, m') \<and> (\<forall>y. unat b \<le> unat y \<longrightarrow> unat y < unat e \<longrightarrow> m' y = 0) \<and>
    (\<forall>y. m' y \<noteq> m y \<longrightarrow> unat b \<le> unat y \<and> unat y < unat e + 8)"
proof (induction "unat e - unat b" arbitrary: b m rule: less_induct)
  case less
  show ?case
  proof (cases "b \<ge> e")
    case True
    then show ?thesis by (subst bss_loop.simps) (auto simp: word_le_nat_alt)
  next
    case False
    then have lt: "unat b < unat e" by (simp add: word_le_nat_alt)
    then have b8: "unat (b + 8) = unat b + 8" using assms by (subst unat_add_nowrap) simp_all
    then have "unat e - unat (b + 8) < unat e - unat b" using lt by simp
    from less [OF this, of "st64 m b 0"] obtain p m' where ih: "bss_loop (b + 8) e (st64 m b 0) = Some (p, m')"
      "\<And>y. unat b + 8 \<le> unat y \<Longrightarrow> unat y < unat e \<Longrightarrow> m' y = 0"
      "\<And>y. m' y \<noteq> st64 m b 0 y \<Longrightarrow> unat b + 8 \<le> unat y \<and> unat y < unat e + 8"
      unfolding b8 by blast
    have in_b: "in_rng b 8 y \<longleftrightarrow> unat b \<le> unat y \<and> unat y < unat b + 8" for y
      using lt assms by (intro in_rng_iff) simp
    have z: "st64 m b 0 y = 0" if "in_rng b 8 y" for y using that by (simp add: st64_def st_le_apply del: st_le.simps)
    have "m' y = 0" if "unat b \<le> unat y" "unat y < unat e" for y
      using that ih(2,3) [of y] z in_b [of y] by (cases "unat b + 8 \<le> unat y") auto
    moreover have "unat b \<le> unat y \<and> unat y < unat e + 8" if "m' y \<noteq> m y" for y
      using that ih(3) [of y] st64_outside [of b y m 0] in_b [of y] lt by fastforce
    ultimately show ?thesis using ih(1) False by (subst bss_loop.simps) auto
  qed
qed

lemma layout_ranges:
  assumes ok: "layout_ok L"
  shows "heap_last (heap_sym L) (stack_limit L) \<le> 2 ^ 55"
    "in_rng (boot_pt L) 4096 y \<longleftrightarrow> unat (boot_pt L) \<le> unat y \<and> unat y < unat (boot_pt L) + 4096"
    "in_rng (dtb_sym L) 8 y \<longleftrightarrow> unat (dtb_sym L) \<le> unat y \<and> unat y < unat (dtb_sym L) + 8"
proof -
  show l: "heap_last (heap_sym L) (stack_limit L) \<le> 2 ^ 55"
    using ok by (auto simp: layout_ok_def heap_syms_ok_def heap_last_def)
  show "in_rng (boot_pt L) 4096 y \<longleftrightarrow> unat (boot_pt L) \<le> unat y \<and> unat y < unat (boot_pt L) + 4096"
    "in_rng (dtb_sym L) 8 y \<longleftrightarrow> unat (dtb_sym L) \<le> unat y \<and> unat y < unat (dtb_sym L) + 8"
    using ok l by (auto simp: layout_ok_def intro!: in_rng_iff)
qed

text \<open>What of the state the clearing keeps.\<close>

lemma start_clear_effect:
  assumes ok: "layout_ok L"
  shows "\<exists>g m. start_clear L (h, s) = Some (h\<lparr>gpr := g\<rparr>, clear_globals (s\<lparr>mem := m\<rparr>)) \<and>
    ld64 m (dtb_sym L) = gpr h 11 \<and> (\<forall>y. unat (sbss L) \<le> unat y \<longrightarrow> unat y < unat (ebss L) \<longrightarrow> m y = 0) \<and>
    (\<forall>y. m y \<noteq> mem s y \<longrightarrow> boot_area L y)"
proof -
  define m0 where "m0 = st64 (mem s) (dtb_sym L) (gpr h 11)"
  have e: "unat (ebss L) + 8 \<le> heap_last (heap_sym L) (stack_limit L)" using ok by (simp add: layout_ok_def)
  with layout_ranges(1) [OF ok] have "unat (ebss L) + 8 \<le> 2 ^ 64" by simp
  from bss_loop_clears [OF this, of "sbss L" m0] obtain p m where m: "bss_loop (sbss L) (ebss L) m0 = Some (p, m)"
    "\<And>y. unat (sbss L) \<le> unat y \<Longrightarrow> unat y < unat (ebss L) \<Longrightarrow> m y = 0"
    "\<And>y. m y \<noteq> m0 y \<Longrightarrow> unat (sbss L) \<le> unat y \<and> unat y < unat (ebss L) + 8" by blast
  note d = layout_ranges(3) [OF ok]
  have "m y = m0 y" if "in_rng (dtb_sym L) 8 y" for y
    using that m(3) [of y] ok by (auto simp: d layout_ok_def)
  then have "ld64 m (dtb_sym L) = ld64 m0 (dtb_sym L)" by (intro ld64_cong)
  moreover have "boot_area L y" if "m y \<noteq> mem s y" for y
    using that m(3) [of y] st64_outside [of "dtb_sym L" y "mem s" "gpr h 11"] ok e
    by (fastforce simp: boot_area_def layout_ok_def m0_def d)
  ultimately show ?thesis using m(1,2) by (auto simp: start_clear_def set_reg_def m0_def)
qed

text \<open>The hart as the reset code leaves it.\<close>

definition configured :: "layout \<Rightarrow> start_hart \<Rightarrow> bool" where
  "configured L h \<longleftrightarrow> mode h = PRV_S \<and> pc h = kernel_entry_pc L \<and> mtvec h = mtrap_vector_pc L \<and>
     mscratch h = m_stack_top L \<and> mcounteren h = - 1 \<and> pmpaddr0 h = - 1 \<and> pmpcfg0 h = 0x8f \<and>
     medeleg h = 0xfdff \<and> mideleg h = 0x222"

lemma mpp_supervisor: "mpp (csr_set (csr_clear r 0x1800) 0x800) = PRV_S"
proof -
  have "csr_set (csr_clear r 0x1800) 0x800 AND MPP_MASK = 0x800"
    by (simp add: csr_set_def csr_clear_def MPP_MASK_def bit.conj_disj_distrib2 and.assoc)
  then show ?thesis by (simp add: mpp_def)
qed

lemma mret_simps:
  "mode (mret h) = mpp (mstatus h)" "pc (mret h) = mepc h" "mtvec (mret h) = mtvec h" "mscratch (mret h) = mscratch h"
  "mcounteren (mret h) = mcounteren h" "pmpaddr0 (mret h) = pmpaddr0 h" "pmpcfg0 (mret h) = pmpcfg0 h"
  "medeleg (mret h) = medeleg h" "mideleg (mret h) = mideleg h"
  by (simp_all add: mret_def Let_def)

lemma drop_to_kernel_configured:
  "drop_to_kernel L (h, s) = (h', s') \<Longrightarrow> configured L h' \<and> s' = s\<lparr>mie := 0\<rparr>"
  by (auto simp: drop_to_kernel_def configured_def mret_simps mpp_supervisor set_reg_def Let_def)

lemma mie_alloc:
  fixes s :: "'a alloc_scheme"
  shows "alloc_inv (s\<lparr>mie := x\<rparr>) = alloc_inv s" "free_pages (s\<lparr>mie := x\<rparr>) = free_pages s"
  by (simp_all add: alloc_inv_def free_pages_def pages_ok_def heap_ok_def page_ok_def)

lemma relocate_cleared:
  assumes ok: "layout_ok L" and bss: "\<And>y. unat (sbss L) \<le> unat y \<Longrightarrow> unat y < unat (ebss L) \<Longrightarrow> mem s y = 0"
  obtains s' hs he m l c where
    "relocate_kernel (heap_sym L) (stack_limit L) (boot_pt L) s = Some (Inr s')"
    "s' = s\<lparr>heap_start := hs, heap_end := he, mem := m, free_list := l, free_page_count := c, satp := satp_value (boot_pt L)\<rparr>"
    "\<forall>va. sv39 (mem s') (boot_pt L) va = kernel_space va" "alloc_inv s'"
    "(heap_last (heap_sym L) (stack_limit L) - heap_first (heap_sym L)) div 4096 \<le> card (free_pages s') + 2"
    "\<forall>p\<in>free_pages s'. heap_first (heap_sym L) \<le> unat p \<and> unat p + 4096 \<le> heap_last (heap_sym L) (stack_limit L)"
    "\<forall>y. mem s' y \<noteq> mem s y \<longrightarrow> in_rng (boot_pt L) 4096 y \<or>
       heap_first (heap_sym L) \<le> unat y \<and> unat y < heap_last (heap_sym L) (stack_limit L)"
proof -
  have x: "heap_syms_ok (heap_sym L) (stack_limit L)"
    "heap_first (heap_sym L) + 2 * 4096 \<le> heap_last (heap_sym L) (stack_limit L)" "aligned 12 (boot_pt L)"
    "unat (boot_pt L) < heap_first (heap_sym L) \<or> heap_last (heap_sym L) (stack_limit L) \<le> unat (boot_pt L)"
    using ok by (auto simp: layout_ok_def)
  show ?thesis
  proof (rule exE [OF relocate_kernel_maps [OF x]])
    show "mem s y = 0" if "in_rng (boot_pt L) 4096 y" for y
      using that ok by (intro bss) (auto simp: layout_ranges(2) [OF ok] layout_ok_def)
  qed (elim conjE exE, rule that)
qed

lemma start_effect:
  assumes ok: "layout_ok L"
  defines "k \<equiv> (heap_last (heap_sym L) (stack_limit L) - heap_first (heap_sym L)) div 4096"
  shows "\<exists>h' s'. start L clobber (h, s) = Some (Inr (h', s')) \<and> configured L h' \<and>
    (\<exists>hs he m l c. s' = (clear_globals s)\<lparr>heap_start := hs, heap_end := he, mem := m, free_list := l,
       free_page_count := c, satp := satp_value (boot_pt L), mie := 0\<rparr>) \<and>
    (\<forall>va. sv39 (mem s') (boot_pt L) va = kernel_space va) \<and> alloc_inv s' \<and> k \<le> card (free_pages s') + 2 \<and>
    (\<forall>p\<in>free_pages s'. heap_first (heap_sym L) \<le> unat p \<and> unat p + 4096 \<le> heap_last (heap_sym L) (stack_limit L)) \<and>
    ld64 (mem s') (dtb_sym L) = gpr h 11 \<and> (\<forall>y. mem s' y \<noteq> mem s y \<longrightarrow> boot_area L y) \<and>
    (\<forall>y. unat (sbss L) \<le> unat y \<and> unat y < unat (ebss L) \<and> \<not> in_rng (boot_pt L) 4096 y \<longrightarrow> mem s' y = 0)"
proof -
  obtain g m where c: "start_clear L (h, s) = Some (h\<lparr>gpr := g\<rparr>, clear_globals (s\<lparr>mem := m\<rparr>))"
    "ld64 m (dtb_sym L) = gpr h 11" "\<And>y. unat (sbss L) \<le> unat y \<Longrightarrow> unat y < unat (ebss L) \<Longrightarrow> m y = 0"
    "\<And>y. m y \<noteq> mem s y \<Longrightarrow> boot_area L y"
    using start_clear_effect [OF ok, of h s] by blast
  define s1 where "s1 = clear_globals (s\<lparr>mem := m\<rparr>)"
  have m1: "mem s1 = m" by (simp add: s1_def clear_globals_def)
  obtain s2 hs he m2 l c2 where s2: "relocate_kernel (heap_sym L) (stack_limit L) (boot_pt L) s1 = Some (Inr s2)"
    "s2 = s1\<lparr>heap_start := hs, heap_end := he, mem := m2, free_list := l, free_page_count := c2, satp := satp_value (boot_pt L)\<rparr>"
    "\<forall>va. sv39 (mem s2) (boot_pt L) va = kernel_space va" "alloc_inv s2" "k \<le> card (free_pages s2) + 2"
    "\<forall>p\<in>free_pages s2. heap_first (heap_sym L) \<le> unat p \<and> unat p + 4096 \<le> heap_last (heap_sym L) (stack_limit L)"
    and w: "\<And>y. mem s2 y \<noteq> m y \<Longrightarrow> in_rng (boot_pt L) 4096 y \<or>
       heap_first (heap_sym L) \<le> unat y \<and> unat y < heap_last (heap_sym L) (stack_limit L)"
    by (rule relocate_cleared [OF ok, of s1]) (use c(3) m1 k_def in auto)
  obtain h' where h': "drop_to_kernel L (h\<lparr>gpr := clobber g\<rparr>, s2) = (h', s2\<lparr>mie := 0\<rparr>)" "configured L h'"
    using drop_to_kernel_configured [of L "h\<lparr>gpr := clobber g\<rparr>" s2] by (metis surj_pair)
  have "ld64 (mem s2) (dtb_sym L) = ld64 m (dtb_sym L)"
    using w ok by (intro ld64_cong) (fastforce simp: layout_ranges(2,3) [OF ok] layout_ok_def)
  moreover have "boot_area L y" if "mem s2 y \<noteq> mem s y" for y
    using that w [of y] c(4) [of y] ok by (fastforce simp: boot_area_def layout_ok_def layout_ranges(2) [OF ok])
  moreover have "mem s2 y = 0" if "unat (sbss L) \<le> unat y" "unat y < unat (ebss L)" "\<not> in_rng (boot_pt L) 4096 y" for y
    using that w [of y] c(3) [of y] ok by (fastforce simp: layout_ok_def)
  moreover have "\<exists>hs he m l c. s2\<lparr>mie := 0\<rparr> = (clear_globals s)\<lparr>heap_start := hs, heap_end := he, mem := m, free_list := l,
       free_page_count := c, satp := satp_value (boot_pt L), mie := 0\<rparr>"
    unfolding s2(2) s1_def clear_globals_def by (simp, blast)
  moreover have "start L clobber (h, s) = Some (Inr (h', s2\<lparr>mie := 0\<rparr>))"
    unfolding start_def c(1) by (simp add: s1_def [symmetric] s2(1) h'(1))
  ultimately show ?thesis using h'(2) s2(3-6) c(2)
    by (intro exI [of _ h'] exI [of _ "s2\<lparr>mie := 0\<rparr>"]) (simp add: mie_alloc)
qed

lemma start_configured:
  assumes "start L clobber (h, s) = Some (Inr (h', s'))"
  shows "configured L h'"
proof -
  obtain h1 s1 where c: "start_clear L (h, s) = Some (h1, s1)" using assms by (auto simp: start_def bind_eq_Some_conv)
  obtain x where x: "relocate_kernel (heap_sym L) (stack_limit L) (boot_pt L) s1 = Some x"
    using assms by (cases "relocate_kernel (heap_sym L) (stack_limit L) (boot_pt L) s1") (auto simp: start_def c rbind_def)
  obtain s2 where "drop_to_kernel L (h1\<lparr>gpr := clobber (gpr h1)\<rparr>, s2) = (h', s')"
    using assms by (cases x) (auto simp: start_def c x rbind_def)
  then show ?thesis using drop_to_kernel_configured by blast
qed

text \<open>The device tree survives: neither the reset code nor \<open>mem_init\<close> writes outside \<open>boot_area\<close>.\<close>

lemma mem_init_boot_area:
  assumes inv: "alloc_inv s" and pages: "3 \<le> card (free_pages s)" and ok: "layout_ok L"
    and heap: "\<forall>p\<in>free_pages s. heap_first (heap_sym L) \<le> unat p \<and> unat p + 4096 \<le> heap_last (heap_sym L) (stack_limit L)"
  obtains s1 where "mem_init s = Some (Inr (0, s1))" "ld64 (mem s1) (dtb_sym L) = ld64 (mem s) (dtb_sym L)"
    "\<And>y. mem s1 y \<noteq> mem s y \<Longrightarrow> boot_area L y"
proof -
  obtain s1 where s1: "mem_init s = Some (Inr (0, s1))" "\<And>y. mem s1 y \<noteq> mem s y \<Longrightarrow> covered (free_pages s) y"
    using mem_init_maps [OF inv pages] by blast
  have in_heap: "heap_first (heap_sym L) \<le> unat y \<and> unat y < heap_last (heap_sym L) (stack_limit L)"
    if changed: "mem s1 y \<noteq> mem s y" for y
  proof -
    obtain p where p: "p \<in> free_pages s" "in_rng p 4096 y" using s1(2) [OF changed] by (auto simp: covered_def)
    then have "unat p + 4096 \<le> 2 ^ 64" using heap layout_ranges(1) [OF ok] by fastforce
    then show ?thesis using p heap in_rng_iff [of p 4096 y] by fastforce
  qed
  have "ld64 (mem s1) (dtb_sym L) = ld64 (mem s) (dtb_sym L)"
    using in_heap ok by (intro ld64_cong) (fastforce simp: layout_ranges(3) [OF ok] layout_ok_def)
  moreover have "boot_area L y" if "mem s1 y \<noteq> mem s y" for y
    using in_heap [OF that] ok by (auto simp: boot_area_def layout_ok_def)
  ultimately show ?thesis using s1(1) that by blast
qed

text \<open>What \<open>main\<close> is called with.\<close>

lemma entry_state:
  fixes s :: "'a net_scheme"
  assumes ok: "layout_ok L" and room: "heap_first (heap_sym L) + 7 * 4096 \<le> heap_last (heap_sym L) (stack_limit L)"
    and fdt: "fdt_at (mem s) (gpr h 11) off ts" and away: "\<And>y. in_fdt (gpr h 11) off ts y \<Longrightarrow> \<not> boot_area L y"
  obtains h' s' s1 calls where "start L clobber (h, s) = Some (Inr (h', s'))" "configured L h'" "alloc_inv s'"
    "5 \<le> card (free_pages s')" "length (procs s') = NPROC" "pair_ok s'"
    "uart_in s' = uart_in s" "mmio_in s' = mmio_in s" "mmio_wr s' = mmio_wr s" "dma_in s' = dma_in s"
    "\<And>p. p \<in> free_pages s' \<Longrightarrow> heap_first (heap_sym L) \<le> unat p \<and> unat p + 4096 \<le> heap_last (heap_sym L) (stack_limit L)"
    "mem_init s' = Some (Inr (0, s1))"
    "fdt_traverse (mem s1) (ld64 (mem s1) (dtb_sym (image.truncate L)))
       (dtb_callback (lit_ns16550a (image.truncate L)) (lit_virtio_mmio (image.truncate L)) (mem s1)) = Some calls"
proof -
  obtain h' s' hs he m l c where st: "start L clobber (h, s) = Some (Inr (h', s'))" "configured L h'"
    and s': "s' = (clear_globals s)\<lparr>heap_start := hs, heap_end := he, mem := m, free_list := l,
       free_page_count := c, satp := satp_value (boot_pt L), mie := 0\<rparr>"
    and inv: "alloc_inv s'" and cd: "(heap_last (heap_sym L) (stack_limit L) - heap_first (heap_sym L)) div 4096 \<le> card (free_pages s') + 2"
    and heap: "\<forall>p\<in>free_pages s'. heap_first (heap_sym L) \<le> unat p \<and> unat p + 4096 \<le> heap_last (heap_sym L) (stack_limit L)"
    and dtb: "ld64 (mem s') (dtb_sym L) = gpr h 11" and fr: "\<And>y. mem s' y \<noteq> mem s y \<Longrightarrow> boot_area L y"
    using start_effect [OF ok, of clobber h s] by (elim exE conjE) (rule that, assumption+, blast+)
  have env: "length (procs s') = NPROC" "pair_ok s'"
    "uart_in s' = uart_in s" "mmio_in s' = mmio_in s" "mmio_wr s' = mmio_wr s" "dma_in s' = dma_in s"
    by (simp_all add: s' clear_globals_def pair_ok_def VIRTIO_NET_QUEUE_COUNT_def empty_queue_def)
  have "7 \<le> (heap_last (heap_sym L) (stack_limit L) - heap_first (heap_sym L)) div 4096"
    using room by (simp add: less_eq_div_iff_mult_less_eq)
  with cd have pages: "5 \<le> card (free_pages s')" "3 \<le> card (free_pages s')" by simp_all
  obtain s1 where s1: "mem_init s' = Some (Inr (0, s1))" "ld64 (mem s1) (dtb_sym L) = gpr h 11"
    "\<And>y. mem s1 y \<noteq> mem s' y \<Longrightarrow> boot_area L y"
    using mem_init_boot_area [OF inv pages(2) ok heap] dtb by metis
  have "fdt_at (mem s1) (gpr h 11) off ts" using fr s1(3) away by (intro fdt_at_cong [OF fdt]) metis
  from fdt_at_traverse [OF this] have "fdt_traverse (mem s1) (ld64 (mem s1) (dtb_sym (image.truncate L))) cb =
      Some (fdt_calls cb (gpr h 11 + ucast off) 0 ts)" for cb
    by (simp add: s1(2) image.defs)
  from that [OF st inv pages(1) env _ s1(1) this] heap show ?thesis by blast
qed

lemma entry_effect:
  fixes s :: "'a net_scheme"
  assumes ok: "layout_ok L" and room: "heap_first (heap_sym L) + 7 * 4096 \<le> heap_last (heap_sym L) (stack_limit L)"
    and live: "uart_live s" and none: "no_net_device s"
    and fdt: "fdt_at (mem s) (gpr h 11) off ts" and away: "\<And>y. in_fdt (gpr h 11) off ts y \<Longrightarrow> \<not> boot_area L y"
  shows "\<exists>h' s' t. start L clobber (h, s) = Some (Inr (h', s')) \<and> configured L h' \<and>
    main_boot (image.truncate L) s' = Some (Inr (True, t)) \<and> sched_inv (kcode L) (L_scan 0 False, t) \<and>
    tasks_made (image.truncate L) t \<and> stvec t = trap_vector_pc L \<and> sie_on t \<and> bit (mie t) 5 \<and> bit (mie t) 7"
proof (rule entry_state [OF ok room fdt away, of clobber])
  fix h' :: start_hart and s' s1 :: "'a net_scheme" and calls
  assume e: "start L clobber (h, s) = Some (Inr (h', s'))" "configured L h'" "alloc_inv s'" "5 \<le> card (free_pages s')"
    "length (procs s') = NPROC" "uart_in s' = uart_in s" "mmio_in s' = mmio_in s" "mem_init s' = Some (Inr (0, s1))"
    "fdt_traverse (mem s1) (ld64 (mem s1) (dtb_sym (image.truncate L)))
       (dtb_callback (lit_ns16550a (image.truncate L)) (lit_virtio_mmio (image.truncate L)) (mem s1)) = Some calls"
  have "uart_live s'" "no_net_device s'" "3 \<le> card (free_pages s')"
    using live none e(4,6,7) by (simp_all add: uart_live_def no_net_device_def)
  from main_boot_effect [OF e(3) this(3,1) e(5) this(2) e(8,9)] e(1,2,4) show ?thesis by (auto simp: image.defs)
qed

text \<open>The same with a network card, whose outcomes are those of \<open>main_with_card\<close>. The place for the MAC
  address is outside the heap.\<close>

lemma entry_with_card:
  fixes s :: "'a net_scheme"
  assumes ok: "layout_ok L" and room: "heap_first (heap_sym L) + 7 * 4096 \<le> heap_last (heap_sym L) (stack_limit L)"
    and live: "uart_live s" and card: "card_at s k"
    and idle: "\<And>n m. dma_in s (mmio_wr s @ reset_writes (slot_device k)) n m = m"
    and mac: "\<And>i. i < 6 \<Longrightarrow> unat (mac_buf_addr L + of_nat i) < heap_first (heap_sym L) \<or>
      heap_last (heap_sym L) (stack_limit L) \<le> unat (mac_buf_addr L + of_nat i)"
    and fdt: "fdt_at (mem s) (gpr h 11) off ts" and away: "\<And>y. in_fdt (gpr h 11) off ts y \<Longrightarrow> \<not> boot_area L y"
  shows "\<exists>h' s' s1 m. start L clobber (h, s) = Some (Inr (h', s')) \<and> configured L h' \<and> mem_init s' = Some (Inr (0, s1)) \<and>
    main_machine (image.truncate L) s1 = Some m \<and>
    card_outcome (mac_buf_addr L) (slot_device k) m (arrives (image.truncate L) s' s1) (main_boot (image.truncate L) s' = None)"
proof (rule entry_state [OF ok room fdt away, of clobber])
  fix h' :: start_hart and s' s1 :: "'a net_scheme" and calls
  assume e: "start L clobber (h, s) = Some (Inr (h', s'))" "configured L h'" "alloc_inv s'" "5 \<le> card (free_pages s')"
    "length (procs s') = NPROC" "pair_ok s'"
    "uart_in s' = uart_in s" "mmio_in s' = mmio_in s" "mmio_wr s' = mmio_wr s" "dma_in s' = dma_in s"
    "\<And>p. p \<in> free_pages s' \<Longrightarrow> heap_first (heap_sym L) \<le> unat p \<and> unat p + 4096 \<le> heap_last (heap_sym L) (stack_limit L)"
    "mem_init s' = Some (Inr (0, s1))"
    "fdt_traverse (mem s1) (ld64 (mem s1) (dtb_sym (image.truncate L)))
       (dtb_callback (lit_ns16550a (image.truncate L)) (lit_virtio_mmio (image.truncate L)) (mem s1)) = Some calls"
  have env: "3 \<le> card (free_pages s')" "uart_live s'" "card_at s' k"
    using live card e(4,7,8) by (simp_all add: uart_live_def card_at_def)
  have i: "dma_in s' (mmio_wr s' @ reset_writes (slot_device k)) n m = m" for n m using idle e(9,10) by simp
  have "\<not> covered (free_pages s') (mac_buf_addr L + of_nat i)" if "i < 6" for i
    using mac [OF that] e(11) layout_ranges(1) [OF ok] unfolding covered_def by (fastforce simp: in_rng_iff)
  then have "\<not> covered (free_pages s') (mac_buf_addr (image.truncate L) + of_nat i)" if "i < 6" for i
    using that by (simp add: image.defs)
  from main_card_effect [OF e(3) env(1,2) e(5,6) env(3) i this e(12,13)] e(1,2,12) show ?thesis by (auto simp: image.defs)
qed

section \<open>The specification: delegation and memory protection\<close>

text \<open>The mode a trap is taken in, by the privileged architecture: delegated traps of a lower mode go to
  supervisor mode.\<close>

definition trap_mode :: "start_hart \<Rightarrow> bool \<Rightarrow> nat \<Rightarrow> priv" where
  "trap_mode h intr code =
     (if mode h \<noteq> PRV_M \<and> bit (if intr then mideleg h else medeleg h) code then PRV_S else PRV_M)"

text \<open>The first protection entry alone: the address modes off, top of range, one word and power of two,
  and the rights to read, write and execute. A supervisor access that no entry covers fails.\<close>

definition pmp_grants :: "start_hart \<Rightarrow> u64 \<Rightarrow> bool" where
  "pmp_grants h a =
     (let cfg = pmpcfg0 h;
          x = take_bit 54 (pmpaddr0 h);
          A = take_bit 2 (drop_bit 3 cfg);
          low = x XOR (x + 1);
          covers = (if A = 0 then False
                    else if A = 1 then a < push_bit 2 x
                    else if A = 2 then drop_bit 2 a = x
                    else drop_bit 2 a AND NOT low = x AND NOT low)
      in covers \<and> bit cfg 0 \<and> bit cfg 1 \<and> bit cfg 2)"

lemma deleg_bits:
  "c < 16 \<Longrightarrow> bit (0xfdff :: u64) c \<longleftrightarrow> c \<noteq> 9" "c < 64 \<Longrightarrow> bit (0x222 :: u64) c \<longleftrightarrow> c \<in> {1, 5, 9}"
proof -
  have "\<forall>c\<in>set [0..<16]. bit (0xfdff :: u64) c \<longleftrightarrow> c \<noteq> 9" "\<forall>c\<in>set [0..<64]. bit (0x222 :: u64) c \<longleftrightarrow> c \<in> {1, 5, 9}"
    by code_simp+
  then show "c < 16 \<Longrightarrow> bit (0xfdff :: u64) c \<longleftrightarrow> c \<noteq> 9" "c < 64 \<Longrightarrow> bit (0x222 :: u64) c \<longleftrightarrow> c \<in> {1, 5, 9}" by simp_all
qed

lemma pmp_grants_configured: "configured L h \<Longrightarrow> pmp_grants h a \<longleftrightarrow> unat a < 2 ^ 56 - 4"
proof -
  assume c: "configured L h"
  have "take_bit 54 (- 1 :: u64) = 0x3FFFFFFFFFFFFF" by (simp add: take_bit_minus_one_eq_mask mask_eq_exp_minus_1)
  then show ?thesis using c by (simp add: pmp_grants_def configured_def word_less_nat_alt)
qed

section \<open>Properties\<close>

text \<open>
  C17. From reset to the kernel's first instruction. With the layout of the linker script the reset code
  returns from \<open>relocate_kernel\<close> and arrives in supervisor mode at \<^verbatim>\<open>kernel_entry\<close>: the machine-mode vector, its
  stack and the delegation registers are programmed and machine interrupts masked; \<^verbatim>\<open>satp\<close> points at the boot
  table, whose address space is exactly the kernel's; the page allocator's invariant holds and all but two
  pages of the heap are free; every variable and every byte of \<^verbatim>\<open>.bss\<close> except the boot table is zero;
  \<^verbatim>\<open>_dtb_addr\<close> holds what the firmware passed in \<^verbatim>\<open>a1\<close>; nothing outside \<open>boot_area\<close> has changed.
\<close>

theorem start_enters_kernel:
  assumes "layout_ok L"
  shows "\<exists>h' s'. start L clobber (h, s) = Some (Inr (h', s')) \<and> configured L h' \<and>
    (\<exists>hs he m l c. s' = (clear_globals s)\<lparr>heap_start := hs, heap_end := he, mem := m, free_list := l,
       free_page_count := c, satp := satp_value (boot_pt L), mie := 0\<rparr>) \<and>
    (\<forall>va. sv39 (mem s') (boot_pt L) va = kernel_space va) \<and> alloc_inv s' \<and>
    (heap_last (heap_sym L) (stack_limit L) - heap_first (heap_sym L)) div 4096 \<le> card (free_pages s') + 2 \<and>
    ld64 (mem s') (dtb_sym L) = gpr h 11 \<and> (\<forall>y. mem s' y \<noteq> mem s y \<longrightarrow> boot_area L y) \<and>
    (\<forall>y. unat (sbss L) \<le> unat y \<and> unat y < unat (ebss L) \<and> \<not> in_rng (boot_pt L) 4096 y \<longrightarrow> mem s' y = 0)"
  using start_effect [OF assms, of clobber h s] by (elim exE conjE) (intro exI conjI, assumption+)

text \<open>A layout like that of the linker script, with a small image.\<close>

definition demo_layout :: layout where
  "demo_layout = image.extend (demo_image\<lparr>dtb_sym := 0x80001000\<rparr>)
     (layout.fields 0x88000000 0x80001010 0x80003000 0x80003000 0x87FFC000 0x80002000 0x80000200 0x80001008 0x800000A0)"

lemma demo_layout_ok: "layout_ok demo_layout"
  "heap_first (heap_sym demo_layout) = 0x80003000" "heap_last (heap_sym demo_layout) (stack_limit demo_layout) = 0x81003000"
  "dtb_sym demo_layout = 0x80001000" "kcode demo_layout = demo_code"
  by (simp_all add: layout_ok_def demo_layout_def image.defs layout.defs demo_image_def heap_syms_ok_def heap_first_def
      heap_last_def virt_to_phys_def KERNEL_BASE_VA_def BASE_ADDR_def VIRT_OFFSET_def aligned_def)

definition reset_hart :: start_hart where
  "reset_hart = \<lparr>gpr = (\<lambda>i. if i = 11 then 0x87E00000 else 0), pc = 0x80000000, sepc = 0, scause = 0, stval = 0, mcause = 0,
     mepc = 0, mscratch = 0, mode = PRV_M, mstatus = 0, mtvec = 0, mcounteren = 0, medeleg = 0, mideleg = 0, pmpaddr0 = 0,
     pmpcfg0 = 0\<rparr>"

theorem start_enters_kernel_witness:
  "\<exists>h' s'. start demo_layout id (reset_hart, demo_net) = Some (Inr (h', s')) \<and> mode h' = PRV_S \<and>
    pc h' = 0x800000A0 \<and> satp s' = 0x8000000000080002 \<and> ld64 (mem s') 0x80001000 = 0x87E00000"
proof -
  have "satp_value (boot_pt demo_layout) = 0x8000000000080002" "kernel_entry_pc demo_layout = 0x800000A0"
    by (simp_all add: demo_layout_def image.defs layout.defs satp_value_def PGSHIFT_def virt_to_phys_def KERNEL_BASE_VA_def
        BASE_ADDR_def VIRT_OFFSET_def)
  with start_enters_kernel [OF demo_layout_ok(1), of id reset_hart demo_net] show ?thesis
    by (elim exE conjE) (auto simp: configured_def demo_layout_ok reset_hart_def)
qed

text \<open>
  C23. Where traps go once the reset code is done. In supervisor mode every exception with a code below 16 is
  taken by the kernel's own \<^verbatim>\<open>trap_vector\<close> except the call of \<open>set_timer\<close> (9), and of the interrupts exactly the
  three supervisor ones; the rest goes to \<^verbatim>\<open>mtrap_vector\<close>. The protection entry grants supervisor mode every
  physical address but the last word: its mode is top of range, not power of two.
\<close>

theorem start_routes_traps:
  assumes "start L clobber (h, s) = Some (Inr (h', s'))"
  shows "(\<forall>c<16. trap_mode h' False c = (if c = 9 then PRV_M else PRV_S)) \<and>
    (\<forall>c<64. trap_mode h' True c = (if c \<in> {1, 5, 9} then PRV_S else PRV_M)) \<and> mtvec h' = mtrap_vector_pc L \<and>
    (\<forall>a. unat a < 2 ^ 56 \<longrightarrow> (pmp_grants h' a \<longleftrightarrow> unat a < 2 ^ 56 - 4))"
proof -
  note c = start_configured [OF assms]
  show ?thesis
    using c deleg_bits pmp_grants_configured [OF c] by (auto simp: configured_def trap_mode_def)
qed

theorem start_routes_traps_witness:
  "\<exists>h' s'. start demo_layout id (reset_hart, demo_net) = Some (Inr (h', s')) \<and> trap_mode h' False 13 = PRV_S \<and>
    trap_mode h' False 9 = PRV_M \<and> trap_mode h' True 5 = PRV_S \<and> trap_mode h' True 7 = PRV_M"
proof -
  obtain h' s' where r: "start demo_layout id (reset_hart, demo_net) = Some (Inr (h', s'))"
    using start_effect [OF demo_layout_ok(1), of id reset_hart demo_net] by blast
  from start_routes_traps [OF r] r show ?thesis by (intro exI [of _ h'] exI [of _ s']) simp
qed

text \<open>
  C4. The whole boot, from reset to the scheduler. With the linker script's layout, a heap of at least seven
  pages (two for the boot tables, three for the kernel's, two for stacks), a device tree at the address the firmware
  passes that lies outside \<open>boot_area\<close> and a live console, the reset code reaches \<^verbatim>\<open>kernel_entry\<close> in supervisor
  mode with the stack pointer at the top of the stack, and \<open>main\<close> is called. On a machine without a network card
  \<open>main\<close> arrives at the scheduler: its invariant holds, both tasks are runnable, the trap vector is set and timer
  interrupts are on. On a machine with one network card (idle until its queues are set up; the place for the MAC
  address outside the heap) the outcome is that of \<open>card_outcome\<close>: \<open>main\<close> arrives at the scheduler when the queues
  get no memory, when the handshake fails, or when a first frame is received, and waits for that frame for ever
  when none is.
\<close>

theorem reset_reaches_scheduler:
  fixes s :: "'a net_scheme"
  assumes "layout_ok L" "heap_first (heap_sym L) + 7 * 4096 \<le> heap_last (heap_sym L) (stack_limit L)"
    and "uart_live s"
    and "fdt_at (mem s) (gpr h 11) off ts" "\<forall>y. in_fdt (gpr h 11) off ts y \<longrightarrow> \<not> boot_area L y"
  shows "\<exists>h' s' h2 r. start L clobber (h, s) = Some (Inr (h', s')) \<and>
    kernel_entry L (h', s') = (h2, r) \<and> mode h2 = PRV_S \<and> gpr h2 2 = stack_top L \<and>
    (no_net_device s \<longrightarrow>
      (\<exists>t. r = Some (Inr (True, t)) \<and> sched_inv (kcode L) (L_scan 0 False, t) \<and> tasks_made (image.truncate L) t \<and>
        stvec t = trap_vector_pc L \<and> sie_on t \<and> bit (mie t) 5 \<and> bit (mie t) 7)) \<and>
    (\<forall>k. card_at s k \<and> (\<forall>n m. dma_in s (mmio_wr s @ reset_writes (slot_device k)) n m = m) \<and>
        (\<forall>i<6. unat (mac_buf_addr L + of_nat i) < heap_first (heap_sym L) \<or>
          heap_last (heap_sym L) (stack_limit L) \<le> unat (mac_buf_addr L + of_nat i)) \<longrightarrow>
      (\<exists>s1 m. mem_init s' = Some (Inr (0, s1)) \<and> main_machine (image.truncate L) s1 = Some m \<and>
        card_outcome (mac_buf_addr L) (slot_device k) m (arrives (image.truncate L) s' s1) (r = None)))"
proof -
  note away = assms(5) [rule_format]
  obtain h' s' where st: "start L clobber (h, s) = Some (Inr (h', s'))" "configured L h'"
    by (rule entry_state [OF assms(1,2,4) away]) blast+
  have e: "kernel_entry L (h', s') = (set_reg 2 (stack_top L) h', main_boot (image.truncate L) s')"
    "mode (set_reg 2 (stack_top L) h') = PRV_S" "gpr (set_reg 2 (stack_top L) h') 2 = stack_top L"
    using st(2) by (simp_all add: kernel_entry_def set_reg_def configured_def)
  have n: "\<exists>t. main_boot (image.truncate L) s' = Some (Inr (True, t)) \<and> sched_inv (kcode L) (L_scan 0 False, t) \<and>
      tasks_made (image.truncate L) t \<and> stvec t = trap_vector_pc L \<and> sie_on t \<and> bit (mie t) 5 \<and> bit (mie t) 7"
    if "no_net_device s"
    using entry_effect [OF assms(1-3) that assms(4) away, of clobber] st(1) by auto
  have c: "\<exists>s1 m. mem_init s' = Some (Inr (0, s1)) \<and> main_machine (image.truncate L) s1 = Some m \<and>
      card_outcome (mac_buf_addr L) (slot_device k) m (arrives (image.truncate L) s' s1) (main_boot (image.truncate L) s' = None)"
    if "card_at s k" "\<forall>n m. dma_in s (mmio_wr s @ reset_writes (slot_device k)) n m = m"
      "\<forall>i<6. unat (mac_buf_addr L + of_nat i) < heap_first (heap_sym L) \<or>
        heap_last (heap_sym L) (stack_limit L) \<le> unat (mac_buf_addr L + of_nat i)" for k
    using entry_with_card [OF assms(1-3) that(1) _ _ assms(4) away, of clobber] that(2,3) st(1) by auto
  show ?thesis by (intro exI conjI, rule st(1), rule e(1), rule e(2), rule e(3)) (use n c in blast)+
qed

definition demo_reset :: net where
  "demo_reset = demo_net\<lparr>mem := mem_of 0x87E00000 (fdt_blob one_node)\<rparr>"

lemma demo_reset_fdt: "fdt_at (mem demo_reset) 0x87E00000 40 one_node" "length (fdt_encode one_node) = 52"
proof -
  show len: "length (fdt_encode one_node) = 52" by (simp add: fdt_encode_def one_node_def pad4_def)
  then have "holds (mem demo_reset) 0x87E00000 (fdt_blob one_node)"
    unfolding demo_reset_def by (simp add: fdt_blob_def holds_mem_of)
  moreover have "tokens_ok one_node" by (simp add: one_node_def name_ok_def is_hex_def hex_val_def lit_Cons)
  ultimately show "fdt_at (mem demo_reset) 0x87E00000 40 one_node"
    using holds_blob [of "mem demo_reset" "0x87E00000" one_node] len by (simp add: fdt_at_def)
qed

theorem reset_reaches_scheduler_witness:
  "\<exists>h' s' h2 t. start demo_layout id (reset_hart, demo_reset) = Some (Inr (h', s')) \<and>
    kernel_entry demo_layout (h', s') = (h2, Some (Inr (True, t))) \<and> mode h2 = PRV_S \<and> sched_inv demo_code (L_scan 0 False, t)"
proof -
  have env: "uart_live demo_reset" "no_net_device demo_reset"
    using demo_net_facts(2) demo_boot_facts(4) by (simp_all add: demo_reset_def uart_live_def no_net_device_def)
  have a1: "gpr reset_hart 11 = 0x87E00000" by (simp add: reset_hart_def)
  have "\<not> boot_area demo_layout y" if "in_fdt 0x87E00000 40 one_node y" for y
    using that by (auto simp: in_fdt_def boot_area_def demo_reset_fdt(2) demo_layout_ok in_rng_iff)
  then show ?thesis
    using reset_reaches_scheduler [OF demo_layout_ok(1) _ env(1), of reset_hart 40 one_node id] demo_reset_fdt(1) env(2)
    unfolding a1 demo_layout_ok(2,3,5) by fastforce
qed

end
