(* ===== verification/Struct_Layout.thy ===== *)
theory Struct_Layout
  imports Dtb Trap Virtio_Dev Virtq_Init
begin

text \<open>
  The C structures of the program and where the compiler puts their members. A type is described as
  data (\<open>ctype\<close>); \<open>size_of\<close>, \<open>align_exp\<close> and \<open>field_at\<close> follow the layout rules of the RISC-V LP64 ABI: members in the
  order of their declaration, each at the next multiple of its alignment, the size rounded up to the
  alignment of the structure, no padding where a structure is declared \<^verbatim>\<open>packed\<close>.

  Every structure of \<^verbatim>\<open>src/include\<close> and \<^verbatim>\<open>src/src/driver/virt_mmio.c\<close> is declared as in the source. The other
  theories access memory at offsets written as numbers; here these are the offsets of the members. The
  generic lemmas give that members are aligned, stay inside their structure and do not overlap.
\<close>

declare lit_Cons [simp del]

section \<open>Types and their layout\<close>

text \<open>\<open>UInt k\<close> is a scalar of \<open>2 ^ k\<close> bytes; a structure is packed or not.\<close>

datatype ctype = UInt nat | Arr ctype nat | Struct bool "(string \<times> ctype) list"

abbreviation U8 :: ctype where "U8 \<equiv> UInt 0"
abbreviation U16 :: ctype where "U16 \<equiv> UInt 1"
abbreviation U32 :: ctype where "U32 \<equiv> UInt 2"
abbreviation U64 :: ctype where "U64 \<equiv> UInt 3"
abbreviation Ptr :: ctype where "Ptr \<equiv> UInt 3"

fun align_exp :: "ctype \<Rightarrow> nat" and aligns_exp :: "(string \<times> ctype) list \<Rightarrow> nat" where
  "align_exp (UInt k) = k"
| "align_exp (Arr t n) = align_exp t"
| "align_exp (Struct packed fs) = (if packed then 0 else aligns_exp fs)"
| "aligns_exp [] = 0"
| "aligns_exp ((f, t) # fs) = max (align_exp t) (aligns_exp fs)"

definition pad_up :: "nat \<Rightarrow> nat \<Rightarrow> nat" where
  "pad_up e k = (k + 2 ^ e - 1) div 2 ^ e * 2 ^ e"

definition place :: "bool \<Rightarrow> nat \<Rightarrow> nat \<Rightarrow> nat" where
  "place packed k e = (if packed then k else pad_up e k)"

fun size_of :: "ctype \<Rightarrow> nat" and fields_end :: "bool \<Rightarrow> nat \<Rightarrow> (string \<times> ctype) list \<Rightarrow> nat" where
  "size_of (UInt k) = 2 ^ k"
| "size_of (Arr t n) = n * size_of t"
| "size_of (Struct packed fs) =
     pad_up (if packed then 0 else aligns_exp fs) (fields_end packed 0 fs)"
| "fields_end packed k [] = k"
| "fields_end packed k ((f, t) # fs) = fields_end packed (place packed k (align_exp t) + size_of t) fs"

fun find_field :: "bool \<Rightarrow> nat \<Rightarrow> string \<Rightarrow> (string \<times> ctype) list \<Rightarrow> (nat \<times> ctype) option" where
  "find_field packed k f [] = None"
| "find_field packed k f ((g, t) # fs) =
     (let a = place packed k (align_exp t)
      in if f = g then Some (a, t) else find_field packed (a + size_of t) f fs)"

text \<open>A path from an object to a part of it, and the offset and type of the part.\<close>

datatype sel = Fld string | Idx nat

fun field_at :: "ctype \<Rightarrow> sel list \<Rightarrow> nat \<Rightarrow> (nat \<times> ctype) option" where
  "field_at t [] k = Some (k, t)"
| "field_at (Struct packed fs) (Fld f # ss) k =
     (case find_field packed 0 f fs of None \<Rightarrow> None | Some (a, t) \<Rightarrow> field_at t ss (k + a))"
| "field_at (Arr t n) (Idx i # ss) k = (if i < n then field_at t ss (k + i * size_of t) else None)"
| "field_at _ _ _ = None"

text \<open>The address and type of \<^verbatim>\<open>p->path\<close>, and of the structure's end.\<close>

definition member :: "ctype \<Rightarrow> u64 \<Rightarrow> sel list \<Rightarrow> (u64 \<times> ctype) option" where
  "member t p ss = map_option (\<lambda>(k, t'). (p + of_nat k, t')) (field_at t ss 0)"

subsection \<open>Every part is aligned and inside, and different parts do not overlap\<close>

lemma pad_up_ge: "k \<le> pad_up e k"
proof -
  have "(k + 2 ^ e - 1) mod 2 ^ e < (2 :: nat) ^ e" by simp
  moreover have "pad_up e k = (k + 2 ^ e - 1) - (k + 2 ^ e - 1) mod 2 ^ e"
    by (simp add: pad_up_def minus_mod_eq_div_mult)
  ultimately show ?thesis by linarith
qed

lemma pad_up_dvd: "2 ^ e dvd pad_up e k"
  by (simp add: pad_up_def)

lemma pad_up_0 [simp]: "pad_up 0 k = k"
  by (simp add: pad_up_def)

lemma place_ge: "k \<le> place packed k e"
  by (simp add: place_def pad_up_ge)

lemma fields_end_ge: "k \<le> fields_end packed k fs"
proof (induction fs arbitrary: k)
  case (Cons ft fs)
  obtain f t where "ft = (f, t)" by force
  with Cons [of "place packed k (align_exp t) + size_of t"] place_ge [of k packed "align_exp t"]
  show ?case by simp
qed simp

lemma size_aligned: "2 ^ align_exp t dvd size_of t"
  by (induction t) (simp_all add: pad_up_dvd)

lemma find_field_bounds:
  "find_field packed k f fs = Some (a, t) \<Longrightarrow>
     k \<le> a \<and> a + size_of t \<le> fields_end packed k fs \<and>
     (packed \<or> 2 ^ align_exp t dvd a \<and> align_exp t \<le> aligns_exp fs)"
proof (induction fs arbitrary: k)
  case (Cons gu fs)
  obtain g u where gu: "gu = (g, u)" by force
  let ?b = "place packed k (align_exp u)"
  have b: "k \<le> ?b" "?b + size_of u \<le> fields_end packed (?b + size_of u) fs"
    by (rule place_ge, rule fields_end_ge)
  show ?case
  proof (cases "f = g")
    case True
    with Cons.prems b show ?thesis by (auto simp: gu Let_def place_def pad_up_dvd)
  next
    case False
    with Cons.prems have "find_field packed (?b + size_of u) f fs = Some (a, t)" by (simp add: gu Let_def)
    from Cons.IH [OF this] b show ?thesis by (auto simp: gu)
  qed
qed simp

lemma find_field_disjoint:
  "find_field packed k f fs = Some (a, t) \<Longrightarrow> find_field packed k g fs = Some (b, u) \<Longrightarrow> f \<noteq> g \<Longrightarrow>
     a + size_of t \<le> b \<or> b + size_of u \<le> a"
proof (induction fs arbitrary: k)
  case (Cons hv fs)
  obtain h v where hv: "hv = (h, v)" by force
  let ?k = "place packed k (align_exp v) + size_of v"
  consider "f = h" "g \<noteq> h" | "g = h" "f \<noteq> h" | "f \<noteq> h" "g \<noteq> h" using Cons.prems(3) by blast
  then show ?case
  proof cases
    case 1
    with Cons.prems find_field_bounds [of packed ?k g fs b u] show ?thesis by (auto simp: hv Let_def)
  next
    case 2
    with Cons.prems find_field_bounds [of packed ?k f fs a t] show ?thesis by (auto simp: hv Let_def)
  next
    case 3
    with Cons show ?thesis by (simp add: hv Let_def)
  qed
qed simp

lemma field_at_StructE:
  assumes "field_at (Struct packed fs) (s # ss) k = Some x"
  obtains f a t where "s = Fld f" "find_field packed 0 f fs = Some (a, t)" "field_at t ss (k + a) = Some x"
  using assms by (cases s) (auto split: option.splits)

lemma field_at_ArrE:
  assumes "field_at (Arr t n) (s # ss) k = Some x"
  obtains i where "s = Idx i" "i < n" "field_at t ss (k + i * size_of t) = Some x"
  using assms by (cases s) (auto split: if_splits)

lemma field_at_UInt [simp]: "field_at (UInt j) (s # ss) k = None"
  by (cases s) simp_all

lemma struct_end: "fields_end packed 0 fs \<le> size_of (Struct packed fs)"
  by (simp add: pad_up_ge)

lemma slot_bound: "i < n \<Longrightarrow> i * z + z \<le> n * (z :: nat)"
  using mult_le_mono1 [of "Suc i" n z] by simp

lemma field_at_inside:
  "field_at t ss k = Some (a, u) \<Longrightarrow> k \<le> a \<and> a + size_of u \<le> k + size_of t"
proof (induction ss arbitrary: t k)
  case (Cons s ss)
  show ?case
  proof (cases t)
    case (Arr v n)
    with Cons.prems obtain i where "i < n" "field_at v ss (k + i * size_of v) = Some (a, u)"
      by (auto elim: field_at_ArrE)
    with Cons.IH slot_bound [of i n "size_of v"] show ?thesis by (fastforce simp: Arr)
  next
    case (Struct packed fs)
    with Cons.prems obtain f b v where "find_field packed 0 f fs = Some (b, v)" "field_at v ss (k + b) = Some (a, u)"
      by (auto elim: field_at_StructE)
    with Cons.IH find_field_bounds struct_end [of packed fs] show ?thesis unfolding Struct by fastforce
  qed (use Cons.prems in simp)
qed simp

text \<open>Two paths that part at some selector.\<close>

fun apart :: "sel list \<Rightarrow> sel list \<Rightarrow> bool" where
  "apart (s # ss) (r # rs) \<longleftrightarrow> s \<noteq> r \<or> apart ss rs"
| "apart _ _ \<longleftrightarrow> False"

lemma slots_disjoint: "i \<noteq> j \<Longrightarrow> i * z + z \<le> j * z \<or> j * z + z \<le> i * (z :: nat)"
  using slot_bound [of i j z] slot_bound [of j i z] by (cases "i < j") simp_all

lemma field_at_disjoint:
  "apart ss rs \<Longrightarrow> field_at t ss k = Some (a, u) \<Longrightarrow> field_at t rs k = Some (b, v) \<Longrightarrow>
     a + size_of u \<le> b \<or> b + size_of v \<le> a"
proof (induction ss rs arbitrary: t k rule: apart.induct)
  case (1 s ss r rs)
  show ?case
  proof (cases t)
    case (Arr w n)
    from "1.prems"(2) obtain i where i: "s = Idx i" "field_at w ss (k + i * size_of w) = Some (a, u)"
      unfolding Arr by (rule field_at_ArrE)
    from "1.prems"(3) obtain j where j: "r = Idx j" "field_at w rs (k + j * size_of w) = Some (b, v)"
      unfolding Arr by (rule field_at_ArrE)
    note ij = i(1) j(1) i(2) j(2)
    show ?thesis
    proof (cases "i = j")
      case True
      with 1 ij show ?thesis by auto
    next
      case False
      with slots_disjoint [of i j "size_of w"] field_at_inside [OF ij(3)] field_at_inside [OF ij(4)]
      show ?thesis by linarith
    qed
  next
    case (Struct packed fs)
    from "1.prems"(2) obtain f c w where f: "s = Fld f" "find_field packed 0 f fs = Some (c, w)"
      "field_at w ss (k + c) = Some (a, u)" unfolding Struct by (rule field_at_StructE)
    from "1.prems"(3) obtain g d x where g: "r = Fld g" "find_field packed 0 g fs = Some (d, x)"
      "field_at x rs (k + d) = Some (b, v)" unfolding Struct by (rule field_at_StructE)
    note fg = f(1) g(1) f(2) g(2) f(3) g(3)
    show ?thesis
    proof (cases "f = g")
      case True
      with 1 fg show ?thesis by auto
    next
      case False
      with find_field_disjoint [OF fg(3,4)] field_at_inside [OF fg(5)] field_at_inside [OF fg(6)]
      show ?thesis by linarith
    qed
  qed (use "1.prems" in simp)
qed simp_all

text \<open>Alignment, for types that hold no packed structure.\<close>

fun natural :: "ctype \<Rightarrow> bool" and naturals :: "(string \<times> ctype) list \<Rightarrow> bool" where
  "natural (UInt k) \<longleftrightarrow> True"
| "natural (Arr t n) \<longleftrightarrow> natural t"
| "natural (Struct packed fs) \<longleftrightarrow> \<not> packed \<and> naturals fs"
| "naturals [] \<longleftrightarrow> True"
| "naturals ((f, t) # fs) \<longleftrightarrow> natural t \<and> naturals fs"

lemma find_field_natural: "find_field packed k f fs = Some (a, t) \<Longrightarrow> naturals fs \<Longrightarrow> natural t"
  by (induction packed k f fs rule: find_field.induct) (auto simp: Let_def split: if_splits)

lemma field_at_aligned:
  "field_at t ss k = Some (a, u) \<Longrightarrow> natural t \<Longrightarrow> 2 ^ align_exp t dvd k \<Longrightarrow> 2 ^ align_exp u dvd a"
proof (induction ss arbitrary: t k)
  case (Cons s ss)
  show ?case
  proof (cases t)
    case (Arr v n)
    with Cons.prems obtain i where "field_at v ss (k + i * size_of v) = Some (a, u)"
      by (auto elim: field_at_ArrE)
    with Cons.IH Cons.prems size_aligned [of v] show ?thesis by (simp add: Arr)
  next
    case (Struct packed fs)
    with Cons.prems obtain f b v where f: "find_field packed 0 f fs = Some (b, v)" "field_at v ss (k + b) = Some (a, u)"
      and n: "\<not> packed" "naturals fs"
      by (auto elim: field_at_StructE)
    from find_field_bounds [OF f(1)] n have v: "2 ^ align_exp v dvd b" "align_exp v \<le> aligns_exp fs" by auto
    then have "2 ^ align_exp v dvd k"
      using Cons.prems(3) n by (simp add: Struct) (meson dvd_trans le_imp_power_dvd)
    with Cons.IH f n v find_field_natural show ?thesis by (meson dvd_add)
  qed (use Cons.prems in simp)
qed simp

lemma field_at_shift:
  "field_at t ss k = Some (a, u) \<Longrightarrow> field_at t ss (j + k) = Some (j + a, u)"
proof (induction t ss k rule: field_at.induct)
  case (2 packed fs f ss k)
  then show ?case by (force simp: add.assoc split: option.splits)
qed (auto simp: add.assoc split: if_splits)

text \<open>The same for addresses: a structure at an aligned address that does not run past the end of the
  address space.\<close>

lemma member_address:
  assumes "member t p ss = Some (a, u)" "unat p + size_of t < 2 ^ 64"
  obtains k where "field_at t ss 0 = Some (k, u)" "unat a = unat p + k"
proof -
  from assms(1) obtain k where k: "field_at t ss 0 = Some (k, u)" "a = p + of_nat k"
    by (auto simp: member_def)
  with field_at_inside [OF k(1)] assms(2) have "unat a = unat p + k" by (simp add: unat_offset)
  with k(1) that show ?thesis by blast
qed

lemma member_inside:
  assumes "member t p ss = Some (a, u)" "unat p + size_of t < 2 ^ 64"
  shows "unat p \<le> unat a" "unat a + size_of u \<le> unat p + size_of t"
proof -
  from assms obtain k where k: "field_at t ss 0 = Some (k, u)" "unat a = unat p + k" by (rule member_address)
  from field_at_inside [OF k(1)] k(2) show "unat p \<le> unat a" "unat a + size_of u \<le> unat p + size_of t" by auto
qed

lemma member_aligned:
  assumes "member t p ss = Some (a, u)" "unat p + size_of t < 2 ^ 64" "natural t" "2 ^ align_exp t dvd unat p"
  shows "2 ^ align_exp u dvd unat a"
proof -
  from assms(1,2) obtain k where k: "field_at t ss 0 = Some (k, u)" "unat a = unat p + k" by (rule member_address)
  have "field_at t ss (unat p) = Some (unat p + k, u)" using field_at_shift [OF k(1), of "unat p"] by simp
  from field_at_aligned [OF this assms(3,4)] k(2) show ?thesis by simp
qed

lemma member_apart:
  assumes "member t p ss = Some (a, u)" "member t p rs = Some (b, v)" "apart ss rs" "unat p + size_of t < 2 ^ 64"
  shows "rng_disj a (size_of u) b (size_of v)"
proof -
  from assms(1,4) obtain j where j: "field_at t ss 0 = Some (j, u)" "unat a = unat p + j" by (rule member_address)
  from assms(2,4) obtain k where k: "field_at t rs 0 = Some (k, v)" "unat b = unat p + k" by (rule member_address)
  from field_at_disjoint [OF assms(3) j(1) k(1)] j(2) k(2) member_inside [OF assms(1,4)] member_inside [OF assms(2,4)] assms(4)
  show ?thesis by (intro rng_disjI) auto
qed

section \<open>The structures of the program\<close>

subsection \<open>\<^verbatim>\<open>src/include/driver/virt_mmio.h\<close>\<close>

definition virt_mmio_device_t_struct :: ctype where
  "virt_mmio_device_t_struct = Struct False [
     (''magic'', U32), (''version'', U32), (''device_id'', U32), (''vendor_id'', U32),
     (''host_features'', U32), (''device_features_sel'', U32), (''guest_features'', U32),
     (''guest_features_sel'', U32), (''queue_sel'', U32), (''queue_num_max'', U32),
     (''queue_num'', U32), (''queue_ready'', U32), (''queue_notify'', U32),
     (''interrupt_status'', U32), (''interrupt_ack'', U32), (''status'', U32),
     (''queue_desc_low'', U32), (''queue_desc_high'', U32), (''queue_driver_low'', U32),
     (''queue_driver_high'', U32), (''queue_device_low'', U32),
     (''queue_device_high'', U32), (''config_generation'', U32)]"

definition virt_mmio_device_legacy_struct :: ctype where
  "virt_mmio_device_legacy_struct = Struct False [
     (''magic'', U32), (''version'', U32), (''device_id'', U32), (''vendor_id'', U32),
     (''host_features'', U32), (''host_features_sel'', U32), (''guest_features'', U32),
     (''guest_features_sel'', U32), (''guest_page_size'', U32), (''queue_sel'', U32),
     (''queue_num_max'', U32), (''queue_num'', U32), (''queue_align'', U32),
     (''queue_pfn'', U32), (''queue_notify'', U32), (''interrupt_status'', U32),
     (''interrupt_ack'', U32), (''status'', U32)]"

definition virtq_desc_struct :: ctype where
  "virtq_desc_struct = Struct False [
     (''addr'', U64), (''len'', U32), (''id'', U16), (''flags'', U16)]"

definition virtq_avail_struct :: ctype where
  "virtq_avail_struct = Struct False [
     (''flags'', U16), (''idx'', U16), (''ring'', Arr U16 DESC_QUEUE_SIZE)]"

definition virtq_used_elem_struct :: ctype where
  "virtq_used_elem_struct = Struct False [
     (''id'', U32), (''len'', U32)]"

definition virtq_used_struct :: ctype where
  "virtq_used_struct = Struct False [
     (''flags'', U16), (''idx'', U16),
     (''ring'', Arr virtq_used_elem_struct DESC_QUEUE_SIZE)]"

definition virtq_struct :: ctype where
  "virtq_struct = Struct False [
     (''desc'', Arr virtq_desc_struct DESC_QUEUE_SIZE), (''avail'', virtq_avail_struct),
     (''used'', virtq_used_struct)]"

definition virtio_net_config_struct :: ctype where
  "virtio_net_config_struct = Struct False [
     (''mac'', Arr U8 6), (''status'', U16), (''max_virtqueue_pairs'', U16)]"

definition virt_driver_struct :: ctype where
  "virt_driver_struct = Struct False [
     (''device'', Ptr), (''queues'', Ptr), (''num_queues'', U32), (''init'', Ptr)]"

definition virtio_net_hdr_struct :: ctype where
  "virtio_net_hdr_struct = Struct False [
     (''flags'', U8), (''gso_type'', U8), (''hdr_len'', U16), (''gso_size'', U16),
     (''csum_start'', U16), (''csum_offset'', U16), (''num_buffers'', U16)]"

subsection \<open>\<^verbatim>\<open>src/src/driver/virt_mmio.c\<close>\<close>

definition virtio_net_queue_struct :: ctype where
  "virtio_net_queue_struct = Struct False [
     (''ring'', Ptr), (''buffers'', Ptr), (''size'', U16), (''last_used_idx'', U16),
     (''next_desc'', U16), (''in_use'', Arr U8 DESC_QUEUE_SIZE)]"

definition eth_hdr_struct :: ctype where
  "eth_hdr_struct = Struct True [
     (''dst'', Arr U8 6), (''src'', Arr U8 6), (''type'', U16)]"

definition ipv4_hdr_struct :: ctype where
  "ipv4_hdr_struct = Struct True [
     (''version_ihl'', U8), (''tos'', U8), (''len'', U16), (''id'', U16), (''off'', U16),
     (''ttl'', U8), (''proto'', U8), (''sum'', U16), (''src'', U32), (''dst'', U32)]"

definition arp_hdr_struct :: ctype where
  "arp_hdr_struct = Struct True [
     (''htype'', U16), (''ptype'', U16), (''hlen'', U8), (''plen'', U8), (''oper'', U16),
     (''sha'', Arr U8 6), (''spa'', U32), (''tha'', Arr U8 6), (''tpa'', U32)]"

subsection \<open>\<^verbatim>\<open>src/include/kernel\<close>\<close>

definition free_page_struct :: ctype where
  "free_page_struct = Struct False [
     (''next'', Ptr)]"

definition fdt_header_struct :: ctype where
  "fdt_header_struct = Struct False [
     (''magic'', U32), (''totalsize'', U32), (''off_dt_struct'', U32),
     (''off_dt_strings'', U32), (''off_mem_rsvmap'', U32), (''version'', U32),
     (''last_comp_version'', U32), (''boot_cpuid_phys'', U32), (''size_dt_strings'', U32),
     (''size_dt_struct'', U32)]"

definition fdt_reserve_entry_struct :: ctype where
  "fdt_reserve_entry_struct = Struct False [
     (''address'', U64), (''size'', U64)]"

definition trap_context_struct :: ctype where
  "trap_context_struct = Struct False [
     (''regs'', Arr U64 32), (''sstatus'', U64), (''sepc'', U64), (''scause'', U64),
     (''stval'', U64)]"

definition context_struct :: ctype where
  "context_struct = Struct False [
     (''ra'', U64), (''sp'', U64), (''s0'', U64), (''s1'', U64), (''s2'', U64),
     (''s3'', U64), (''s4'', U64), (''s5'', U64), (''s6'', U64), (''s7'', U64),
     (''s8'', U64), (''s9'', U64), (''s10'', U64), (''s11'', U64)]"

text \<open>An \<^verbatim>\<open>int\<close> and an \<^verbatim>\<open>enum\<close> take four bytes.\<close>

definition process_struct :: ctype where
  "process_struct = Struct False [
     (''pid'', U32), (''state'', U32), (''stack'', Ptr), (''context'', context_struct),
     (''entry'', Ptr), (''name'', Arr U8 16)]"

section \<open>The offsets the model uses are those of the members\<close>

lemmas struct_defs = virt_mmio_device_t_struct_def virt_mmio_device_legacy_struct_def virtq_desc_struct_def
  virtq_avail_struct_def virtq_used_elem_struct_def virtq_used_struct_def virtq_struct_def
  virtio_net_config_struct_def virt_driver_struct_def virtio_net_hdr_struct_def virtio_net_queue_struct_def
  eth_hdr_struct_def ipv4_hdr_struct_def arp_hdr_struct_def free_page_struct_def fdt_header_struct_def
  fdt_reserve_entry_struct_def trap_context_struct_def context_struct_def process_struct_def

lemmas layout_simps = struct_defs place_def pad_up_def member_def Let_def

lemma sizes:
  "size_of virtq_desc_struct = 16" "size_of virtq_avail_struct = 516" "size_of virtq_used_elem_struct = 8"
  "size_of virtq_used_struct = 2052" "size_of virtq_struct = 6664" "size_of virtio_net_hdr_struct = 12"
  "size_of eth_hdr_struct = 14" "size_of arp_hdr_struct = 28" "size_of trap_context_struct = 288"
  "size_of context_struct = 112" "size_of process_struct = 152"
  by (simp_all add: layout_simps DESC_QUEUE_SIZE_def)

lemma aligns:
  "align_exp virtq_desc_struct = 3" "align_exp virtq_avail_struct = 1" "align_exp virtq_used_elem_struct = 2"
  "align_exp virtq_used_struct = 2" "align_exp context_struct = 3" "align_exp process_struct = 3"
  by (simp_all add: layout_simps)

lemma desc_members:
  assumes "i < DESC_QUEUE_SIZE"
  shows "member virtq_struct r [Fld ''desc'', Idx i, Fld ''addr''] = Some (desc_addr r (of_nat i), U64)"
    "member virtq_struct r [Fld ''desc'', Idx i, Fld ''len''] = Some (desc_len r (of_nat i), U32)"
    "member virtq_struct r [Fld ''desc'', Idx i, Fld ''id''] = Some (desc_id r (of_nat i), U16)"
    "member virtq_struct r [Fld ''desc'', Idx i, Fld ''flags''] = Some (desc_flags r (of_nat i), U16)"
  using assms
  by (simp_all add: layout_simps DESC_QUEUE_SIZE_def desc_addr_def desc_len_def desc_id_def desc_flags_def)

lemma avail_members:
  "member virtq_struct r [Fld ''avail''] = Some (avail r, virtq_avail_struct)"
  "member virtq_struct r [Fld ''avail'', Fld ''idx''] = Some (avail_idx r, U16)"
  "i < DESC_QUEUE_SIZE \<Longrightarrow>
     member virtq_struct r [Fld ''avail'', Fld ''ring'', Idx i] = Some (avail_ring r (of_nat i), U16)"
  by (simp_all add: layout_simps DESC_QUEUE_SIZE_def avail_def avail_idx_def avail_ring_def)

lemma used_members:
  "member virtq_struct r [Fld ''used''] = Some (used r, virtq_used_struct)"
  "member virtq_struct r [Fld ''used'', Fld ''idx''] = Some (used_idx r, U16)"
  "i < DESC_QUEUE_SIZE \<Longrightarrow>
     member virtq_struct r [Fld ''used'', Fld ''ring'', Idx i, Fld ''id''] = Some (used_id r (of_nat i), U32)"
  "i < DESC_QUEUE_SIZE \<Longrightarrow>
     member virtq_struct r [Fld ''used'', Fld ''ring'', Idx i, Fld ''len''] = Some (used_len r (of_nat i), U32)"
  by (simp_all add: layout_simps DESC_QUEUE_SIZE_def used_def used_idx_def used_id_def used_len_def)

lemma packet_members:
  "member virtio_net_hdr_struct p [Fld ''flags''] = Some (p + vnet_flags, U8)"
  "member virtio_net_hdr_struct p [Fld ''gso_type''] = Some (p + vnet_gso_type, U8)"
  "member virtio_net_hdr_struct p [Fld ''hdr_len''] = Some (p + vnet_hdr_len, U16)"
  "member virtio_net_hdr_struct p [Fld ''gso_size''] = Some (p + vnet_gso_size, U16)"
  "member virtio_net_hdr_struct p [Fld ''csum_start''] = Some (p + vnet_csum_start, U16)"
  "member virtio_net_hdr_struct p [Fld ''csum_offset''] = Some (p + vnet_csum_offset, U16)"
  "member eth_hdr_struct p [Fld ''dst''] = Some (p + eth_dst, Arr U8 6)"
  "member eth_hdr_struct p [Fld ''src''] = Some (p + eth_src, Arr U8 6)"
  "member eth_hdr_struct p [Fld ''type''] = Some (p + eth_type, U16)"
  "member ipv4_hdr_struct p [Fld ''proto''] = Some (p + ip_proto, U8)"
  "member ipv4_hdr_struct p [Fld ''src''] = Some (p + ip_src, U32)"
  "member ipv4_hdr_struct p [Fld ''dst''] = Some (p + ip_dst, U32)"
  by (simp_all add: layout_simps vnet_flags_def vnet_gso_type_def vnet_hdr_len_def vnet_gso_size_def
      vnet_csum_start_def vnet_csum_offset_def eth_dst_def eth_src_def eth_type_def ip_proto_def ip_src_def ip_dst_def)

lemma arp_members:
  "member arp_hdr_struct p [Fld ''htype''] = Some (p + arp_htype, U16)"
  "member arp_hdr_struct p [Fld ''ptype''] = Some (p + arp_ptype, U16)"
  "member arp_hdr_struct p [Fld ''hlen''] = Some (p + arp_hlen, U8)"
  "member arp_hdr_struct p [Fld ''plen''] = Some (p + arp_plen, U8)"
  "member arp_hdr_struct p [Fld ''oper''] = Some (p + arp_oper, U16)"
  "member arp_hdr_struct p [Fld ''sha''] = Some (p + arp_sha, Arr U8 6)"
  "member arp_hdr_struct p [Fld ''spa''] = Some (p + arp_spa, U32)"
  "member arp_hdr_struct p [Fld ''tha''] = Some (p + arp_tha, Arr U8 6)"
  "member arp_hdr_struct p [Fld ''tpa''] = Some (p + arp_tpa, U32)"
  by (simp_all add: layout_simps arp_htype_def arp_ptype_def arp_hlen_def arp_plen_def arp_oper_def arp_sha_def
      arp_spa_def arp_tha_def arp_tpa_def)

lemma context_members:
  assumes "i < 32"
  shows "map_option (\<lambda>(a, t). ld64 m a) (member trap_context_struct p [Fld ''regs'', Idx i]) = Some (ctx_word m p i)"
    "map_option (\<lambda>(a, t). ld64 m a) (member trap_context_struct p [Fld ''sstatus'']) = Some (ctx_word m p 32)"
    "map_option (\<lambda>(a, t). ld64 m a) (member trap_context_struct p [Fld ''sepc'']) = Some (ctx_word m p 33)"
    "map_option (\<lambda>(a, t). ld64 m a) (member trap_context_struct p [Fld ''scause'']) = Some (ctx_word m p 34)"
    "map_option (\<lambda>(a, t). ld64 m a) (member trap_context_struct p [Fld ''stval'']) = Some (ctx_word m p 35)"
  using assms by (simp_all add: layout_simps ctx_word_def mult.commute)

lemma fdt_members:
  "map_option (\<lambda>(a, t). ld32 m a) (member fdt_header_struct p [Fld ''magic'']) = Some (fdt_magic m p)"
  "map_option (\<lambda>(a, t). ld32 m a) (member fdt_header_struct p [Fld ''off_dt_struct'']) = Some (off_dt_struct m p)"
  "map_option (\<lambda>(a, t). ld32 m a) (member fdt_header_struct p [Fld ''size_dt_struct'']) = Some (size_dt_struct m p)"
  by (simp_all add: layout_simps fdt_magic_def off_dt_struct_def size_dt_struct_def)

lemma natural_virtq: "natural virtq_struct" "align_exp virtq_struct = 3"
  by (simp_all add: layout_simps)

subsection \<open>The stores of the descriptor loop\<close>

text \<open>The value of a scalar member, read with the width of its type.\<close>

definition get_member :: "ctype \<Rightarrow> memory \<Rightarrow> u64 \<Rightarrow> sel list \<Rightarrow> u64 option" where
  "get_member t m p ss = (case member t p ss of Some (a, UInt k) \<Rightarrow> Some (ld_le (2 ^ k) m a) | _ \<Rightarrow> None)"

lemma ld_le_narrow:
  "(ucast (ucast (ld_le 4 m a) :: u32) :: u64) = ld_le 4 m a" "(ucast (ucast (ld_le 2 m a) :: u16) :: u64) = ld_le 2 m a"
  by (auto intro!: bit_eqI simp: bit_simps bit_ld_le simp del: ld_le.simps)

lemma get_members:
  "member t p ss = Some (a, U64) \<Longrightarrow> get_member t m p ss = Some (ld64 m a)"
  "member t p ss = Some (a, U32) \<Longrightarrow> get_member t m p ss = Some (ucast (ld32 m a))"
  "member t p ss = Some (a, U16) \<Longrightarrow> get_member t m p ss = Some (ucast (ld16 m a))"
  by (simp_all add: get_member_def ld64_def ld32_def ld16_def ld_le_narrow del: ld_le.simps)

lemma init_desc_loop_frame:
  assumes "i \<le> 256" "\<forall>k<256. \<not> in_rng (desc_addr r (of_nat k)) 8 x \<and> \<not> in_rng (desc_len r (of_nat k)) 4 x \<and>
    \<not> in_rng (desc_flags r (of_nat k)) 2 x"
  shows "init_desc_loop r b f 256 i m x = m x"
  using assms(1)
proof (induction "256 - i" arbitrary: i m)
  case 0
  then show ?case by (subst init_desc_loop.simps) simp
next
  case (Suc n)
  then have i: "i < 256" by simp
  have "init_desc_loop r b f 256 (Suc i) (st_desc r i (b + of_nat (2048 * i)) 2048 f m) x =
      st_desc r i (b + of_nat (2048 * i)) 2048 f m x"
    by (rule Suc.hyps(1)) (use Suc.hyps(2) i in auto)
  also have "\<dots> = m x" using assms(2) i by (simp add: st_desc_def st16_outside st32_outside st64_outside)
  finally show ?case by (simp add: init_desc_loop_step [OF i])
qed

text \<open>The members a round of the loop assigns.\<close>

definition assigned :: "sel list \<Rightarrow> bool" where
  "assigned ss \<longleftrightarrow> (\<exists>k<DESC_QUEUE_SIZE. \<exists>g\<in>{''addr'', ''len'', ''flags''}. \<not> apart ss [Fld ''desc'', Idx k, Fld g])"

lemma unassigned_kept:
  assumes r: "unat r + size_of virtq_struct < 2 ^ 64" and a: "member virtq_struct r ss = Some (a, u)"
    and "\<not> assigned ss" "in_rng a (size_of u) x"
  shows "init_desc_loop r b f 256 0 m x = m x"
proof (rule init_desc_loop_frame, simp, intro allI impI)
  fix k :: nat
  assume "k < 256"
  then have k: "k < DESC_QUEUE_SIZE" by (simp add: DESC_QUEUE_SIZE_def)
  have ap: "apart ss [Fld ''desc'', Idx k, Fld g]" if "g \<in> {''addr'', ''len'', ''flags''}" for g
    using assms(3) k that by (auto simp: assigned_def)
  have out: "\<not> in_rng c (size_of v) x" if "member virtq_struct r [Fld ''desc'', Idx k, Fld g] = Some (c, v)"
    "g \<in> {''addr'', ''len'', ''flags''}" for c v g
    using member_apart [OF a that(1) ap [OF that(2)] r] assms(4) rng_disjD by blast
  from out [OF desc_members(1) [OF k]] out [OF desc_members(2) [OF k]] out [OF desc_members(4) [OF k]]
  show "\<not> in_rng (desc_addr r (of_nat k)) 8 x \<and> \<not> in_rng (desc_len r (of_nat k)) 4 x \<and> \<not> in_rng (desc_flags r (of_nat k)) 2 x"
    by simp
qed

lemma assigned_members:
  assumes i: "i < DESC_QUEUE_SIZE"
  shows "get_member virtq_struct (init_desc_loop r b f 256 0 m) r [Fld ''desc'', Idx i, Fld ''addr''] = Some (b + of_nat (2048 * i))"
    "get_member virtq_struct (init_desc_loop r b f 256 0 m) r [Fld ''desc'', Idx i, Fld ''len''] = Some 2048"
    "get_member virtq_struct (init_desc_loop r b f 256 0 m) r [Fld ''desc'', Idx i, Fld ''flags''] = Some (ucast f)"
proof -
  have "ld_desc (init_desc_loop r b f 256 0 m) r i = (b + of_nat (2048 * i), 2048, ld16 m (desc_id r (of_nat i)), f)"
    using init_desc_loop_effect [of 0 r b f m] i by (simp add: DESC_QUEUE_SIZE_def)
  then show "get_member virtq_struct (init_desc_loop r b f 256 0 m) r [Fld ''desc'', Idx i, Fld ''addr''] = Some (b + of_nat (2048 * i))"
    "get_member virtq_struct (init_desc_loop r b f 256 0 m) r [Fld ''desc'', Idx i, Fld ''len''] = Some 2048"
    "get_member virtq_struct (init_desc_loop r b f 256 0 m) r [Fld ''desc'', Idx i, Fld ''flags''] = Some (ucast f)"
    by (simp_all add: get_members(1) [OF desc_members(1) [OF i]] get_members(2) [OF desc_members(2) [OF i]]
        get_members(3) [OF desc_members(4) [OF i]] ld_desc_def)
qed

text \<open>
  C33. The rings as C objects. The addresses and access widths that the model uses are those of the members of
  \<^verbatim>\<open>struct virtq\<close> (descriptors, available and used ring), and \<^verbatim>\<open>sizeof\<close> is what the code allocates: 6664 bytes,
  the comments on the members of the structure notwithstanding. In a ring at an address aligned for it, which does not
  run past the end of memory, every member is aligned for its type and inside the ring, and members on
  diverging paths do not overlap. So the loop that initialises the descriptors does what its assignments
  say: read back with its type, each \<^verbatim>\<open>desc[i]\<close> has the address of its buffer, its length and the flags, and
  every member it does not assign, \<^verbatim>\<open>desc[i].id\<close> and both rings included, keeps its bytes.
\<close>

theorem ring_members_typed:
  assumes i: "i < DESC_QUEUE_SIZE" and r: "8 dvd unat r" "unat r + size_of virtq_struct < 2 ^ 64"
  shows "member virtq_struct r [Fld ''desc'', Idx i, Fld ''addr''] = Some (desc_addr r (of_nat i), U64) \<and>
    member virtq_struct r [Fld ''desc'', Idx i, Fld ''len''] = Some (desc_len r (of_nat i), U32) \<and>
    member virtq_struct r [Fld ''desc'', Idx i, Fld ''id''] = Some (desc_id r (of_nat i), U16) \<and>
    member virtq_struct r [Fld ''desc'', Idx i, Fld ''flags''] = Some (desc_flags r (of_nat i), U16) \<and>
    member virtq_struct r [Fld ''avail'', Fld ''idx''] = Some (avail_idx r, U16) \<and>
    member virtq_struct r [Fld ''avail'', Fld ''ring'', Idx i] = Some (avail_ring r (of_nat i), U16) \<and>
    member virtq_struct r [Fld ''used'', Fld ''idx''] = Some (used_idx r, U16) \<and>
    member virtq_struct r [Fld ''used'', Fld ''ring'', Idx i, Fld ''id''] = Some (used_id r (of_nat i), U32) \<and>
    member virtq_struct r [Fld ''used'', Fld ''ring'', Idx i, Fld ''len''] = Some (used_len r (of_nat i), U32) \<and>
    size_of virtq_struct = unat sizeof_virtq \<and> unat sizeof_virtq = 6664 \<and>
    get_member virtq_struct (init_desc_loop r b f (of_nat DESC_QUEUE_SIZE) 0 m) r [Fld ''desc'', Idx i, Fld ''addr''] =
      Some (b + of_nat (2048 * i)) \<and>
    get_member virtq_struct (init_desc_loop r b f (of_nat DESC_QUEUE_SIZE) 0 m) r [Fld ''desc'', Idx i, Fld ''len''] = Some 2048 \<and>
    get_member virtq_struct (init_desc_loop r b f (of_nat DESC_QUEUE_SIZE) 0 m) r [Fld ''desc'', Idx i, Fld ''flags''] = Some (ucast f) \<and>
    (\<forall>ss a u. member virtq_struct r ss = Some (a, u) \<longrightarrow>
       2 ^ align_exp u dvd unat a \<and> unat r \<le> unat a \<and> unat a + size_of u \<le> unat r + unat sizeof_virtq \<and>
       (\<not> assigned ss \<longrightarrow>
         (\<forall>x. in_rng a (size_of u) x \<longrightarrow> init_desc_loop r b f (of_nat DESC_QUEUE_SIZE) 0 m x = m x)) \<and>
       (\<forall>rs c v. member virtq_struct r rs = Some (c, v) \<and> apart ss rs \<longrightarrow>
          rng_disj a (size_of u) c (size_of v)))"
proof -
  have sz: "size_of virtq_struct = unat sizeof_virtq" "unat sizeof_virtq = 6664" by (simp_all add: sizes sizeof_virtq_def)
  have q: "of_nat DESC_QUEUE_SIZE = (256 :: u16)" by (simp add: DESC_QUEUE_SIZE_def)
  have al: "2 ^ align_exp virtq_struct dvd unat r" using r(1) by (simp add: natural_virtq)
  have every: "2 ^ align_exp u dvd unat a \<and> unat r \<le> unat a \<and> unat a + size_of u \<le> unat r + unat sizeof_virtq"
    if "member virtq_struct r ss = Some (a, u)" for ss a u
    using member_aligned [OF that r(2) natural_virtq(1) al] member_inside [OF that r(2)] unfolding sz(1) by blast
  have keep: "init_desc_loop r b f 256 0 m x = m x"
    if "member virtq_struct r ss = Some (a, u)" "\<not> assigned ss" "in_rng a (size_of u) x" for ss a u x
    using unassigned_kept [OF r(2) that] .
  have sep: "rng_disj a (size_of u) c (size_of v)"
    if "member virtq_struct r ss = Some (a, u)" "member virtq_struct r rs = Some (c, v)" "apart ss rs" for ss a u rs c v
    using that member_apart r(2) by blast
  show ?thesis
    unfolding q
    by (intro conjI allI impI, (rule desc_members [OF i] avail_members(2) avail_members(3) [OF i] used_members(2)
          used_members(3) [OF i] used_members(4) [OF i] sz assigned_members [OF i])+) (use every keep sep in blast)+
qed

theorem ring_members_typed_witness:
  "get_member virtq_struct (init_desc_loop 0x80008000 0x80010000 2 256 0 (\<lambda>_. 7)) 0x80008000 [Fld ''desc'', Idx 3, Fld ''addr''] =
     Some 0x80011800 \<and>
   get_member virtq_struct (init_desc_loop 0x80008000 0x80010000 2 256 0 (\<lambda>_. 7)) 0x80008000 [Fld ''desc'', Idx 3, Fld ''flags''] =
     Some 2 \<and>
   init_desc_loop 0x80008000 0x80010000 2 256 0 (\<lambda>_. 7) (avail_idx 0x80008000) = 7"
proof -
  let ?r = "0x80008000 :: u64" and ?m = "init_desc_loop 0x80008000 0x80010000 2 256 0 (\<lambda>_. 7)"
  have h: "3 < DESC_QUEUE_SIZE" "8 dvd unat ?r" "unat ?r + size_of virtq_struct < 2 ^ 64"
    by (simp_all add: DESC_QUEUE_SIZE_def sizes)
  have q: "of_nat DESC_QUEUE_SIZE = (256 :: u16)" by (simp add: DESC_QUEUE_SIZE_def)
  note c = ring_members_typed [OF h, of "0x80010000" 2 "\<lambda>_. 7", unfolded q]
  from c have d: "get_member virtq_struct ?m ?r [Fld ''desc'', Idx 3, Fld ''addr''] = Some 0x80011800"
    "get_member virtq_struct ?m ?r [Fld ''desc'', Idx 3, Fld ''flags''] = Some 2" by (elim conjE, simp)+
  have a: "member virtq_struct ?r [Fld ''avail'', Fld ''idx''] = Some (avail_idx ?r, U16)"
    using c by (elim conjE) assumption
  have "\<not> assigned [Fld ''avail'', Fld ''idx'']" by (simp add: assigned_def)
  moreover have "in_rng (avail_idx ?r) (size_of U16) (avail_idx ?r)" by (simp add: in_rng_def)
  moreover have "\<forall>ss a u. member virtq_struct ?r ss = Some (a, u) \<longrightarrow> \<not> assigned ss \<longrightarrow>
      (\<forall>x. in_rng a (size_of u) x \<longrightarrow> ?m x = 7)"
    using c by (elim conjE) blast
  ultimately have "?m (avail_idx ?r) = 7" using a by blast
  with d show ?thesis by blast
qed

section \<open>The device structures and the registers\<close>

definition VIRTIO_MMIO_GUEST_PAGE_SIZE :: u32 where "VIRTIO_MMIO_GUEST_PAGE_SIZE = 0x028"
definition VIRTIO_MMIO_QUEUE_PFN :: u32 where "VIRTIO_MMIO_QUEUE_PFN = 0x040"
definition VIRTIO_MMIO_QUEUE_ALIGN :: u32 where "VIRTIO_MMIO_QUEUE_ALIGN = 0x03c"
definition VIRTIO_MMIO_INTERRUPT_STATUS :: u32 where "VIRTIO_MMIO_INTERRUPT_STATUS = 0x060"

text \<open>The members of the two device structures, with the offset at which the header defines the register of
  that name.\<close>

definition device_registers :: "(string \<times> u32) list" where
  "device_registers = [(''host_features'', VIRTIO_MMIO_DEVICE_FEATURES),
     (''device_features_sel'', VIRTIO_MMIO_DEVICE_FEATURES_SEL), (''guest_features'', VIRTIO_MMIO_DRIVER_FEATURES),
     (''guest_features_sel'', VIRTIO_MMIO_DRIVER_FEATURES_SEL), (''queue_sel'', VIRTIO_MMIO_QUEUE_SEL),
     (''queue_num_max'', VIRTIO_MMIO_QUEUE_NUM_MAX), (''queue_num'', VIRTIO_MMIO_QUEUE_NUM),
     (''queue_ready'', VIRTIO_MMIO_QUEUE_READY), (''queue_notify'', VIRTIO_MMIO_QUEUE_NOTIFY),
     (''interrupt_status'', VIRTIO_MMIO_INTERRUPT_STATUS), (''status'', VIRTIO_MMIO_STATUS),
     (''queue_desc_low'', VIRTIO_MMIO_QUEUE_DESC_LOW), (''queue_desc_high'', VIRTIO_MMIO_QUEUE_DESC_HIGH),
     (''queue_driver_low'', VIRTIO_MMIO_QUEUE_AVAIL_LOW), (''queue_driver_high'', VIRTIO_MMIO_QUEUE_AVAIL_HIGH),
     (''queue_device_low'', VIRTIO_MMIO_QUEUE_USED_LOW), (''queue_device_high'', VIRTIO_MMIO_QUEUE_USED_HIGH)]"

definition legacy_registers :: "(string \<times> u32) list" where
  "legacy_registers = [(''host_features'', VIRTIO_MMIO_DEVICE_FEATURES),
     (''host_features_sel'', VIRTIO_MMIO_DEVICE_FEATURES_SEL), (''guest_features'', VIRTIO_MMIO_DRIVER_FEATURES),
     (''guest_features_sel'', VIRTIO_MMIO_DRIVER_FEATURES_SEL), (''guest_page_size'', VIRTIO_MMIO_GUEST_PAGE_SIZE),
     (''queue_sel'', VIRTIO_MMIO_QUEUE_SEL), (''queue_num_max'', VIRTIO_MMIO_QUEUE_NUM_MAX),
     (''queue_num'', VIRTIO_MMIO_QUEUE_NUM), (''queue_align'', VIRTIO_MMIO_QUEUE_ALIGN),
     (''queue_pfn'', VIRTIO_MMIO_QUEUE_PFN), (''queue_notify'', VIRTIO_MMIO_QUEUE_NOTIFY),
     (''interrupt_status'', VIRTIO_MMIO_INTERRUPT_STATUS), (''status'', VIRTIO_MMIO_STATUS)]"

lemmas register_defs = VIRTIO_MMIO_DEVICE_FEATURES_def VIRTIO_MMIO_DEVICE_FEATURES_SEL_def
  VIRTIO_MMIO_DRIVER_FEATURES_def VIRTIO_MMIO_DRIVER_FEATURES_SEL_def VIRTIO_MMIO_QUEUE_SEL_def
  VIRTIO_MMIO_QUEUE_NUM_MAX_def VIRTIO_MMIO_QUEUE_NUM_def VIRTIO_MMIO_QUEUE_READY_def
  VIRTIO_MMIO_QUEUE_NOTIFY_def VIRTIO_MMIO_INTERRUPT_STATUS_def VIRTIO_MMIO_STATUS_def
  VIRTIO_MMIO_QUEUE_DESC_LOW_def VIRTIO_MMIO_QUEUE_DESC_HIGH_def VIRTIO_MMIO_QUEUE_AVAIL_LOW_def
  VIRTIO_MMIO_QUEUE_AVAIL_HIGH_def VIRTIO_MMIO_QUEUE_USED_LOW_def VIRTIO_MMIO_QUEUE_USED_HIGH_def
  VIRTIO_MMIO_GUEST_PAGE_SIZE_def VIRTIO_MMIO_QUEUE_PFN_def VIRTIO_MMIO_QUEUE_ALIGN_def

text \<open>The members are declared without the gaps between the registers, so that only the first two stand where
  their registers are: the structures may serve as the type of a device pointer, as in the code, but not to
  access the device.\<close>

theorem device_struct_misses_registers:
  "map fst (filter (\<lambda>(f, off). member virt_mmio_device_t_struct 0 [Fld f] = Some (ucast off, U32)) device_registers) =
     [''host_features'', ''device_features_sel'']"
  "map fst (filter (\<lambda>(f, off). member virt_mmio_device_legacy_struct 0 [Fld f] = Some (ucast off, U32)) legacy_registers) =
     [''host_features'', ''host_features_sel'']"
  by (simp_all add: device_registers_def legacy_registers_def register_defs layout_simps)

end
