(* ===== verification/Switch.thy ===== *)
theory Switch
  imports Struct_Layout
begin

text \<open>
  The instructions of \<^verbatim>\<open>swtch\<close> in \<^verbatim>\<open>src/src/asm/process.S\<close> over the register file and byte memory, and that they
  implement the \<open>swtch\<close> of \<open>Process\<close>, which works on records: the process table and the scheduler's context lie in
  memory as \<^verbatim>\<open>struct process\<close> and \<^verbatim>\<open>struct context\<close> are laid out (\<open>Struct_Layout\<close>).
\<close>

declare lit_Cons [simp del]

section \<open>The code\<close>

text \<open>The double word of the context at which each register is saved: \<^verbatim>\<open>ra\<close>, \<^verbatim>\<open>sp\<close>, \<^verbatim>\<open>s0\<close> to \<^verbatim>\<open>s11\<close>.\<close>

definition swtch_slots :: "(nat \<times> nat) list" where
  "swtch_slots = [(0, 1), (1, 2), (2, 8), (3, 9), (4, 18), (5, 19), (6, 20), (7, 21), (8, 22), (9, 23),
     (10, 24), (11, 25), (12, 26), (13, 27)]"

definition swtch_save :: "hart \<Rightarrow> memory \<Rightarrow> memory" where
  "swtch_save h m = st_words (gpr h 10) (map (\<lambda>(k, x). (k, gpr h x)) swtch_slots) m"

definition swtch_load :: "memory \<Rightarrow> hart \<Rightarrow> hart" where
  "swtch_load m h = fold (\<lambda>(k, x) h. h\<lparr>gpr := (gpr h)(x := ctx_word m (gpr h 11) k)\<rparr>) swtch_slots h"

text \<open>\<^verbatim>\<open>ret\<close> jumps to \<^verbatim>\<open>ra\<close> with the lowest bit cleared.\<close>

definition swtch_code :: "hart \<times> memory \<Rightarrow> hart \<times> memory" where
  "swtch_code = (\<lambda>(h, m).
     let m = swtch_save h m;
         h = swtch_load m h
     in (h\<lparr>pc := gpr h 1 AND NOT 1\<rparr>, m))"

section \<open>Contexts in registers and in memory\<close>

definition context_regs :: "(nat \<Rightarrow> u64) \<Rightarrow> context_t" where
  "context_regs g = \<lparr>reg_ra = g 1, reg_sp = g 2, reg_s0 = g 8, reg_s1 = g 9, reg_s2 = g 18, reg_s3 = g 19,
     reg_s4 = g 20, reg_s5 = g 21, reg_s6 = g 22, reg_s7 = g 23, reg_s8 = g 24, reg_s9 = g 25, reg_s10 = g 26,
     reg_s11 = g 27\<rparr>"

definition ctx_field :: "memory \<Rightarrow> u64 \<Rightarrow> string \<Rightarrow> u64" where
  "ctx_field m a f = ld64 m (fst (the (member context_struct a [Fld f])))"

definition context_at :: "memory \<Rightarrow> u64 \<Rightarrow> context_t" where
  "context_at m a = \<lparr>reg_ra = ctx_field m a ''ra'', reg_sp = ctx_field m a ''sp'', reg_s0 = ctx_field m a ''s0'',
     reg_s1 = ctx_field m a ''s1'', reg_s2 = ctx_field m a ''s2'', reg_s3 = ctx_field m a ''s3'',
     reg_s4 = ctx_field m a ''s4'', reg_s5 = ctx_field m a ''s5'', reg_s6 = ctx_field m a ''s6'',
     reg_s7 = ctx_field m a ''s7'', reg_s8 = ctx_field m a ''s8'', reg_s9 = ctx_field m a ''s9'',
     reg_s10 = ctx_field m a ''s10'', reg_s11 = ctx_field m a ''s11''\<rparr>"

text \<open>The table \<open>procs\<close> at \<open>P\<close> and the scheduler's context at \<open>S\<close>.\<close>

definition procs_table :: ctype where "procs_table = Arr process_struct NPROC"

fun ctx_addr :: "u64 \<Rightarrow> u64 \<Rightarrow> ctx_ref \<Rightarrow> u64" where
  "ctx_addr P S Sched_ctx = S"
| "ctx_addr P S (Proc_ctx i) = fst (the (member procs_table P [Idx i, Fld ''context'']))"

fun ctx_valid :: "ctx_ref \<Rightarrow> bool" where
  "ctx_valid Sched_ctx \<longleftrightarrow> True"
| "ctx_valid (Proc_ctx i) \<longleftrightarrow> i < NPROC"

definition table_placed :: "u64 \<Rightarrow> u64 \<Rightarrow> bool" where
  "table_placed P S \<longleftrightarrow> unat P + size_of procs_table < 2 ^ 64 \<and> unat S + size_of context_struct < 2 ^ 64 \<and>
     (unat P + size_of procs_table \<le> unat S \<or> unat S + size_of context_struct \<le> unat P)"

definition contexts_in :: "memory \<Rightarrow> u64 \<Rightarrow> u64 \<Rightarrow> 'a kernel_scheme \<Rightarrow> bool" where
  "contexts_in m P S s \<longleftrightarrow> length (procs s) = NPROC \<and> context_at m S = sched_context s \<and>
     (\<forall>i<NPROC. context_at m (ctx_addr P S (Proc_ctx i)) = saved (proc_at s i))"

section \<open>What the instructions do\<close>

lemma context_at_words:
  "context_at m a = \<lparr>reg_ra = ctx_word m a 0, reg_sp = ctx_word m a 1, reg_s0 = ctx_word m a 2,
     reg_s1 = ctx_word m a 3, reg_s2 = ctx_word m a 4, reg_s3 = ctx_word m a 5, reg_s4 = ctx_word m a 6,
     reg_s5 = ctx_word m a 7, reg_s6 = ctx_word m a 8, reg_s7 = ctx_word m a 9, reg_s8 = ctx_word m a 10,
     reg_s9 = ctx_word m a 11, reg_s10 = ctx_word m a 12, reg_s11 = ctx_word m a 13\<rparr>"
  by (simp add: context_at_def ctx_field_def ctx_word_def layout_simps)

lemma context_at_cong:
  assumes "\<And>x. in_rng a 112 x \<Longrightarrow> m x = m' x"
  shows "context_at m a = context_at m' a"
proof -
  have "ctx_word m a k = ctx_word m' a k" if "k < 14" for k
    using assms that by (intro ctx_word_cong [where n = 14]) simp_all
  then show ?thesis by (simp add: context_at_words)
qed

lemma context_at_save: "context_at (swtch_save h m) (gpr h 10) = context_regs (gpr h)"
proof -
  let ?kvs = "map (\<lambda>(k, x). (k, gpr h x)) swtch_slots"
  have "ctx_word (swtch_save h m) (gpr h 10) k = (case map_of ?kvs k of Some v \<Rightarrow> v | None \<Rightarrow> ctx_word m (gpr h 10) k)"
    if "k < 14" for k
    unfolding swtch_save_def using that by (intro ctx_word_st_words) (auto simp: swtch_slots_def)
  then show ?thesis by (simp add: context_at_words context_regs_def swtch_slots_def)
qed

lemma swtch_save_outside: "\<not> in_rng (gpr h 10) 112 x \<Longrightarrow> swtch_save h m x = m x"
  unfolding swtch_save_def by (rule st_words_outside [where n = 14]) (auto simp: swtch_slots_def)

lemma swtch_load_effect:
  shows "context_regs (gpr (swtch_load m h)) = context_at m (gpr h 11)"
    and "x \<notin> snd ` set swtch_slots \<Longrightarrow> gpr (swtch_load m h) x = gpr h x"
  by (simp_all add: swtch_load_def swtch_slots_def context_regs_def context_at_words)

section \<open>The contexts of the table are apart\<close>

lemma table_size: "size_of procs_table = 2432"
  by (simp add: procs_table_def sizes NPROC_def)

lemma proc_context_member:
  "i < NPROC \<Longrightarrow> member procs_table P [Idx i, Fld ''context''] = Some (ctx_addr P S (Proc_ctx i), context_struct)"
  by (simp add: procs_table_def member_def process_struct_def Let_def)

lemma ctx_addr_disjoint:
  assumes "table_placed P S" "ctx_valid c" "ctx_valid d" "c \<noteq> d"
  shows "rng_disj (ctx_addr P S c) 112 (ctx_addr P S d) 112"
proof -
  have pl: "unat P + size_of procs_table < 2 ^ 64" using assms(1) by (simp add: table_placed_def)
  have sched: "rng_disj S 112 (ctx_addr P S (Proc_ctx i)) 112" if "i < NPROC" for i
    using member_inside [OF proc_context_member [OF that, of P S] pl] assms(1)
    by (intro rng_disjI) (auto simp: table_placed_def sizes)
  have procs: "rng_disj (ctx_addr P S (Proc_ctx i)) 112 (ctx_addr P S (Proc_ctx j)) 112"
    if "i < NPROC" "j < NPROC" "i \<noteq> j" for i j
    using member_apart [OF proc_context_member [OF that(1), of P S] proc_context_member [OF that(2), of P S] _ pl] that(3)
    by (simp add: sizes del: ctx_addr.simps)
  show ?thesis
  proof (cases c; cases d)
    fix i assume "c = Sched_ctx" "d = Proc_ctx i"
    then show ?thesis using sched assms by (simp del: ctx_addr.simps(2))
  next
    fix i assume "c = Proc_ctx i" "d = Sched_ctx"
    then show ?thesis using rng_disj_sym [OF sched] assms by (simp del: ctx_addr.simps(2))
  next
    fix i j assume "c = Proc_ctx i" "d = Proc_ctx j"
    then show ?thesis using procs assms by (simp del: ctx_addr.simps)
  qed (use assms in simp)
qed

text \<open>Both kinds of context in one statement.\<close>

lemma contexts_in_iff:
  "contexts_in m P S s \<longleftrightarrow>
     length (procs s) = NPROC \<and> (\<forall>c. ctx_valid c \<longrightarrow> context_at m (ctx_addr P S c) = ctx_load c s)"
proof -
  have "(\<forall>c. ctx_valid c \<longrightarrow> Q c) \<longleftrightarrow> Q Sched_ctx \<and> (\<forall>i<NPROC. Q (Proc_ctx i))" for Q
    by (metis ctx_ref.exhaust ctx_valid.simps)
  then show ?thesis by (simp add: contexts_in_def ctx_load_def)
qed

lemma ctx_load_store:
  "length (procs s) = NPROC \<Longrightarrow> ctx_valid old \<Longrightarrow> ctx_valid c \<Longrightarrow>
     ctx_load c (ctx_store old x s) = (if c = old then x else ctx_load c s)"
  by (cases old; cases c) (auto simp: ctx_load_def ctx_store_def proc_at_def set_proc_def)

lemma length_ctx_store [simp]: "length (procs (ctx_store c x s)) = length (procs s)"
  by (cases c) (simp_all add: ctx_store_def set_proc_def)

lemma ctx_load_cpu [simp]: "ctx_load c (s\<lparr>cpu := x\<rparr>) = ctx_load c s"
  by (cases c) (simp_all add: ctx_load_def proc_at_def)

section \<open>The instructions implement the context switch\<close>

lemma save_contexts:
  assumes "table_placed P S" "contexts_in m P S s" "ctx_valid old"
    and "gpr h 10 = ctx_addr P S old" "context_regs (gpr h) = cpu s"
  shows "contexts_in (swtch_save h m) P S (ctx_store old (cpu s) s)"
proof -
  have "context_at (swtch_save h m) (ctx_addr P S c) = ctx_load c (ctx_store old (cpu s) s)" if c: "ctx_valid c" for c
  proof (cases "c = old")
    case True
    with context_at_save [of h m] assms c show ?thesis by (simp add: ctx_load_store contexts_in_def)
  next
    case False
    have "context_at (swtch_save h m) (ctx_addr P S c) = context_at m (ctx_addr P S c)"
      using ctx_addr_disjoint [OF assms(1) c assms(3) False]
      by (intro context_at_cong swtch_save_outside) (auto simp: assms(4) dest: rng_disjD)
    with assms c False show ?thesis by (simp add: ctx_load_store contexts_in_iff)
  qed
  with assms(2) show ?thesis by (simp add: contexts_in_iff)
qed

text \<open>
  C18. The instructions of \<^verbatim>\<open>swtch\<close> implement the context switch of the scheduler's model. With the process
  table and the scheduler's context laid out in memory as the C structures are, and not overlapping, a call
  whose arguments point to the contexts \<open>old\<close> and \<open>new\<close> leaves the memory holding exactly the contexts of
  \<open>swtch old new s\<close>, the callee-saved registers, stack pointer and return address those of its processor context, and
  returns to that return address. No byte outside the old context and no other register changes.
\<close>

theorem swtch_code_implements:
  assumes "table_placed P S" "contexts_in m P S s" "context_regs (gpr h) = cpu s"
    and "ctx_valid old" "gpr h 10 = ctx_addr P S old"
    and "ctx_valid new" "gpr h 11 = ctx_addr P S new"
    and "swtch_code (h, m) = (h', m')"
  shows "contexts_in m' P S (swtch old new s) \<and>
    context_regs (gpr h') = cpu (swtch old new s) \<and>
    pc h' = reg_ra (cpu (swtch old new s)) AND NOT 1 \<and>
    (\<forall>x. x \<notin> {1, 2, 8, 9} \<union> {18..27} \<longrightarrow> gpr h' x = gpr h x) \<and>
    (\<forall>x. \<not> in_rng (ctx_addr P S old) (size_of context_struct) x \<longrightarrow> m' x = m x)"
proof -
  let ?s = "ctx_store old (cpu s) s"
  have m': "m' = swtch_save h m" and h': "h' = (swtch_load m' h)\<lparr>pc := gpr (swtch_load m' h) 1 AND NOT 1\<rparr>"
    using assms(8) by (auto simp: swtch_code_def Let_def)
  have sv: "contexts_in m' P S ?s" unfolding m' by (rule save_contexts [OF assms(1,2,4,5,3)])
  have sw: "swtch old new s = ?s\<lparr>cpu := ctx_load new ?s\<rparr>" by (simp add: swtch_def Let_def)
  have mem: "contexts_in m' P S (swtch old new s)" using sv unfolding sw contexts_in_iff by simp
  have regs: "context_regs (gpr h') = cpu (swtch old new s)"
    using sv assms(6,7) by (simp add: h' swtch_load_effect(1) sw contexts_in_iff)
  from arg_cong [OF regs, of reg_ra] have ra: "pc h' = reg_ra (cpu (swtch old new s)) AND NOT 1"
    by (simp add: h' context_regs_def)
  have "snd ` set swtch_slots = {1, 2, 8, 9} \<union> {18..27}"
    by (auto simp: swtch_slots_def) arith
  then have "gpr h' x = gpr h x" if "x \<notin> {1, 2, 8, 9} \<union> {18..27}" for x
    using that swtch_load_effect(2) [of x m' h] by (simp add: h')
  moreover have "m' x = m x" if "\<not> in_rng (ctx_addr P S old) (size_of context_struct) x" for x
    using that swtch_save_outside [of h x m] by (simp add: m' assms(5) sizes)
  ultimately show ?thesis using mem regs ra by blast
qed

text \<open>A switch from the scheduler to the process in slot 2, which was saved before.\<close>

definition demo_hart :: "u64 \<Rightarrow> u64 \<Rightarrow> u64 \<Rightarrow> hart" where
  "demo_hart ra a0 a1 = \<lparr>gpr = (\<lambda>_. 0)(1 := ra, 10 := a0, 11 := a1), pc = 0, sepc = 0, scause = 0, stval = 0\<rparr>"

definition demo_saved :: memory where
  "demo_saved = swtch_save (demo_hart 0x100 (ctx_addr 0x80010000 0x80020000 (Proc_ctx 2)) 0) (\<lambda>_. 0)"

definition demo_switch :: kernel where
  "demo_switch = ctx_store (Proc_ctx 2) (zero_context\<lparr>reg_ra := 0x100\<rparr>) demo_kernel\<lparr>cpu := zero_context\<lparr>reg_ra := 0x200\<rparr>\<rparr>"

lemma demo_placed: "table_placed 0x80010000 0x80020000"
  by (simp add: table_placed_def table_size sizes)

lemma ld64_zero: "ld64 (\<lambda>_. 0) a = 0"
proof -
  have "ld_le n (\<lambda>_. 0) a = 0" for n by (induction n arbitrary: a) simp_all
  then show ?thesis by (simp add: ld64_def)
qed

lemma zero_contexts: "contexts_in (\<lambda>_. 0) P S (demo_kernel\<lparr>cpu := c\<rparr>)"
  by (auto simp: contexts_in_def context_at_words ctx_word_def ld64_zero demo_kernel_defs idle_proc_def
      zero_context_def proc_at_def NPROC_def)

lemma demo_contexts: "contexts_in demo_saved 0x80010000 0x80020000 demo_switch"
proof -
  let ?s = "demo_kernel\<lparr>cpu := zero_context\<lparr>reg_ra := 0x100\<rparr>\<rparr>"
  have "contexts_in demo_saved 0x80010000 0x80020000 (ctx_store (Proc_ctx 2) (cpu ?s) ?s)"
    unfolding demo_saved_def
    by (rule save_contexts [OF demo_placed zero_contexts])
      (simp_all add: demo_hart_def context_regs_def zero_context_def NPROC_def del: ctx_addr.simps)
  then show ?thesis
    by (simp add: contexts_in_def demo_switch_def ctx_store_def set_proc_def proc_at_def del: ctx_addr.simps)
qed

theorem swtch_code_implements_witness:
  "\<exists>h' m'. swtch_code (demo_hart 0x200 0x80020000 (ctx_addr 0x80010000 0x80020000 (Proc_ctx 2)), demo_saved) = (h', m') \<and>
     contexts_in m' 0x80010000 0x80020000 (swtch Sched_ctx (Proc_ctx 2) demo_switch) \<and> pc h' = 0x100"
proof -
  let ?h = "demo_hart 0x200 0x80020000 (ctx_addr 0x80010000 0x80020000 (Proc_ctx 2))"
  obtain h' m' where e: "swtch_code (?h, demo_saved) = (h', m')" by force
  have "reg_ra (cpu (swtch Sched_ctx (Proc_ctx 2) demo_switch)) = 0x100"
    by (simp add: demo_switch_def swtch_def ctx_load_def ctx_store_def set_proc_def proc_at_def demo_kernel_defs
        idle_proc_def zero_context_def Let_def)
  with swtch_code_implements [OF demo_placed demo_contexts, of ?h Sched_ctx "Proc_ctx 2" h' m', OF _ _ _ _ _ e]
  show ?thesis unfolding e
    by (simp add: demo_hart_def context_regs_def demo_switch_def ctx_store_def set_proc_def zero_context_def NPROC_def
        del: ctx_addr.simps(2))
qed

end
