(* ===== verification/Spec2Isabelle.thy ===== *)
theory Spec2Isabelle
  imports Utils Uart Mem_Ops Page_Alloc Paging Dtb Process Trap Net_Packet Virtq Virtio_Net
    Virtq_Init Virtio_Send Virtio_Recv Virtio_Tx Virtio_Dev Virtio_Handshake Virtio_Bringup Virtio_Kept
    Virtio_Used Virtio_Own Boot Net_Boot Preempt Start Struct_Layout Switch
begin

text \<open>
  A verification library for the RISC-V bare-metal network stack: a single-hart RV64 kernel with a
  UART console, a page allocator and Sv39 page tables, a device-tree reader, a round-robin scheduler
  with timer preemption, trap handling in two privilege modes, and a VirtIO-MMIO network driver.

  \<^bold>\<open>How the program fits together.\<close> The reset code (\<^verbatim>\<open>src/src/asm/Start.S\<close>) clears
  \<^verbatim>\<open>.bss\<close>, has \<open>relocate_kernel\<close> set up the heap and a first address space, programs machine mode and enters
  \<^verbatim>\<open>main\<close> (\<^verbatim>\<open>src/src/kernel/main.c\<close>) in supervisor mode. \<open>main\<close> builds the address space (\<open>mem_init\<close>, which takes page tables from the page
  allocator), programs console, trap vector and timer, reads the device tree, scans the VirtIO slots
  (a network device is initialised and polled once), creates two processes and runs the scheduler
  until all have finished. Timer interrupts go machine mode, supervisor mode, \<open>yield\<close>. Everything
  reports on the console.

  \<^bold>\<open>State.\<close> One record grows along the imports: \<open>machine\<close> (theory \<open>Machine\<close>: byte memory, control
  registers, clock, UART), \<open>alloc\<close> (\<open>Page_Alloc\<close>: the allocator's two variables), \<open>kernel\<close> (\<open>Process\<close>:
  process table, current process, scheduler context, callee-saved registers), \<open>net\<close> (\<open>Virtq\<close>: the two
  queues and the device). Operations are polymorphic in the extension, so that each runs in every
  later state. What the hardware decides is input in the state: \<open>uart_in\<close> (line status and received
  bytes), \<open>time_in\<close> (clock), \<open>mmio_in\<close> (device register reads), \<open>dma_in\<close> (what the device has written to
  memory when a barrier is passed). Output is logged: \<open>uart_wr\<close>, \<open>mmio_wr\<close>.

  \<^bold>\<open>Loops, errors, widths.\<close> C integers are words of their width; the signed accumulator of \<open>h2i\<close> is a word that wraps, and the counter
  of \<open>string_len\<close> a natural number, which agree with the code as long as they do not overflow an \<^verbatim>\<open>int\<close>. A loop with a bound is a total
  function with its termination proof; a loop that may run for ever (waiting for the transmitter or
  the device, string scans, a cyclic free list) is a \<^theory_text>\<open>partial_function (option)\<close>, so that \<open>None\<close> means that it
  does not return, and returning is proved where claimed. There is no fuel. Error results are the
  code's own values (-1, NULL); where the code would go on with an invalid pointer the result is a
  sum with a named fault (\<open>map_fault\<close>, \<open>stop\<close>).

  \<^bold>\<open>Theories.\<close>

  \<^item> \<open>Kernel_Prelude\<close>, \<open>Machine\<close>: memory as bytes with little-endian loads and stores, address ranges,
    generic lemmas, the locale of step systems with an invariant; the machine record.
  \<^item> \<open>Utils\<close>: all of \<^verbatim>\<open>src/src/kernel/utils.c\<close>. \<open>Uart\<close>: all of \<^verbatim>\<open>uart.c\<close>, over the locale of a
    console, in which \<open>says\<close> composes what programs print. \<open>Mem_Ops\<close>: \<open>memset\<close>, \<open>mem_copy\<close>, \<open>mem_compare\<close>
    of \<^verbatim>\<open>mem.c\<close>.
  \<^item> \<open>Page_Alloc\<close>: the allocator of \<^verbatim>\<open>mem.c\<close> with its links in the free pages; it implements an
    abstract first-fit allocator over the list of free pages, exported as the locale of pages.
  \<^item> \<open>Paging\<close>: \<open>map_page\<close>, \<open>va2pa\<close>, \<open>relocate_kernel\<close>, \<open>mem_init\<close> against the translation \<open>sv39\<close> the
    hardware makes.
  \<^item> \<open>Dtb\<close>: \<^verbatim>\<open>dtb.c\<close> against the encoding of a token sequence.
  \<^item> \<open>Process\<close>: \<^verbatim>\<open>process.c\<close> and \<^verbatim>\<open>src/src/asm/process.S\<close>; the scheduler is the step relation
    \<open>kstep\<close>, process code an arbitrary step that leaves the table alone.
  \<^item> \<open>Trap\<close>: \<^verbatim>\<open>trap.c\<close>, \<^verbatim>\<open>trap.h\<close>, \<^verbatim>\<open>timer.h\<close>, \<^verbatim>\<open>trap.S\<close>, \<^verbatim>\<open>mtrap.S\<close>: the two vectors over the
    register file (\<open>trap_save\<close>, \<open>trap_restore\<close>, \<open>mtrap_vector\<close>), the handlers with their output, the timer
    protocol as the step relation \<open>tstep\<close>.
  \<^item> \<open>Net_Packet\<close>: header layouts, builders and printers of \<^verbatim>\<open>src/src/driver/virt_mmio.c\<close>.
  \<^item> \<open>Virtq\<close>: the driver's queues, the ring layout, register accesses, barriers and
    \<open>virt_mmio_net_virtq_init\<close>; \<open>Virtio_Net\<close>: \<open>virt_mmio_net_send\<close>, \<open>virt_mmio_net_poll_rx\<close>, \<open>virt_mmio_net_tx\<close>,
    and the available ring as a log of what was published (locale \<open>published_log\<close>); \<open>Virtio_Dev\<close>: slot
    scan, device report, MAC address and handshake. The proofs are in \<open>Virtq_Init\<close>, \<open>Virtio_Send\<close>,
    \<open>Virtio_Recv\<close>, \<open>Virtio_Tx\<close> and \<open>Virtio_Handshake\<close>; \<open>Virtio_Bringup\<close> composes them for \<open>start_net\<close>, the
    initialisation of a network device up to its receive poll. \<open>Virtio_Kept\<close> states what a call on one queue
    leaves alone (the locale \<open>area_kept\<close>, over those of \<open>Virtio_Bringup\<close>). \<open>Virtio_Used\<close> reads the used ring in memory as
    the history of what the device has returned, with the contract \<open>obeys\<close> of the device and the driver's own books
    (last index seen, \<^verbatim>\<open>in_use\<close> flags) against that history. \<open>Virtio_Own\<close> takes all calls of the driver together, as the step relation
    \<open>driver_step\<close> labelled with the descriptors that change hands: what was added to the two rings in memory, not what
    the driver believes was.
  \<^item> \<open>Preempt\<close>: no code of its own; a timer interrupt in a process through trap frame, \<open>yield\<close>, scheduler and
    back, and one between the scheduler's marking of a process and the switch to it, composing \<open>Trap\<close> and \<open>Process\<close>.
  \<^item> \<open>Struct_Layout\<close>: the C structures as data, with sizes, alignments and member offsets as the RISC-V ABI lays
    them out; the offsets written as numbers in the other theories are those of the members, and what the descriptor loop of the queue initialisation writes is read back
    through the structures. \<open>Switch\<close>: the instructions of
    \<^verbatim>\<open>process.S\<close> on registers and bytes, which implement the \<open>swtch\<close> of \<open>Process\<close> on that layout.
  \<^item> \<open>Start\<close>: \<^verbatim>\<open>Start.S\<close> from reset to the call of \<open>main\<close>, over the machine-mode registers \<open>start_hart\<close> and the
    linker's symbols \<open>layout\<close>, with delegation and memory protection specified.
  \<^item> \<open>Boot\<close>: the tasks and \<open>main\<close>; \<open>main_boot\<close> is \<open>main\<close> up to the scheduler, \<open>kmain\<close> relates the state
    of the call to that of the return.
  \<^item> \<open>Net_Boot\<close>: no code of its own; \<open>main\<close> on a machine with a network card, composing the scan, the
    bring-up and the receive poll with the rest of \<open>main\<close> over the locales of \<open>Virtio_Bringup\<close>.

  \<^bold>\<open>What is shown.\<close> Allocator: refinement of first fit, disjointness and size of blocks, exact failure
  condition, initialisation, freeing, what a double free does. Address space: translation after
  \<open>map_page\<close>, agreement of \<open>va2pa\<close> with the hardware walk, the exact kernel space after boot, and that building
  it writes only pages taken from the allocator. Console: printed numbers are read back. Device tree: the exact calls of a traversal. Scheduler:
  no wild switch, one running process, round robin, contexts survive \<open>yield\<close>, zombies stay zombies,
  and the assembly of the context switch does to memory and registers what the scheduler's model does to its records.
  Layouts: members of the rings are typed, aligned, inside their block and apart. Traps: registers survive a trap, dispatch and output of each cause, the timer interrupt is never
  lost, interrupts are invisible to the code they hit while no process is current, and a preempted
  process goes on with all its registers. Driver: the queues
  after initialisation, publication and recycling of descriptors, when polling and transmission
  return, the handshake as a prefix of a fixed script of register writes, the bring-up of a device, and for
  every sequence of calls that the two queues do not disturb each other or the heap and that no descriptor is
  offered while the device holds it, by the rings in memory and for every device that returns only what it was offered. Boot:
  from reset, the kernel reaches the scheduler with all of that set up and the device tree intact, traps are
  routed as the two vectors expect, with a network card that comes up \<open>main\<close> gets there exactly if a frame is received, and \<open>main\<close> returns only when the processes are done, with or without a card. Where the code
  does not do what it means to, the theorem states what it does: tables at address zero without
  memory, an interrupt in the unprotected window of the scheduler, names read outside the table of exceptions,
  waiting for a transmission that was refused.

  \<^bold>\<open>Hypotheses on the environment.\<close> \<open>uart_live\<close>: the transmitter becomes idle again and again. \<open>tx_respected\<close>,
  \<open>rx_respected\<close>: at barriers the device does not write the driver's side of a ring, as the VirtIO
  standard asks; \<open>dma_idle\<close>: before the handshake it writes nothing; \<open>dma_away\<close>: it writes no free page's
  link; \<open>obeys\<close>: it returns at a barrier only descriptors it was offered and has not returned yet. \<open>no_net_device\<close>: no slot reports
  a network card; \<open>card_at\<close>: exactly one does; \<open>card_ready\<close>: such a card, with the hypotheses on the device above. \<open>layout_ok\<close>: the order of \<^verbatim>\<open>.data\<close>, \<^verbatim>\<open>.bss\<close> and heap in \<^verbatim>\<open>src/src/kernel/linker.ld\<close>.
  In \<open>Preempt\<close>, no other process writes the trap frame. The calling convention gives the stack pointer back after a handler. Each
  property with a hypothesis is applied at a concrete state.

  \<^bold>\<open>Not modelled.\<close> The linker script and the build files hold no code; their symbols are parameters
  (\<open>image\<close>, \<open>layout\<close>, \<open>code\<close>). Constants of the headers that no code uses (feature bits, further flags and
  registers) are left out. Address translation is specified but memory accesses of the model are physical;
  access and dirty bits and the translation cache are left out. Control registers hold the value written:
  fields an implementation may keep at zero are not narrowed. Interrupts that hit \<open>main\<close> or the driver
  between two statements are covered by \<open>interrupt_transparent\<close> in \<open>Trap\<close>, those that hit a process by
  \<open>Preempt\<close>, not by interleaving them in each definition. With more than one network card in the slots nothing is
  claimed of the boot.
\<close>

end
